(* ===== verification/Prelude.thy ===== *)
theory Prelude
  imports Main "HOL-Library.List_Lexorder" "HOL-Library.Char_ord" "HOL-Library.Word"
begin

text \<open>
  Shared vocabulary of the development: bounded C++ integers written over \<open>int\<close>, the string
  operations of Qt and JavaScript that several components call (substring test, ASCII case
  mapping, trimming), ordered maps as Qt's \<open>QMap\<close> keeps them, and the generic lemmas on them.
  Nothing here is translated from the repository: it is the part of the standard libraries that
  the source relies on.
\<close>

named_theorems qmap_simps "evaluation and algebra of the ordered map operations"
named_theorems str_simps "evaluation of the string operations"

section \<open>C++ integers\<close>

text \<open>A C++ \<open>int\<close> is kept as an \<open>int\<close> together with its range; nothing below wraps silently.\<close>

definition int32_min :: int where
  "int32_min = - 2147483648"

definition int32_max :: int where
  "int32_max = 2147483647"

definition is_int32 :: "int \<Rightarrow> bool" where
  "is_int32 x \<longleftrightarrow> int32_min \<le> x \<and> x \<le> int32_max"

text \<open>Qt's \<open>qBound(lo, x, hi)\<close> is \<open>qMax(lo, qMin(x, hi))\<close>.\<close>

definition qBound :: "int \<Rightarrow> int \<Rightarrow> int \<Rightarrow> int" where
  "qBound lo x hi = max lo (min x hi)"

lemma qBound_range: "lo \<le> hi \<Longrightarrow> lo \<le> qBound lo x hi \<and> qBound lo x hi \<le> hi"
  by (simp add: qBound_def)

lemma qBound_id [simp]: "lo \<le> x \<Longrightarrow> x \<le> hi \<Longrightarrow> qBound lo x hi = x"
  by (simp add: qBound_def)

text \<open>C++ division and remainder truncate towards zero.\<close>

definition c_div :: "int \<Rightarrow> int \<Rightarrow> int" where
  "c_div a b = sgn a * sgn b * (\<bar>a\<bar> div \<bar>b\<bar>)"

definition c_mod :: "int \<Rightarrow> int \<Rightarrow> int" where
  "c_mod a b = a - b * c_div a b"

lemma c_div_nonneg [simp]: "0 \<le> a \<Longrightarrow> 0 < b \<Longrightarrow> c_div a b = a div b"
  by (cases "a = 0") (simp_all add: c_div_def sgn_if)

lemma c_mod_nonneg [simp]: "0 \<le> a \<Longrightarrow> 0 < b \<Longrightarrow> c_mod a b = a mod b"
  by (simp add: c_mod_def minus_mult_div_eq_mod)

section \<open>Strings\<close>

text \<open>
  Strings are lists of characters; case mapping is the ASCII one, which is what the compared
  literals of the source are made of.
\<close>

fun starts_with :: "'a list \<Rightarrow> 'a list \<Rightarrow> bool" where
  "starts_with [] s = True"
| "starts_with (p # ps) [] = False"
| "starts_with (p # ps) (x # xs) = (p = x \<and> starts_with ps xs)"

fun contains_sub :: "'a list \<Rightarrow> 'a list \<Rightarrow> bool" where
  "contains_sub sub [] = (sub = [])"
| "contains_sub sub (x # xs) = (starts_with sub (x # xs) \<or> contains_sub sub xs)"

definition char_between :: "char \<Rightarrow> char \<Rightarrow> char \<Rightarrow> bool" where
  "char_between lo hi c \<longleftrightarrow>
     (of_char lo :: nat) \<le> of_char c \<and> (of_char c :: nat) \<le> of_char hi"

definition is_digit :: "char \<Rightarrow> bool" where
  "is_digit = char_between CHR ''0'' CHR ''9''"

definition digit_value :: "char \<Rightarrow> nat" where
  "digit_value c = of_char c - 48"

definition to_lower_char :: "char \<Rightarrow> char" where
  "to_lower_char c = (if char_between CHR ''A'' CHR ''Z'' c then char_of (of_char c + 32 :: nat) else c)"

definition to_upper_char :: "char \<Rightarrow> char" where
  "to_upper_char c = (if char_between CHR ''a'' CHR ''z'' c then char_of (of_char c - 32 :: nat) else c)"

definition to_lower :: "string \<Rightarrow> string" where
  "to_lower = map to_lower_char"

definition to_upper :: "string \<Rightarrow> string" where
  "to_upper = map to_upper_char"

definition is_space :: "char \<Rightarrow> bool" where
  "is_space c \<longleftrightarrow> c = CHR '' '' \<or> char_between (CHR 0x09) (CHR 0x0D) c"

definition trim :: "string \<Rightarrow> string" where
  "trim s = rev (dropWhile is_space (rev (dropWhile is_space s)))"

definition contains_ci :: "string \<Rightarrow> string \<Rightarrow> bool" where
  "contains_ci sub s = contains_sub (to_lower sub) (to_lower s)"

lemma starts_with_iff: "starts_with p s \<longleftrightarrow> (\<exists>r. s = p @ r)"
  by (induction p s rule: starts_with.induct) auto

lemma contains_sub_iff: "contains_sub sub s \<longleftrightarrow> (\<exists>l r. s = l @ sub @ r)"
proof (induction s)
  case Nil
  then show ?case by auto
next
  case (Cons x xs)
  have "(\<exists>l r. x # xs = l @ sub @ r) \<longleftrightarrow> (\<exists>r. x # xs = sub @ r) \<or> (\<exists>l r. xs = l @ sub @ r)"
    by (metis append_Cons append_Nil neq_Nil_conv list.inject)
  with Cons show ?case by (simp add: starts_with_iff)
qed

lemma contains_sub_refl [simp]: "contains_sub s s"
  unfolding contains_sub_iff by (metis append_Nil append_Nil2)

lemma contains_sub_append [intro]: "contains_sub sub s \<Longrightarrow> contains_sub sub (l @ s @ r)"
  unfolding contains_sub_iff by (metis append_assoc)

lemmas [str_simps] = contains_ci_def to_lower_def to_upper_def to_lower_char_def to_upper_char_def
  char_between_def is_digit_def digit_value_def is_space_def trim_def

section \<open>Ordered maps\<close>

text \<open>
  \<open>QMap\<close> iterates in ascending key order. It is a list of bindings with strictly ascending keys;
  insertion replaces the value of a key that is present.
\<close>

type_synonym ('k, 'v) qmap = "('k \<times> 'v) list"

fun qm_insert :: "'k::linorder \<Rightarrow> 'v \<Rightarrow> ('k, 'v) qmap \<Rightarrow> ('k, 'v) qmap" where
  "qm_insert k v [] = [(k, v)]"
| "qm_insert k v ((a, b) # m) =
     (if k < a then (k, v) # (a, b) # m
      else if k = a then (k, v) # m
      else (a, b) # qm_insert k v m)"

fun qm_remove :: "'k \<Rightarrow> ('k, 'v) qmap \<Rightarrow> ('k, 'v) qmap" where
  "qm_remove k [] = []"
| "qm_remove k ((a, b) # m) = (if a = k then m else (a, b) # qm_remove k m)"

definition qm_contains :: "('k, 'v) qmap \<Rightarrow> 'k \<Rightarrow> bool" where
  "qm_contains m k \<longleftrightarrow> map_of m k \<noteq> None"

definition qm_value :: "('k, 'v) qmap \<Rightarrow> 'k \<Rightarrow> 'v \<Rightarrow> 'v" where
  "qm_value m k d = (case map_of m k of None \<Rightarrow> d | Some v \<Rightarrow> v)"

definition qm_ok :: "('k::linorder, 'v) qmap \<Rightarrow> bool" where
  "qm_ok m \<longleftrightarrow> sorted_wrt (<) (map fst m)"

lemma qm_ok_Nil [simp]: "qm_ok []"
  by (simp add: qm_ok_def)

lemma qm_ok_Cons: "qm_ok ((a, b) # m) \<longleftrightarrow> (\<forall>k \<in> fst ` set m. a < k) \<and> qm_ok m"
  by (auto simp: qm_ok_def)

lemma fst_qm_insert: "fst ` set (qm_insert k v m) = insert k (fst ` set m)"
  by (induction k v m rule: qm_insert.induct) auto

lemma fst_qm_remove: "fst ` set (qm_remove k m) \<subseteq> fst ` set m"
  by (induction k m rule: qm_remove.induct) auto

lemma qm_ok_insert [simp, intro]: "qm_ok m \<Longrightarrow> qm_ok (qm_insert k v m)"
  by (induction k v m rule: qm_insert.induct) (auto simp: qm_ok_Cons fst_qm_insert)

lemma qm_ok_remove [simp, intro]: "qm_ok m \<Longrightarrow> qm_ok (qm_remove k m)"
  by (induction k m rule: qm_remove.induct) (use fst_qm_remove in \<open>fastforce simp: qm_ok_Cons\<close>)+

lemma map_of_qm_insert [simp]: "map_of (qm_insert k v m) = (map_of m)(k \<mapsto> v)"
  by (induction k v m rule: qm_insert.induct) (auto simp: fun_eq_iff)

lemma map_of_above: "\<forall>k \<in> fst ` set m. a < k \<Longrightarrow> map_of m (a::'k::linorder) = None"
  by (induction m) force+

lemma map_of_qm_remove [simp]: "qm_ok m \<Longrightarrow> map_of (qm_remove k m) = (map_of m)(k := None)"
proof (induction m)
  case (Cons p m)
  then show ?case
    by (cases p) (auto simp: qm_ok_Cons fun_eq_iff map_of_above)
qed simp

lemma qm_value_insert [simp]: "qm_value (qm_insert k v m) k' d = (if k' = k then v else qm_value m k' d)"
  by (simp add: qm_value_def)

lemma qm_value_remove [simp]:
  "qm_ok m \<Longrightarrow> qm_value (qm_remove k m) k' d = (if k' = k then d else qm_value m k' d)"
  by (simp add: qm_value_def)

lemma qm_contains_insert [simp]: "qm_contains (qm_insert k v m) k' \<longleftrightarrow> k' = k \<or> qm_contains m k'"
  by (auto simp: qm_contains_def)

lemma qm_contains_remove [simp]:
  "qm_ok m \<Longrightarrow> qm_contains (qm_remove k m) k' \<longleftrightarrow> k' \<noteq> k \<and> qm_contains m k'"
  by (auto simp: qm_contains_def)

lemma qm_contains_Nil [simp]: "\<not> qm_contains [] k"
  by (simp add: qm_contains_def)

lemma qm_value_Nil [simp]: "qm_value [] k d = d"
  by (simp add: qm_value_def)

lemma map_of_qm_mem: "qm_ok m \<Longrightarrow> (k, v) \<in> set m \<longleftrightarrow> map_of m k = Some v"
proof (induction m)
  case (Cons p m)
  then show ?case
    by (cases p) (auto simp: qm_ok_Cons map_of_above dest: map_of_SomeD split: if_splits)
qed simp

lemmas [qmap_simps] = qm_value_def qm_contains_def

subsection \<open>The interface a keyed store offers its clients\<close>

text \<open>
  What the components rely on when they keep state per key (per host, per counter, per arrow):
  lookups after an insertion and after a removal, and that every operation keeps the store
  well formed.
\<close>

locale keyed_store =
  fixes empty :: "'m"
    and insert :: "'k \<Rightarrow> 'v \<Rightarrow> 'm \<Rightarrow> 'm"
    and remove :: "'k \<Rightarrow> 'm \<Rightarrow> 'm"
    and lookup :: "'m \<Rightarrow> 'k \<Rightarrow> 'v option"
    and invar :: "'m \<Rightarrow> bool"
  assumes lookup_empty: "lookup empty k = None"
    and lookup_insert: "invar m \<Longrightarrow> lookup (insert k v m) = (lookup m)(k \<mapsto> v)"
    and lookup_remove: "invar m \<Longrightarrow> lookup (remove k m) = (lookup m)(k := None)"
    and invar_empty: "invar empty"
    and invar_insert: "invar m \<Longrightarrow> invar (insert k v m)"
    and invar_remove: "invar m \<Longrightarrow> invar (remove k m)"
begin

lemma lookup_put:
  "invar m \<Longrightarrow> lookup (if v = d then remove k m else insert k v m) k = (if v = d then None else Some v)"
  by (simp add: lookup_insert lookup_remove)

lemma lookup_put_other:
  "invar m \<Longrightarrow> k' \<noteq> k \<Longrightarrow> lookup (if b then remove k m else insert k v m) k' = lookup m k'"
  by (simp add: lookup_insert lookup_remove)

lemma invar_put: "invar m \<Longrightarrow> invar (if b then remove k m else insert k v m)"
  by (simp add: invar_insert invar_remove)

lemma dom_put_subset:
  "invar m \<Longrightarrow> dom (lookup (if b then remove k m else insert k v m)) \<subseteq> Set.insert k (dom (lookup m))"
  by (auto simp: lookup_insert lookup_remove split: if_splits)

end

interpretation qm: keyed_store "[] :: ('k::linorder, 'v) qmap" qm_insert qm_remove map_of qm_ok
  by unfold_locales simp_all

section \<open>Lists\<close>

lemma list_all_takeWhile: "\<forall>x \<in> set (takeWhile P xs). P x"
  by (auto dest: set_takeWhileD)

lemma sum_list_update_nat:
  "i < length xs \<Longrightarrow> sum_list (xs[i := v]) + xs ! i = sum_list xs + (v :: nat)"
proof (induction xs arbitrary: i)
  case (Cons x xs)
  then show ?case by (cases i) auto
qed simp

section \<open>Simulation\<close>

text \<open>
  A detailed implementation and the abstract object it stands for, both stepping on the same
  operations with an outcome each. The law of the interface is one step; what a caller can see of a
  whole run follows.
\<close>

fun run_ops :: "('op \<Rightarrow> 's \<Rightarrow> 'out \<times> 's) \<Rightarrow> 'op list \<Rightarrow> 's \<Rightarrow> 'out list \<times> 's" where
  "run_ops step [] s = ([], s)"
| "run_ops step (op # ops) s =
     (let (out, s) = step op s; (outs, s) = run_ops step ops s in (out # outs, s))"

text \<open>Every operation is allowed in the abstract state in which it is called.\<close>

fun ops_allowed :: "('op \<Rightarrow> 's \<Rightarrow> bool) \<Rightarrow> ('op \<Rightarrow> 's \<Rightarrow> 'out \<times> 's) \<Rightarrow> 'op list \<Rightarrow> 's \<Rightarrow> bool" where
  "ops_allowed allowed step [] s \<longleftrightarrow> True"
| "ops_allowed allowed step (op # ops) s \<longleftrightarrow> allowed op s \<and> ops_allowed allowed step ops (snd (step op s))"

lemma run_ops_Cons: "run_ops step (op # ops) s =
    (fst (step op s) # fst (run_ops step ops (snd (step op s))), snd (run_ops step ops (snd (step op s))))"
  by (simp add: case_prod_beta Let_def)

lemma run_ops_append: "run_ops step (xs @ ys) s =
    (fst (run_ops step xs s) @ fst (run_ops step ys (snd (run_ops step xs s))),
     snd (run_ops step ys (snd (run_ops step xs s))))"
  by (induction xs arbitrary: s) (simp_all add: case_prod_beta Let_def)

locale simulation =
  fixes rel :: "'c \<Rightarrow> 'a \<Rightarrow> bool"
    and cstep :: "'op \<Rightarrow> 'c \<Rightarrow> 'out \<times> 'c"
    and astep :: "'op \<Rightarrow> 'a \<Rightarrow> 'out \<times> 'a"
    and allowed :: "'op \<Rightarrow> 'a \<Rightarrow> bool"
  assumes sim: "rel c a \<Longrightarrow> allowed op a \<Longrightarrow>
    fst (cstep op c) = fst (astep op a) \<and> rel (snd (cstep op c)) (snd (astep op a))"
begin

lemma run:
  "rel c a \<Longrightarrow> ops_allowed allowed astep ops a \<Longrightarrow>
   fst (run_ops cstep ops c) = fst (run_ops astep ops a)
   \<and> rel (snd (run_ops cstep ops c)) (snd (run_ops astep ops a))"
proof (induction ops arbitrary: c a)
  case (Cons op ops)
  then show ?case using sim [of c a op] by (simp add: run_ops_Cons del: run_ops.simps)
qed simp

end

end
