(* ===== verification/GraphToggle.thy ===== *)
theory GraphToggle
  imports Prelude
begin

text \<open>
  The script \<open>doc/doxygen/js/graph_toggle.js\<close> of the generated documentation. For every member
  documentation block it looks for the call graph and the caller graph, hides both, and adds two
  buttons whose clicks drive a four-state machine (nothing, caller, call, both shown).

  The parts of the DOM the script reads are a record per block: the \<open>div.dynheader\<close> headers in
  document order, each with its text and the element siblings that follow it, and whether a
  \<open>.graph-toggle\<close> is already there. The parts it writes are the fields of \<open>toggle_view\<close>.
\<close>

section \<open>The block and the search for its graphs\<close>

record dom_element =
  elem_id :: nat
  class_list :: "string list"

record dyn_header =
  text_content :: string
  next_siblings :: "dom_element list"

record memdoc =
  dyn_headers :: "dyn_header list"
  has_graph_toggle :: bool

text \<open>
  The \<open>while\<close> loop over \<open>nextElementSibling\<close>: it stops at a \<open>dyncontent\<close> element, at the end
  of the siblings, or after eight steps, wherever it then stands.
\<close>

fun find_content :: "nat \<Rightarrow> dom_element list \<Rightarrow> dom_element option" where
  "find_content tries [] = None"
| "find_content tries (content # rest) =
     (if ''dyncontent'' \<notin> set (class_list content) \<and> tries < 8
      then find_content (Suc tries) rest
      else Some content)"

record graph_parts =
  call_content :: "dom_element option"
  call_header :: "dyn_header option"
  caller_content :: "dom_element option"
  caller_header :: "dyn_header option"

definition no_parts :: graph_parts where
  "no_parts = \<lparr>call_content = None, call_header = None, caller_content = None, caller_header = None\<rparr>"

definition classify_header :: "graph_parts \<Rightarrow> dyn_header \<Rightarrow> graph_parts" where
  "classify_header st header =
     (let text = to_lower (trim (text_content header)) in
      case find_content 0 (next_siblings header) of
        None \<Rightarrow> st
      | Some content \<Rightarrow>
          if contains_sub ''caller'' text then
            st\<lparr>caller_content := Some content, caller_header := Some header\<rparr>
          else if contains_sub ''call graph'' text \<or> contains_sub ''callgraph'' text \<or>
                  contains_sub ''call graph for'' text then
            st\<lparr>call_content := Some content, call_header := Some header\<rparr>
          else if contains_sub ''call'' text then
            (if call_content st = None
             then st\<lparr>call_content := Some content, call_header := Some header\<rparr> else st)
          else st)"

definition collect_graphs :: "memdoc \<Rightarrow> graph_parts" where
  "collect_graphs m = foldl classify_header no_parts (dyn_headers m)"

section \<open>The buttons and the state machine\<close>

datatype display = DisplayNone | DisplayBlock

datatype current = Hidden | CallerShown | CallShown | BothShown

datatype graph_kind = Caller | Call

record toggle_view =
  current :: current
  caller_display :: "display option"
  call_display :: "display option"
  caller_disabled :: bool
  call_disabled :: bool
  caller_active :: bool
  call_active :: bool

text \<open>
  Content and header of a graph always get the same display, so one field holds both; it is
  \<open>None\<close> where the block has no such graph, and then the guarded assignments do nothing.
\<close>

definition set_display :: "display \<Rightarrow> display option \<Rightarrow> display option" where
  "set_display d = map_option (\<lambda>_. d)"

definition install :: "memdoc \<Rightarrow> toggle_view option" where
  "install m =
     (let g = collect_graphs m in
      if call_content g = None \<and> caller_content g = None then None
      else if has_graph_toggle m then None
      else Some \<lparr>current = Hidden,
                 caller_display = map_option (\<lambda>_. DisplayNone) (caller_content g),
                 call_display = map_option (\<lambda>_. DisplayNone) (call_content g),
                 caller_disabled = (caller_content g = None),
                 call_disabled = (call_content g = None),
                 caller_active = False,
                 call_active = False\<rparr>)"

definition update_buttons :: "toggle_view \<Rightarrow> toggle_view" where
  "update_buttons v =
     v\<lparr>caller_active := (current v = CallerShown \<or> current v = BothShown),
       call_active := (current v = CallShown \<or> current v = BothShown)\<rparr>"

definition set_active :: "graph_kind \<Rightarrow> toggle_view \<Rightarrow> toggle_view" where
  "set_active type v = update_buttons
     (case type of
        Caller \<Rightarrow>
          (case current v of
             CallerShown \<Rightarrow>
               v\<lparr>caller_display := set_display DisplayNone (caller_display v), current := Hidden\<rparr>
           | CallShown \<Rightarrow>
               v\<lparr>caller_display := set_display DisplayBlock (caller_display v), current := BothShown\<rparr>
           | BothShown \<Rightarrow>
               v\<lparr>caller_display := set_display DisplayNone (caller_display v), current := CallShown\<rparr>
           | Hidden \<Rightarrow>
               v\<lparr>caller_display := set_display DisplayBlock (caller_display v),
                 call_display := set_display DisplayNone (call_display v),
                 current := CallerShown\<rparr>)
      | Call \<Rightarrow>
          (case current v of
             CallShown \<Rightarrow>
               v\<lparr>call_display := set_display DisplayNone (call_display v), current := Hidden\<rparr>
           | CallerShown \<Rightarrow>
               v\<lparr>call_display := set_display DisplayBlock (call_display v), current := BothShown\<rparr>
           | BothShown \<Rightarrow>
               v\<lparr>call_display := set_display DisplayNone (call_display v), current := CallerShown\<rparr>
           | Hidden \<Rightarrow>
               v\<lparr>call_display := set_display DisplayBlock (call_display v),
                 caller_display := set_display DisplayNone (caller_display v),
                 current := CallShown\<rparr>))"

fun click :: "graph_kind \<Rightarrow> toggle_view \<Rightarrow> toggle_view" where
  "click Caller v = (if \<not> caller_disabled v then set_active Caller v else v)"
| "click Call v = (if \<not> call_disabled v then set_active Call v else v)"

fun clicks :: "toggle_view \<Rightarrow> graph_kind list \<Rightarrow> toggle_view" where
  "clicks v [] = v"
| "clicks v (k # ks) = clicks (click k v) ks"

section \<open>The abstract toggle and the refinement\<close>

text \<open>Two independent switches: what the four-state machine is meant to be.\<close>

record switches =
  caller_on :: bool
  call_on :: bool

fun flip :: "graph_kind \<Rightarrow> switches \<Rightarrow> switches" where
  "flip Caller s = s\<lparr>caller_on := \<not> caller_on s\<rparr>"
| "flip Call s = s\<lparr>call_on := \<not> call_on s\<rparr>"

fun has_graph :: "toggle_view \<Rightarrow> graph_kind \<Rightarrow> bool" where
  "has_graph v Caller = (\<not> caller_disabled v)"
| "has_graph v Call = (\<not> call_disabled v)"

definition abs_view :: "toggle_view \<Rightarrow> switches" where
  "abs_view v = \<lparr>caller_on = (current v \<in> {CallerShown, BothShown}),
                 call_on = (current v \<in> {CallShown, BothShown})\<rparr>"

text \<open>What the reader sees agrees with the state variable, the button styles and the guards.\<close>

definition view_ok :: "toggle_view \<Rightarrow> bool" where
  "view_ok v \<longleftrightarrow>
     (caller_disabled v \<longleftrightarrow> caller_display v = None) \<and>
     (call_disabled v \<longleftrightarrow> call_display v = None) \<and>
     (caller_display v = Some DisplayBlock \<longleftrightarrow> current v \<in> {CallerShown, BothShown}) \<and>
     (call_display v = Some DisplayBlock \<longleftrightarrow> current v \<in> {CallShown, BothShown}) \<and>
     (caller_active v \<longleftrightarrow> current v \<in> {CallerShown, BothShown}) \<and>
     (call_active v \<longleftrightarrow> current v \<in> {CallShown, BothShown})"

lemma display_None_iff [simp]: "set_display d x = None \<longleftrightarrow> x = None"
  by (simp add: set_display_def)

lemma display_Some_iff [simp]: "set_display d x = Some e \<longleftrightarrow> x \<noteq> None \<and> e = d"
  by (auto simp: set_display_def)

lemma set_active_view_ok:
  assumes "view_ok v" and "has_graph v k"
  shows "view_ok (set_active k v)"
  using assms
  by (cases k; cases "current v")
     (auto simp: set_active_def update_buttons_def view_ok_def split: option.splits)

lemma click_view_ok: "view_ok v \<Longrightarrow> view_ok (click k v)"
  by (cases k) (auto intro: set_active_view_ok)

lemma clicks_view_ok: "view_ok v \<Longrightarrow> view_ok (clicks v ks)"
  by (induction ks arbitrary: v) (auto intro: click_view_ok)

lemma install_view_ok: "install m = Some v \<Longrightarrow> view_ok v"
  by (auto simp: install_def Let_def view_ok_def split: if_splits)

lemma has_graph_click [simp]: "has_graph (click k v) k' = has_graph v k'"
  by (cases k; cases k'; cases "current v")
     (auto simp: set_active_def update_buttons_def)

lemma click_refines_flip:
  "abs_view (click k v) = (if has_graph v k then flip k (abs_view v) else abs_view v)"
  by (cases k; cases "current v")
     (auto simp: set_active_def update_buttons_def abs_view_def)

lemma clicks_refine_flips:
  "abs_view (clicks v ks) = foldl (\<lambda>s k. if has_graph v k then flip k s else s) (abs_view v) ks"
proof (induction ks arbitrary: v)
  case (Cons k ks)
  show ?case by (simp add: Cons.IH click_refines_flip)
qed simp

lemma foldl_flips_caller:
  "caller_on (foldl (\<lambda>s k. if has_graph v k then flip k s else s) s ks) \<longleftrightarrow>
     (if has_graph v Caller then caller_on s \<noteq> odd (count_list ks Caller) else caller_on s)"
proof (induction ks arbitrary: s)
  case (Cons k ks)
  then show ?case by (cases k) auto
qed simp

lemma foldl_flips_call:
  "call_on (foldl (\<lambda>s k. if has_graph v k then flip k s else s) s ks) \<longleftrightarrow>
     (if has_graph v Call then call_on s \<noteq> odd (count_list ks Call) else call_on s)"
proof (induction ks arbitrary: s)
  case (Cons k ks)
  then show ?case by (cases k) auto
qed simp

lemma has_graph_clicks [simp]: "has_graph (clicks v ks) k = has_graph v k"
  by (induction ks arbitrary: v) auto

lemma install_Hidden: "install m = Some v \<Longrightarrow> abs_view v = \<lparr>caller_on = False, call_on = False\<rparr>"
  by (auto simp: install_def Let_def abs_view_def split: if_splits)

lemma view_ok_abs:
  "view_ok v \<Longrightarrow> (caller_display v = Some DisplayBlock \<longleftrightarrow> caller_on (abs_view v)) \<and>
     (call_display v = Some DisplayBlock \<longleftrightarrow> call_on (abs_view v)) \<and>
     (caller_active v \<longleftrightarrow> caller_on (abs_view v)) \<and> (call_active v \<longleftrightarrow> call_on (abs_view v))"
  by (simp add: view_ok_def abs_view_def)

text \<open>C1: After any sequence of clicks on an installed block, each graph is displayed exactly when
  it exists and its own button was clicked an odd number of times, and the button is styled
  active exactly then: the four-state machine behaves as two independent switches.\<close>

theorem graph_toggle_parity:
  assumes "install m = Some v"
  shows "(caller_display (clicks v ks) = Some DisplayBlock \<longleftrightarrow>
            \<not> caller_disabled v \<and> odd (count_list ks Caller)) \<and>
         (call_display (clicks v ks) = Some DisplayBlock \<longleftrightarrow>
            \<not> call_disabled v \<and> odd (count_list ks Call)) \<and>
         (caller_active (clicks v ks) \<longleftrightarrow> caller_display (clicks v ks) = Some DisplayBlock) \<and>
         (call_active (clicks v ks) \<longleftrightarrow> call_display (clicks v ks) = Some DisplayBlock)"
proof -
  have "view_ok (clicks v ks)"
    using assms by (intro clicks_view_ok install_view_ok)
  from view_ok_abs [OF this] show ?thesis
    by (auto simp: clicks_refine_flips foldl_flips_caller foldl_flips_call install_Hidden [OF assms])
qed

definition example_block :: memdoc where
  "example_block =
     \<lparr>dyn_headers =
        [\<lparr>text_content = ''Here is the call graph for this function:'',
          next_siblings = [\<lparr>elem_id = 1, class_list = [''dyncontent'']\<rparr>]\<rparr>,
         \<lparr>text_content = ''Here is the caller graph for this function:'',
          next_siblings = [\<lparr>elem_id = 2, class_list = [''dyncontent'']\<rparr>]\<rparr>],
      has_graph_toggle = False\<rparr>"

definition example_view :: toggle_view where
  "example_view = \<lparr>current = Hidden, caller_display = Some DisplayNone,
     call_display = Some DisplayNone, caller_disabled = False, call_disabled = False,
     caller_active = False, call_active = False\<rparr>"

lemma install_example: "install example_block = Some example_view"
  by code_simp

theorem graph_toggle_parity_witness:
  "caller_display (clicks example_view [Caller, Call, Caller, Caller]) = Some DisplayBlock \<and>
   call_display (clicks example_view [Caller, Call, Call]) \<noteq> Some DisplayBlock"
  using graph_toggle_parity [OF install_example, of "[Caller, Call, Caller, Caller]"]
    graph_toggle_parity [OF install_example, of "[Caller, Call, Call]"]
  by (simp add: example_view_def)

lemma find_content_shift:
  "tries \<le> 8 \<Longrightarrow> find_content tries xs =
     (case List.find (\<lambda>e. ''dyncontent'' \<in> set (class_list e)) (take (8 - tries) xs) of
        Some e \<Rightarrow> Some e
      | None \<Rightarrow> if 8 - tries < length xs then Some (xs ! (8 - tries)) else None)"
proof (induction tries xs rule: find_content.induct)
  case (2 tries content rest)
  show ?case
  proof (cases "tries = 8")
    case False
    with 2 have "Suc (8 - Suc tries) = 8 - tries" "tries < 8" by simp_all
    then have t: "take (8 - tries) (content # rest) = content # take (8 - Suc tries) rest"
      and n: "(content # rest) ! (8 - tries) = rest ! (8 - Suc tries)"
      by (metis take_Suc_Cons, metis nth_Cons_Suc)
    with False 2 show ?thesis by (auto simp: less_Suc_eq_le Suc_le_eq split: option.splits)
  qed (use 2 in auto)
qed simp

text \<open>The search for a header's graph takes the first \<open>dyncontent\<close> element among the next
  eight siblings; when there is none it takes the ninth sibling, whatever its class.\<close>

theorem find_content_spec:
  "find_content 0 xs =
     (case List.find (\<lambda>e. ''dyncontent'' \<in> set (class_list e)) (take 8 xs) of
        Some e \<Rightarrow> Some e
      | None \<Rightarrow> if 8 < length xs then Some (xs ! 8) else None)"
  using find_content_shift [OF le0, of xs] unfolding diff_zero .

end
