(* ===== verification/RateLimit.thy ===== *)
theory RateLimit
  imports Prelude
begin

text \<open>
  The two throttles of the system. \<open>servatrice/src/ratelimiter.cpp\<close> limits the attempts a key
  (an address, a login) may make within a sliding window of seconds.
  \<open>libcockatrice_utility/.../server_rate_limiter.cpp\<close> keeps the client's back-off per host after
  HTTP 429 answers. Times are \<open>int\<close> (epoch seconds in the first, milliseconds in the second,
  both far inside \<open>qint64\<close>); a valid \<open>QDateTime\<close> is its time, an invalid one is \<open>None\<close>.
  The mutex of the first class is not modelled: every operation holds it for its whole body.
\<close>

section \<open>RateLimiter: state and operations\<close>

record attempt_history =
  timestamps :: "int list"
  window_seconds :: int

record rate_limiter =
  attempts :: "(string, attempt_history) qmap"
  last_prune_secs :: int

definition new_rate_limiter :: rate_limiter where
  "new_rate_limiter = \<lparr>attempts = [], last_prune_secs = 0\<rparr>"

definition prune_interval_seconds :: int where
  "prune_interval_seconds = 60"

fun drop_expired :: "int \<Rightarrow> int list \<Rightarrow> int list" where
  "drop_expired cutoff [] = []"
| "drop_expired cutoff (t # ts) = (if t \<le> cutoff then drop_expired cutoff ts else t # ts)"

fun prune_entries :: "int \<Rightarrow> (string, attempt_history) qmap \<Rightarrow> (string, attempt_history) qmap" where
  "prune_entries now [] = []"
| "prune_entries now ((k, h) # m) =
     (let ts = drop_expired (now - window_seconds h) (timestamps h) in
      if ts = [] then prune_entries now m
      else (k, h\<lparr>timestamps := ts\<rparr>) # prune_entries now m)"

definition prune_locked :: "int \<Rightarrow> rate_limiter \<Rightarrow> rate_limiter" where
  "prune_locked now rl =
     (if last_prune_secs rl + prune_interval_seconds > now then rl
      else rl\<lparr>last_prune_secs := now, attempts := prune_entries now (attempts rl)\<rparr>)"

definition record_attempt_at ::
  "string \<Rightarrow> int \<Rightarrow> int \<Rightarrow> int \<Rightarrow> rate_limiter \<Rightarrow> bool \<times> rate_limiter" where
  "record_attempt_at key maxAttempts windowSeconds now rl =
     (if maxAttempts \<le> 0 \<or> windowSeconds \<le> 0 then (False, rl)
      else
        let rl = prune_locked now rl;
            history = qm_value (attempts rl) key \<lparr>timestamps = [], window_seconds = windowSeconds\<rparr>;
            ts = drop_expired (now - windowSeconds) (timestamps history)
        in if int (length ts) \<ge> maxAttempts
           then (True, rl\<lparr>attempts := qm_insert key
                   \<lparr>timestamps = ts, window_seconds = windowSeconds\<rparr> (attempts rl)\<rparr>)
           else (False, rl\<lparr>attempts := qm_insert key
                   \<lparr>timestamps = ts @ [now], window_seconds = windowSeconds\<rparr> (attempts rl)\<rparr>))"

definition is_blocked_at :: "string \<Rightarrow> int \<Rightarrow> int \<Rightarrow> int \<Rightarrow> rate_limiter \<Rightarrow> bool" where
  "is_blocked_at key maxAttempts windowSeconds now rl =
     (if maxAttempts \<le> 0 \<or> windowSeconds \<le> 0 then False
      else case map_of (attempts rl) key of
             None \<Rightarrow> False
           | Some h \<Rightarrow>
               int (length (filter (\<lambda>t. t > now - windowSeconds) (timestamps h))) \<ge> maxAttempts)"

definition clear_attempts :: "string \<Rightarrow> rate_limiter \<Rightarrow> rate_limiter" where
  "clear_attempts key rl = rl\<lparr>attempts := qm_remove key (attempts rl)\<rparr>"

definition retry_after_seconds_at :: "string \<Rightarrow> int \<Rightarrow> int \<Rightarrow> int \<Rightarrow> rate_limiter \<Rightarrow> int" where
  "retry_after_seconds_at key maxAttempts windowSeconds now rl =
     (if maxAttempts \<le> 0 \<or> windowSeconds \<le> 0 then 0
      else case map_of (attempts rl) key of
             None \<Rightarrow> 0
           | Some h \<Rightarrow>
               (let ts = drop_expired (now - windowSeconds) (timestamps h) in
                if int (length ts) < maxAttempts then 0
                else case ts of
                       [] \<Rightarrow> 0
                     | oldest # _ \<Rightarrow>
                         (let retryAt = oldest + windowSeconds in
                          if retryAt \<le> now then 0 else retryAt - now)))"

section \<open>Lemmas on the sliding window\<close>

lemma drop_expired_dropWhile: "drop_expired c ts = dropWhile (\<lambda>t. t \<le> c) ts"
  by (induction ts) auto

lemma drop_expired_filter: "sorted ts \<Longrightarrow> drop_expired c ts = filter (\<lambda>t. c < t) ts"
proof (induction ts)
  case (Cons t ts)
  show ?case
  proof (cases "t \<le> c")
    case False
    with Cons.prems have "\<forall>x \<in> set ts. c < x" by auto
    then have "filter (\<lambda>t. c < t) ts = ts" by (simp add: filter_id_conv)
    with False show ?thesis by simp
  qed (use Cons in simp)
qed simp

lemma sorted_drop_expired: "sorted ts \<Longrightarrow> sorted (drop_expired c ts)"
  by (simp add: drop_expired_dropWhile sorted_dropWhile)

lemma set_drop_expired: "set (drop_expired c ts) \<subseteq> set ts"
  by (metis drop_expired_dropWhile set_dropWhileD subsetI)

lemma drop_expired_twice: "c \<le> c' \<Longrightarrow> drop_expired c' (drop_expired c ts) = drop_expired c' ts"
  by (induction ts) auto

lemma drop_expired_split: "\<exists>old. ts = old @ drop_expired c ts \<and> (\<forall>t \<in> set old. t \<le> c)"
proof (induction ts)
  case (Cons t ts)
  then obtain old where old: "ts = old @ drop_expired c ts" "\<forall>t \<in> set old. t \<le> c" by blast
  show ?case
  proof (cases "t \<le> c")
    case True
    with old show ?thesis by (intro exI [of _ "t # old"]) simp
  qed (intro exI [of _ "[]"], simp)
qed simp

lemma fst_prune_entries: "fst ` set (prune_entries now m) \<subseteq> fst ` set m"
proof (induction now m rule: prune_entries.induct)
  case (2 now k h m)
  then have "fst ` set (prune_entries now m) \<subseteq> fst ` set m"
    by (cases "drop_expired (now - window_seconds h) (timestamps h) = []") simp_all
  then show ?case by (auto simp: Let_def)
qed simp

lemma qm_ok_prune_entries: "qm_ok m \<Longrightarrow> qm_ok (prune_entries now m)"
proof (induction m)
  case (Cons p m)
  obtain k h where p: "p = (k, h)" by (cases p)
  with Cons have "qm_ok (prune_entries now m)" "\<forall>x \<in> fst ` set m. k < x"
    by (auto simp: qm_ok_Cons)
  moreover from this(2) have "\<forall>x \<in> fst ` set (prune_entries now m). k < x"
    using fst_prune_entries [of now m] by blast
  ultimately show ?case by (simp add: p Let_def qm_ok_Cons)
qed simp

lemma map_of_prune_entries:
  "qm_ok m \<Longrightarrow> map_of (prune_entries now m) k =
     (case map_of m k of None \<Rightarrow> None
      | Some h \<Rightarrow> (let ts = drop_expired (now - window_seconds h) (timestamps h) in
                   if ts = [] then None else Some (h\<lparr>timestamps := ts\<rparr>)))"
proof (induction now m rule: prune_entries.induct)
  case (2 now a h m)
  then have "map_of m a = None" by (simp add: qm_ok_Cons map_of_above)
  with 2 show ?case by (auto simp: Let_def qm_ok_Cons split: option.splits)
qed simp

text \<open>The recorded attempts of a key, empty where the map has no entry.\<close>

definition recorded :: "rate_limiter \<Rightarrow> string \<Rightarrow> int list" where
  "recorded rl key = (case map_of (attempts rl) key of None \<Rightarrow> [] | Some h \<Rightarrow> timestamps h)"

text \<open>
  Well-formedness for a deployment in which key \<open>k\<close> has the window \<open>w k\<close> and the limit \<open>maxA k\<close>
  (one limiter serves logins, registrations and password requests, under keys of their own): the
  histories are sorted, carry the window of their key and are never longer than its limit.
\<close>

definition limiter_ok :: "(string \<Rightarrow> int) \<Rightarrow> (string \<Rightarrow> int) \<Rightarrow> int \<Rightarrow> rate_limiter \<Rightarrow> bool" where
  "limiter_ok maxA w now rl \<longleftrightarrow> qm_ok (attempts rl) \<and>
     (\<forall>k h. map_of (attempts rl) k = Some h \<longrightarrow>
        window_seconds h = w k \<and> sorted (timestamps h) \<and>
        int (length (timestamps h)) \<le> maxA k \<and> (\<forall>t \<in> set (timestamps h). t \<le> now))"

lemma limiter_ok_recorded:
  "limiter_ok maxA w now rl \<Longrightarrow> 0 < maxA k \<Longrightarrow> sorted (recorded rl k) \<and> int (length (recorded rl k)) \<le> maxA k \<and>
     (\<forall>t \<in> set (recorded rl k). t \<le> now)"
  by (auto simp: limiter_ok_def recorded_def split: option.splits)

lemma recorded_prune:
  assumes "limiter_ok maxA w prev rl"
  shows "recorded (prune_locked now rl) k = recorded rl k \<or>
         recorded (prune_locked now rl) k = drop_expired (now - w k) (recorded rl k)"
  using assms
  by (auto simp: prune_locked_def recorded_def limiter_ok_def map_of_prune_entries Let_def
      split: option.splits)

lemma limiter_ok_prune:
  assumes "limiter_ok maxA w prev rl" and "prev \<le> now"
  shows "limiter_ok maxA w now (prune_locked now rl)"
proof -
  have len: "length (drop_expired c ts) \<le> length ts" for c ts
    by (simp add: drop_expired_dropWhile length_dropWhile_le)
  have ok: "qm_ok (attempts (prune_locked now rl))"
    using assms(1) by (simp add: prune_locked_def limiter_ok_def qm_ok_prune_entries)
  show ?thesis
    unfolding limiter_ok_def
  proof (intro conjI allI impI ok)
    fix k h
    assume "map_of (attempts (prune_locked now rl)) k = Some h"
    then obtain h0 where h0: "map_of (attempts rl) k = Some h0"
      and eq: "window_seconds h = window_seconds h0"
        "timestamps h = timestamps h0 \<or> timestamps h = drop_expired (now - window_seconds h0) (timestamps h0)"
      using assms(1)
      by (auto simp: prune_locked_def limiter_ok_def map_of_prune_entries Let_def
          split: if_splits option.splits)
    from assms(1) h0 have *: "window_seconds h0 = w k" "sorted (timestamps h0)"
      "int (length (timestamps h0)) \<le> maxA k" "\<forall>t \<in> set (timestamps h0). t \<le> prev"
      by (auto simp: limiter_ok_def)
    show "window_seconds h = w k" using * eq by simp
    show "sorted (timestamps h)" using * eq by (auto simp: sorted_drop_expired)
    show "int (length (timestamps h)) \<le> maxA k"
      using * eq len [of "now - window_seconds h0" "timestamps h0"] by auto
    show "\<forall>t \<in> set (timestamps h). t \<le> now"
      using * eq assms(2) set_drop_expired by fastforce
  qed
qed

lemma drop_recorded_prune:
  assumes "limiter_ok maxA w prev rl"
  shows "drop_expired (now - w k) (recorded (prune_locked now rl) k) = drop_expired (now - w k) (recorded rl k)"
  using recorded_prune [OF assms, of now k] by (auto simp: drop_expired_twice)

lemma recorded_insert:
  "recorded (r\<lparr>attempts := qm_insert key h (attempts r)\<rparr>) k = (if k = key then timestamps h else recorded r k)"
  by (simp add: recorded_def)

lemma record_attempt_cases:
  assumes "limiter_ok maxA w prev rl" and "0 < maxA key" and "0 < w key"
    and "record_attempt_at key (maxA key) (w key) now rl = (blocked, rl')"
  shows "blocked \<longleftrightarrow> int (length (drop_expired (now - w key) (recorded rl key))) \<ge> maxA key"
    and "recorded rl' key = drop_expired (now - w key) (recorded rl key) @ (if blocked then [] else [now])"
    and "k \<noteq> key \<Longrightarrow> recorded rl' k = recorded (prune_locked now rl) k"
proof -
  have ts: "timestamps (qm_value (attempts r) key \<lparr>timestamps = [], window_seconds = w key\<rparr>) = recorded r key" for r
    by (simp add: recorded_def qm_value_def split: option.splits)
  note d = drop_recorded_prune [OF assms(1), of now key]
  from assms(2-4) show "blocked \<longleftrightarrow> int (length (drop_expired (now - w key) (recorded rl key))) \<ge> maxA key"
    by (auto simp: record_attempt_at_def Let_def ts d split: if_splits)
  from assms(2-4) show "recorded rl' key = drop_expired (now - w key) (recorded rl key) @ (if blocked then [] else [now])"
    by (auto simp: record_attempt_at_def Let_def ts d recorded_insert split: if_splits)
  from assms(2-4) show "k \<noteq> key \<Longrightarrow> recorded rl' k = recorded (prune_locked now rl) k"
    by (auto simp: record_attempt_at_def Let_def recorded_insert split: if_splits)
qed

section \<open>Runs of attempts\<close>

fun run_attempts ::
  "(string \<Rightarrow> int) \<Rightarrow> (string \<Rightarrow> int) \<Rightarrow> (string \<times> int) list \<Rightarrow> rate_limiter \<Rightarrow> (string \<times> int) list \<times> rate_limiter" where
  "run_attempts maxA w [] rl = ([], rl)"
| "run_attempts maxA w ((k, now) # as) rl =
     (let (blocked, rl1) = record_attempt_at k (maxA k) (w k) now rl;
          (acc, rl2) = run_attempts maxA w as rl1
      in (if blocked then acc else (k, now) # acc, rl2))"

definition times_of :: "string \<Rightarrow> (string \<times> int) list \<Rightarrow> int list" where
  "times_of k acc = map snd (filter (\<lambda>p. fst p = k) acc)"

definition window_bounded :: "int \<Rightarrow> int \<Rightarrow> int list \<Rightarrow> bool" where
  "window_bounded maxA w ts \<longleftrightarrow>
     (\<forall>i < length ts. int (length (filter (\<lambda>t. ts ! i - w < t) (take (Suc i) ts))) \<le> maxA)"

lemma window_bounded_snoc:
  assumes "window_bounded maxA w ts" and "0 < w"
    and "int (length (filter (\<lambda>t. now - w < t) ts)) < maxA"
  shows "window_bounded maxA w (ts @ [now])"
  unfolding window_bounded_def
proof (intro allI impI)
  fix i assume "i < length (ts @ [now])"
  then consider "i < length ts" | "i = length ts" by fastforce
  then show "int (length (filter (\<lambda>t. (ts @ [now]) ! i - w < t) (take (Suc i) (ts @ [now])))) \<le> maxA"
  proof cases
    case 1
    with assms(1) show ?thesis by (simp add: window_bounded_def nth_append)
  next
    case 2
    with assms(2,3) show ?thesis by simp
  qed
qed

text \<open>
  The history \<open>G\<close> of everything accepted so far for each key: what the limiter still stores is a
  suffix of it, and the rest has left the window for good. A limit or a window of zero turns the
  limiter off for a key.
\<close>

definition history_inv :: "(string \<Rightarrow> int) \<Rightarrow> (string \<Rightarrow> int) \<Rightarrow> int \<Rightarrow> (string \<Rightarrow> int list) \<Rightarrow> rate_limiter \<Rightarrow> bool" where
  "history_inv maxA w now G rl \<longleftrightarrow> limiter_ok maxA w now rl \<and>
     (\<forall>k. 0 < maxA k \<and> 0 < w k \<longrightarrow> window_bounded (maxA k) (w k) (G k) \<and>
          (\<exists>old. G k = old @ recorded rl k \<and> (\<forall>t \<in> set old. t \<le> now - w k)))"

lemma limiter_ok_later: "limiter_ok maxA w prev rl \<Longrightarrow> prev \<le> now \<Longrightarrow> limiter_ok maxA w now rl"
  unfolding limiter_ok_def by (meson order_trans)

lemma record_disabled: "\<not> (0 < maxA \<and> 0 < w) \<Longrightarrow> record_attempt_at key maxA w now rl = (False, rl)"
  by (auto simp: record_attempt_at_def)

lemma limiter_ok_record:
  assumes "limiter_ok maxA w prev rl" and "prev \<le> now"
    and "record_attempt_at key (maxA key) (w key) now rl = (blocked, rl')"
  shows "limiter_ok maxA w now rl'"
proof (cases "0 < maxA key \<and> 0 < w key")
  case False
  then have "rl' = rl" using assms(3) by (simp add: record_disabled)
  with limiter_ok_later [OF assms(1,2)] show ?thesis by simp
next
  case True
  let ?r = "prune_locked now rl"
  note ok = limiter_ok_prune [OF assms(1,2)]
  define h where "h = qm_value (attempts ?r) key \<lparr>timestamps = [], window_seconds = w key\<rparr>"
  define ts where "ts = drop_expired (now - w key) (timestamps h)"
  have "timestamps h = recorded ?r key"
    by (simp add: h_def recorded_def qm_value_def split: option.splits)
  with limiter_ok_recorded [OF ok, of key] True have *: "sorted ts" "\<forall>t \<in> set ts. t \<le> now"
    "int (length ts) \<le> maxA key"
    using set_drop_expired [of "now - w key" "timestamps h"] length_dropWhile_le [of "\<lambda>t. t \<le> now - w key" "timestamps h"]
    by (auto simp: ts_def sorted_drop_expired drop_expired_dropWhile)
  from True assms(3) have "rl' = ?r\<lparr>attempts := qm_insert key
      \<lparr>timestamps = ts @ (if blocked then [] else [now]), window_seconds = w key\<rparr> (attempts ?r)\<rparr>"
    and "blocked \<longleftrightarrow> int (length ts) \<ge> maxA key"
    by (auto simp: record_attempt_at_def Let_def h_def ts_def split: if_splits)
  with ok * show ?thesis
    by (auto simp: limiter_ok_def sorted_append)
qed

lemma history_kept:
  assumes ok: "limiter_ok maxA w prev rl" and le: "prev \<le> now"
    and old: "G = old @ recorded rl k" "\<forall>t \<in> set old. t \<le> prev - w k"
    and r: "recorded rl' k = recorded rl k \<or> recorded rl' k = recorded (prune_locked now rl) k"
  shows "\<exists>old. G = old @ recorded rl' k \<and> (\<forall>t \<in> set old. t \<le> now - w k)"
proof -
  have old_now: "\<forall>t \<in> set old. t \<le> now - w k" using old(2) le by fastforce
  obtain old2 where old2: "recorded rl k = old2 @ drop_expired (now - w k) (recorded rl k)" "\<forall>t \<in> set old2. t \<le> now - w k"
    using drop_expired_split by blast
  show ?thesis
  proof (cases "recorded rl' k = recorded rl k")
    case True
    with old(1) old_now show ?thesis by auto
  next
    case False
    with r recorded_prune [OF ok, of now k] have "recorded rl' k = drop_expired (now - w k) (recorded rl k)" by auto
    with old(1) old2 old_now show ?thesis by (intro exI [of _ "old @ old2"]) auto
  qed
qed

lemma history_inv_step:
  assumes "history_inv maxA w prev G rl" and "prev \<le> now"
    and rec: "record_attempt_at key (maxA key) (w key) now rl = (blocked, rl')"
  shows "history_inv maxA w now (if blocked then G else G(key := G key @ [now])) rl'"
proof -
  define G' where "G' = (if blocked then G else G(key := G key @ [now]))"
  from assms(1) have ok: "limiter_ok maxA w prev rl" by (simp add: history_inv_def)
  have "window_bounded (maxA k) (w k) (G' k) \<and> (\<exists>old. G' k = old @ recorded rl' k \<and> (\<forall>t \<in> set old. t \<le> now - w k))"
    if pos: "0 < maxA k \<and> 0 < w k" for k
  proof -
    from assms(1) pos obtain old where wb: "window_bounded (maxA k) (w k) (G k)"
      and old: "G k = old @ recorded rl k" "\<forall>t \<in> set old. t \<le> prev - w k"
      unfolding history_inv_def by blast
    show ?thesis
    proof (cases "k = key")
      case True
      with pos have p: "0 < maxA key" "0 < w key" by simp_all
      note rc = record_attempt_cases(1,2) [OF ok p rec]
      obtain old2 where old2: "recorded rl k = old2 @ drop_expired (now - w k) (recorded rl k)"
        "\<forall>t \<in> set old2. t \<le> now - w k"
        using drop_expired_split by blast
      define gone where "gone = old @ old2"
      have gone: "\<forall>t \<in> set gone. t \<le> now - w k" using old(2) old2(2) assms(2) unfolding gone_def by fastforce
      then have f: "filter (\<lambda>t. now - w k < t) gone = []"
        unfolding filter_empty_conv linorder_not_less .
      have G: "G k = gone @ drop_expired (now - w k) (recorded rl k)" using old(1) old2(1) by (simp add: gone_def)
      have "int (length (filter (\<lambda>t. now - w k < t) (G k))) \<le> int (length (drop_expired (now - w k) (recorded rl k)))"
        unfolding G filter_append f by (simp add: length_filter_le)
      with rc(1) True wb have "window_bounded (maxA k) (w k) (G' k)"
        using window_bounded_snoc [OF wb, of now] pos by (auto simp: G'_def)
      moreover have "G' k = gone @ recorded rl' k" using G rc(2) True by (auto simp: G'_def)
      ultimately show ?thesis using gone by blast
    next
      case False
      have "recorded rl' k = recorded rl k \<or> recorded rl' k = recorded (prune_locked now rl) k"
      proof (cases "0 < maxA key \<and> 0 < w key")
        case True
        with record_attempt_cases(3) [OF ok _ _ rec False] show ?thesis by simp
      next
        case off: False
        with rec have "rl' = rl" by (simp add: record_disabled)
        then show ?thesis by simp
      qed
      with history_kept [OF ok assms(2) old] wb False show ?thesis by (simp add: G'_def)
    qed
  qed
  then show ?thesis
    using limiter_ok_record [OF ok assms(2,3)] unfolding history_inv_def G'_def by blast
qed

lemma history_inv_run:
  assumes "history_inv maxA w prev G rl" and "0 < maxA k" and "0 < w k"
    and "sorted (prev # map snd as)" and "run_attempts maxA w as rl = (acc, rl')"
  shows "window_bounded (maxA k) (w k) (G k @ times_of k acc)"
  using assms
proof (induction as arbitrary: prev G rl acc)
  case Nil
  then show ?case by (auto simp: history_inv_def times_of_def)
next
  case (Cons a as)
  obtain key now where a: "a = (key, now)" by (cases a)
  obtain blocked rl1 where r: "record_attempt_at key (maxA key) (w key) now rl = (blocked, rl1)" by fastforce
  obtain acc1 where acc1: "run_attempts maxA w as rl1 = (acc1, rl')"
    and acc: "acc = (if blocked then acc1 else (key, now) # acc1)"
    using Cons.prems(5) by (auto simp: a r split: prod.splits)
  let ?G = "if blocked then G else G(key := G key @ [now])"
  have "history_inv maxA w now ?G rl1"
    by (rule history_inv_step [OF Cons.prems(1) _ r]) (use Cons.prems(4) a in simp)
  from Cons.IH [OF this Cons.prems(2,3) _ acc1] Cons.prems(4)
  show ?case by (auto simp: a acc times_of_def split: if_splits)
qed

text \<open>C20: One limiter serves many keys, each with a limit and a window of its own, and clean-ups
  happen on the way. However many attempts are made, by whatever keys and however they interleave,
  the attempts a key gets through inside any of its windows that ends at an accepted attempt never
  exceed its limit.\<close>

theorem accepted_attempts_bounded:
  assumes "0 < maxA k" and "0 < w k" and "sorted (map snd as)" and "\<forall>p \<in> set as. 0 \<le> snd p"
    and "run_attempts maxA w as new_rate_limiter = (acc, rl')"
  shows "window_bounded (maxA k) (w k) (times_of k acc)"
proof -
  have "history_inv maxA w 0 (\<lambda>_. []) new_rate_limiter"
    by (simp add: history_inv_def limiter_ok_def new_rate_limiter_def window_bounded_def recorded_def)
  from history_inv_run [where prev = 0 and as = as and k = k, OF this assms(1,2) _ assms(5)] assms(3,4) show ?thesis by simp
qed

text \<open>Two logins in a quarter of an hour and one registration in an hour, in one limiter.\<close>

definition ex_limit :: "string \<Rightarrow> int" where
  "ex_limit k = (if k = ''register'' then 1 else 2)"

definition ex_window :: "string \<Rightarrow> int" where
  "ex_window k = (if k = ''register'' then 3600 else 900)"

theorem accepted_attempts_bounded_witness:
  "fst (run_attempts ex_limit ex_window [(''register'', 0), (''login'', 100), (''login'', 200), (''login'', 300), (''register'', 1500)]
     new_rate_limiter) = [(''register'', 0), (''login'', 100), (''login'', 200)] \<and>
   window_bounded 1 3600 (times_of ''register'' [(''register'', 0), (''login'', 100), (''login'', 200)])"
proof -
  let ?as = "[(''register'', 0), (''login'', 100), (''login'', 200), (''login'', 300), (''register'', 1500)] :: (string \<times> int) list"
  have f: "fst (run_attempts ex_limit ex_window ?as new_rate_limiter) = [(''register'', 0), (''login'', 100), (''login'', 200)]"
    by code_simp
  then have r: "run_attempts ex_limit ex_window ?as new_rate_limiter = ([(''register'', 0), (''login'', 100), (''login'', 200)],
      snd (run_attempts ex_limit ex_window ?as new_rate_limiter))"
    by (metis prod.collapse)
  have "0 < ex_limit ''register''" "0 < ex_window ''register''" by (simp_all add: ex_limit_def ex_window_def)
  from accepted_attempts_bounded [OF this _ _ r] f show ?thesis by (simp add: ex_limit_def ex_window_def)
qed

lemma is_blocked_recorded:
  "0 < maxA \<Longrightarrow> 0 < w \<Longrightarrow> is_blocked_at key maxA w now rl \<longleftrightarrow>
     int (length (filter (\<lambda>t. t > now - w) (recorded rl key))) \<ge> maxA"
  by (auto simp: is_blocked_at_def recorded_def split: option.splits)

lemma retry_after_recorded:
  "0 < maxA \<Longrightarrow> 0 < w \<Longrightarrow> retry_after_seconds_at key maxA w now rl =
     (let ts = drop_expired (now - w) (recorded rl key) in
      if int (length ts) < maxA \<or> ts = [] \<or> hd ts + w \<le> now then 0 else hd ts + w - now)"
  by (auto simp: retry_after_seconds_at_def recorded_def Let_def split: option.splits list.splits)

lemma full_window_iff:
  assumes "sorted ts" and "int (length ts) \<le> maxA" and "0 < maxA"
  shows "int (length (filter (\<lambda>t. t > c) ts)) \<ge> maxA \<longleftrightarrow> int (length ts) = maxA \<and> c < hd ts"
proof -
  have le: "length (filter (\<lambda>t. t > c) ts) \<le> length ts" by simp
  have "length (filter (\<lambda>t. t > c) ts) = length ts \<longleftrightarrow> (\<forall>t \<in> set ts. c < t)"
    by (metis (no_types, lifting) filter_True length_filter_less nless_le)
  moreover have "(\<forall>t \<in> set ts. c < t) \<longleftrightarrow> c < hd ts" if "ts \<noteq> []"
    using assms(1) that by (cases ts) auto
  ultimately show ?thesis using assms(2,3) le by (cases ts) auto
qed

text \<open>C29: The limiter's three answers agree. An attempt is rejected exactly when the key reads as
  blocked; \<open>retryAfterSeconds\<close> is zero exactly when it is not blocked; and otherwise the key stays
  blocked for precisely that many seconds and is free when they have passed.\<close>

theorem retry_after_exact:
  assumes "limiter_ok maxA w now rl" and pos: "0 < maxA key" "0 < w key"
    and r: "r = retry_after_seconds_at key (maxA key) (w key) now rl"
  shows "fst (record_attempt_at key (maxA key) (w key) now rl) = is_blocked_at key (maxA key) (w key) now rl \<and>
    (r = 0 \<longleftrightarrow> \<not> is_blocked_at key (maxA key) (w key) now rl) \<and>
    (\<forall>t. now \<le> t \<and> t < now + r \<longrightarrow> is_blocked_at key (maxA key) (w key) t rl) \<and>
    \<not> is_blocked_at key (maxA key) (w key) (now + r) rl"
proof -
  define ts where "ts = recorded rl key"
  have ts: "sorted ts" "int (length ts) \<le> maxA key"
    using limiter_ok_recorded [OF assms(1) pos(1)] by (auto simp: ts_def)
  have bl: "is_blocked_at key (maxA key) (w key) t rl \<longleftrightarrow> int (length ts) = maxA key \<and> t < hd ts + w key" for t
    using full_window_iff [OF ts pos(1), of "t - w key"]
    by (auto simp: is_blocked_recorded [OF pos] ts_def)
  have dr: "drop_expired (now - w key) ts = filter (\<lambda>t. t > now - w key) ts"
    by (rule drop_expired_filter [OF ts(1)])
  have full: "int (length (drop_expired (now - w key) ts)) \<ge> maxA key \<longleftrightarrow> int (length ts) = maxA key \<and> now < hd ts + w key"
    using full_window_iff [OF ts pos(1), of "now - w key"] unfolding dr by auto
  obtain b rl' where rec: "record_attempt_at key (maxA key) (w key) now rl = (b, rl')" by fastforce
  have rb: "fst (record_attempt_at key (maxA key) (w key) now rl) = is_blocked_at key (maxA key) (w key) now rl"
    using record_attempt_cases(1) [OF assms(1) pos rec] by (simp add: rec bl full flip: ts_def)
  have same: "int (length ts) = maxA key \<and> now < hd ts + w key \<Longrightarrow> drop_expired (now - w key) ts = ts"
    using pos(1) by (cases ts) auto
  have rv: "r = (if int (length ts) = maxA key \<and> now < hd ts + w key then hd ts + w key - now else 0)"
    using full same pos(1) unfolding r retry_after_recorded [OF pos] ts_def [symmetric]
    by (auto simp: Let_def)
  show ?thesis
    unfolding rb by (auto simp: rv bl split: if_splits)
qed

definition example_limiter :: rate_limiter where
  "example_limiter = \<lparr>attempts = [(''a'', \<lparr>timestamps = [100, 103], window_seconds = 10\<rparr>)], last_prune_secs = 100\<rparr>"

theorem retry_after_exact_witness:
  "retry_after_seconds_at ''a'' 2 10 104 example_limiter = 6 \<and>
   is_blocked_at ''a'' 2 10 104 example_limiter \<and> \<not> is_blocked_at ''a'' 2 10 110 example_limiter"
proof -
  have ok: "limiter_ok (\<lambda>_. 2) (\<lambda>_. 10) 104 example_limiter"
    by (auto simp: limiter_ok_def example_limiter_def qm_ok_def)
  have r: "(6::int) = retry_after_seconds_at ''a'' 2 10 104 example_limiter" by code_simp
  from retry_after_exact [OF ok _ _ r] r show ?thesis by simp
qed

section \<open>ServerRateLimiter: back-off after HTTP 429\<close>

definition max_retries :: int where "max_retries = 5"

definition min_429_backoff_ms :: int where "min_429_backoff_ms = 30000"

definition max_backoff_ms :: int where "max_backoff_ms = 60000"

definition exhausted_backoff_ms :: int where "exhausted_backoff_ms = 60000"

definition reset_grace_ms :: int where "reset_grace_ms = 300000"

record server_rate_limiter =
  backoff_until :: "(string, int) qmap"
  retry_rounds :: "(string, int) qmap"
  last429 :: "(string, int) qmap"

definition is_rate_limited :: "string \<Rightarrow> int \<Rightarrow> server_rate_limiter \<Rightarrow> bool" where
  "is_rate_limited host now s =
     (case map_of (backoff_until s) host of None \<Rightarrow> False | Some until \<Rightarrow> now < until)"

definition rounds :: "string \<Rightarrow> server_rate_limiter \<Rightarrow> int" where
  "rounds host s = qm_value (retry_rounds s) host 0"

definition deadline :: "string \<Rightarrow> server_rate_limiter \<Rightarrow> int option" where
  "deadline host s = map_of (backoff_until s) host"

fun earliest_loop :: "int \<Rightarrow> (string, int) qmap \<Rightarrow> int option \<Rightarrow> int option" where
  "earliest_loop now [] earliest = earliest"
| "earliest_loop now ((host, until) # m) earliest =
     earliest_loop now m
       (if now < until \<and> (case earliest of None \<Rightarrow> True | Some e \<Rightarrow> until < e)
        then Some until else earliest)"

definition earliest_deadline :: "int \<Rightarrow> server_rate_limiter \<Rightarrow> int option" where
  "earliest_deadline now s = earliest_loop now (backoff_until s) None"

definition on429 :: "string \<Rightarrow> int \<Rightarrow> int \<Rightarrow> server_rate_limiter \<Rightarrow> int \<times> server_rate_limiter" where
  "on429 host now retryAfterMs s =
     (let existing = map_of (backoff_until s) host;
          round0 = qm_value (retry_rounds s) host 0;
          window_over = (case existing of None \<Rightarrow> True | Some e \<Rightarrow> now \<ge> e);
          idle = (case map_of (last429 s) host of None \<Rightarrow> False | Some l \<Rightarrow> now \<ge> l + reset_grace_ms);
          round = (if window_over then min ((if idle then 0 else round0) + 1) max_retries else round0);
          s1 = (if window_over then s\<lparr>retry_rounds := qm_insert host round (retry_rounds s)\<rparr> else s);
          s2 = s1\<lparr>last429 := qm_insert host now (last429 s1)\<rparr>;
          delay = (if round \<ge> max_retries then exhausted_backoff_ms
                   else min (max min_429_backoff_ms retryAfterMs) max_backoff_ms);
          dl = (case existing of None \<Rightarrow> now + delay
                | Some e \<Rightarrow> if e > now + delay then e else now + delay)
      in (dl, s2\<lparr>backoff_until := qm_insert host dl (backoff_until s2)\<rparr>))"

definition on_success :: "string \<Rightarrow> server_rate_limiter \<Rightarrow> server_rate_limiter" where
  "on_success host s =
     \<lparr>backoff_until = qm_remove host (backoff_until s),
      retry_rounds = qm_remove host (retry_rounds s),
      last429 = qm_remove host (last429 s)\<rparr>"

text \<open>The loop of \<open>clearExpired\<close> walks the back-off map and erases as it goes.\<close>

fun clear_loop ::
  "int \<Rightarrow> (string, int) qmap \<Rightarrow> server_rate_limiter \<Rightarrow> server_rate_limiter" where
  "clear_loop now [] s = s"
| "clear_loop now ((host, until) # m) s =
     (if now < until then clear_loop now m s
      else
        let fresh = (case map_of (last429 s) host of None \<Rightarrow> False | Some l \<Rightarrow> now < l + reset_grace_ms);
            s1 = s\<lparr>backoff_until := qm_remove host (backoff_until s)\<rparr>;
            s2 = (if fresh then s1
                  else s1\<lparr>retry_rounds := qm_remove host (retry_rounds s1),
                          last429 := qm_remove host (last429 s1)\<rparr>)
        in clear_loop now m s2)"

definition clear_expired :: "int \<Rightarrow> server_rate_limiter \<Rightarrow> server_rate_limiter" where
  "clear_expired now s = clear_loop now (backoff_until s) s"

text \<open>The operations as events, and the states they can reach.\<close>

datatype limiter_event = On429 string int int | OnSuccess string | ClearExpired int

fun limiter_step :: "limiter_event \<Rightarrow> server_rate_limiter \<Rightarrow> server_rate_limiter" where
  "limiter_step (On429 host now hint) s = snd (on429 host now hint s)"
| "limiter_step (OnSuccess host) s = on_success host s"
| "limiter_step (ClearExpired now) s = clear_expired now s"

inductive limiter_reachable :: "server_rate_limiter \<Rightarrow> bool" where
  init: "limiter_reachable \<lparr>backoff_until = [], retry_rounds = [], last429 = []\<rparr>"
| step: "limiter_reachable s \<Longrightarrow> limiter_reachable (limiter_step e s)"

definition srl_ok :: "server_rate_limiter \<Rightarrow> bool" where
  "srl_ok s \<longleftrightarrow> qm_ok (backoff_until s) \<and> qm_ok (retry_rounds s) \<and> qm_ok (last429 s) \<and>
     (\<forall>h. map_of (retry_rounds s) h = None \<longrightarrow> map_of (backoff_until s) h = None) \<and>
     (\<forall>h. map_of (retry_rounds s) h = None \<longleftrightarrow> map_of (last429 s) h = None) \<and>
     (\<forall>h r. map_of (retry_rounds s) h = Some r \<longrightarrow> 1 \<le> r \<and> r \<le> max_retries)"

text \<open>The round an answer is counted under and the deadline it sets, apart from the bookkeeping.\<close>

definition window_over :: "string \<Rightarrow> int \<Rightarrow> server_rate_limiter \<Rightarrow> bool" where
  "window_over host now s = (case map_of (backoff_until s) host of None \<Rightarrow> True | Some e \<Rightarrow> now \<ge> e)"

definition idle_reset :: "string \<Rightarrow> int \<Rightarrow> server_rate_limiter \<Rightarrow> bool" where
  "idle_reset host now s =
     (case map_of (last429 s) host of None \<Rightarrow> False | Some l \<Rightarrow> now \<ge> l + reset_grace_ms)"

definition next_round :: "string \<Rightarrow> int \<Rightarrow> server_rate_limiter \<Rightarrow> int" where
  "next_round host now s =
     (if window_over host now s
      then min ((if idle_reset host now s then 0 else rounds host s) + 1) max_retries
      else rounds host s)"

definition next_delay :: "string \<Rightarrow> int \<Rightarrow> int \<Rightarrow> server_rate_limiter \<Rightarrow> int" where
  "next_delay host now hint s =
     (if next_round host now s \<ge> max_retries then exhausted_backoff_ms
      else min (max min_429_backoff_ms hint) max_backoff_ms)"

definition next_deadline :: "string \<Rightarrow> int \<Rightarrow> int \<Rightarrow> server_rate_limiter \<Rightarrow> int" where
  "next_deadline host now hint s =
     (case map_of (backoff_until s) host of None \<Rightarrow> now + next_delay host now hint s
      | Some e \<Rightarrow> max e (now + next_delay host now hint s))"

lemma on429_eq:
  "on429 host now hint s = (next_deadline host now hint s,
     \<lparr>backoff_until = qm_insert host (next_deadline host now hint s) (backoff_until s),
      retry_rounds = (if window_over host now s then qm_insert host (next_round host now s) (retry_rounds s)
                      else retry_rounds s),
      last429 = qm_insert host now (last429 s)\<rparr>)"
  by (cases s) (auto simp: on429_def Let_def next_deadline_def next_delay_def next_round_def
      window_over_def idle_reset_def rounds_def split: option.splits)

lemma rounds_range: "srl_ok s \<Longrightarrow> 0 \<le> rounds host s \<and> rounds host s \<le> max_retries"
  by (fastforce simp: srl_ok_def rounds_def qm_value_def max_retries_def split: option.splits)

lemma next_round_range:
  "srl_ok s \<Longrightarrow> window_over host now s \<Longrightarrow> 1 \<le> next_round host now s \<and> next_round host now s \<le> max_retries"
  using rounds_range [of s host] by (auto simp: next_round_def max_retries_def)

lemma not_over_known:
  "srl_ok s \<Longrightarrow> \<not> window_over host now s \<Longrightarrow> map_of (retry_rounds s) host \<noteq> None"
  unfolding srl_ok_def window_over_def by (metis option.simps(4))

lemma on429_srl_ok: "srl_ok s \<Longrightarrow> srl_ok (snd (on429 host now hint s))"
  using next_round_range [of s host now] not_over_known [of s host now]
  by (auto simp: on429_eq srl_ok_def)

lemma on_success_srl_ok: "srl_ok s \<Longrightarrow> srl_ok (on_success host s)"
  by (auto simp: srl_ok_def on_success_def)

lemma forget_backoff_ok: "srl_ok s \<Longrightarrow> srl_ok (s\<lparr>backoff_until := qm_remove host (backoff_until s)\<rparr>)"
  by (simp add: srl_ok_def)

text \<open>Whether the budget of a host survives the clean-up of its back-off.\<close>

definition budget_fresh :: "string \<Rightarrow> int \<Rightarrow> server_rate_limiter \<Rightarrow> bool" where
  "budget_fresh host now s =
     (case map_of (last429 s) host of None \<Rightarrow> False | Some l \<Rightarrow> now < l + reset_grace_ms)"

text \<open>One turn of the clean-up loop.\<close>

definition clear_host :: "int \<Rightarrow> string \<Rightarrow> int \<Rightarrow> server_rate_limiter \<Rightarrow> server_rate_limiter" where
  "clear_host now host until s =
     (if now < until then s
      else if budget_fresh host now s then s\<lparr>backoff_until := qm_remove host (backoff_until s)\<rparr>
      else on_success host s)"

lemma clear_loop_Cons: "clear_loop now ((host, until) # m) s = clear_loop now m (clear_host now host until s)"
  by (cases s) (simp add: Let_def budget_fresh_def on_success_def clear_host_def)

declare clear_loop.simps(2) [simp del]

lemma clear_host_ok: "srl_ok s \<Longrightarrow> srl_ok (clear_host now host until s)"
  by (simp add: clear_host_def forget_backoff_ok on_success_srl_ok)

lemma clear_host_lookup:
  assumes "srl_ok s"
  shows "map_of (backoff_until (clear_host now host until s)) h =
      (if h = host \<and> \<not> now < until then None else map_of (backoff_until s) h)"
    and "map_of (retry_rounds (clear_host now host until s)) h =
      (if h = host \<and> \<not> now < until \<and> \<not> budget_fresh h now s then None else map_of (retry_rounds s) h)"
    and "h \<noteq> host \<Longrightarrow> budget_fresh h now (clear_host now host until s) = budget_fresh h now s"
  using assms by (auto simp: clear_host_def on_success_def srl_ok_def budget_fresh_def)

lemma clear_loop_srl_ok: "srl_ok s \<Longrightarrow> srl_ok (clear_loop now m s)"
proof (induction m arbitrary: s)
  case (Cons p m)
  then show ?case by (cases p) (simp add: clear_loop_Cons clear_host_ok)
qed simp

lemma clear_loop_backoff:
  assumes "srl_ok s" and "qm_ok m"
  shows "map_of (backoff_until (clear_loop now m s)) h =
      (case map_of m h of Some u \<Rightarrow> if now < u then map_of (backoff_until s) h else None
       | None \<Rightarrow> map_of (backoff_until s) h)"
  using assms
proof (induction m arbitrary: s)
  case (Cons p m)
  obtain host u where p: "p = (host, u)" by (cases p)
  with Cons.prems have "map_of m host = None" "qm_ok m" by (auto simp: qm_ok_Cons map_of_above)
  with Cons.prems Cons.IH [OF clear_host_ok] show ?case
    by (auto simp: p clear_loop_Cons clear_host_lookup split: option.splits)
qed simp

lemma clear_loop_rounds:
  assumes "srl_ok s" and "qm_ok m"
  shows "map_of (retry_rounds (clear_loop now m s)) h =
      (case map_of m h of
         Some u \<Rightarrow> if now < u \<or> budget_fresh h now s then map_of (retry_rounds s) h else None
       | None \<Rightarrow> map_of (retry_rounds s) h)"
  using assms
proof (induction m arbitrary: s)
  case (Cons p m)
  obtain host u where p: "p = (host, u)" by (cases p)
  with Cons.prems have "map_of m host = None" "qm_ok m" by (auto simp: qm_ok_Cons map_of_above)
  with Cons.prems Cons.IH [OF clear_host_ok] show ?case
    by (cases "h = host") (auto simp: p clear_loop_Cons clear_host_lookup split: option.splits)
qed simp

lemma reachable_srl_ok: "limiter_reachable s \<Longrightarrow> srl_ok s"
proof (induction rule: limiter_reachable.induct)
  case init
  show ?case by (simp add: srl_ok_def)
next
  case (step s e)
  then show ?case
    by (cases e) (simp_all add: on429_srl_ok on_success_srl_ok clear_expired_def clear_loop_srl_ok)
qed

text \<open>C30: Whatever the sequence of 429 answers, successes and clean-ups, a further 429 never
  shortens a back-off and pauses the host for 30 to 60 seconds from now, a full minute from the
  fifth round on. The round goes up by one, to five at most, when the back-off has run out, starts
  again at one when the last 429 is five minutes old, and stays the same for a burst inside one
  back-off window. Other hosts are left alone.\<close>

theorem on429_backoff:
  assumes "limiter_reachable s" and "on429 host now hint s = (dl, s')"
  shows "deadline host s' = Some dl \<and> now + min_429_backoff_ms \<le> dl \<and>
    (let delay = (if rounds host s' \<ge> max_retries then exhausted_backoff_ms
                  else min (max min_429_backoff_ms hint) max_backoff_ms)
     in delay \<le> max_backoff_ms \<and>
        dl = (case deadline host s of None \<Rightarrow> now + delay | Some e \<Rightarrow> max e (now + delay))) \<and>
    is_rate_limited host now s' \<and> 1 \<le> rounds host s' \<and> rounds host s' \<le> max_retries \<and>
    rounds host s' =
      (if is_rate_limited host now s then rounds host s
       else if (case map_of (last429 s) host of None \<Rightarrow> False | Some l \<Rightarrow> now \<ge> l + reset_grace_ms) then 1
       else min (rounds host s + 1) max_retries) \<and>
    map_of (last429 s') host = Some now \<and>
    (\<forall>h. h \<noteq> host \<longrightarrow> deadline h s' = deadline h s \<and> rounds h s' = rounds h s)"
proof -
  note ok = reachable_srl_ok [OF assms(1)]
  have s': "s' = snd (on429 host now hint s)" using assms(2) by simp
  have dl: "dl = next_deadline host now hint s" using assms(2) unfolding on429_eq by simp
  have delay: "min_429_backoff_ms \<le> next_delay host now hint s" "next_delay host now hint s \<le> max_backoff_ms"
    by (auto simp: next_delay_def min_429_backoff_ms_def max_backoff_ms_def exhausted_backoff_ms_def)
  have r: "rounds host s' = next_round host now s"
    using not_over_known [OF ok, of host now]
    by (auto simp: s' on429_eq rounds_def next_round_def)
  have over: "is_rate_limited host now s \<longleftrightarrow> \<not> window_over host now s"
    by (auto simp: is_rate_limited_def window_over_def split: option.splits)
  have "1 \<le> rounds host s' \<and> rounds host s' \<le> max_retries"
  proof (cases "window_over host now s")
    case True
    then show ?thesis using next_round_range [OF ok] r by simp
  next
    case False
    then obtain v where "map_of (retry_rounds s) host = Some v"
      using not_over_known [OF ok] by blast
    with False r ok show ?thesis
      by (auto simp: next_round_def rounds_def qm_value_def srl_ok_def)
  qed
  then have range: "1 \<le> rounds host s'" "rounds host s' \<le> max_retries" by simp_all
  have rnd: "rounds host s' =
      (if is_rate_limited host now s then rounds host s
       else if (case map_of (last429 s) host of None \<Rightarrow> False | Some l \<Rightarrow> now \<ge> l + reset_grace_ms) then 1
       else min (rounds host s + 1) max_retries)"
    using r over by (simp add: next_round_def idle_reset_def max_retries_def)
  have d: "next_delay host now hint s =
      (if rounds host s' \<ge> max_retries then exhausted_backoff_ms else min (max min_429_backoff_ms hint) max_backoff_ms)"
    by (simp add: next_delay_def r)
  have ge: "next_deadline host now hint s \<ge> now + next_delay host now hint s"
    by (auto simp: next_deadline_def split: option.splits)
  have dl_eq: "deadline host s' = Some dl" by (simp add: s' dl on429_eq deadline_def)
  have "dl = (case deadline host s of None \<Rightarrow> now + next_delay host now hint s | Some e \<Rightarrow> max e (now + next_delay host now hint s))"
    by (simp add: dl next_deadline_def deadline_def)
  moreover have "now < dl" "now + min_429_backoff_ms \<le> dl" using ge delay by (simp_all add: dl min_429_backoff_ms_def)
  moreover have "is_rate_limited host now s'" using dl_eq \<open>now < dl\<close> by (simp add: is_rate_limited_def deadline_def)
  moreover have "map_of (last429 s') host = Some now"
    "\<forall>h. h \<noteq> host \<longrightarrow> deadline h s' = deadline h s \<and> rounds h s' = rounds h s"
    by (auto simp: s' on429_eq deadline_def rounds_def qm_value_def)
  ultimately show ?thesis
    using delay(2) dl_eq range rnd unfolding d Let_def by blast
qed

theorem on429_backoff_witness:
  "let s0 = \<lparr>backoff_until = [], retry_rounds = [], last429 = []\<rparr>;
       s1 = snd (on429 ''h'' 1000 0 s0); s2 = snd (on429 ''h'' 2000 45000 s1)
   in is_rate_limited ''h'' 2000 s2 \<and> rounds ''h'' s2 = 1 \<and> deadline ''h'' s2 = Some 47000"
proof -
  define s1 where "s1 = limiter_step (On429 ''h'' 1000 0) \<lparr>backoff_until = [], retry_rounds = [], last429 = []\<rparr>"
  have "limiter_reachable s1"
    unfolding s1_def by (intro limiter_reachable.intros)
  moreover have "on429 ''h'' 2000 45000 s1 = (47000, snd (on429 ''h'' 2000 45000 s1))"
    unfolding s1_def by code_simp
  ultimately have "is_rate_limited ''h'' 2000 (snd (on429 ''h'' 2000 45000 s1))"
    "deadline ''h'' (snd (on429 ''h'' 2000 45000 s1)) = Some 47000"
    using on429_backoff by blast+
  moreover have "rounds ''h'' (snd (on429 ''h'' 2000 45000 s1)) = 1"
    unfolding s1_def by code_simp
  ultimately show ?thesis unfolding Let_def s1_def limiter_step.simps by blast
qed

text \<open>The clean-up drops exactly the back-offs that have run out, and forgets a host's retry
  budget exactly when its back-off ran out and it saw no 429 for the grace period.\<close>

theorem clear_expired_spec:
  assumes "limiter_reachable s"
  shows "deadline h (clear_expired now s) = (if is_rate_limited h now s then deadline h s else None) \<and>
    rounds h (clear_expired now s) =
      (if deadline h s \<noteq> None \<and> \<not> is_rate_limited h now s \<and> \<not> budget_fresh h now s then 0
       else rounds h s)"
proof -
  note ok = reachable_srl_ok [OF assms]
  then have "qm_ok (backoff_until s)" by (simp add: srl_ok_def)
  note l = clear_loop_backoff [OF ok this, of now h] clear_loop_rounds [OF ok this, of now h]
  show ?thesis
    by (auto simp: clear_expired_def deadline_def rounds_def qm_value_def l is_rate_limited_def
        split: option.splits)
qed

theorem clear_expired_spec_witness:
  "deadline ''h'' (clear_expired 400000 (snd (on429 ''h'' 1000 0
      \<lparr>backoff_until = [], retry_rounds = [], last429 = []\<rparr>))) = None"
proof -
  let ?s = "limiter_step (On429 ''h'' 1000 0) \<lparr>backoff_until = [], retry_rounds = [], last429 = []\<rparr>"
  have "limiter_reachable ?s" by (intro limiter_reachable.intros)
  from clear_expired_spec [OF this, of "''h''" 400000]
  have "deadline ''h'' (clear_expired 400000 ?s) = (if is_rate_limited ''h'' 400000 ?s then deadline ''h'' ?s else None)"
    by blast
  moreover have "\<not> is_rate_limited ''h'' 400000 ?s" by code_simp
  ultimately show ?thesis by simp
qed

end
