(* ===== verification/Levenshtein.thy ===== *)
theory Levenshtein
  imports Prelude
begin

text \<open>
  \<open>libcockatrice_utility/.../levenshtein.cpp\<close>: the edit distance of the card search, computed
  with two rows of the distance matrix. A string is a list of its code units; the rows are the
  integer vectors of the code, filled from left to right. The specification is the least number
  of single-character insertions, deletions and substitutions that turn one string into the other.
\<close>

section \<open>The two-row computation\<close>

text \<open>
  The inner loop: \<open>diag\<close> is \<open>previous[j - 1]\<close>, the list argument starts at \<open>previous[j]\<close>, and
  \<open>left\<close> is \<open>current[j - 1]\<close>.
\<close>

fun fill_row :: "'a \<Rightarrow> 'a list \<Rightarrow> int \<Rightarrow> int list \<Rightarrow> int \<Rightarrow> int list" where
  "fill_row c1 (c2 # s2) diag (up # previous) left =
     (let cost = (if c1 = c2 then 0 else 1);
          cell = min (up + 1) (min (left + 1) (diag + cost))
      in cell # fill_row c1 s2 up previous cell)"
| "fill_row c1 _ diag _ left = []"

definition next_row :: "'a list \<Rightarrow> int list \<Rightarrow> int \<Rightarrow> 'a \<Rightarrow> int list" where
  "next_row s2 previous i c1 = i # fill_row c1 s2 (hd previous) (tl previous) i"

fun rows_loop :: "'a list \<Rightarrow> int \<Rightarrow> 'a list \<Rightarrow> int list \<Rightarrow> int list" where
  "rows_loop s2 i [] previous = previous"
| "rows_loop s2 i (c1 # s1) previous = rows_loop s2 (i + 1) s1 (next_row s2 previous i c1)"

definition first_row :: "'a list \<Rightarrow> int list" where
  "first_row s2 = map int [0 ..< length s2 + 1]"

definition levenshteinDistance :: "'a list \<Rightarrow> 'a list \<Rightarrow> int" where
  "levenshteinDistance s1 s2 =
     (let len1 = length s1; len2 = length s2 in
      if len1 = 0 then int len2
      else if len2 = 0 then int len1
      else if s1 = s2 then 0
      else rows_loop s2 1 s1 (first_row s2) ! len2)"

section \<open>The distance as a recursion\<close>

fun ed :: "'a list \<Rightarrow> 'a list \<Rightarrow> nat" where
  "ed [] ys = length ys"
| "ed xs [] = length xs"
| "ed (x # xs) (y # ys) =
     min (ed xs (y # ys) + 1) (min (ed (x # xs) ys + 1) (ed xs ys + (if x = y then 0 else 1)))"

lemma ed_Nil2 [simp]: "ed xs [] = length xs"
  by (cases xs) simp_all

text \<open>The row after \<open>xs\<close> has been read holds the distances from \<open>xs\<close> to the prefixes of \<open>s2\<close>.\<close>

definition dist_row :: "'a list \<Rightarrow> 'a list \<Rightarrow> int list" where
  "dist_row xs s2 = map (\<lambda>j. int (ed (rev xs) (rev (take j s2)))) [0 ..< length s2 + 1]"

lemma first_row_dist: "first_row s2 = dist_row [] s2"
  by (auto simp: first_row_def dist_row_def)

lemma fill_row_dist:
  "j \<le> length s2 \<Longrightarrow>
   fill_row c1 (drop j s2) (int (ed (rev xs) (rev (take j s2))))
     (map (\<lambda>j. int (ed (rev xs) (rev (take j s2)))) [Suc j ..< length s2 + 1])
     (int (ed (c1 # rev xs) (rev (take j s2))))
   = map (\<lambda>j. int (ed (c1 # rev xs) (rev (take j s2)))) [Suc j ..< length s2 + 1]"
proof (induction "length s2 - j" arbitrary: j)
  case (Suc n)
  then have j: "j < length s2" by simp
  then have d: "drop j s2 = s2 ! j # drop (Suc j) s2"
    and r: "rev (take (Suc j) s2) = s2 ! j # rev (take j s2)"
    and u: "[Suc j ..< length s2 + 1] = Suc j # [Suc (Suc j) ..< length s2 + 1]"
    by (simp_all add: Cons_nth_drop_Suc take_Suc_conv_app_nth upt_conv_Cons)
  have cell: "min (int (ed (rev xs) (s2 ! j # rev (take j s2))) + 1)
        (min (int (ed (c1 # rev xs) (rev (take j s2))) + 1)
             (int (ed (rev xs) (rev (take j s2))) + (if c1 = s2 ! j then 0 else 1)))
      = int (ed (c1 # rev xs) (rev (take (Suc j) s2)))"
    by (simp add: r min_def)
  have IH: "fill_row c1 (drop (Suc j) s2) (int (ed (rev xs) (rev (take (Suc j) s2))))
     (map (\<lambda>j. int (ed (rev xs) (rev (take j s2)))) [Suc (Suc j) ..< length s2 + 1])
     (int (ed (c1 # rev xs) (rev (take (Suc j) s2))))
   = map (\<lambda>j. int (ed (c1 # rev xs) (rev (take j s2)))) [Suc (Suc j) ..< length s2 + 1]"
    using Suc.hyps(2) j by (intro Suc.hyps(1)) auto
  show ?case
    unfolding d u list.map fill_row.simps Let_def
    using cell IH by (simp only: r)
qed simp

lemma next_row_dist:
  "next_row s2 (dist_row xs s2) (int (length xs) + 1) c1 = dist_row (xs @ [c1]) s2"
proof -
  have "[0 ..< length s2 + 1] = 0 # [Suc 0 ..< length s2 + 1]"
    by (rule upt_conv_Cons) simp
  then show ?thesis
    using fill_row_dist [of 0 s2 c1 xs]
    by (simp add: next_row_def dist_row_def add.commute del: upt_Suc)
qed

lemma rows_loop_dist:
  "rows_loop s2 (int (length xs) + 1) s1 (dist_row xs s2) = dist_row (xs @ s1) s2"
proof (induction s1 arbitrary: xs)
  case (Cons c1 s1)
  from Cons [of "xs @ [c1]"] show ?case
    unfolding rows_loop.simps next_row_dist by (simp add: add.commute)
qed simp

section \<open>Alignments: the distance is a metric and direction-free\<close>

inductive align :: "'a list \<Rightarrow> 'a list \<Rightarrow> nat \<Rightarrow> bool" where
  nil: "align [] [] 0"
| del: "align xs ys n \<Longrightarrow> align (x # xs) ys (Suc n)"
| ins: "align xs ys n \<Longrightarrow> align xs (y # ys) (Suc n)"
| both: "align xs ys n \<Longrightarrow> align (x # xs) (y # ys) (if x = y then n else Suc n)"

lemma align_Nil_left: "align [] ys (length ys)"
  by (induction ys) (auto intro: align.intros)

lemma align_Nil_right: "align xs [] (length xs)"
  by (induction xs) (auto intro: align.intros)

lemma align_ed: "align xs ys (ed xs ys)"
proof (induction xs ys rule: ed.induct)
  case (1 ys)
  then show ?case by (simp add: align_Nil_left)
next
  case (2 v va)
  then show ?case using align_Nil_right [of "v # va"] by simp
next
  case (3 x xs y ys)
  then show ?case
    using align.del [OF 3(1), of x] align.ins [OF 3(2), of y] align.both [OF 3(3), of x y]
    by (auto simp: min_def split: if_splits)
qed

lemma ed_Cons_left: "ed (x # xs) ys \<le> Suc (ed xs ys)"
  by (cases ys) auto

lemma ed_Cons_right: "ed xs (y # ys) \<le> Suc (ed xs ys)"
  by (cases xs) auto

lemma ed_Cons_both: "ed (x # xs) (y # ys) \<le> ed xs ys + (if x = y then 0 else 1)"
  by simp

lemma ed_le_align: "align xs ys n \<Longrightarrow> ed xs ys \<le> n"
proof (induction rule: align.induct)
  case (del xs ys n x)
  then show ?case using ed_Cons_left [of x xs ys] by simp
next
  case (ins xs ys n y)
  then show ?case using ed_Cons_right [of xs y ys] by simp
qed (auto simp: min_le_iff_disj)

lemma align_trans:
  "align xs ys n \<Longrightarrow> align ys zs m \<Longrightarrow> \<exists>k \<le> n + m. align xs zs k"
proof (induction "length xs + length ys + length zs" arbitrary: xs ys zs n m rule: less_induct)
  case less
  note IH = less.hyps
  have left: ?case if "xs = x # xs'" "n = Suc n'" "align xs' ys n'" for x xs' n'
  proof -
    from that obtain k where "k \<le> n' + m" "align xs' zs k"
      using IH [of xs' ys zs n' m] less.prems(2) by auto
    with that show ?thesis by (intro exI [of _ "Suc k"]) (auto intro: align.del)
  qed
  from less.prems(2) show ?case
  proof (cases rule: align.cases)
    case nil
    then show ?thesis using less.prems(1) by auto
  next
    case d: (del ys' m' y)
    from less.prems(1) show ?thesis
    proof (cases rule: align.cases)
      case (ins ya n' y')
      with d have "\<exists>k \<le> n' + m'. align xs zs k" by (intro IH [of xs ys' zs n' m']) auto
      then obtain k where "k \<le> n' + m'" "align xs zs k" by blast
      with ins d show ?thesis by (intro exI [of _ k]) auto
    next
      case (both xs' ya n' x y')
      with d have "\<exists>k \<le> n' + m'. align xs' zs k" by (intro IH [of xs' ys' zs n' m']) auto
      then obtain k where k: "k \<le> n' + m'" "align xs' zs k" by blast
      with both d show ?thesis by (intro exI [of _ "Suc k"]) (auto intro: align.del)
    qed (use d left in auto)
  next
    case i: (ins zs' m' z)
    then have "\<exists>k \<le> n + m'. align xs zs' k" using less.prems(1) by (intro IH [of xs ys zs' n m']) auto
    then obtain k where "k \<le> n + m'" "align xs zs' k" by blast
    with i show ?thesis by (intro exI [of _ "Suc k"]) (auto intro: align.ins)
  next
    case b: (both ys' zs' m' y z)
    from less.prems(1) show ?thesis
    proof (cases rule: align.cases)
      case (ins ya n' y')
      with b have "\<exists>k \<le> n' + m'. align xs zs' k" by (intro IH [of xs ys' zs' n' m']) auto
      then obtain k where "k \<le> n' + m'" "align xs zs' k" by blast
      with ins b show ?thesis by (intro exI [of _ "Suc k"]) (auto intro: align.ins)
    next
      case (both xs' ya n' x y')
      with b have "\<exists>k \<le> n' + m'. align xs' zs' k" by (intro IH [of xs' ys' zs' n' m']) auto
      then obtain k where k: "k \<le> n' + m'" "align xs' zs' k" by blast
      from align.both [OF k(2), of x z] both b k(1) show ?thesis
        by (intro exI [of _ "if x = z then k else Suc k"]) auto
    qed (use b left in auto)
  qed
qed

lemma align_append: "align xs ys n \<Longrightarrow> align xs' ys' m \<Longrightarrow> \<exists>k \<le> n + m. align (xs @ xs') (ys @ ys') k"
proof (induction rule: align.induct)
  case (del xs ys n x)
  then obtain k where "k \<le> n + m" "align (xs @ xs') (ys @ ys') k" by blast
  then show ?case by (intro exI [of _ "Suc k"]) (auto intro: align.del)
next
  case (ins xs ys n y)
  then obtain k where "k \<le> n + m" "align (xs @ xs') (ys @ ys') k" by blast
  then show ?case by (intro exI [of _ "Suc k"]) (auto intro: align.ins)
next
  case (both xs ys n x y)
  then obtain k where "k \<le> n + m" "align (xs @ xs') (ys @ ys') k" by blast
  then show ?case
    using align.both [of "xs @ xs'" "ys @ ys'" k x y]
    by (intro exI [of _ "if x = y then k else Suc k"]) auto
qed auto

lemma align_refl: "align xs xs 0"
  by (induction xs) (auto intro: align.nil dest: align.both [where x = x and y = x for x])

lemma align_rev: "align xs ys n \<Longrightarrow> \<exists>k \<le> n. align (rev xs) (rev ys) k"
proof (induction rule: align.induct)
  case (del xs ys n x)
  then obtain k where k: "k \<le> n" "align (rev xs) (rev ys) k" by blast
  from align_append [OF k(2) align_Nil_right [of "[x]"]] obtain l where
    "l \<le> k + 1" "align (rev xs @ [x]) (rev ys) l" by auto
  with k(1) show ?case by (intro exI [of _ l]) simp
next
  case (ins xs ys n y)
  then obtain k where k: "k \<le> n" "align (rev xs) (rev ys) k" by blast
  from align_append [OF k(2) align_Nil_left [of "[y]"]] obtain l where
    "l \<le> k + 1" "align (rev xs) (rev ys @ [y]) l" by auto
  with k(1) show ?case by (intro exI [of _ l]) simp
next
  case (both xs ys n x y)
  then obtain k where k: "k \<le> n" "align (rev xs) (rev ys) k" by blast
  from align_append [OF k(2) align.both [OF align.nil, of x y]] obtain l where
    "l \<le> k + (if x = y then 0 else Suc 0)" "align (rev xs @ [x]) (rev ys @ [y]) l" by auto
  with k(1) show ?case by (intro exI [of _ l]) (auto split: if_splits)
qed (auto intro: align.nil)

lemma ed_rev: "ed (rev xs) (rev ys) = ed xs ys"
proof (rule antisym)
  show "ed (rev xs) (rev ys) \<le> ed xs ys"
    using align_rev [OF align_ed, of xs ys] ed_le_align le_trans by blast
  show "ed xs ys \<le> ed (rev xs) (rev ys)"
    using align_rev [OF align_ed, of "rev xs" "rev ys"] ed_le_align le_trans by fastforce
qed

section \<open>Single edits and the property\<close>

text \<open>One edit: insert, delete or replace a character anywhere.\<close>

inductive edit_step :: "'a list \<Rightarrow> 'a list \<Rightarrow> bool" where
  insert: "edit_step (u @ v) (u @ x # v)"
| delete: "edit_step (u @ x # v) (u @ v)"
| replace: "edit_step (u @ x # v) (u @ y # v)"

lemma edit_step_Cons: "edit_step xs ys \<Longrightarrow> edit_step (z # xs) (z # ys)"
  by (induction rule: edit_step.induct) (metis append_Cons edit_step.intros)+

lemma edit_steps_Cons: "(edit_step ^^ n) xs ys \<Longrightarrow> (edit_step ^^ n) (z # xs) (z # ys)"
  by (induction n arbitrary: ys) (auto intro: edit_step_Cons)

lemma edit_step_align: "edit_step xs ys \<Longrightarrow> \<exists>k \<le> 1. align xs ys k"
proof (induction rule: edit_step.induct)
  case (insert u v x)
  from align_append [OF align_refl align.ins [OF align_refl]] show ?case by simp
next
  case (delete u x v)
  from align_append [OF align_refl align.del [OF align_refl]] show ?case by simp
next
  case (replace u x v y)
  from align_append [OF align_refl [of u] align.both [OF align_refl [of v], of x y]] show ?case
    by (auto split: if_splits intro: le_trans)
qed

lemma edit_steps_align: "(edit_step ^^ n) xs ys \<Longrightarrow> \<exists>k \<le> n. align xs ys k"
proof (induction n arbitrary: ys)
  case 0
  then show ?case using align_refl by auto
next
  case (Suc n)
  then obtain zs where "(edit_step ^^ n) xs zs" "edit_step zs ys" by auto
  with Suc.IH edit_step_align obtain k l where "k \<le> n" "align xs zs k" "l \<le> 1" "align zs ys l" by blast
  then obtain m where "m \<le> k + l" "align xs ys m" using align_trans by blast
  with \<open>k \<le> n\<close> \<open>l \<le> 1\<close> show ?case by (intro exI [of _ m]) simp
qed

lemma align_edit_steps: "align xs ys n \<Longrightarrow> \<exists>k \<le> n. (edit_step ^^ k) xs ys"
proof (induction rule: align.induct)
  case nil
  then show ?case by (auto intro: exI [of _ 0])
next
  case (del xs ys n x)
  then obtain k where "k \<le> n" "(edit_step ^^ k) xs ys" by blast
  moreover have "edit_step (x # xs) xs" using edit_step.delete [of "[]" x xs] by simp
  ultimately have "(edit_step ^^ Suc k) (x # xs) ys" by (blast intro: relpowp_Suc_I2)
  with \<open>k \<le> n\<close> show ?case by blast
next
  case (ins xs ys n y)
  then obtain k where "k \<le> n" "(edit_step ^^ k) xs ys" by blast
  moreover have "edit_step ys (y # ys)" using edit_step.insert [of "[]" ys y] by simp
  ultimately show ?case by (intro exI [of _ "Suc k"]) (auto intro: relpowp_Suc_I)
next
  case (both xs ys n x y)
  then obtain k where k: "k \<le> n" "(edit_step ^^ k) xs ys" by blast
  show ?case
  proof (cases "x = y")
    case True
    with k show ?thesis by (auto intro: edit_steps_Cons)
  next
    case False
    have "edit_step (y # ys) (y # ys) \<or> edit_step (x # ys) (y # ys)"
      using edit_step.replace [of "[]" x ys y] by simp
    moreover have "(edit_step ^^ k) (x # xs) (x # ys)" using k(2) by (rule edit_steps_Cons)
    moreover have "edit_step (x # ys) (y # ys)" using edit_step.replace [of "[]" x ys y] by simp
    ultimately have "(edit_step ^^ Suc k) (x # xs) (y # ys)" by (auto intro: relpowp_Suc_I)
    with False k(1) show ?thesis by (intro exI [of _ "Suc k"]) auto
  qed
qed

lemma ed_Least: "ed xs ys = (LEAST n. (edit_step ^^ n) xs ys)"
proof -
  obtain k where k: "k \<le> ed xs ys" "(edit_step ^^ k) xs ys"
    using align_edit_steps [OF align_ed] by blast
  have lower: "ed xs ys \<le> n" if "(edit_step ^^ n) xs ys" for n
    using edit_steps_align [OF that] ed_le_align le_trans by blast
  with k have "(edit_step ^^ ed xs ys) xs ys" by (metis antisym)
  then show ?thesis using lower by (intro Least_equality [symmetric])
qed

lemma ed_refl [simp]: "ed xs xs = 0"
  using ed_le_align [OF align_refl] by blast

lemma levenshtein_ed: "levenshteinDistance s1 s2 = int (ed s1 s2)"
proof -
  have "rows_loop s2 1 s1 (first_row s2) ! length s2 = int (ed s1 s2)"
    using rows_loop_dist [of s2 "[]" s1] ed_rev [of s1 s2]
    by (simp add: first_row_dist dist_row_def nth_append del: upt_Suc)
  then show ?thesis by (auto simp: levenshteinDistance_def Let_def)
qed

text \<open>C21: The two-row computation, shortcuts included, returns the least number of single-character
  insertions, deletions and replacements that turn the first string into the second.\<close>

theorem levenshtein_least_edits:
  "levenshteinDistance s1 s2 = int (LEAST n. (edit_step ^^ n) s1 s2)"
  by (simp add: levenshtein_ed ed_Least)

lemma ed_zero_iff: "ed xs ys = 0 \<longleftrightarrow> xs = ys"
proof
  assume "ed xs ys = 0"
  with align_edit_steps [OF align_ed, of xs ys] show "xs = ys" by auto
qed simp

lemma align_sym: "align xs ys n \<Longrightarrow> align ys xs n"
proof (induction rule: align.induct)
  case (both xs ys n x y)
  from align.both [OF both.IH, of y x] show ?case by (cases "x = y") auto
qed (auto intro: align.intros)

lemma ed_sym: "ed xs ys = ed ys xs"
  by (meson align_ed align_sym antisym ed_le_align)

lemma ed_triangle: "ed xs zs \<le> ed xs ys + ed ys zs"
  using align_trans [OF align_ed align_ed, of xs ys zs] ed_le_align le_trans by blast

lemma align_length: "align xs ys n \<Longrightarrow> length xs \<le> length ys + n \<and> length ys \<le> length xs + n"
  by (induction rule: align.induct) auto

lemma ed_upper: "ed xs ys \<le> max (length xs) (length ys)"
  by (induction xs ys rule: ed.induct) (auto simp: min_le_iff_disj split: if_splits)

text \<open>The computed distance is a metric, and it lies between the difference of the lengths and
  the length of the longer string.\<close>

theorem levenshtein_metric:
  "(levenshteinDistance a b = 0 \<longleftrightarrow> a = b) \<and>
   levenshteinDistance a b = levenshteinDistance b a \<and>
   levenshteinDistance a c \<le> levenshteinDistance a b + levenshteinDistance b c \<and>
   \<bar>int (length a) - int (length b)\<bar> \<le> levenshteinDistance a b \<and>
   levenshteinDistance a b \<le> int (max (length a) (length b))"
  using ed_triangle [of a c b] align_length [OF align_ed, of a b] ed_upper [of a b]
  by (auto simp: levenshtein_ed ed_zero_iff ed_sym [of a b])

end
