(* ===== verification/Rng.thy ===== *)
theory Rng
  imports Prelude
begin

text \<open>
  \<open>libcockatrice_rng\<close>: \<open>RNG_SFMT::rand\<close> and its rejection sampling \<open>cdf\<close> over a 64-bit
  generator, and \<open>RNG_Abstract::makeNumbersVector\<close>. The SFMT generator itself is third-party code;
  it is the parameter \<open>gen\<close>, a function from its state to a 64-bit number and its next state.
  A result of \<open>None\<close> is a call that does not return (every number drawn is rejected), an \<open>Inl\<close> is
  an exception or a trap. The locale \<open>range_rng\<close> is what the rest of the program relies on when it
  calls \<open>rng->rand\<close>.
\<close>

section \<open>Drawing a number from an interval\<close>

datatype rng_error = NegativeMin int | MinGreaterMax "32 word" "32 word" | DivisionByZero

type_synonym 's generator = "'s \<Rightarrow> 64 word \<times> 's"

type_synonym ('s, 'a) draw = "(rng_error + 'a \<times> 's) option"

definition uint64_max :: "64 word" where
  "uint64_max = 18446744073709551615"

definition cdf_diameter :: "32 word \<Rightarrow> 32 word \<Rightarrow> 32 word" where
  "cdf_diameter mn mx = mx - mn + 1"

definition cdf_buckets :: "32 word \<Rightarrow> 64 word" where
  "cdf_buckets diameter = uint64_max div ucast diameter"

definition cdf_limit :: "32 word \<Rightarrow> 64 word" where
  "cdf_limit diameter = ucast diameter * cdf_buckets diameter"

definition cdf_value :: "32 word \<Rightarrow> 64 word \<Rightarrow> 64 word \<Rightarrow> 32 word" where
  "cdf_value mn buckets r = ucast (r div buckets + ucast mn)"

text \<open>The \<open>do \<dots> while (rand >= limit)\<close> loop.\<close>

partial_function (option) reject_loop :: "'s generator \<Rightarrow> 64 word \<Rightarrow> 's \<Rightarrow> (64 word \<times> 's) option" where
  "reject_loop gen limit s =
     (case gen s of (r, s') \<Rightarrow> if limit \<le> r then reject_loop gen limit s' else Some (r, s'))"

declare reject_loop.simps [code]

definition cdf :: "'s generator \<Rightarrow> 32 word \<Rightarrow> 32 word \<Rightarrow> 's \<Rightarrow> ('s, 32 word) draw" where
  "cdf gen mn mx s =
     (if mx < mn then Some (Inl (MinGreaterMax mn mx))
      else
        let diameter = cdf_diameter mn mx in
        if diameter = 0 then Some (Inl DivisionByZero)
        else
          let buckets = cdf_buckets diameter; limit = cdf_limit diameter in
          case reject_loop gen limit s of
            None \<Rightarrow> None
          | Some (r, s') \<Rightarrow> Some (Inr (cdf_value mn buckets r, s')))"

definition rand :: "'s generator \<Rightarrow> int \<Rightarrow> int \<Rightarrow> 's \<Rightarrow> ('s, 32 word) draw" where
  "rand gen mn mx s =
     (if mn < 0 then Some (Inl (NegativeMin mn))
      else if mn = mx then Some (Inr (word_of_int mx, s))
      else if mn = 0 \<and> mx < 0 then cdf gen 0 (word_of_int (- mx)) s
      else cdf gen (word_of_int mn) (word_of_int mx) s)"

text \<open>\<open>makeNumbersVector\<close>: the histogram of \<open>n\<close> draws; a draw outside the interval is only logged.\<close>

fun numbers_loop ::
  "(int \<Rightarrow> int \<Rightarrow> 's \<Rightarrow> ('s, 32 word) draw) \<Rightarrow> nat \<Rightarrow> int \<Rightarrow> int \<Rightarrow> nat list \<Rightarrow> 's \<Rightarrow> ('s, nat list) draw"
where
  "numbers_loop rnd 0 mn mx bins s = Some (Inr (bins, s))"
| "numbers_loop rnd (Suc n) mn mx bins s =
     (case rnd mn mx s of
        None \<Rightarrow> None
      | Some (Inl e) \<Rightarrow> Some (Inl e)
      | Some (Inr (u, s')) \<Rightarrow>
          let number = sint u in
          if number < mn \<or> number > mx then numbers_loop rnd n mn mx bins s'
          else numbers_loop rnd n mn mx
                 (bins[nat (number - mn) := Suc (bins ! nat (number - mn))]) s')"

definition makeNumbersVector ::
  "(int \<Rightarrow> int \<Rightarrow> 's \<Rightarrow> ('s, 32 word) draw) \<Rightarrow> nat \<Rightarrow> int \<Rightarrow> int \<Rightarrow> 's \<Rightarrow> ('s, nat list) draw"
where
  "makeNumbersVector rnd n mn mx s =
     numbers_loop rnd n mn mx (replicate (nat (mx - mn + 1)) 0) s"

section \<open>The arithmetic of the buckets\<close>

abbreviation bucket_size :: "nat \<Rightarrow> nat" where
  "bucket_size d \<equiv> 18446744073709551615 div d"

lemma unat_uint64_max [simp]: "unat uint64_max = 18446744073709551615"
  by (simp add: uint64_max_def)

lemma unat_up [simp]: "unat (ucast (x :: 32 word) :: 64 word) = unat x"
proof -
  have "unat x < 2 ^ 64" using unsigned_less [of x, where ?'a = nat] by simp
  then show ?thesis by (simp add: unsigned_ucast_eq take_bit_nat_eq_self)
qed

lemma unat_cdf_buckets: "unat (cdf_buckets d) = bucket_size (unat d)"
  by (simp add: cdf_buckets_def unat_div_distrib)

lemma unat_cdf_limit: "unat (cdf_limit d) = unat d * bucket_size (unat d)"
proof -
  have "unat d * bucket_size (unat d) \<le> 18446744073709551615"
    by (metis div_times_less_eq_dividend mult.commute)
  then have "unat d * bucket_size (unat d) < 2 ^ 64" by (rule le_less_trans) simp
  then have "unat (ucast d :: 64 word) * unat (cdf_buckets d) < 2 ^ LENGTH(64)"
    by (simp add: unat_cdf_buckets)
  then show ?thesis
    unfolding cdf_limit_def by (subst (asm) unat_mult_lem) (simp add: unat_cdf_buckets)
qed

lemma unat_diameter:
  assumes "mn \<le> mx" and "cdf_diameter mn mx \<noteq> 0"
  shows "unat (cdf_diameter mn mx) = unat mx - unat mn + 1"
proof -
  have "unat (mx - mn) = unat mx - unat mn" using assms(1) by (simp add: unat_sub)
  moreover have "unat (mx - mn + 1) = unat (mx - mn) + 1"
    using assms(2) by (metis Suc_eq_plus1 add.commute cdf_diameter_def unatSuc)
  ultimately show ?thesis by (simp add: cdf_diameter_def)
qed

lemma bucket_size_pos: "0 < unat (d :: 32 word) \<Longrightarrow> 0 < bucket_size (unat d)"
  using unsigned_less [of d, where ?'a = nat] by (simp add: div_greater_zero_iff)

lemma limit_large:
  assumes "(d :: 32 word) \<noteq> 0"
  shows "18446744073709551615 - 4294967295 < unat (cdf_limit d)"
proof -
  have "0 < unat d" and d: "unat d < 4294967296"
    using assms unsigned_less [of d, where ?'a = nat] by (simp_all add: unat_gt_0)
  moreover have "18446744073709551615 = unat d * bucket_size (unat d) + 18446744073709551615 mod unat d"
    by simp
  moreover have "18446744073709551615 mod unat d < unat d" using \<open>0 < unat d\<close> by simp
  ultimately show ?thesis unfolding unat_cdf_limit by linarith
qed

lemma unat_cdf_value:
  assumes "mn \<le> mx" and nz: "cdf_diameter mn mx \<noteq> 0" and r: "r < cdf_limit (cdf_diameter mn mx)"
  defines "b \<equiv> cdf_buckets (cdf_diameter mn mx)"
  shows "unat (cdf_value mn b r) = unat r div unat b + unat mn"
    and "unat r div unat b + unat mn \<le> unat mx"
proof -
  let ?d = "unat (cdf_diameter mn mx)"
  have d: "?d = unat mx - unat mn + 1" by (rule unat_diameter [OF assms(1,2)])
  have "unat r < unat b * ?d"
    using r by (simp add: word_less_nat_alt unat_cdf_limit b_def unat_cdf_buckets mult.commute)
  then have q: "unat r div unat b < ?d" by (simp add: less_mult_imp_div_less mult.commute)
  moreover have "unat mn \<le> unat mx" using assms(1) by (simp add: word_le_nat_alt)
  ultimately show le: "unat r div unat b + unat mn \<le> unat mx" using d by linarith
  have mx: "unat mx < 4294967296" using unsigned_less [of mx, where ?'a = nat] by simp
  have "unat (r div b + ucast mn) = unat r div unat b + unat mn"
    using le mx by (subst unat_add_lem [THEN iffD1]) (simp_all add: unat_div_distrib)
  then show "unat (cdf_value mn b r) = unat r div unat b + unat mn"
    using le mx by (simp add: cdf_value_def unsigned_ucast_eq take_bit_nat_eq_self_iff)
qed

section \<open>The contract of a range generator\<close>

lemma reject_loop_accepts:
  assumes "reject_loop gen limit s = Some (r, s')"
  shows "r < limit"
proof -
  have "fst (r, s') < limit"
    by (rule reject_loop.raw_induct [where P = "\<lambda>gen limit s y. fst y < limit", OF _ assms])
       (auto split: prod.splits if_splits)
  then show ?thesis by simp
qed

text \<open>The state of the generator after \<open>n\<close> numbers have been drawn.\<close>

definition drawn :: "'s generator \<Rightarrow> nat \<Rightarrow> 's \<Rightarrow> 's" where
  "drawn gen n s = ((\<lambda>t. snd (gen t)) ^^ n) s"

lemma reject_loop_returns:
  "fst (gen (drawn gen n s)) < limit \<Longrightarrow> \<exists>y. reject_loop gen limit s = Some y"
proof (induction n arbitrary: s)
  case 0
  then show ?case by (auto simp: drawn_def reject_loop.simps [of gen limit s] split: prod.splits)
next
  case (Suc n)
  from Suc.prems have "fst (gen (drawn gen n (snd (gen s)))) < limit"
    by (simp add: drawn_def funpow_Suc_right del: funpow.simps)
  from Suc.IH [OF this] show ?case
    by (subst reject_loop.simps) (auto split: prod.splits)
qed

lemma cdf_range:
  assumes "mn \<le> mx" and "cdf gen mn mx s = Some (Inr (u, s'))"
  shows "unat mn \<le> unat u \<and> unat u \<le> unat mx"
  using assms unat_cdf_value [of mn mx] reject_loop_accepts
  by (fastforce simp: cdf_def Let_def split: if_splits option.splits prod.splits)

lemma cdf_no_error:
  assumes "mn \<le> mx" and "cdf_diameter mn mx \<noteq> 0"
  shows "cdf gen mn mx s \<noteq> Some (Inl e)"
  using assms by (auto simp: cdf_def Let_def split: option.splits)

text \<open>The bounds a caller passes, as unsigned numbers.\<close>

lemma int32_word_bounds:
  assumes "0 \<le> mn" "mn \<le> mx" "mx \<le> int32_max"
  shows "unat (word_of_int mn :: 32 word) = nat mn" "unat (word_of_int mx :: 32 word) = nat mx"
    and "(word_of_int mn :: 32 word) \<le> word_of_int mx"
    and "cdf_diameter (word_of_int mn) (word_of_int mx) \<noteq> 0"
proof -
  have small: "unat (word_of_int i :: 32 word) = nat i" if "0 \<le> i" "i \<le> int32_max" for i
    using that
    by (simp add: unat_eq_nat_uint uint_word_of_int int32_max_def)
  show *: "unat (word_of_int mn :: 32 word) = nat mn" "unat (word_of_int mx :: 32 word) = nat mx"
    using assms small [of mn] small [of mx] by simp_all
  with assms show le: "(word_of_int mn :: 32 word) \<le> word_of_int mx"
    by (simp add: word_le_nat_alt)
  have "unat (word_of_int mx - word_of_int mn :: 32 word) = nat mx - nat mn"
    using le * by (simp add: unat_sub)
  moreover have "unat (- 1 :: 32 word) = 4294967295" by (simp add: unsigned_minus_1_eq_mask mask_eq_exp_minus_1)
  ultimately have "word_of_int mx - word_of_int mn \<noteq> (- 1 :: 32 word)"
    using assms by (auto simp: int32_max_def)
  then show "cdf_diameter (word_of_int mn) (word_of_int mx) \<noteq> 0"
    unfolding cdf_diameter_def by (metis add.inverse_inverse add_eq_0_iff2 eq_neg_iff_add_eq_0)
qed

locale range_rng =
  fixes rnd :: "int \<Rightarrow> int \<Rightarrow> 's \<Rightarrow> ('s, 32 word) draw"
  assumes no_error: "0 \<le> a \<Longrightarrow> a \<le> b \<Longrightarrow> b \<le> int32_max \<Longrightarrow> rnd a b s \<noteq> Some (Inl e)"
    and in_range: "0 \<le> a \<Longrightarrow> a \<le> b \<Longrightarrow> b \<le> int32_max \<Longrightarrow> rnd a b s = Some (Inr (u, s')) \<Longrightarrow>
                   a \<le> uint u \<and> uint u \<le> b"
begin

lemma sint_draw:
  assumes "0 \<le> a" "a \<le> b" "b \<le> int32_max" "rnd a b s = Some (Inr (u, s'))"
  shows "sint u = uint u" "a \<le> sint u" "sint u \<le> b"
proof -
  have r: "a \<le> uint u" "uint u \<le> b" using in_range [OF assms] by auto
  then have "0 \<le> uint u" "uint u < 2147483648" using assms by (simp_all add: int32_max_def)
  then show "sint u = uint u"
    using order_trans [of "- 2147483648" 0 "uint u"]
    by (simp add: sint_uint signed_take_bit_int_eq_self_iff)
  with r show "a \<le> sint u" "sint u \<le> b" by simp_all
qed

lemma numbers_loop_sum:
  assumes "0 \<le> a" "a \<le> b" "b \<le> int32_max"
    and "length bins = nat (b - a + 1)"
    and "numbers_loop rnd n a b bins s = Some (Inr (res, s'))"
  shows "length res = nat (b - a + 1) \<and> sum_list res = sum_list bins + n"
  using assms(4,5)
proof (induction n arbitrary: bins s)
  case (Suc n)
  then obtain u t where d: "rnd a b s = Some (Inr (u, t))"
    by (auto split: option.splits sum.splits prod.splits)
  note r = sint_draw [OF assms(1-3) d]
  let ?i = "nat (sint u - a)"
  have i: "?i < length bins" using r Suc.prems(1) by simp
  have rec: "numbers_loop rnd n a b (bins[?i := Suc (bins ! ?i)]) t = Some (Inr (res, s'))"
    using Suc.prems(2) d r by (simp add: Let_def)
  have "sum_list (bins[?i := Suc (bins ! ?i)]) = sum_list bins + 1"
    using sum_list_update_nat [OF i, of "Suc (bins ! ?i)"] by simp
  with Suc.IH [OF _ rec] Suc.prems(1) show ?case by simp
qed simp

end

lemma rand_in_cdf:
  assumes "0 \<le> a" "a < b"
  shows "rand gen a b s = cdf gen (word_of_int a) (word_of_int b) s"
  using assms by (simp add: rand_def)

interpretation sfmt: range_rng "rand gen" for gen :: "'s generator"
proof unfold_locales
  fix a b s e assume ab: "0 \<le> a" "a \<le> b" "b \<le> int32_max"
  note w = int32_word_bounds [OF ab]
  show "rand gen a b s \<noteq> Some (Inl e)"
  proof (cases "a = b")
    case False
    with ab have "a < b" by simp
    show ?thesis
      unfolding rand_in_cdf [OF ab(1) \<open>a < b\<close>] by (rule cdf_no_error [OF w(3,4)])
  qed (use ab(1) in \<open>simp add: rand_def\<close>)
next
  fix a b s u s' assume ab: "0 \<le> a" "a \<le> b" "b \<le> int32_max"
    and r: "rand gen a b s = Some (Inr (u, s'))"
  note w = int32_word_bounds [OF ab]
  show "a \<le> uint u \<and> uint u \<le> b"
  proof (cases "a = b")
    case True
    then have "u = word_of_int b" using r ab by (simp add: rand_def)
    with w(2) True ab show ?thesis unfolding uint_nat by simp
  next
    case False
    with ab have "a < b" by simp
    with r ab have "cdf gen (word_of_int a) (word_of_int b) s = Some (Inr (u, s'))"
      by (simp add: rand_in_cdf)
    from cdf_range [OF w(3) this] w(1,2) have "nat a \<le> unat u" "unat u \<le> nat b" by simp_all
    with ab show ?thesis unfolding uint_nat by linarith
  qed
qed

section \<open>Properties\<close>

lemma div_nat_eq_iff:
  assumes "0 < (b :: nat)"
  shows "m div b = k \<longleftrightarrow> k * b \<le> m \<and> m < Suc k * b"
proof
  assume "m div b = k"
  then show "k * b \<le> m \<and> m < Suc k * b"
    using mod_less_divisor [OF assms, of m] div_mult_mod_eq [of m b] by auto
next
  assume "k * b \<le> m \<and> m < Suc k * b"
  then show "m div b = k" by (intro div_nat_eqI) (simp_all add: mult.commute)
qed

lemma cdf_returns:
  assumes "mn \<le> mx" and "cdf_diameter mn mx \<noteq> 0"
    and "unat (fst (gen (drawn gen n s))) \<le> 18446744069414584320"
  shows "\<exists>u s'. cdf gen mn mx s = Some (Inr (u, s'))"
proof -
  have "fst (gen (drawn gen n s)) < cdf_limit (cdf_diameter mn mx)"
    using assms(3) limit_large [OF assms(2)] by (simp add: word_less_nat_alt)
  from reject_loop_returns [where gen = gen and n = n and s = s, OF this] assms(1,2) show ?thesis
    by (auto simp: cdf_def Let_def)
qed

text \<open>C32: For bounds \<open>0 \<le> min \<le> max\<close> a call returns as soon as the generator yields one number
  that is at most \<open>2^64 - 2^32\<close>, and the number returned lies in the interval.\<close>

theorem rand_in_interval:
  assumes "0 \<le> mn" and "mn \<le> mx" and "mx \<le> int32_max"
    and "unat (fst (gen (drawn gen n s))) \<le> 18446744069414584320"
  shows "\<exists>u s'. rand gen mn mx s = Some (Inr (u, s')) \<and> mn \<le> uint u \<and> uint u \<le> mx"
proof -
  have "\<exists>u s'. rand gen mn mx s = Some (Inr (u, s'))"
  proof (cases "mn = mx")
    case False
    with assms(2) have "mn < mx" by simp
    show ?thesis
      unfolding rand_in_cdf [OF assms(1) \<open>mn < mx\<close>]
      by (rule cdf_returns [where gen = gen and n = n and s = s])
         (use int32_word_bounds(3,4) [OF assms(1-3)] assms(4) in simp_all)
  qed (use assms(1) in \<open>simp add: rand_def\<close>)
  then obtain u s' where r: "rand gen mn mx s = Some (Inr (u, s'))" by blast
  from sfmt.in_range [OF assms(1-3) r] r show ?thesis by blast
qed

text \<open>A generator that first yields the largest number and then small ones.\<close>

definition example_gen :: "64 word generator" where
  "example_gen s = (s, s * 5 + 12)"

theorem rand_in_interval_witness:
  "\<exists>u s'. rand example_gen 1 6 18446744073709551615 = Some (Inr (u, s')) \<and>
     1 \<le> uint (u :: 32 word) \<and> uint u \<le> 6"
  by (rule rand_in_interval [where n = 1])
     (simp_all add: int32_max_def drawn_def example_gen_def)

text \<open>C28: The accepted generator values are split evenly: every number of the interval is the
  result for exactly \<open>buckets\<close> of them, so an unbiased generator gives an unbiased result.\<close>

theorem cdf_unbiased:
  assumes "mn \<le> v" and "v \<le> mx" and "cdf_diameter mn mx \<noteq> 0"
  shows "card {r. r < cdf_limit (cdf_diameter mn mx) \<and>
                  cdf_value mn (cdf_buckets (cdf_diameter mn mx)) r = v}
         = unat (cdf_buckets (cdf_diameter mn mx))"
proof -
  let ?d = "cdf_diameter mn mx"
  let ?B = "unat (cdf_buckets ?d)" and ?k = "unat v - unat mn"
  let ?S = "{r. r < cdf_limit ?d \<and> cdf_value mn (cdf_buckets ?d) r = v}"
  have le: "mn \<le> mx" using assms(1,2) by simp
  have d: "unat ?d = unat mx - unat mn + 1" by (rule unat_diameter [OF le assms(3)])
  have B: "0 < ?B" using assms(3) by (simp add: unat_cdf_buckets bucket_size_pos unat_gt_0)
  have lim: "unat (cdf_limit ?d) = unat ?d * ?B" by (simp add: unat_cdf_limit unat_cdf_buckets)
  have vk: "unat v = ?k + unat mn" "?k < unat ?d"
    using assms(1,2) d by (simp_all add: word_le_nat_alt)
  have top: "(?k + 1) * ?B \<le> unat (cdf_limit ?d)"
    unfolding lim using vk(2) by (intro mult_le_mono1) simp
  have eq: "r \<in> ?S \<longleftrightarrow> unat r div ?B = ?k \<and> r < cdf_limit ?d" for r
    using unat_cdf_value(1) [OF le assms(3), of r] vk(1)
    by (auto simp: word_unat_eq_iff)
  have iff: "r \<in> ?S \<longleftrightarrow> unat r \<in> {?k * ?B ..< (?k + 1) * ?B}" for r
  proof -
    have "unat r div ?B = ?k \<longleftrightarrow> ?k * ?B \<le> unat r \<and> unat r < (?k + 1) * ?B"
      using div_nat_eq_iff [OF B] by simp
    then show ?thesis unfolding eq using top by (auto simp: word_less_nat_alt)
  qed
  have "unat ` ?S = {?k * ?B ..< (?k + 1) * ?B}"
  proof (intro equalityI subsetI)
    fix n assume n: "n \<in> {?k * ?B ..< (?k + 1) * ?B}"
    with top have "n < 2 ^ 64" using unsigned_less [of "cdf_limit ?d", where ?'a = nat] by simp
    then have u: "unat (word_of_nat n :: 64 word) = n"
      by (simp only: unsigned_of_nat take_bit_nat_eq_self len_num1)
         (simp add: take_bit_nat_eq_self)
    have "word_of_nat n \<in> ?S" unfolding iff u by (rule n)
    then have "unat (word_of_nat n :: 64 word) \<in> unat ` ?S" by (rule imageI)
    then show "n \<in> unat ` ?S" unfolding u .
  qed (use iff in auto)
  moreover have "card (unat ` ?S) = card ?S" by (intro card_image inj_onI) (simp add: word_unat_eq_iff)
  ultimately show ?thesis by simp
qed

theorem cdf_unbiased_witness:
  "card {r. r < cdf_limit (cdf_diameter 1 6) \<and>
            cdf_value 1 (cdf_buckets (cdf_diameter 1 6)) r = 4}
   = unat (cdf_buckets (cdf_diameter 1 6))"
  by (rule cdf_unbiased) (simp_all add: cdf_diameter_def)

lemma unat_negative:
  assumes "- 2147483648 < i" and "i < 0"
  shows "unat (word_of_int i :: 32 word) = nat (4294967296 + i)"
proof -
  have "uint (word_of_int i :: 32 word) = (4294967296 + i) mod 4294967296"
    by (simp add: uint_word_of_int)
  also have "\<dots> = 4294967296 + i" using assms by (intro mod_pos_pos_trivial) simp_all
  finally show ?thesis by (metis nat_uint_eq)
qed

text \<open>C33: Which bounds are rejected: a negative lower bound, and an upper bound that is
  non-negative and below the lower one. A positive lower bound with a negative upper bound is
  not rejected: the conversion to unsigned makes the upper bound a number above \<open>2^31\<close>.\<close>

theorem rand_throws_iff:
  assumes "is_int32 mn" and "is_int32 mx" and "mx \<noteq> int32_min"
  shows "(\<exists>e. rand gen mn mx s = Some (Inl e)) \<longleftrightarrow> mn < 0 \<or> (0 \<le> mx \<and> mx < mn)"
proof -
  consider "mn < 0" | "0 \<le> mn" "mn \<le> mx" | "mn = 0" "mx < 0" | "0 < mn" "mx < 0"
    | "0 \<le> mx" "mx < mn" by linarith
  then show ?thesis
  proof cases
    case 2
    then show ?thesis using sfmt.no_error [of mn mx gen s] assms by (auto simp: is_int32_def)
  next
    case 3
    have "0 \<le> - mx" "- mx \<le> int32_max" using 3 assms by (auto simp: is_int32_def int32_min_def int32_max_def)
    then have "cdf gen 0 (word_of_int (- mx)) s \<noteq> Some (Inl e)" for e
      using int32_word_bounds(3,4) [of 0 "- mx"] by (intro cdf_no_error) simp_all
    with 3 show ?thesis by (auto simp: rand_def)
  next
    case 4
    have m: "unat (word_of_int mx :: 32 word) = nat (4294967296 + mx)"
      using 4 assms by (intro unat_negative) (auto simp: is_int32_def int32_min_def)
    have n: "unat (word_of_int mn :: 32 word) = nat mn"
      using 4 assms int32_word_bounds(1) [of mn mn] by (simp add: is_int32_def)
    have le: "(word_of_int mn :: 32 word) \<le> word_of_int mx"
      using 4 assms m n by (auto simp: word_le_nat_alt is_int32_def int32_min_def int32_max_def)
    have "unat (word_of_int mx - word_of_int mn :: 32 word) = nat (4294967296 + mx) - nat mn"
      using le m n by (simp add: unat_sub)
    moreover have "unat (- 1 :: 32 word) = 4294967295"
      by (simp add: unsigned_minus_1_eq_mask mask_eq_exp_minus_1)
    ultimately have "word_of_int mx - word_of_int mn \<noteq> (- 1 :: 32 word)" using 4 by auto
    then have "cdf_diameter (word_of_int mn) (word_of_int mx) \<noteq> 0"
      unfolding cdf_diameter_def by (metis add.inverse_inverse add_eq_0_iff2 eq_neg_iff_add_eq_0)
    then have "cdf gen (word_of_int mn) (word_of_int mx) s \<noteq> Some (Inl e)" for e
      by (rule cdf_no_error [OF le])
    with 4 show ?thesis by (auto simp: rand_def)
  next
    case 5
    then have b: "0 \<le> mx" "mx \<le> mn" "mn \<le> int32_max" using assms by (auto simp: is_int32_def)
    have "(word_of_int mx :: 32 word) < word_of_int mn"
      using int32_word_bounds(1,2) [OF b] 5 by (simp add: word_less_nat_alt)
    with 5 show ?thesis by (simp add: rand_def cdf_def)
  qed (simp add: rand_def)
qed

theorem rand_throws_iff_witness:
  "(\<exists>e. rand example_gen 3 (- 1) 7 = Some (Inl e)) \<longleftrightarrow> (3 :: int) < 0 \<or> (0 \<le> (- 1 :: int) \<and> (- 1 :: int) < 3)"
  by (rule rand_throws_iff) (simp_all add: is_int32_def int32_min_def int32_max_def)

end
