(* ===== verification/RawJson.thy ===== *)
theory RawJson
  imports Prelude "HOL-Library.Sublist"
begin

text \<open>
  \<open>oracle/src/raw_json_scanner.cpp\<close>, the part that walks a JSON document without building it:
  strings, literals, numbers, the skip functions for values, objects and arrays, and the throttled
  progress reports.

  A pair of pointers \<open>p\<close>, \<open>end\<close> of the code is the list of the bytes from \<open>p\<close> to \<open>end\<close> together,
  where absolute offsets matter, with the offset \<open>e\<close> of \<open>end\<close> in the document: \<open>p\<close> is then at
  \<open>e - length p\<close>. A function that advances \<open>p\<close> returns the rest. The reports made so far are part of
  the state that is threaded through the walk. \<open>QChar::isLetter\<close> and \<open>isDigit\<close> are called on single
  bytes; a byte above 127 is a negative \<open>char\<close> and is neither (the platforms the program ships on
  for the desktop have signed characters).
\<close>

section \<open>Bytes and strings\<close>

abbreviation quote_char :: char where "quote_char \<equiv> CHR 0x22"

abbreviation backslash_char :: char where "backslash_char \<equiv> CHR 0x5C"

definition isWhitespace :: "char \<Rightarrow> bool" where
  "isWhitespace c \<longleftrightarrow> c = CHR '' '' \<or> c = CHR 0x09 \<or> c = CHR 0x0D \<or> c = CHR 0x0A"

definition skipWhitespace :: "string \<Rightarrow> string" where
  "skipWhitespace p = dropWhile isWhitespace p"

definition isHexDigit :: "char \<Rightarrow> bool" where
  "isHexDigit c \<longleftrightarrow> char_between CHR ''0'' CHR ''9'' c \<or> char_between CHR ''a'' CHR ''f'' c \<or>
     char_between CHR ''A'' CHR ''F'' c"

definition hexValue :: "char \<Rightarrow> nat" where
  "hexValue c =
     (if char_between CHR ''0'' CHR ''9'' c then of_char c - 48
      else if char_between CHR ''a'' CHR ''f'' c then of_char c - 97 + 10
      else of_char c - 65 + 10)"

text \<open>The four hex digits after \<open>\u\<close>; \<open>None\<close> when there are fewer than four bytes or one is no digit.\<close>

fun hex4 :: "string \<Rightarrow> (nat \<times> string) option" where
  "hex4 (a # b # c # d # r) =
     (if isHexDigit a \<and> isHexDigit b \<and> isHexDigit c \<and> isHexDigit d
      then Some (((hexValue a * 16 + hexValue b) * 16 + hexValue c) * 16 + hexValue d, r)
      else None)"
| "hex4 _ = None"

definition is_high_surrogate :: "nat \<Rightarrow> bool" where
  "is_high_surrogate u \<longleftrightarrow> 0xD800 \<le> u \<and> u \<le> 0xDBFF"

definition is_low_surrogate :: "nat \<Rightarrow> bool" where
  "is_low_surrogate u \<longleftrightarrow> 0xDC00 \<le> u \<and> u \<le> 0xDFFF"

text \<open>
  The part after \<open>\u\<close> that both string functions validate: a code unit, or two that form a pair.
\<close>

fun low_half :: "string \<Rightarrow> (nat \<times> string) option" where
  "low_half (b # u # r) =
     (if b = backslash_char \<and> u = CHR ''u'' then
        (case hex4 r of
           None \<Rightarrow> None
         | Some (low, r') \<Rightarrow> if is_low_surrogate low then Some (low, r') else None)
      else None)"
| "low_half _ = None"

definition unicode_escape :: "string \<Rightarrow> (nat list \<times> string) option" where
  "unicode_escape r =
     (case hex4 r of
        None \<Rightarrow> None
      | Some (codepoint, r1) \<Rightarrow>
          if is_high_surrogate codepoint then
            (case low_half r1 of None \<Rightarrow> None | Some (low, r2) \<Rightarrow> Some ([codepoint, low], r2))
          else if is_low_surrogate codepoint then None
          else Some ([codepoint], r1))"

text \<open>The one-character escapes and what they stand for.\<close>

definition simple_escape :: "char \<Rightarrow> nat option" where
  "simple_escape c =
     (if c = quote_char then Some 34
      else if c = backslash_char then Some 92
      else if c = CHR ''/'' then Some 47
      else if c = CHR ''b'' then Some 8
      else if c = CHR ''f'' then Some 12
      else if c = CHR ''n'' then Some 10
      else if c = CHR ''r'' then Some 13
      else if c = CHR ''t'' then Some 9
      else None)"

lemma hex4_shrinks [termination_simp]: "hex4 r = Some (u, r') \<Longrightarrow> length r' < length r"
  by (induction r rule: hex4.induct) (auto split: if_splits)

lemma low_half_shrinks: "low_half r = Some (u, r') \<Longrightarrow> length r' < length r"
  by (induction r rule: low_half.induct) (auto dest!: hex4_shrinks split: if_splits option.splits)

lemma unicode_escape_shrinks: "unicode_escape r = Some (us, r') \<Longrightarrow> length r' < length r"
  by (force simp: unicode_escape_def dest!: hex4_shrinks low_half_shrinks
      split: if_splits option.splits)

lemma length_tl_dropWhile: "length (tl (dropWhile P p)) \<le> length p"
  by (induction p) auto

lemma tl_dropWhile_shrinks: "tl (dropWhile P p) = x # r \<Longrightarrow> length r < length p"
  using length_tl_dropWhile [of P p] by simp

text \<open>
  \<open>skipString\<close>: the loop looks for the next quote, then for a backslash before it, and continues
  after the escape the backslash starts. The argument is the text after the opening quote.
\<close>

function skip_string_loop :: "string \<Rightarrow> string option" where
  "skip_string_loop p =
     (if quote_char \<notin> set p then None
      else if backslash_char \<notin> set (takeWhile (\<lambda>c. c \<noteq> quote_char) p)
      then Some (tl (dropWhile (\<lambda>c. c \<noteq> quote_char) p))
      else
        case tl (dropWhile (\<lambda>c. c \<noteq> backslash_char) p) of
          [] \<Rightarrow> None
        | escaped # r \<Rightarrow>
            if escaped = CHR ''u'' then
              (case unicode_escape r of None \<Rightarrow> None | Some (_, r') \<Rightarrow> skip_string_loop r')
            else if simple_escape escaped \<noteq> None then skip_string_loop r
            else None)"
  by pat_completeness auto
termination
  by (relation "measure length")
     (auto dest!: unicode_escape_shrinks tl_dropWhile_shrinks intro: less_trans)

declare skip_string_loop.simps [simp del]

fun skipString :: "string \<Rightarrow> string option" where
  "skipString [] = None"
| "skipString (_ # p) = skip_string_loop p"

text \<open>
  \<open>decodeString\<close>: \<open>utf8\<close> holds the raw bytes since the last escape, which \<open>flush\<close> converts. The
  conversion \<open>QString::fromUtf8\<close> is Qt's and a parameter; a \<open>QString\<close> is a list of code units.
\<close>

type_synonym qstring = "nat list"

definition flush :: "(string \<Rightarrow> qstring) \<Rightarrow> string \<Rightarrow> qstring \<Rightarrow> qstring" where
  "flush fromUtf8 utf8 out = (if utf8 \<noteq> [] then out @ fromUtf8 utf8 else out)"

function decode_loop :: "(string \<Rightarrow> qstring) \<Rightarrow> string \<Rightarrow> string \<Rightarrow> qstring \<Rightarrow> (qstring \<times> string) option" where
  "decode_loop fromUtf8 [] utf8 out = None"
| "decode_loop fromUtf8 (c # p) utf8 out =
     (if c = backslash_char then
        (case p of
           [] \<Rightarrow> None
         | escaped # r \<Rightarrow>
             if escaped = CHR ''u'' then
               (case unicode_escape r of
                  None \<Rightarrow> None
                | Some (us, r') \<Rightarrow> decode_loop fromUtf8 r' [] (flush fromUtf8 utf8 out @ us))
             else
               (case simple_escape escaped of
                  None \<Rightarrow> None
                | Some u \<Rightarrow> decode_loop fromUtf8 r [] (flush fromUtf8 utf8 out @ [u])))
      else if c = quote_char then Some (flush fromUtf8 utf8 out, p)
      else decode_loop fromUtf8 p (utf8 @ [c]) out)"
  by pat_completeness auto
termination
  by (relation "measure (\<lambda>(_, p, _, _). length p)") (auto dest!: unicode_escape_shrinks)

fun decodeString :: "(string \<Rightarrow> qstring) \<Rightarrow> string \<Rightarrow> (qstring \<times> string) option" where
  "decodeString fromUtf8 [] = None"
| "decodeString fromUtf8 (_ # p) = decode_loop fromUtf8 p [] []"


section \<open>Numbers, literals and the recursive walk\<close>

definition is_letter :: "char \<Rightarrow> bool" where
  "is_letter c \<longleftrightarrow> char_between CHR ''a'' CHR ''z'' c \<or> char_between CHR ''A'' CHR ''Z'' c"

definition matchLiteral :: "string \<Rightarrow> string \<Rightarrow> string option" where
  "matchLiteral literal p =
     (if starts_with literal p then
        (case drop (length literal) p of
           [] \<Rightarrow> Some []
         | c # after \<Rightarrow>
             if is_letter c \<or> is_digit c \<or> c = CHR ''_'' then None else Some (c # after))
      else None)"

text \<open>The digit loops \<open>while (p < end && QChar::isDigit(*p)) ++p\<close>.\<close>

definition skip_digits :: "string \<Rightarrow> string" where
  "skip_digits p = dropWhile is_digit p"

definition skip_integer :: "string \<Rightarrow> string option" where
  "skip_integer p =
     (case p of
        [] \<Rightarrow> None
      | c # r \<Rightarrow>
          if c = CHR ''0'' then Some r
          else if char_between CHR ''1'' CHR ''9'' c then Some (skip_digits r)
          else None)"

definition some_digits :: "string \<Rightarrow> string option" where
  "some_digits p = (case p of [] \<Rightarrow> None | c # r \<Rightarrow> if is_digit c then Some (skip_digits p) else None)"

definition skip_fraction :: "string \<Rightarrow> string option" where
  "skip_fraction p =
     (case p of [] \<Rightarrow> Some [] | c # r \<Rightarrow> if c = CHR ''.'' then some_digits r else Some p)"

definition skip_sign :: "string \<Rightarrow> string" where
  "skip_sign p =
     (case p of [] \<Rightarrow> [] | c # r \<Rightarrow> if c = CHR ''+'' \<or> c = CHR ''-'' then r else p)"

definition skip_exponent :: "string \<Rightarrow> string option" where
  "skip_exponent p =
     (case p of
        [] \<Rightarrow> Some []
      | c # r \<Rightarrow> if c = CHR ''e'' \<or> c = CHR ''E'' then some_digits (skip_sign r) else Some p)"

definition skipNumber :: "string \<Rightarrow> string option" where
  "skipNumber p =
     (let p1 = (case p of [] \<Rightarrow> [] | c # r \<Rightarrow> if c = CHR ''-'' then r else p) in
      case skip_integer p1 of
        None \<Rightarrow> None
      | Some p2 \<Rightarrow>
          (case skip_fraction p2 of None \<Rightarrow> None | Some p3 \<Rightarrow> skip_exponent p3))"

definition skipPrimitive :: "string \<Rightarrow> string option" where
  "skipPrimitive p =
     (case p of
        [] \<Rightarrow> None
      | c # _ \<Rightarrow>
          if c = quote_char then skipString p
          else if c = CHR ''t'' then matchLiteral ''true'' p
          else if c = CHR ''f'' then matchLiteral ''false'' p
          else if c = CHR ''n'' then matchLiteral ''null'' p
          else if c = CHR ''-'' \<or> char_between CHR ''0'' CHR ''9'' c then skipNumber p
          else None)"

text \<open>\<open>ScanProgress\<close>; \<open>reports\<close> is the list of the offsets the callback has been invoked with.\<close>

record scan_progress =
  doc_size :: int
  has_callback :: bool
  step :: int
  lastReported :: int
  reports :: "int list"

definition report :: "int \<Rightarrow> string \<Rightarrow> scan_progress \<Rightarrow> scan_progress" where
  "report e p scan =
     (if \<not> has_callback scan then scan
      else
        let offset = e - int (length p) in
        if offset = lastReported scan then scan
        else
          let reportingStep = (if offset \<ge> doc_size scan - step scan
                               then max 1 (c_div (step scan) 16) else step scan) in
          if offset - lastReported scan < reportingStep \<and> offset < doc_size scan then scan
          else scan\<lparr>lastReported := offset, reports := reports scan @ [offset]\<rparr>)"

text \<open>
  The walk of a value. Each loop runs over the bytes that are left; its fuel is their number, and
  \<open>NoFuel\<close> tells running out of it from a rejection. The loops take the function that skips a
  member value as an argument: it is \<open>skipValue\<close> one level deeper.
\<close>

datatype 'a verdict = Accept 'a | Reject | NoFuel

type_synonym skipper = "int \<Rightarrow> string \<Rightarrow> scan_progress \<Rightarrow> string verdict \<times> scan_progress"

text \<open>\<open>"key" :\<close> at the start of an object member, up to the value.\<close>

definition skip_key :: "string \<Rightarrow> string option" where
  "skip_key p =
     (case skipWhitespace p of
        [] \<Rightarrow> None
      | c # r \<Rightarrow>
          if c \<noteq> quote_char then None
          else
            (case skipString (c # r) of
               None \<Rightarrow> None
             | Some p1 \<Rightarrow>
                 (case skipWhitespace p1 of
                    [] \<Rightarrow> None
                  | d # p2 \<Rightarrow> if d = CHR '':'' then Some p2 else None)))"

fun array_loop :: "skipper \<Rightarrow> nat \<Rightarrow> skipper" where
  "array_loop val 0 e p scan = (NoFuel, scan)"
| "array_loop val (Suc n) e p scan =
     (case val e p scan of
        (Reject, scan1) \<Rightarrow> (Reject, scan1)
      | (NoFuel, scan1) \<Rightarrow> (NoFuel, scan1)
      | (Accept p1, scan1) \<Rightarrow>
          let scan2 = report e p1 scan1 in
          (case skipWhitespace p1 of
             [] \<Rightarrow> (Reject, scan2)
           | c # p2 \<Rightarrow>
               if c = CHR '','' then array_loop val n e p2 scan2
               else if c = CHR '']'' then (Accept p2, scan2)
               else (Reject, scan2)))"

fun object_loop :: "skipper \<Rightarrow> nat \<Rightarrow> skipper" where
  "object_loop val 0 e p scan = (NoFuel, scan)"
| "object_loop val (Suc n) e p scan =
     (case skip_key p of
        None \<Rightarrow> (Reject, scan)
      | Some p0 \<Rightarrow>
          (case val e p0 scan of
             (Reject, scan1) \<Rightarrow> (Reject, scan1)
           | (NoFuel, scan1) \<Rightarrow> (NoFuel, scan1)
           | (Accept p1, scan1) \<Rightarrow>
               let scan2 = report e p1 scan1 in
               (case skipWhitespace p1 of
                  [] \<Rightarrow> (Reject, scan2)
                | c # p2 \<Rightarrow>
                    if c = CHR '','' then object_loop val n e p2 scan2
                    else if c = CHR ''}'' then (Accept p2, scan2)
                    else (Reject, scan2))))"

text \<open>After the opening bracket: the empty container, or the loop.\<close>

definition skip_array_body :: "skipper \<Rightarrow> skipper" where
  "skip_array_body val e p scan =
     (let p1 = skipWhitespace p in
      if p1 \<noteq> [] \<and> hd p1 = CHR '']'' then (Accept (tl p1), scan)
      else array_loop val (Suc (length p1)) e p1 scan)"

definition skip_object_body :: "skipper \<Rightarrow> skipper" where
  "skip_object_body val e p scan =
     (let p1 = skipWhitespace p in
      if p1 \<noteq> [] \<and> hd p1 = CHR ''}'' then (Accept (tl p1), scan)
      else object_loop val (Suc (length p1)) e p1 scan)"

definition skip_primitive_value :: skipper where
  "skip_primitive_value e p scan =
     (case skipPrimitive p of None \<Rightarrow> (Reject, scan) | Some p1 \<Rightarrow> (Accept p1, scan))"

function skipValue :: "nat \<Rightarrow> skipper"
  and skipObject :: "nat \<Rightarrow> skipper"
  and skipArray :: "nat \<Rightarrow> skipper"
where
  "skipValue depth e p scan =
     (case skipWhitespace p of
        [] \<Rightarrow> (Reject, scan)
      | c # r \<Rightarrow>
          if c = CHR ''{'' then skipObject depth e (c # r) scan
          else if c = CHR ''['' then skipArray depth e (c # r) scan
          else skip_primitive_value e (c # r) scan)"
| "skipObject depth e p scan =
     (case depth of
        0 \<Rightarrow> (Reject, scan)
      | Suc d \<Rightarrow> skip_object_body (skipValue d) e (tl p) scan)"
| "skipArray depth e p scan =
     (case depth of
        0 \<Rightarrow> (Reject, scan)
      | Suc d \<Rightarrow> skip_array_body (skipValue d) e (tl p) scan)"
  by pat_completeness auto
termination
  by (relation "measures [case_sum fst (case_sum fst fst), case_sum (\<lambda>_. 1) (\<lambda>_. 0)]") auto

declare skipValue.simps [simp del] skipObject.simps [simp del] skipArray.simps [simp del]

section \<open>Every step moves forward\<close>

lemma strict_suffix_Cons [simp, intro]: "strict_suffix p (c # p)"
  by (simp add: strict_suffix_def suffix_def)

lemma strict_suffix_length: "strict_suffix p' p \<Longrightarrow> length p' < length p"
  by (rule suffix_length_less)

lemma suffix_skipWhitespace [simp, intro]: "suffix (skipWhitespace p) p"
  by (simp add: skipWhitespace_def suffix_dropWhile)

lemma skipWhitespace_cases:
  assumes "skipWhitespace p = c # r"
  shows "strict_suffix r p"
  using suffix_skipWhitespace [of p] strict_suffix_Cons [of r c] unfolding assms
  by (metis suffix_order.less_le_trans)

lemma hex4_suffix: "hex4 r = Some (u, r') \<Longrightarrow> suffix r' r"
  by (induction r rule: hex4.induct) (auto simp: suffix_def split: if_splits)

lemma low_half_suffix: "low_half r = Some (u, r') \<Longrightarrow> suffix r' r"
  by (induction r rule: low_half.induct)
     (auto dest!: hex4_suffix simp: suffix_Cons split: if_splits option.splits)

lemma unicode_escape_suffix: "unicode_escape r = Some (us, r') \<Longrightarrow> suffix r' r"
  by (auto simp: unicode_escape_def dest!: hex4_suffix low_half_suffix intro: suffix_order.trans
      split: if_splits option.splits)

lemma decode_loop_suffix: "decode_loop f p utf8 out = Some (s, p') \<Longrightarrow> strict_suffix p' p"
proof (induction f p utf8 out rule: decode_loop.induct)
  case (2 f c p utf8 out)
  show ?case
  proof (cases "c = backslash_char")
    case True
    with 2 obtain escaped r where p: "p = escaped # r" by (auto split: list.splits)
    have r: "strict_suffix r (c # p)" unfolding p using suffix_order.less_trans by blast
    show ?thesis
    proof (cases "escaped = CHR ''u''")
      case u: True
      with 2(4) p True obtain us r' where e: "unicode_escape r = Some (us, r')"
        and "decode_loop f r' [] (flush f utf8 out @ us) = Some (s, p')"
        by (auto split: option.splits)
      with 2(1) [OF True p u e refl] have "strict_suffix p' r'" by simp
      with unicode_escape_suffix [OF e] r show ?thesis
        by (meson suffix_order.less_le_trans suffix_order.less_trans)
    next
      case False
      with 2(4) p True obtain u where e: "simple_escape escaped = Some u"
        and "decode_loop f r [] (flush f utf8 out @ [u]) = Some (s, p')"
        by (auto split: option.splits)
      with 2(2) [OF True p False e] have "strict_suffix p' r" by simp
      with r show ?thesis by (rule suffix_order.less_trans [rotated])
    qed
  next
    case False
    with 2 show ?thesis
      by (auto split: if_splits intro: suffix_order.less_trans)
  qed
qed simp

lemma decodeString_suffix: "decodeString f p = Some (s, p') \<Longrightarrow> strict_suffix p' p"
  by (cases p) (auto dest: decode_loop_suffix intro: suffix_order.less_trans)

section \<open>The two string functions agree\<close>

lemma decode_loop_no_quote: "quote_char \<notin> set p \<Longrightarrow> decode_loop f p utf8 out = None"
proof (induction f p utf8 out rule: decode_loop.induct)
  case (2 f c p utf8 out)
  have "quote_char \<notin> set r'" if "p = x # r" "unicode_escape r = Some (us, r')" for x r us r'
    using 2(4) that set_mono_suffix [OF unicode_escape_suffix [OF that(2)]] by auto
  with 2 show ?case by (auto split: list.splits option.splits)
qed simp

lemma skip_string_loop_Cons:
  "c \<noteq> quote_char \<Longrightarrow> c \<noteq> backslash_char \<Longrightarrow> skip_string_loop (c # p) = skip_string_loop p"
  by (subst (1 2) skip_string_loop.simps) simp

lemma skip_string_loop_decode: "skip_string_loop p = map_option snd (decode_loop f p utf8 out)"
proof (induction "length p" arbitrary: p utf8 out rule: less_induct)
  case less
  show ?case
  proof (cases p)
    case Nil
    then show ?thesis by (subst skip_string_loop.simps) simp
  next
    case (Cons c q)
    consider "c = quote_char" | "c = backslash_char" "quote_char \<notin> set q"
      | "c = backslash_char" "quote_char \<in> set q" | "c \<noteq> quote_char" "c \<noteq> backslash_char" by blast
    then show ?thesis
    proof cases
      case 1
      with Cons show ?thesis by (subst skip_string_loop.simps) simp
    next
      case 2
      with Cons have "quote_char \<notin> set p" by simp
      with decode_loop_no_quote [OF this] show ?thesis by (subst skip_string_loop.simps) simp
    next
      case 3
      have step: "skip_string_loop p = (case q of [] \<Rightarrow> None
        | escaped # r \<Rightarrow> if escaped = CHR ''u''
            then (case unicode_escape r of None \<Rightarrow> None | Some (_, r') \<Rightarrow> skip_string_loop r')
            else if simple_escape escaped \<noteq> None then skip_string_loop r else None)"
        using 3 Cons by (subst skip_string_loop.simps) simp
      have "skip_string_loop r' = map_option snd (decode_loop f r' u o')"
        if "q = x # r" "unicode_escape r = Some (us, r')" for x r us r' u o'
        using that unicode_escape_shrinks [OF that(2)] Cons by (intro less) auto
      moreover have "skip_string_loop r = map_option snd (decode_loop f r u o')"
        if "q = x # r" for x r u o'
        using that Cons by (intro less) auto
      ultimately show ?thesis
        unfolding step unfolding Cons using 3(1) by (auto split: list.splits option.splits)
    next
      case 4
      with less [of q "utf8 @ [c]" out] Cons show ?thesis by (simp add: skip_string_loop_Cons)
    qed
  qed
qed

text \<open>C31: Skipping and decoding a string agree: they accept the same texts and stop at the same
  byte, whatever the conversion of the raw bytes is.\<close>

theorem skipString_decodeString:
  "skipString p = map_option snd (decodeString fromUtf8 p)"
  by (cases p) (simp_all add: skip_string_loop_decode [of _ fromUtf8 "[]" "[]"])

lemma skipString_suffix: "skipString p = Some p' \<Longrightarrow> strict_suffix p' p"
  by (cases p; cases "decode_loop (\<lambda>_. []) (tl p) [] []")
     (auto simp: skip_string_loop_decode [of _ "\<lambda>_. []" "[]" "[]"] dest!: decode_loop_suffix
       intro: suffix_order.less_trans)

section \<open>The contract of a value skipper\<close>

lemma suffix_digits: "suffix (skip_digits p) p"
  by (simp add: skip_digits_def suffix_dropWhile)

lemma some_digits_suffix: "some_digits p = Some p' \<Longrightarrow> suffix p' p"
  by (auto simp: some_digits_def suffix_digits split: list.splits if_splits)

lemma skip_fraction_suffix: "skip_fraction p = Some p' \<Longrightarrow> suffix p' p"
  by (auto simp: skip_fraction_def suffix_Cons dest: some_digits_suffix split: list.splits if_splits)

lemma skip_sign_suffix: "suffix (skip_sign p) p"
  by (auto simp: skip_sign_def suffix_Cons split: list.splits)

lemma skip_exponent_suffix: "skip_exponent p = Some p' \<Longrightarrow> suffix p' p"
  using some_digits_suffix skip_sign_suffix
  by (fastforce simp: skip_exponent_def suffix_Cons intro: suffix_order.trans split: list.splits if_splits)

lemma skip_integer_suffix: "skip_integer p = Some p' \<Longrightarrow> strict_suffix p' p"
  using suffix_digits
  by (auto simp: skip_integer_def intro: suffix_order.le_less_trans split: list.splits if_splits)

lemma skipNumber_suffix: "skipNumber p = Some p' \<Longrightarrow> strict_suffix p' p"
proof -
  assume "skipNumber p = Some p'"
  then obtain p1 p2 p3 where "suffix p1 p" "skip_integer p1 = Some p2"
    "skip_fraction p2 = Some p3" "skip_exponent p3 = Some p'"
    by (auto simp: skipNumber_def Let_def suffix_Cons split: list.splits option.splits if_splits)
  then show ?thesis
    by (meson skip_integer_suffix skip_fraction_suffix skip_exponent_suffix
        suffix_order.less_le_trans suffix_order.le_less_trans)
qed

lemma matchLiteral_suffix:
  assumes "matchLiteral l p = Some p'" and "l \<noteq> []"
  shows "strict_suffix p' p"
proof -
  have "p = l @ p'" using assms(1)
    by (auto simp: matchLiteral_def starts_with_iff split: if_splits list.splits)
  with assms(2) show ?thesis by (auto simp: strict_suffix_def suffix_def)
qed

lemma skipPrimitive_suffix: "skipPrimitive p = Some p' \<Longrightarrow> strict_suffix p' p"
  unfolding skipPrimitive_def
  by (auto split: list.splits if_splits intro: skipString_suffix skipNumber_suffix matchLiteral_suffix)

lemma skip_key_suffix:
  assumes "skip_key p = Some p'"
  shows "strict_suffix p' p"
proof -
  from assms obtain c r p1 d where "skipWhitespace p = c # r" "skipString (c # r) = Some p1"
    "skipWhitespace p1 = d # p'"
    by (auto simp: skip_key_def split: list.splits option.splits if_splits)
  then show ?thesis
    by (metis skipString_suffix skipWhitespace_cases suffix_order.less_trans suffix_skipWhitespace
        suffix_order.less_le_trans)
qed

text \<open>
  The state of the reports: the offsets are ascending and inside the document, and the last one is
  the one the throttle compares with.
\<close>

definition scan_ok :: "scan_progress \<Rightarrow> bool" where
  "scan_ok s \<longleftrightarrow>
     1 \<le> step s \<and> sorted_wrt (<) (0 # reports s) \<and> (\<forall>x \<in> set (reports s). x \<le> doc_size s) \<and>
     lastReported s = last (0 # reports s) \<and> 0 \<le> doc_size s"

lemma sorted_wrt_last: "sorted_wrt (<) (xs :: int list) \<Longrightarrow> x \<in> set xs \<Longrightarrow> x \<le> last xs"
  by (induction xs) (auto intro: order.strict_implies_order)

lemma report_doc_size [simp]: "doc_size (report e p s) = doc_size s"
  by (simp add: report_def Let_def)

lemma report_ok:
  assumes "scan_ok s" and "int (length p) \<le> e" and "e \<le> doc_size s"
  shows "scan_ok (report e p s)"
proof (cases "report e p s = s")
  case False
  let ?o = "e - int (length p)"
  from assms have l: "0 \<le> lastReported s" "lastReported s \<le> doc_size s"
    using last_in_set [of "0 # reports s"] by (auto simp: scan_ok_def intro: order.strict_implies_order)
  have ne: "?o \<noteq> lastReported s" and r: "report e p s = s\<lparr>lastReported := ?o, reports := reports s @ [?o]\<rparr>"
    and "\<not> (?o - lastReported s < (if ?o \<ge> doc_size s - step s then max 1 (c_div (step s) 16) else step s) \<and>
           ?o < doc_size s)"
    using False by (auto simp: report_def Let_def split: if_splits)
  moreover have "1 \<le> step s" using assms(1) by (simp add: scan_ok_def)
  ultimately have "lastReported s < ?o" using l(2) by (auto split: if_splits)
  then have "\<forall>x \<in> set (0 # reports s). x < ?o"
    using assms(1) sorted_wrt_last [of "0 # reports s"] unfolding scan_ok_def by fastforce
  with assms show ?thesis
    unfolding r by (auto simp: scan_ok_def sorted_wrt_append)
qed (use assms in simp)

locale value_skipper =
  fixes val :: skipper
  assumes advances: "val e p s = (Accept p', s') \<Longrightarrow> strict_suffix p' p"
    and enough: "fst (val e p s) \<noteq> NoFuel"
    and keeps_size: "doc_size (snd (val e p s)) = doc_size s"
    and keeps_reports: "scan_ok s \<Longrightarrow> int (length p) \<le> e \<Longrightarrow> e \<le> doc_size s \<Longrightarrow> scan_ok (snd (val e p s))"
begin

lemma after_value:
  assumes "val e p s = (Accept p1, s1)" and "skipWhitespace p1 = c # p2"
  shows "strict_suffix p2 p"
  using advances [OF assms(1)] skipWhitespace_cases [OF assms(2)] by (rule suffix_order.less_trans [rotated])

lemma array_loop_advances: "array_loop val n e p s = (Accept p', s') \<Longrightarrow> strict_suffix p' p"
proof (induction n arbitrary: p s)
  case (Suc n)
  then obtain p1 s1 c p2 where v: "val e p s = (Accept p1, s1)" "skipWhitespace p1 = c # p2"
    by (auto simp: Let_def split: prod.splits verdict.splits list.splits)
  note a = after_value [OF v]
  from Suc.prems v Suc.IH [of p2 "report e p1 s1"] show ?case
    using a by (auto simp: Let_def split: if_splits intro: suffix_order.less_trans)
qed simp

lemma object_loop_advances: "object_loop val n e p s = (Accept p', s') \<Longrightarrow> strict_suffix p' p"
proof (induction n arbitrary: p s)
  case (Suc n)
  then obtain p0 p1 s1 c p2 where k: "skip_key p = Some p0"
    and v: "val e p0 s = (Accept p1, s1)" "skipWhitespace p1 = c # p2"
    by (auto simp: Let_def split: prod.splits verdict.splits list.splits option.splits)
  have a: "strict_suffix p2 p"
    using after_value [OF v] skip_key_suffix [OF k] by (rule suffix_order.less_trans)
  from Suc.prems k v Suc.IH [of p2 "report e p1 s1"] show ?case
    using a by (auto simp: Let_def split: if_splits intro: suffix_order.less_trans)
qed simp

lemma array_loop_enough: "length p < n \<Longrightarrow> fst (array_loop val n e p s) \<noteq> NoFuel"
proof (induction n arbitrary: p s)
  case (Suc n)
  have "length p2 < n" if "val e p s = (Accept p1, s1)" "skipWhitespace p1 = c # p2" for p1 s1 c p2
    using strict_suffix_length [OF after_value [OF that]] Suc.prems by simp
  with Suc.IH enough [of e p s] show ?case
    by (auto simp: Let_def split: prod.splits verdict.splits list.splits)
qed simp

lemma object_loop_enough: "length p < n \<Longrightarrow> fst (object_loop val n e p s) \<noteq> NoFuel"
proof (induction n arbitrary: p s)
  case (Suc n)
  have "length p2 < n" if "skip_key p = Some p0" "val e p0 s = (Accept p1, s1)"
    "skipWhitespace p1 = c # p2" for p0 p1 s1 c p2
    using strict_suffix_length [OF after_value [OF that(2,3)]]
      strict_suffix_length [OF skip_key_suffix [OF that(1)]] Suc.prems by simp
  with Suc.IH enough [of e _ s] show ?case
    by (auto simp: Let_def split: prod.splits verdict.splits list.splits option.splits)
       (metis fst_conv enough)
qed simp

lemma array_loop_size: "doc_size (snd (array_loop val n e p s)) = doc_size s"
proof (induction n arbitrary: p s)
  case (Suc n)
  with keeps_size [of e p s] show ?case
    by (auto simp: Let_def split: prod.splits verdict.splits list.splits)
qed simp

lemma object_loop_size: "doc_size (snd (object_loop val n e p s)) = doc_size s"
proof (induction n arbitrary: p s)
  case (Suc n)
  with keeps_size [of e _ s] show ?case
    by (auto simp: Let_def split: prod.splits verdict.splits list.splits option.splits) (metis snd_conv)+
qed simp

lemma array_loop_reports:
  "scan_ok s \<Longrightarrow> int (length p) \<le> e \<Longrightarrow> e \<le> doc_size s \<Longrightarrow> scan_ok (snd (array_loop val n e p s))"
proof (induction n arbitrary: p s)
  case (Suc n)
  obtain v s1 where v: "val e p s = (v, s1)" by fastforce
  have s1: "scan_ok s1" "doc_size s1 = doc_size s"
    using keeps_reports [OF Suc.prems] keeps_size [of e p s] v by simp_all
  show ?case
  proof (cases v)
    case (Accept p1)
    have "length p1 < length p" using strict_suffix_length advances v Accept by blast
    then have s2: "scan_ok (report e p1 s1)" using s1 Suc.prems by (intro report_ok) simp_all
    have "length p2 < length p" if "skipWhitespace p1 = c # p2" for c p2
      using strict_suffix_length after_value v Accept that by blast
    with s1 s2 v Accept Suc show ?thesis by (auto simp: Let_def split: list.splits)
  qed (use v s1 in simp_all)
qed simp

lemma object_loop_reports:
  "scan_ok s \<Longrightarrow> int (length p) \<le> e \<Longrightarrow> e \<le> doc_size s \<Longrightarrow> scan_ok (snd (object_loop val n e p s))"
proof (induction n arbitrary: p s)
  case (Suc n)
  show ?case
  proof (cases "skip_key p")
    case (Some p0)
    then have l0: "length p0 < length p" using skip_key_suffix strict_suffix_length by blast
    obtain v s1 where v: "val e p0 s = (v, s1)" by fastforce
    have s1: "scan_ok s1" "doc_size s1 = doc_size s"
      using keeps_reports [of s p0 e] keeps_size [of e p0 s] v l0 Suc.prems by simp_all
    show ?thesis
    proof (cases v)
      case (Accept p1)
      have "length p1 < length p0" using strict_suffix_length advances v Accept by blast
      then have s2: "scan_ok (report e p1 s1)" using s1 l0 Suc.prems by (intro report_ok) simp_all
      have "length p2 < length p0" if "skipWhitespace p1 = c # p2" for c p2
        using strict_suffix_length after_value v Accept that by blast
      with s1 s2 l0 v Accept Suc Some show ?thesis
        by (force simp: Let_def split: list.splits)
    qed (use v s1 Some in simp_all)
  qed (use Suc.prems in simp)
qed simp

end

section \<open>The walk meets the contract\<close>

lemma skip_primitive_value_simps [simp]:
  "snd (skip_primitive_value e p s) = s" "fst (skip_primitive_value e p s) \<noteq> NoFuel"
  by (auto simp: skip_primitive_value_def split: option.splits)

context value_skipper begin

lemma array_body:
  "skip_array_body val e p s = (Accept p', s') \<Longrightarrow> strict_suffix p' p"
  "fst (skip_array_body val e p s) \<noteq> NoFuel"
  "doc_size (snd (skip_array_body val e p s)) = doc_size s"
  "scan_ok s \<Longrightarrow> int (length p) \<le> e \<Longrightarrow> e \<le> doc_size s \<Longrightarrow> scan_ok (snd (skip_array_body val e p s))"
proof -
  have l: "length (skipWhitespace p) \<le> length p" by (rule suffix_length_le) simp
  show "skip_array_body val e p s = (Accept p', s') \<Longrightarrow> strict_suffix p' p"
    using skipWhitespace_cases [of p] suffix_skipWhitespace [of p]
    by (cases "skipWhitespace p")
       (auto simp: skip_array_body_def Let_def simp del: array_loop.simps dest!: array_loop_advances
         split: if_splits intro: suffix_order.less_le_trans)
  show "fst (skip_array_body val e p s) \<noteq> NoFuel"
    using array_loop_enough by (auto simp: skip_array_body_def Let_def simp del: array_loop.simps)
  show "doc_size (snd (skip_array_body val e p s)) = doc_size s"
    by (auto simp: skip_array_body_def Let_def array_loop_size simp del: array_loop.simps)
  show "scan_ok s \<Longrightarrow> int (length p) \<le> e \<Longrightarrow> e \<le> doc_size s \<Longrightarrow> scan_ok (snd (skip_array_body val e p s))"
    using l by (auto simp: skip_array_body_def Let_def simp del: array_loop.simps intro!: array_loop_reports)
qed

lemma object_body:
  "skip_object_body val e p s = (Accept p', s') \<Longrightarrow> strict_suffix p' p"
  "fst (skip_object_body val e p s) \<noteq> NoFuel"
  "doc_size (snd (skip_object_body val e p s)) = doc_size s"
  "scan_ok s \<Longrightarrow> int (length p) \<le> e \<Longrightarrow> e \<le> doc_size s \<Longrightarrow> scan_ok (snd (skip_object_body val e p s))"
proof -
  have l: "length (skipWhitespace p) \<le> length p" by (rule suffix_length_le) simp
  show "skip_object_body val e p s = (Accept p', s') \<Longrightarrow> strict_suffix p' p"
    using skipWhitespace_cases [of p] suffix_skipWhitespace [of p]
    by (cases "skipWhitespace p")
       (auto simp: skip_object_body_def Let_def simp del: object_loop.simps dest!: object_loop_advances
         split: if_splits intro: suffix_order.less_le_trans)
  show "fst (skip_object_body val e p s) \<noteq> NoFuel"
    using object_loop_enough by (auto simp: skip_object_body_def Let_def simp del: object_loop.simps)
  show "doc_size (snd (skip_object_body val e p s)) = doc_size s"
    by (auto simp: skip_object_body_def Let_def object_loop_size simp del: object_loop.simps)
  show "scan_ok s \<Longrightarrow> int (length p) \<le> e \<Longrightarrow> e \<le> doc_size s \<Longrightarrow> scan_ok (snd (skip_object_body val e p s))"
    using l by (auto simp: skip_object_body_def Let_def simp del: object_loop.simps intro!: object_loop_reports)
qed

end

lemma skipValue_unfold:
  "skipValue depth e p s =
     (case skipWhitespace p of
        [] \<Rightarrow> (Reject, s)
      | c # r \<Rightarrow>
          if c = CHR ''{'' then
            (case depth of 0 \<Rightarrow> (Reject, s) | Suc d \<Rightarrow> skip_object_body (skipValue d) e r s)
          else if c = CHR ''['' then
            (case depth of 0 \<Rightarrow> (Reject, s) | Suc d \<Rightarrow> skip_array_body (skipValue d) e r s)
          else skip_primitive_value e (c # r) s)"
  by (cases "skipWhitespace p"; cases depth)
     (simp_all add: skipValue.simps skipObject.simps skipArray.simps)

lemma skip_primitive_value_accepts:
  "skip_primitive_value e p s = (Accept p', s') \<Longrightarrow> strict_suffix p' p"
  by (auto simp: skip_primitive_value_def skipPrimitive_suffix split: option.splits)

text \<open>One level of the walk meets the contract when the level below does.\<close>

lemma skipValue_0:
  "skipValue 0 e p s = (case skipWhitespace p of [] \<Rightarrow> (Reject, s)
     | c # r \<Rightarrow> if c = CHR ''{'' \<or> c = CHR ''['' then (Reject, s) else skip_primitive_value e (c # r) s)"
  by (auto simp: skipValue_unfold split: list.splits)

lemma strict_suffix_whitespace:
  assumes "skipWhitespace p = q" and "strict_suffix p' q"
  shows "strict_suffix p' p"
  using assms suffix_skipWhitespace [of p] by (auto intro: suffix_order.less_le_trans)

lemma value_skipper_0: "value_skipper (skipValue 0)"
proof
  fix e p s p' s'
  show "strict_suffix p' p" if "skipValue 0 e p s = (Accept p', s')"
    using that
    by (auto simp: skipValue_0 split: list.splits if_splits dest!: skip_primitive_value_accepts
        intro: strict_suffix_whitespace)
qed (auto simp: skipValue_0 split: list.splits)

lemma value_skipper_Suc:
  assumes below: "value_skipper (skipValue d)"
  shows "value_skipper (skipValue (Suc d))"
proof
  note body = value_skipper.object_body [OF below] value_skipper.array_body [OF below]
  fix e p s p' s'
  show "strict_suffix p' p" if a: "skipValue (Suc d) e p s = (Accept p', s')"
  proof -
    obtain c r where c: "skipWhitespace p = c # r"
      using a by (auto simp: skipValue_unfold split: list.splits)
    have "strict_suffix p' (c # r)"
      using a c
      by (auto simp: skipValue_unfold split: if_splits dest!: body(1,5) skip_primitive_value_accepts
          intro: suffix_order.less_trans)
    then show ?thesis using suffix_skipWhitespace [of p] unfolding c by (rule suffix_order.less_le_trans)
  qed
  show "fst (skipValue (Suc d) e p s) \<noteq> NoFuel"
    by (auto simp: skipValue_unfold body(2,6) split: list.splits)
  show "doc_size (snd (skipValue (Suc d) e p s)) = doc_size s"
    by (auto simp: skipValue_unfold body(3,7) split: list.splits)
  show "scan_ok (snd (skipValue (Suc d) e p s))"
    if s: "scan_ok s" "int (length p) \<le> e" "e \<le> doc_size s"
  proof -
    have "int (length r) \<le> e" if "skipWhitespace p = c # r" for c r
      using strict_suffix_length [OF skipWhitespace_cases [OF that]] s(2) by simp
    then show ?thesis
      using s by (auto simp: skipValue_unfold split: list.splits intro!: body(4,8))
  qed
qed

lemma value_skipper_skipValue: "value_skipper (skipValue depth)"
  by (induction depth) (rule value_skipper_0, rule value_skipper_Suc)

interpretation walk: value_skipper "skipValue depth" for depth
  by (rule value_skipper_skipValue)

end
