(* ===== verification/RawJsonGrammar.thy ===== *)
theory RawJsonGrammar
  imports RawJson
begin

text \<open>
  What the walk of \<open>RawJson\<close> accepts: the grammar of the texts of JSON values, given independently
  of the code, and the theorem that \<open>skipValue\<close> accepts exactly these texts, nested no deeper than
  the cap. The grammar is that of JSON but for control characters, which the code lets stand in
  strings.
\<close>

section \<open>The grammar\<close>

definition blank :: "string \<Rightarrow> bool" where
  "blank w \<longleftrightarrow> list_all isWhitespace w"

text \<open>A string after its opening quote: escapes of one character, of a code unit, of a surrogate pair.\<close>

inductive string_rest :: "string \<Rightarrow> bool" where
  closing: "string_rest [quote_char]"
| plain: "c \<noteq> quote_char \<Longrightarrow> c \<noteq> backslash_char \<Longrightarrow> string_rest r \<Longrightarrow> string_rest (c # r)"
| escape: "c \<in> set ''/bfnrt'' \<union> {quote_char, backslash_char} \<Longrightarrow> string_rest r \<Longrightarrow> string_rest (backslash_char # c # r)"
| unit: "hex4 ds = Some (u, []) \<Longrightarrow> \<not> is_high_surrogate u \<Longrightarrow> \<not> is_low_surrogate u \<Longrightarrow> string_rest r \<Longrightarrow>
    string_rest (backslash_char # CHR ''u'' # ds @ r)"
| pair: "hex4 ds = Some (u, []) \<Longrightarrow> is_high_surrogate u \<Longrightarrow> hex4 es = Some (l, []) \<Longrightarrow> is_low_surrogate l \<Longrightarrow>
    string_rest r \<Longrightarrow> string_rest (backslash_char # CHR ''u'' # ds @ backslash_char # CHR ''u'' # es @ r)"

definition digits_text :: "string \<Rightarrow> bool" where
  "digits_text ds \<longleftrightarrow> ds \<noteq> [] \<and> list_all is_digit ds"

definition integer_text :: "string \<Rightarrow> bool" where
  "integer_text i \<longleftrightarrow> i = ''0'' \<or> (\<exists>c ds. i = c # ds \<and> char_between CHR ''1'' CHR ''9'' c \<and> list_all is_digit ds)"

definition fraction_text :: "string \<Rightarrow> bool" where
  "fraction_text f \<longleftrightarrow> f = [] \<or> (\<exists>ds. f = CHR ''.'' # ds \<and> digits_text ds)"

definition exponent_text :: "string \<Rightarrow> bool" where
  "exponent_text x \<longleftrightarrow> x = [] \<or>
     (\<exists>c sign ds. x = c # sign @ ds \<and> c \<in> set ''eE'' \<and> sign \<in> {[], ''+'', ''-''} \<and> digits_text ds)"

definition number_text :: "string \<Rightarrow> bool" where
  "number_text v \<longleftrightarrow>
     (\<exists>sign i f x. v = sign @ i @ f @ x \<and> sign \<in> {[], ''-''} \<and> integer_text i \<and> fraction_text f \<and> exponent_text x)"

text \<open>The key of a member with its colon.\<close>

definition key_text :: "string \<Rightarrow> bool" where
  "key_text k \<longleftrightarrow> (\<exists>w r w'. k = w @ quote_char # r @ w' @ '':'' \<and> blank w \<and> string_rest r \<and> blank w')"

text \<open>
  \<open>json_value d v\<close>: the text \<open>v\<close> is a value nested at most \<open>d\<close> deep. The other two are what follows an
  opening bracket, up to the closing one, of a container that is not empty.
\<close>

inductive json_value :: "nat \<Rightarrow> string \<Rightarrow> bool"
  and json_items :: "nat \<Rightarrow> string \<Rightarrow> bool"
  and json_members :: "nat \<Rightarrow> string \<Rightarrow> bool"
where
  literal: "l \<in> {''true'', ''false'', ''null''} \<Longrightarrow> json_value d l"
| number: "number_text v \<Longrightarrow> json_value d v"
| string: "string_rest r \<Longrightarrow> json_value d (quote_char # r)"
| empty_array: "blank w \<Longrightarrow> json_value (Suc d) (CHR ''['' # w @ '']'')"
| array: "json_items d r \<Longrightarrow> json_value (Suc d) (CHR ''['' # r)"
| empty_object: "blank w \<Longrightarrow> json_value (Suc d) (CHR ''{'' # w @ ''}'')"
| object: "json_members d r \<Longrightarrow> json_value (Suc d) (CHR ''{'' # r)"
| last_item: "blank w \<Longrightarrow> json_value d v \<Longrightarrow> blank w' \<Longrightarrow> json_items d (w @ v @ w' @ '']'')"
| next_item: "blank w \<Longrightarrow> json_value d v \<Longrightarrow> blank w' \<Longrightarrow> json_items d r \<Longrightarrow> json_items d (w @ v @ w' @ CHR '','' # r)"
| last_member: "key_text k \<Longrightarrow> blank w \<Longrightarrow> json_value d v \<Longrightarrow> blank w' \<Longrightarrow> json_members d (k @ w @ v @ w' @ ''}'')"
| next_member: "key_text k \<Longrightarrow> blank w \<Longrightarrow> json_value d v \<Longrightarrow> blank w' \<Longrightarrow> json_members d r \<Longrightarrow>
    json_members d (k @ w @ v @ w' @ CHR '','' # r)"

text \<open>\<open>p\<close> begins with a value, after white space, and \<open>rest\<close> follows it.\<close>

definition value_then :: "nat \<Rightarrow> string \<Rightarrow> string \<Rightarrow> bool" where
  "value_then d p rest \<longleftrightarrow> (\<exists>w v. p = w @ v @ rest \<and> blank w \<and> json_value d v)"

text \<open>A text that cannot be mistaken for the continuation of a value before it.\<close>

definition delimited :: "string \<Rightarrow> bool" where
  "delimited r \<longleftrightarrow>
     (case r of [] \<Rightarrow> True
      | c # _ \<Rightarrow> \<not> is_letter c \<and> \<not> is_digit c \<and> c \<noteq> CHR ''_'' \<and> c \<noteq> CHR ''.'')"

section \<open>White space and strings\<close>

lemma skipWhitespace_blank [simp]: "blank w \<Longrightarrow> skipWhitespace (w @ r) = skipWhitespace r"
  by (induction w) (auto simp: skipWhitespace_def blank_def)

lemma skipWhitespace_token [simp]: "\<not> isWhitespace c \<Longrightarrow> skipWhitespace (c # r) = c # r"
  by (simp add: skipWhitespace_def)

lemma skipWhitespace_idem [simp]: "skipWhitespace (skipWhitespace p) = skipWhitespace p"
  by (simp add: skipWhitespace_def)

lemma skipWhitespace_splits: "\<exists>w. p = w @ skipWhitespace p \<and> blank w"
  unfolding skipWhitespace_def blank_def
  by (intro exI [of _ "takeWhile isWhitespace p"]) (auto simp: list_all_iff dest: set_takeWhileD)

lemma punct_not_whitespace [simp]:
  "\<not> isWhitespace CHR '',''" "\<not> isWhitespace CHR '']''" "\<not> isWhitespace CHR ''}''"
  "\<not> isWhitespace CHR '':''" "\<not> isWhitespace CHR ''{''" "\<not> isWhitespace CHR ''[''"
  "\<not> isWhitespace quote_char"
  by (simp_all add: isWhitespace_def)

lemma blank_delimited:
  assumes "blank w" and "delimited r"
  shows "delimited (w @ r)"
proof (cases w)
  case (Cons c w')
  then have "isWhitespace c" using assms(1) by (simp add: blank_def)
  then show ?thesis unfolding Cons isWhitespace_def delimited_def
    by (elim disjE) (simp_all add: is_letter_def is_digit_def char_between_def)
qed (simp add: assms)

lemma delimited_punct [simp]:
  "delimited (CHR '','' # r)" "delimited (CHR '']'' # r)" "delimited (CHR ''}'' # r)"
  by (simp_all add: delimited_def is_letter_def is_digit_def char_between_def)

lemma hex4_append: "hex4 ds = Some (u, []) \<Longrightarrow> hex4 (ds @ r) = Some (u, r)"
  by (induction ds rule: hex4.induct) (auto split: if_splits)

lemma hex4_split:
  assumes "hex4 p = Some (u, r)"
  shows "\<exists>ds. p = ds @ r \<and> hex4 ds = Some (u, [])"
proof -
  from assms obtain a b c d where p: "p = a # b # c # d # r"
    by (induction p rule: hex4.induct) (auto split: if_splits)
  with assms show ?thesis by (intro exI [of _ "[a, b, c, d]"]) (simp split: if_splits)
qed

lemma simple_escape_iff: "simple_escape c \<noteq> None \<longleftrightarrow> c \<in> set ''/bfnrt'' \<union> {quote_char, backslash_char}"
  by (auto simp: simple_escape_def)

text \<open>What \<open>unicode_escape\<close> accepts is what the grammar has after \<open>\u\<close>.\<close>

lemma unicode_escape_split:
  assumes "unicode_escape p = Some (us, p')" and "string_rest r"
  shows "\<exists>ds. p = ds @ p' \<and> string_rest (backslash_char # CHR ''u'' # ds @ r)"
proof -
  obtain u p1 where h: "hex4 p = Some (u, p1)" using assms(1) by (auto simp: unicode_escape_def split: option.splits)
  from hex4_split [OF h] obtain ds where ds: "p = ds @ p1" "hex4 ds = Some (u, [])" by blast
  show ?thesis
  proof (cases "is_high_surrogate u")
    case True
    then obtain l where low: "low_half p1 = Some (l, p')" using assms(1) h by (auto simp: unicode_escape_def split: option.splits)
    obtain q where q: "p1 = backslash_char # CHR ''u'' # q" "hex4 q = Some (l, p')" "is_low_surrogate l"
      using low by (induction p1 rule: low_half.induct) (auto split: if_splits option.splits)
    from hex4_split [OF q(2)] obtain es where es: "q = es @ p'" "hex4 es = Some (l, [])" by blast
    have "string_rest (backslash_char # CHR ''u'' # ds @ backslash_char # CHR ''u'' # es @ r)"
      by (rule string_rest.pair [OF ds(2) True es(2) q(3) assms(2)])
    then show ?thesis by (intro exI [of _ "ds @ backslash_char # CHR ''u'' # es"]) (simp add: ds(1) q(1) es(1))
  next
    case False
    then have "\<not> is_low_surrogate u" "p1 = p'" using assms(1) h by (auto simp: unicode_escape_def split: if_splits)
    with string_rest.unit [OF ds(2) False _ assms(2)] ds(1) show ?thesis by blast
  qed
qed

lemma decode_sound: "decode_loop f p utf8 out = Some (x, p') \<Longrightarrow> \<exists>r. p = r @ p' \<and> string_rest r"
proof (induction f p utf8 out rule: decode_loop.induct)
  case (2 f c p utf8 out)
  show ?case
  proof (cases "c = backslash_char")
    case False
    note c = False
    show ?thesis
    proof (cases "c = quote_char")
      case True
      with c "2.prems" show ?thesis using closing by auto
    next
      case False
      with c "2.IH"(3) "2.prems" obtain r where "p = r @ p'" "string_rest r" by auto
      with plain [OF False c] show ?thesis by (intro exI [of _ "c # r"]) simp
    qed
  next
    case True
    with "2.prems" obtain d q where p: "p = d # q" by (cases p) auto
    show ?thesis
    proof (cases "d = CHR ''u''")
      case u: True
      with True p "2.prems" obtain us q' where un: "unicode_escape q = Some (us, q')"
        by (auto split: option.splits)
      from "2.IH"(1) [OF True p u un refl] "2.prems" True p u un obtain r where r: "q' = r @ p'" "string_rest r" by auto
      from unicode_escape_split [OF un r(2)] r(1) obtain ds where
        "q = ds @ r @ p'" "string_rest (backslash_char # CHR ''u'' # ds @ r)" by blast
      then show ?thesis using True p u by (intro exI [of _ "backslash_char # CHR ''u'' # ds @ r"]) simp
    next
      case u: False
      with True p "2.prems" obtain v where v: "simple_escape d = Some v" by (auto split: option.splits)
      from "2.IH"(2) [OF True p u v] "2.prems" True p u v obtain r where r: "q = r @ p'" "string_rest r" by auto
      from escape [OF _ r(2), of d] v simple_escape_iff [of d] have "string_rest (backslash_char # d # r)" by auto
      then show ?thesis using True p r(1) by (intro exI [of _ "backslash_char # d # r"]) simp
    qed
  qed
qed simp

lemma decode_complete: "string_rest r \<Longrightarrow> \<exists>x. decode_loop f (r @ p') utf8 out = Some (x, p')"
proof (induction arbitrary: utf8 out rule: string_rest.induct)
  case (escape c r)
  then obtain v where "simple_escape c = Some v" using simple_escape_iff [of c] by auto
  moreover have "c \<noteq> CHR ''u''" using escape by auto
  ultimately show ?case using escape by simp
next
  case (unit ds u r)
  with hex4_append [OF unit.hyps(1), of "r @ p'"] show ?case by (simp add: unicode_escape_def)
next
  case (pair ds u es l r)
  with hex4_append [OF pair.hyps(1), of "backslash_char # CHR ''u'' # es @ r @ p'"]
    hex4_append [OF pair.hyps(3), of "r @ p'"] show ?case by (simp add: unicode_escape_def)
qed simp_all

lemma skipString_grammar: "skipString (quote_char # p) = Some p' \<longleftrightarrow> (\<exists>r. p = r @ p' \<and> string_rest r)"
proof
  assume "skipString (quote_char # p) = Some p'"
  then obtain x where "decode_loop (\<lambda>_. []) p [] [] = Some (x, p')"
    by (auto simp: skip_string_loop_decode [of _ "\<lambda>_. []" "[]" "[]"])
  then show "\<exists>r. p = r @ p' \<and> string_rest r" by (rule decode_sound)
next
  assume "\<exists>r. p = r @ p' \<and> string_rest r"
  then obtain r where r: "p = r @ p'" "string_rest r" by blast
  from decode_complete [OF r(2)] obtain x where "decode_loop (\<lambda>_. []) (r @ p') [] [] = Some (x, p')" by blast
  then show "skipString (quote_char # p) = Some p'"
    by (simp add: r(1) skip_string_loop_decode [of _ "\<lambda>_. []" "[]" "[]"])
qed

section \<open>Literals and numbers\<close>

lemma matchLiteral_sound: "matchLiteral l p = Some p' \<Longrightarrow> p = l @ p'"
  by (auto simp: matchLiteral_def starts_with_iff split: if_splits list.splits)

lemma matchLiteral_complete: "delimited rest \<Longrightarrow> matchLiteral l (l @ rest) = Some rest"
  by (auto simp: matchLiteral_def starts_with_iff delimited_def split: list.splits)

lemma skip_digits_split: "\<exists>ds. p = ds @ skip_digits p \<and> list_all is_digit ds"
  unfolding skip_digits_def
  by (intro exI [of _ "takeWhile is_digit p"]) (auto simp: list_all_iff dest: set_takeWhileD)

lemma skip_digits_complete:
  "list_all is_digit ds \<Longrightarrow> (\<And>c r. rest = c # r \<Longrightarrow> \<not> is_digit c) \<Longrightarrow> skip_digits (ds @ rest) = rest"
  unfolding skip_digits_def by (induction ds) (auto, cases rest, auto)

lemma some_digits_sound: "some_digits p = Some p' \<Longrightarrow> \<exists>ds. p = ds @ p' \<and> digits_text ds"
proof -
  assume a: "some_digits p = Some p'"
  then obtain c r where p: "p = c # r" "is_digit c" "p' = skip_digits (c # r)"
    by (cases p) (auto simp: some_digits_def split: if_splits)
  obtain ds where ds: "r = ds @ skip_digits r" "list_all is_digit ds" using skip_digits_split by blast
  have "p' = skip_digits r" using p(2,3) by (simp add: skip_digits_def)
  with p ds show ?thesis by (intro exI [of _ "c # ds"]) (simp add: digits_text_def)
qed

lemma some_digits_complete:
  "digits_text ds \<Longrightarrow> (\<And>c r. rest = c # r \<Longrightarrow> \<not> is_digit c) \<Longrightarrow> some_digits (ds @ rest) = Some rest"
  using skip_digits_complete [of ds rest] by (cases ds) (auto simp: some_digits_def digits_text_def)

lemma skip_integer_sound: "skip_integer p = Some p' \<Longrightarrow> \<exists>i. p = i @ p' \<and> integer_text i"
proof -
  assume a: "skip_integer p = Some p'"
  then obtain c r where p: "p = c # r" by (cases p) (auto simp: skip_integer_def)
  obtain ds where ds: "r = ds @ skip_digits r" "list_all is_digit ds" using skip_digits_split by blast
  show ?thesis
  proof (cases "c = CHR ''0''")
    case True
    with a p show ?thesis by (intro exI [of _ "''0''"]) (simp add: skip_integer_def integer_text_def)
  next
    case False
    with a p have "char_between CHR ''1'' CHR ''9'' c" "p' = skip_digits r" by (auto simp: skip_integer_def split: if_splits)
    with p ds show ?thesis by (intro exI [of _ "c # ds"]) (auto simp: integer_text_def)
  qed
qed

lemma skip_fraction_sound: "skip_fraction p = Some p' \<Longrightarrow> \<exists>f. p = f @ p' \<and> fraction_text f"
proof (cases p)
  case (Cons c r)
  assume a: "skip_fraction p = Some p'"
  show ?thesis
  proof (cases "c = CHR ''.''")
    case True
    with a Cons some_digits_sound [of r p'] obtain ds where "r = ds @ p'" "digits_text ds" by (auto simp: skip_fraction_def)
    with True Cons show ?thesis by (intro exI [of _ "CHR ''.'' # ds"]) (simp add: fraction_text_def)
  next
    case False
    with a Cons show ?thesis by (simp add: skip_fraction_def fraction_text_def)
  qed
qed (simp add: skip_fraction_def fraction_text_def)

lemma skip_sign_split: "\<exists>sign \<in> {[], ''+'', ''-''}. p = sign @ skip_sign p"
  by (cases p) (auto simp: skip_sign_def)

lemma skip_exponent_sound: "skip_exponent p = Some p' \<Longrightarrow> \<exists>x. p = x @ p' \<and> exponent_text x"
proof (cases p)
  case (Cons c r)
  assume a: "skip_exponent p = Some p'"
  show ?thesis
  proof (cases "c \<in> set ''eE''")
    case True
    with a Cons have "some_digits (skip_sign r) = Some p'" by (auto simp: skip_exponent_def)
    from some_digits_sound [OF this] obtain ds where ds: "skip_sign r = ds @ p'" "digits_text ds" by blast
    obtain sign where sign: "sign \<in> {[], ''+'', ''-''}" "r = sign @ skip_sign r" using skip_sign_split by blast
    have "exponent_text (c # sign @ ds)" unfolding exponent_text_def using True sign(1) ds(2) by blast
    with Cons sign(2) ds(1) show ?thesis by (intro exI [of _ "c # sign @ ds"]) simp
  next
    case False
    with a Cons show ?thesis by (simp add: skip_exponent_def exponent_text_def)
  qed
qed (simp add: skip_exponent_def exponent_text_def)

lemma skipNumber_sound:
  assumes "skipNumber p = Some p'"
  shows "\<exists>v. p = v @ p' \<and> number_text v"
proof -
  define p1 where "p1 = (case p of [] \<Rightarrow> [] | c # r \<Rightarrow> if c = CHR ''-'' then r else p)"
  obtain p2 p3 where s: "skip_integer p1 = Some p2" "skip_fraction p2 = Some p3" "skip_exponent p3 = Some p'"
    using assms by (auto simp: skipNumber_def Let_def p1_def [symmetric] split: option.splits)
  from skip_integer_sound [OF s(1)] skip_fraction_sound [OF s(2)] skip_exponent_sound [OF s(3)] obtain i f x where
    t: "p1 = i @ p2" "integer_text i" "p2 = f @ p3" "fraction_text f" "p3 = x @ p'" "exponent_text x" by blast
  have "\<exists>sign \<in> {[], ''-''}. p = sign @ p1" by (cases p) (auto simp: p1_def)
  then obtain sign where "sign \<in> {[], ''-''}" "p = sign @ p1" by blast
  with t have "p = (sign @ i @ f @ x) @ p' \<and> number_text (sign @ i @ f @ x)" unfolding number_text_def by auto
  then show ?thesis by blast
qed

lemma exponent_head: "exponent_text x \<Longrightarrow> delimited rest \<Longrightarrow> x @ rest = c # r \<Longrightarrow> \<not> is_digit c \<and> c \<noteq> CHR ''.''"
  by (auto simp: exponent_text_def delimited_def is_digit_def char_between_def)

lemma skip_exponent_complete:
  assumes "exponent_text x" and d: "delimited rest"
  shows "skip_exponent (x @ rest) = Some rest"
proof (cases "x = []")
  case True
  then show ?thesis using d
    by (auto simp: skip_exponent_def delimited_def is_letter_def char_between_def split: list.splits)
next
  case False
  with assms(1) obtain c sign ds where x: "x = c # sign @ ds" "c \<in> set ''eE''" "sign \<in> {[], ''+'', ''-''}" "digits_text ds"
    by (auto simp: exponent_text_def)
  have "some_digits (ds @ rest) = Some rest"
    using d by (intro some_digits_complete [OF x(4)]) (auto simp: delimited_def)
  moreover have "skip_sign (sign @ ds @ rest) = ds @ rest"
    using x(3,4) by (cases ds) (auto simp: skip_sign_def digits_text_def is_digit_def char_between_def)
  ultimately show ?thesis using x(1,2) by (auto simp: skip_exponent_def)
qed

lemma skip_fraction_complete:
  assumes "fraction_text f" and "\<And>c r. rest = c # r \<Longrightarrow> \<not> is_digit c \<and> c \<noteq> CHR ''.''"
  shows "skip_fraction (f @ rest) = Some rest"
proof (cases "f = []")
  case True
  then show ?thesis using assms(2) by (auto simp: skip_fraction_def split: list.splits)
next
  case False
  with assms(1) obtain ds where f: "f = CHR ''.'' # ds" "digits_text ds" by (auto simp: fraction_text_def)
  have "some_digits (ds @ rest) = Some rest" by (rule some_digits_complete [OF f(2)]) (use assms(2) in blast)
  then show ?thesis by (simp add: f(1) skip_fraction_def)
qed

lemma skip_integer_complete:
  assumes "integer_text i" and "\<And>c r. rest = c # r \<Longrightarrow> \<not> is_digit c"
  shows "skip_integer (i @ rest) = Some rest"
proof (cases "i = ''0''")
  case False
  with assms(1) obtain c ds where i: "i = c # ds" "char_between CHR ''1'' CHR ''9'' c" "list_all is_digit ds"
    by (auto simp: integer_text_def)
  then have "c \<noteq> CHR ''0''" by (auto simp: char_between_def)
  with i skip_digits_complete [OF i(3) assms(2)] show ?thesis by (simp add: skip_integer_def)
qed (simp add: skip_integer_def)

lemma skipNumber_complete:
  assumes "number_text v" and d: "delimited rest"
  shows "skipNumber (v @ rest) = Some rest"
proof -
  from assms(1) obtain sign i f x where v: "v = sign @ i @ f @ x" "sign \<in> {[], ''-''}" "integer_text i"
    "fraction_text f" "exponent_text x" unfolding number_text_def by blast
  have e: "skip_exponent (x @ rest) = Some rest" by (rule skip_exponent_complete [OF v(5) d])
  have f: "skip_fraction (f @ x @ rest) = Some (x @ rest)"
    by (rule skip_fraction_complete [OF v(4)]) (rule exponent_head [OF v(5) d])
  have "\<not> is_digit c" if "f @ x @ rest = c # r" for c r
    using v(4) that exponent_head [OF v(5) d, of c r] by (auto simp: fraction_text_def is_digit_def char_between_def)
  then have i: "skip_integer (i @ f @ x @ rest) = Some (f @ x @ rest)" by (rule skip_integer_complete [OF v(3)])
  have "\<exists>c r. i = c # r \<and> c \<noteq> CHR ''-''" using v(3) by (auto simp: integer_text_def char_between_def)
  then have "(case v @ rest of [] \<Rightarrow> [] | c # r \<Rightarrow> if c = CHR ''-'' then r else v @ rest) = i @ f @ x @ rest"
    using v(1,2) by auto
  with i f e show ?thesis by (simp add: skipNumber_def Let_def)
qed

lemma number_head:
  assumes "number_text v"
  shows "\<exists>c r. v = c # r \<and> (c = CHR ''-'' \<or> char_between CHR ''0'' CHR ''9'' c)"
proof -
  from assms obtain sign i q where v: "v = sign @ i @ q" "sign \<in> {[], ''-''}" "integer_text i"
    unfolding number_text_def by blast
  have "char_between CHR ''0'' CHR ''9'' CHR ''0''" by (simp add: char_between_def)
  moreover have "char_between CHR ''0'' CHR ''9'' c" if "char_between CHR ''1'' CHR ''9'' c" for c
    using that by (simp add: char_between_def)
  ultimately obtain c r where "i = c # r" "char_between CHR ''0'' CHR ''9'' c"
    using v(3) unfolding integer_text_def by blast
  with v(1,2) show ?thesis by auto
qed

lemma digit_char_facts:
  assumes "c = CHR ''-'' \<or> char_between CHR ''0'' CHR ''9'' c"
  shows "c \<noteq> quote_char" "c \<noteq> CHR ''t''" "c \<noteq> CHR ''f''" "c \<noteq> CHR ''n''" "c \<noteq> CHR ''{''"
    "c \<noteq> CHR ''[''" "c \<noteq> CHR '']''" "c \<noteq> CHR ''}''" "\<not> isWhitespace c"
  using assms by (auto simp: char_between_def isWhitespace_def)

text \<open>A value that is no container.\<close>

definition leaf_text :: "string \<Rightarrow> bool" where
  "leaf_text v \<longleftrightarrow> v \<in> {''true'', ''false'', ''null''} \<or> number_text v \<or> (\<exists>r. v = quote_char # r \<and> string_rest r)"

lemma leaf_value:
  assumes "leaf_text v"
  shows "json_value d v"
proof -
  consider "v \<in> {''true'', ''false'', ''null''}" | "number_text v" | r where "v = quote_char # r" "string_rest r"
    using assms unfolding leaf_text_def by blast
  then show ?thesis
  proof cases
    case (3 r)
    from string [OF 3(2)] show ?thesis unfolding 3(1) .
  qed (rule literal, assumption, rule number)
qed

lemma skipPrimitive_sound:
  assumes "skipPrimitive p = Some p'"
  shows "\<exists>v. p = v @ p' \<and> leaf_text v"
proof -
  obtain c r where p: "p = c # r" using assms by (cases p) (auto simp: skipPrimitive_def)
  consider "c = quote_char" "skipString (quote_char # r) = Some p'"
    | l where "l \<in> {''true'', ''false'', ''null''}" "matchLiteral l p = Some p'" | "skipNumber p = Some p'"
    using assms p by (auto simp: skipPrimitive_def simp del: skipString.simps split: if_splits)
  then show ?thesis
  proof cases
    case 1
    with p skipString_grammar [of r p'] obtain q where "p = (quote_char # q) @ p'" "string_rest q" by auto
    then show ?thesis unfolding leaf_text_def by blast
  next
    case 2
    with matchLiteral_sound [OF 2(2)] show ?thesis unfolding leaf_text_def by blast
  next
    case 3
    with skipNumber_sound [OF 3] show ?thesis unfolding leaf_text_def by blast
  qed
qed

lemma skipPrimitive_complete:
  assumes "leaf_text v" and d: "delimited rest"
  shows "skipPrimitive (v @ rest) = Some rest \<and> (\<exists>c r. v = c # r \<and> \<not> isWhitespace c \<and> c \<notin> set ''{[]}'')"
proof -
  consider "v \<in> {''true'', ''false'', ''null''}" | "number_text v" | r where "v = quote_char # r" "string_rest r"
    using assms(1) unfolding leaf_text_def by blast
  then show ?thesis
  proof cases
    case 1
    then show ?thesis
      using matchLiteral_complete [OF d, of "''true''"] matchLiteral_complete [OF d, of "''false''"]
        matchLiteral_complete [OF d, of "''null''"]
      by (auto simp: skipPrimitive_def isWhitespace_def)
  next
    case 2
    from number_head [OF 2] obtain c r where c: "v = c # r" "c = CHR ''-'' \<or> char_between CHR ''0'' CHR ''9'' c" by blast
    from skipNumber_complete [OF 2 d] c(1) digit_char_facts [OF c(2)] c(2) show ?thesis by (simp add: skipPrimitive_def)
  next
    case (3 r)
    with skipString_grammar [of "r @ rest" rest] show ?thesis by (auto simp: skipPrimitive_def simp del: skipString.simps)
  qed
qed

section \<open>What is accepted is a value\<close>

lemma blank_append [simp]: "blank (w @ w') \<longleftrightarrow> blank w \<and> blank w'"
  by (simp add: blank_def)

lemma json_items_blank:
  assumes "json_items d r" and "blank w"
  shows "json_items d (w @ r)"
  using assms(1)
proof (cases rule: json_items.cases)
  case (last_item u v w')
  with json_value_json_items_json_members.last_item [of "w @ u" d v w'] assms(2) show ?thesis by simp
next
  case (next_item u v w' q)
  with json_value_json_items_json_members.next_item [of "w @ u" d v w' q] assms(2) show ?thesis by simp
qed

lemma key_text_blank:
  assumes "key_text k" and "blank w"
  shows "key_text (w @ k)"
proof -
  from assms(1) obtain u r u' where "k = u @ quote_char # r @ u' @ '':''" "blank u" "string_rest r" "blank u'"
    unfolding key_text_def by blast
  with assms(2) show ?thesis unfolding key_text_def by (intro exI [of _ "w @ u"] exI [of _ r] exI [of _ u']) simp
qed

lemma json_members_blank:
  assumes "json_members d r" and "blank w"
  shows "json_members d (w @ r)"
  using assms(1)
proof (cases rule: json_members.cases)
  case (last_member k u v w')
  with json_value_json_items_json_members.last_member [OF key_text_blank [OF _ assms(2)], of k u d v w']
  show ?thesis by simp
next
  case (next_member k u v w' q)
  with json_value_json_items_json_members.next_member [OF key_text_blank [OF _ assms(2)], of k u d v w' q]
  show ?thesis by simp
qed

lemma skip_key_sound:
  assumes "skip_key p = Some p0"
  shows "\<exists>k. p = k @ p0 \<and> key_text k"
proof -
  obtain r p1 where k: "skipWhitespace p = quote_char # r" "skipString (quote_char # r) = Some p1"
    "skipWhitespace p1 = CHR '':'' # p0"
    using assms by (auto simp: skip_key_def simp del: skipString.simps split: list.splits if_splits option.splits)
  obtain w w' where w: "p = w @ quote_char # r" "blank w" "p1 = w' @ CHR '':'' # p0" "blank w'"
    using skipWhitespace_splits [of p] skipWhitespace_splits [of p1] unfolding k(1,3) by blast
  from skipString_grammar [of r p1] k(2) obtain q where "r = q @ p1" "string_rest q" by blast
  with w show ?thesis unfolding key_text_def by (intro exI [of _ "w @ quote_char # q @ w' @ '':''"]) auto
qed

definition accepts_values :: "skipper \<Rightarrow> int \<Rightarrow> nat \<Rightarrow> bool" where
  "accepts_values val e d \<longleftrightarrow> (\<forall>p s p' s'. val e p s = (Accept p', s') \<longrightarrow> value_then d p p')"

lemma accepts_valuesD: "accepts_values val e d \<Longrightarrow> val e p s = (Accept p', s') \<Longrightarrow> value_then d p p'"
  unfolding accepts_values_def by blast

lemma array_loop_sound:
  assumes val: "accepts_values val e d"
  shows "array_loop val n e p s = (Accept p', s') \<Longrightarrow> \<exists>r. p = r @ p' \<and> json_items d r"
proof (induction n arbitrary: p s)
  case (Suc n)
  then obtain p1 s1 c p2 where v: "val e p s = (Accept p1, s1)" "skipWhitespace p1 = c # p2"
    and more: "(c = CHR '']'' \<and> p2 = p') \<or> (c = CHR '','' \<and> array_loop val n e p2 (report e p1 s1) = (Accept p', s'))"
    by (auto simp: Let_def split: prod.splits verdict.splits list.splits if_splits)
  from accepts_valuesD [OF val v(1)] obtain w t where t: "p = w @ t @ p1" "blank w" "json_value d t" unfolding value_then_def by blast
  obtain w' where w': "p1 = w' @ c # p2" "blank w'" using skipWhitespace_splits [of p1] unfolding v(2) by blast
  from more show ?case
  proof (elim disjE conjE)
    assume "c = CHR '']''" "p2 = p'"
    with t w' last_item [OF t(2,3) w'(2)] show ?thesis by (intro exI [of _ "w @ t @ w' @ '']''"]) simp
  next
    assume c: "c = CHR '',''" and "array_loop val n e p2 (report e p1 s1) = (Accept p', s')"
    from Suc.IH [OF this(2)] obtain r where r: "p2 = r @ p'" "json_items d r" by blast
    with c t w' next_item [OF t(2,3) w'(2) r(2)] show ?thesis by (intro exI [of _ "w @ t @ w' @ CHR '','' # r"]) simp
  qed
qed simp

lemma object_loop_sound:
  assumes val: "accepts_values val e d"
  shows "object_loop val n e p s = (Accept p', s') \<Longrightarrow> \<exists>r. p = r @ p' \<and> json_members d r"
proof (induction n arbitrary: p s)
  case (Suc n)
  then obtain p0 p1 s1 c p2 where k: "skip_key p = Some p0"
    and v: "val e p0 s = (Accept p1, s1)" "skipWhitespace p1 = c # p2"
    and more: "(c = CHR ''}'' \<and> p2 = p') \<or> (c = CHR '','' \<and> object_loop val n e p2 (report e p1 s1) = (Accept p', s'))"
    by (auto simp: Let_def split: prod.splits verdict.splits list.splits if_splits option.splits)
  from skip_key_sound [OF k] obtain kt where kt: "p = kt @ p0" "key_text kt" by blast
  from accepts_valuesD [OF val v(1)] obtain w t where t: "p0 = w @ t @ p1" "blank w" "json_value d t" unfolding value_then_def by blast
  obtain w' where w': "p1 = w' @ c # p2" "blank w'" using skipWhitespace_splits [of p1] unfolding v(2) by blast
  from more show ?case
  proof (elim disjE conjE)
    assume "c = CHR ''}''" "p2 = p'"
    with kt t w' last_member [OF kt(2) t(2,3) w'(2)] show ?thesis
      by (intro exI [of _ "kt @ w @ t @ w' @ ''}''"]) simp
  next
    assume c: "c = CHR '',''" and "object_loop val n e p2 (report e p1 s1) = (Accept p', s')"
    from Suc.IH [OF this(2)] obtain r where r: "p2 = r @ p'" "json_members d r" by blast
    with c kt t w' next_member [OF kt(2) t(2,3) w'(2) r(2)] show ?thesis
      by (intro exI [of _ "kt @ w @ t @ w' @ CHR '','' # r"]) simp
  qed
qed simp

lemma array_body_sound:
  assumes val: "accepts_values val e d"
    and body: "skip_array_body val e p s = (Accept p', s')"
  shows "value_then (Suc d) (CHR ''['' # p) p'"
proof -
  obtain w where w: "p = w @ skipWhitespace p" "blank w" using skipWhitespace_splits by blast
  have "\<exists>v. CHR ''['' # p = v @ p' \<and> json_value (Suc d) v"
  proof (cases "skipWhitespace p \<noteq> [] \<and> hd (skipWhitespace p) = CHR '']''")
    case True
    with body have "skipWhitespace p = CHR '']'' # p'"
      by (auto simp: skip_array_body_def neq_Nil_conv)
    with w empty_array [OF w(2), of d] show ?thesis by (intro exI [of _ "CHR ''['' # w @ '']''"]) simp
  next
    case False
    with body have "array_loop val (Suc (length (skipWhitespace p))) e (skipWhitespace p) s = (Accept p', s')"
      by (simp only: skip_array_body_def Let_def if_False)
    from array_loop_sound [OF val this] obtain r where r: "skipWhitespace p = r @ p'" "json_items d r" by blast
    from array [OF json_items_blank [OF r(2) w(2)]] w(1) r(1) show ?thesis
      by (intro exI [of _ "CHR ''['' # w @ r"]) simp
  qed
  moreover have "blank []" by (simp add: blank_def)
  ultimately show ?thesis unfolding value_then_def by (metis append_Nil)
qed

lemma object_body_sound:
  assumes val: "accepts_values val e d"
    and body: "skip_object_body val e p s = (Accept p', s')"
  shows "value_then (Suc d) (CHR ''{'' # p) p'"
proof -
  obtain w where w: "p = w @ skipWhitespace p" "blank w" using skipWhitespace_splits by blast
  have "\<exists>v. CHR ''{'' # p = v @ p' \<and> json_value (Suc d) v"
  proof (cases "skipWhitespace p \<noteq> [] \<and> hd (skipWhitespace p) = CHR ''}''")
    case True
    with body have "skipWhitespace p = CHR ''}'' # p'"
      by (auto simp: skip_object_body_def neq_Nil_conv)
    with w empty_object [OF w(2), of d] show ?thesis by (intro exI [of _ "CHR ''{'' # w @ ''}''"]) simp
  next
    case False
    with body have "object_loop val (Suc (length (skipWhitespace p))) e (skipWhitespace p) s = (Accept p', s')"
      by (simp only: skip_object_body_def Let_def if_False)
    from object_loop_sound [OF val this] obtain r where r: "skipWhitespace p = r @ p'" "json_members d r" by blast
    from object [OF json_members_blank [OF r(2) w(2)]] w(1) r(1) show ?thesis
      by (intro exI [of _ "CHR ''{'' # w @ r"]) simp
  qed
  moreover have "blank []" by (simp add: blank_def)
  ultimately show ?thesis unfolding value_then_def by (metis append_Nil)
qed

lemma value_then_blank:
  assumes "blank w" and "value_then d p rest"
  shows "value_then d (w @ p) rest"
proof -
  from assms(2) obtain u v where "p = u @ v @ rest" "blank u" "json_value d v" unfolding value_then_def by blast
  with assms(1) show ?thesis unfolding value_then_def by (intro exI [of _ "w @ u"] exI [of _ v]) simp
qed

lemma skipValue_sound: "skipValue d e p s = (Accept p', s') \<Longrightarrow> value_then d p p'"
proof (induction d arbitrary: p s p' s')
  case 0
  obtain w where w: "p = w @ skipWhitespace p" "blank w" using skipWhitespace_splits by blast
  from "0" obtain c r where c: "skipWhitespace p = c # r" "skipPrimitive (c # r) = Some p'"
    by (auto simp: skipValue_0 skip_primitive_value_def split: list.splits if_splits option.splits)
  from skipPrimitive_sound [OF c(2)] w leaf_value show ?case unfolding c(1) value_then_def by metis
next
  case (Suc d)
  obtain w where w: "p = w @ skipWhitespace p" "blank w" using skipWhitespace_splits by blast
  from Suc.prems obtain c r where c: "skipWhitespace p = c # r" by (auto simp: skipValue_unfold split: list.splits)
  have "value_then (Suc d) (c # r) p'"
  proof (cases "c = CHR ''{'' \<or> c = CHR ''[''")
    case True
    with Suc.prems c have "(c = CHR ''{'' \<and> skip_object_body (skipValue d) e r s = (Accept p', s')) \<or>
        (c = CHR ''['' \<and> skip_array_body (skipValue d) e r s = (Accept p', s'))"
      by (auto simp: skipValue_unfold)
    moreover have "accepts_values (skipValue d) e d" unfolding accepts_values_def using Suc.IH by blast
    ultimately show ?thesis using object_body_sound array_body_sound by blast
  next
    case False
    with Suc.prems c have "skipPrimitive (c # r) = Some p'"
      by (auto simp: skipValue_unfold skip_primitive_value_def split: option.splits)
    moreover have "blank []" by (simp add: blank_def)
    ultimately show ?thesis using skipPrimitive_sound [of "c # r" p'] leaf_value
      unfolding value_then_def by (metis append_Nil)
  qed
  from value_then_blank [OF w(2) this] show ?case unfolding c(1) [symmetric] w(1) [symmetric] .
qed

section \<open>Every value is accepted\<close>

lemma skipValue_whitespace [simp]: "skipValue d e (skipWhitespace p) s = skipValue d e p s"
  by (simp add: skipValue_unfold)

lemma array_loop_whitespace:
  "array_loop (skipValue d) n e (skipWhitespace p) s = array_loop (skipValue d) n e p s"
  by (cases n) simp_all

lemma object_loop_whitespace:
  "object_loop val n e (skipWhitespace p) s = object_loop val n e p s"
  by (cases n) (simp_all add: skip_key_def)

text \<open>More fuel does not change a result that has been reached.\<close>

lemma array_loop_mono:
  "fst (array_loop val n e p s) \<noteq> NoFuel \<Longrightarrow> array_loop val (n + k) e p s = array_loop val n e p s"
proof (induction n arbitrary: p s)
  case (Suc n)
  then show ?case
    by (auto simp: Let_def split: prod.splits verdict.splits list.splits)
qed simp

lemma object_loop_mono:
  "fst (object_loop val n e p s) \<noteq> NoFuel \<Longrightarrow> object_loop val (n + k) e p s = object_loop val n e p s"
proof (induction n arbitrary: p s)
  case (Suc n)
  then show ?case
    by (auto simp: Let_def split: prod.splits verdict.splits list.splits option.splits)
qed simp

lemma array_loop_fuel:
  assumes "fst (array_loop (skipValue d) n e p s) = Accept p'"
  shows "fst (array_loop (skipValue d) (Suc (length (skipWhitespace p))) e (skipWhitespace p) s) = Accept p'"
proof -
  let ?q = "skipWhitespace p" and ?m = "Suc (length (skipWhitespace p))"
  have "fst (array_loop (skipValue d) ?m e ?q s) \<noteq> NoFuel" by (rule walk.array_loop_enough) simp
  from array_loop_mono [OF this, of n]
  have "array_loop (skipValue d) ?m e ?q s = array_loop (skipValue d) (n + ?m) e p s"
    by (simp only: array_loop_whitespace add.commute)
  also have "\<dots> = array_loop (skipValue d) n e p s" by (rule array_loop_mono) (simp add: assms)
  finally show ?thesis using assms by simp
qed

lemma object_loop_fuel:
  assumes "fst (object_loop (skipValue d) n e p s) = Accept p'"
  shows "fst (object_loop (skipValue d) (Suc (length (skipWhitespace p))) e (skipWhitespace p) s) = Accept p'"
proof -
  let ?q = "skipWhitespace p" and ?m = "Suc (length (skipWhitespace p))"
  have "fst (object_loop (skipValue d) ?m e ?q s) \<noteq> NoFuel" by (rule walk.object_loop_enough) simp
  from object_loop_mono [OF this, of n]
  have "object_loop (skipValue d) ?m e ?q s = object_loop (skipValue d) (n + ?m) e p s"
    by (simp only: object_loop_whitespace add.commute)
  also have "\<dots> = object_loop (skipValue d) n e p s" by (rule object_loop_mono) (simp add: assms)
  finally show ?thesis using assms by simp
qed

lemma json_value_head:
  assumes "json_value d v"
  shows "\<exists>c r. v = c # r \<and> \<not> isWhitespace c \<and> c \<noteq> CHR '']''"
  using assms
proof (cases rule: json_value.cases)
  case literal
  then show ?thesis by (auto simp: isWhitespace_def)
next
  case number
  from number_head [OF number] obtain c r where "v = c # r" "c = CHR ''-'' \<or> char_between CHR ''0'' CHR ''9'' c" by blast
  with digit_char_facts [of c] show ?thesis by simp
qed simp_all

lemma key_text_head:
  assumes "key_text k"
  shows "skipWhitespace (k @ p) \<noteq> []" "hd (skipWhitespace (k @ p)) = quote_char"
proof -
  from assms obtain w r where "k = w @ quote_char # r" "blank w" unfolding key_text_def by blast
  then show "skipWhitespace (k @ p) \<noteq> []" "hd (skipWhitespace (k @ p)) = quote_char" by simp_all
qed

lemma skip_key_complete:
  assumes "key_text k"
  shows "skip_key (k @ p) = Some p"
proof -
  from assms obtain w r w' where k: "k = w @ quote_char # r @ w' @ '':''" "blank w" "string_rest r" "blank w'"
    unfolding key_text_def by blast
  have "skipString (quote_char # r @ w' @ CHR '':'' # p) = Some (w' @ CHR '':'' # p)"
    using skipString_grammar k(3) by blast
  with k show ?thesis by (simp add: skip_key_def del: skipString.simps)
qed

text \<open>A value that \<open>skipValue\<close> accepts wherever a delimiter follows, and white space before it.\<close>

definition accepted_value :: "nat \<Rightarrow> string \<Rightarrow> bool" where
  "accepted_value d v \<longleftrightarrow>
     (\<forall>w rest e s. blank w \<longrightarrow> delimited rest \<longrightarrow> fst (skipValue d e (w @ v @ rest) s) = Accept rest)"

lemma accepted_valueD:
  "accepted_value d v \<Longrightarrow> blank w \<Longrightarrow> delimited rest \<Longrightarrow> \<exists>s'. skipValue d e (w @ v @ rest) s = (Accept rest, s')"
  unfolding accepted_value_def by (metis prod.collapse)

definition accepted_items :: "nat \<Rightarrow> string \<Rightarrow> bool" where
  "accepted_items d r \<longleftrightarrow> (\<forall>rest e s. \<exists>n. fst (array_loop (skipValue d) n e (r @ rest) s) = Accept rest) \<and>
     (\<forall>rest. skipWhitespace (r @ rest) \<noteq> [] \<and> hd (skipWhitespace (r @ rest)) \<noteq> CHR '']'')"

definition accepted_members :: "nat \<Rightarrow> string \<Rightarrow> bool" where
  "accepted_members d r \<longleftrightarrow> (\<forall>rest e s. \<exists>n. fst (object_loop (skipValue d) n e (r @ rest) s) = Accept rest) \<and>
     (\<forall>rest. skipWhitespace (r @ rest) \<noteq> [] \<and> hd (skipWhitespace (r @ rest)) \<noteq> CHR ''}'')"

lemma accepted_leaf:
  assumes "leaf_text v"
  shows "accepted_value d v"
  unfolding accepted_value_def
proof (intro allI impI)
  fix w rest e s assume "blank w" "delimited rest"
  with skipPrimitive_complete [OF assms] show "fst (skipValue d e (w @ v @ rest) s) = Accept rest"
    by (fastforce simp: skipValue_unfold skip_primitive_value_def)
qed

lemma accepted_last_item:
  assumes w: "blank w" and v: "accepted_value d v" "json_value d v" and w': "blank w'"
  shows "accepted_items d (w @ v @ w' @ '']'')"
  unfolding accepted_items_def
proof (intro conjI allI)
  fix rest e s
  have "delimited (w' @ CHR '']'' # rest)" by (rule blank_delimited [OF w']) simp
  from accepted_valueD [OF v(1) w this] obtain s' where
    "skipValue d e (w @ v @ w' @ CHR '']'' # rest) s = (Accept (w' @ CHR '']'' # rest), s')" by blast
  then have "fst (array_loop (skipValue d) (Suc 0) e ((w @ v @ w' @ '']'') @ rest) s) = Accept rest"
    using w' by (simp add: Let_def)
  then show "\<exists>n. fst (array_loop (skipValue d) n e ((w @ v @ w' @ '']'') @ rest) s) = Accept rest" ..
qed (use json_value_head [OF v(2)] w in auto)

lemma accepted_next_item:
  assumes w: "blank w" and v: "accepted_value d v" "json_value d v" and w': "blank w'" and r: "accepted_items d r"
  shows "accepted_items d (w @ v @ w' @ CHR '','' # r)"
  unfolding accepted_items_def
proof (intro conjI allI)
  fix rest e s
  have "delimited (w' @ CHR '','' # r @ rest)" by (rule blank_delimited [OF w']) simp
  from accepted_valueD [OF v(1) w this] obtain s' where
    a: "skipValue d e (w @ v @ w' @ CHR '','' # r @ rest) s = (Accept (w' @ CHR '','' # r @ rest), s')" by blast
  from r obtain n where "fst (array_loop (skipValue d) n e (r @ rest) (report e (w' @ CHR '','' # r @ rest) s')) = Accept rest"
    unfolding accepted_items_def by blast
  with a w' have "fst (array_loop (skipValue d) (Suc n) e ((w @ v @ w' @ CHR '','' # r) @ rest) s) = Accept rest"
    by (simp add: Let_def)
  then show "\<exists>n. fst (array_loop (skipValue d) n e ((w @ v @ w' @ CHR '','' # r) @ rest) s) = Accept rest" ..
qed (use json_value_head [OF v(2)] w in auto)

lemma accepted_last_member:
  assumes k: "key_text k" and w: "blank w" and v: "accepted_value d v" and w': "blank w'"
  shows "accepted_members d (k @ w @ v @ w' @ ''}'')"
  unfolding accepted_members_def
proof (intro conjI allI)
  fix rest e s
  have "delimited (w' @ CHR ''}'' # rest)" by (rule blank_delimited [OF w']) simp
  from accepted_valueD [OF v w this] obtain s' where
    "skipValue d e (w @ v @ w' @ CHR ''}'' # rest) s = (Accept (w' @ CHR ''}'' # rest), s')" by blast
  then have "fst (object_loop (skipValue d) (Suc 0) e ((k @ w @ v @ w' @ ''}'') @ rest) s) = Accept rest"
    using w' by (simp add: Let_def skip_key_complete [OF k])
  then show "\<exists>n. fst (object_loop (skipValue d) n e ((k @ w @ v @ w' @ ''}'') @ rest) s) = Accept rest" ..
qed (simp_all add: key_text_head [OF k])

lemma accepted_next_member:
  assumes k: "key_text k" and w: "blank w" and v: "accepted_value d v" and w': "blank w'" and r: "accepted_members d r"
  shows "accepted_members d (k @ w @ v @ w' @ CHR '','' # r)"
  unfolding accepted_members_def
proof (intro conjI allI)
  fix rest e s
  have "delimited (w' @ CHR '','' # r @ rest)" by (rule blank_delimited [OF w']) simp
  from accepted_valueD [OF v w this] obtain s' where
    a: "skipValue d e (w @ v @ w' @ CHR '','' # r @ rest) s = (Accept (w' @ CHR '','' # r @ rest), s')" by blast
  from r obtain n where "fst (object_loop (skipValue d) n e (r @ rest) (report e (w' @ CHR '','' # r @ rest) s')) = Accept rest"
    unfolding accepted_members_def by blast
  with a w' have "fst (object_loop (skipValue d) (Suc n) e ((k @ w @ v @ w' @ CHR '','' # r) @ rest) s) = Accept rest"
    by (simp add: Let_def skip_key_complete [OF k])
  then show "\<exists>n. fst (object_loop (skipValue d) n e ((k @ w @ v @ w' @ CHR '','' # r) @ rest) s) = Accept rest" ..
qed (simp_all add: key_text_head [OF k])

lemma accepted_array:
  assumes "accepted_items d r"
  shows "accepted_value (Suc d) (CHR ''['' # r)"
  unfolding accepted_value_def
proof (intro allI impI)
  fix w rest e s assume w: "blank w"
  from assms obtain n where n: "fst (array_loop (skipValue d) n e (r @ rest) s) = Accept rest"
    unfolding accepted_items_def by blast
  have h: "\<not> (skipWhitespace (r @ rest) \<noteq> [] \<and> hd (skipWhitespace (r @ rest)) = CHR '']'')"
    using assms unfolding accepted_items_def by blast
  have "fst (skip_array_body (skipValue d) e (r @ rest) s) = Accept rest"
    unfolding skip_array_body_def Let_def if_not_P [OF h] by (rule array_loop_fuel [OF n])
  with w show "fst (skipValue (Suc d) e (w @ (CHR ''['' # r) @ rest) s) = Accept rest" by (simp add: skipValue_unfold)
qed

lemma accepted_object:
  assumes "accepted_members d r"
  shows "accepted_value (Suc d) (CHR ''{'' # r)"
  unfolding accepted_value_def
proof (intro allI impI)
  fix w rest e s assume w: "blank w"
  from assms obtain n where n: "fst (object_loop (skipValue d) n e (r @ rest) s) = Accept rest"
    unfolding accepted_members_def by blast
  have h: "\<not> (skipWhitespace (r @ rest) \<noteq> [] \<and> hd (skipWhitespace (r @ rest)) = CHR ''}'')"
    using assms unfolding accepted_members_def by blast
  have "fst (skip_object_body (skipValue d) e (r @ rest) s) = Accept rest"
    unfolding skip_object_body_def Let_def if_not_P [OF h] by (rule object_loop_fuel [OF n])
  with w show "fst (skipValue (Suc d) e (w @ (CHR ''{'' # r) @ rest) s) = Accept rest" by (simp add: skipValue_unfold)
qed

lemma accepted_empty:
  assumes "blank u"
  shows "accepted_value (Suc d) (CHR ''['' # u @ '']'')" "accepted_value (Suc d) (CHR ''{'' # u @ ''}'')"
  using assms by (simp_all add: accepted_value_def skipValue_unfold skip_array_body_def skip_object_body_def Let_def)

lemma grammar_accepted:
  "json_value d v \<Longrightarrow> accepted_value d v"
  "json_items d r \<Longrightarrow> accepted_items d r"
  "json_members d r' \<Longrightarrow> accepted_members d r'"
proof (induction rule: json_value_json_items_json_members.inducts)
  case (string r d)
  then show ?case by (intro accepted_leaf) (auto simp: leaf_text_def)
qed (simp_all add: accepted_leaf leaf_text_def accepted_empty accepted_array accepted_object
    accepted_last_item accepted_next_item accepted_last_member accepted_next_member)

section \<open>The property\<close>

text \<open>C16: \<open>skipValue\<close> accepts exactly the texts of JSON values nested no deeper than the cap. Whatever
  it accepts is white space, such a text and the rest it returns; and on such a text, followed by
  something that cannot continue it, it returns what follows. It never runs out of fuel.\<close>

theorem skipValue_grammar:
  "fst (skipValue d e p s) \<noteq> NoFuel \<and>
   (fst (skipValue d e p s) = Accept rest \<longrightarrow> value_then d p rest) \<and>
   (value_then d p rest \<and> delimited rest \<longrightarrow> fst (skipValue d e p s) = Accept rest)"
proof (intro conjI impI)
  show "fst (skipValue d e p s) \<noteq> NoFuel" by (rule walk.enough)
  show "value_then d p rest" if "fst (skipValue d e p s) = Accept rest"
    using skipValue_sound [of d e p s rest "snd (skipValue d e p s)"] that by (metis prod.collapse)
  show "fst (skipValue d e p s) = Accept rest" if "value_then d p rest \<and> delimited rest"
    using that grammar_accepted(1) unfolding value_then_def accepted_value_def by blast
qed

text \<open>\<open>[1, [2E5]]x\<close> needs two levels; \<open>[1 2]\<close> is no JSON.\<close>

theorem skipValue_grammar_witness:
  "(\<exists>w v. ''[1, [2E5]] x'' = w @ v @ '' x'' \<and> blank w \<and> json_value 2 v) \<and>
   \<not> value_then 2 ''[1 2]'' []"
proof -
  let ?s = "\<lparr>doc_size = 99, has_callback = True, step = 1, lastReported = 0, reports = []\<rparr>"
  have "fst (skipValue 2 99 ''[1, [2E5]] x'' ?s) = Accept '' x''" "fst (skipValue 2 99 ''[1 2]'' ?s) \<noteq> Accept []"
    by code_simp+
  moreover have "delimited []" by (simp add: delimited_def)
  ultimately have "value_then 2 ''[1, [2E5]] x'' '' x''" "\<not> value_then 2 ''[1 2]'' []"
    using skipValue_grammar by blast+
  then show ?thesis unfolding value_then_def by blast
qed

end
