(* ===== verification/RawJsonScan.thy ===== *)
theory RawJsonScan
  imports RawJson
begin

text \<open>
  \<open>oracle/src/raw_json_scanner.cpp\<close>, \<open>RawJson::scanSetRanges\<close>: the members of an object with a
  callback for each, the count of the elements of an array, and the three nested callbacks that
  collect the byte range and the metadata of every set of an MTGJSON document.

  A callback gets the absolute offset \<open>e\<close> of the end of the value and the bytes of the value; the
  state it updates is passed explicitly, next to the progress reports.
\<close>

section \<open>Iterating over members and elements\<close>

type_synonym 'c member_callback =
  "qstring \<Rightarrow> int \<Rightarrow> string \<Rightarrow> 'c \<Rightarrow> scan_progress \<Rightarrow> unit verdict \<times> 'c \<times> scan_progress"

text \<open>\<open>"key" :\<close> with the key decoded.\<close>

definition decode_key :: "(string \<Rightarrow> qstring) \<Rightarrow> string \<Rightarrow> (qstring \<times> string) option" where
  "decode_key fromUtf8 p =
     (case skipWhitespace p of
        [] \<Rightarrow> None
      | c # r \<Rightarrow>
          if c \<noteq> quote_char then None
          else
            (case decodeString fromUtf8 (c # r) of
               None \<Rightarrow> None
             | Some (key, p1) \<Rightarrow>
                 (case skipWhitespace p1 of
                    [] \<Rightarrow> None
                  | d # p2 \<Rightarrow> if d = CHR '':'' then Some (key, p2) else None)))"

fun member_loop ::
  "(string \<Rightarrow> qstring) \<Rightarrow> skipper \<Rightarrow> 'c member_callback \<Rightarrow> nat \<Rightarrow> int \<Rightarrow> string \<Rightarrow> 'c \<Rightarrow> scan_progress \<Rightarrow>
   string verdict \<times> 'c \<times> scan_progress"
where
  "member_loop fromUtf8 val cb 0 e p c scan = (NoFuel, c, scan)"
| "member_loop fromUtf8 val cb (Suc n) e p c scan =
     (case decode_key fromUtf8 p of
        None \<Rightarrow> (Reject, c, scan)
      | Some (key, p0) \<Rightarrow>
          let valueStart = skipWhitespace p0 in
          (case val e valueStart scan of
             (Reject, scan1) \<Rightarrow> (Reject, c, scan1)
           | (NoFuel, scan1) \<Rightarrow> (NoFuel, c, scan1)
           | (Accept valueEnd, scan1) \<Rightarrow>
               (case cb key (e - int (length valueEnd))
                       (take (length valueStart - length valueEnd) valueStart) c scan1 of
                  (Reject, c2, scan2) \<Rightarrow> (Reject, c2, scan2)
                | (NoFuel, c2, scan2) \<Rightarrow> (NoFuel, c2, scan2)
                | (Accept _, c2, scan2) \<Rightarrow>
                    (case skipWhitespace valueEnd of
                       [] \<Rightarrow> (Reject, c2, scan2)
                     | d # p2 \<Rightarrow>
                         if d = CHR '','' then member_loop fromUtf8 val cb n e p2 c2 scan2
                         else if d = CHR ''}'' then (Accept p2, c2, scan2)
                         else (Reject, c2, scan2)))))"

definition forEachObjectMember ::
  "(string \<Rightarrow> qstring) \<Rightarrow> nat \<Rightarrow> 'c member_callback \<Rightarrow> int \<Rightarrow> string \<Rightarrow> 'c \<Rightarrow> scan_progress \<Rightarrow>
   string verdict \<times> 'c \<times> scan_progress"
where
  "forEachObjectMember fromUtf8 depth cb e p c scan =
     (case depth of
        0 \<Rightarrow> (Reject, c, scan)
      | Suc d \<Rightarrow>
          let p1 = skipWhitespace (tl p) in
          if p1 \<noteq> [] \<and> hd p1 = CHR ''}'' then (Accept (tl p1), c, scan)
          else member_loop fromUtf8 (skipValue d) cb (Suc (length p1)) e p1 c scan)"

text \<open>The count is \<open>-1\<close> for a malformed array.\<close>

fun count_loop :: "skipper \<Rightarrow> nat \<Rightarrow> int \<Rightarrow> string \<Rightarrow> int \<Rightarrow> scan_progress \<Rightarrow> int verdict \<times> scan_progress"
where
  "count_loop val 0 e p count scan = (NoFuel, scan)"
| "count_loop val (Suc n) e p count scan =
     (case val e p scan of
        (Reject, scan1) \<Rightarrow> (Accept (- 1), scan1)
      | (NoFuel, scan1) \<Rightarrow> (NoFuel, scan1)
      | (Accept p1, scan1) \<Rightarrow>
          let scan2 = report e p1 scan1 in
          (case skipWhitespace p1 of
             [] \<Rightarrow> (Accept (- 1), scan2)
           | c # p2 \<Rightarrow>
               if c = CHR '','' then count_loop val n e p2 (count + 1) scan2
               else if c = CHR '']'' then (Accept (count + 1), scan2)
               else (Accept (- 1), scan2)))"

definition countArrayElements ::
  "nat \<Rightarrow> int \<Rightarrow> string \<Rightarrow> scan_progress \<Rightarrow> int verdict \<times> scan_progress"
where
  "countArrayElements depth e p scan =
     (case depth of
        0 \<Rightarrow> (Accept (- 1), scan)
      | Suc d \<Rightarrow>
          let p1 = skipWhitespace (tl p) in
          if p1 \<noteq> [] \<and> hd p1 = CHR '']'' then (Accept 0, scan)
          else count_loop (skipValue d) (Suc (length p1)) e p1 0 scan)"

section \<open>The set ranges\<close>

definition kMaxNestingDepth :: nat where
  "kMaxNestingDepth = 1024"

record set_data_range =
  start :: int
  range_length :: int
  cardCount :: int

record set_range =
  dataRange :: set_data_range
  code :: qstring
  name :: qstring
  type_field :: qstring
  releaseDate :: qstring

definition qlit :: "string \<Rightarrow> qstring" where
  "qlit s = map of_char s"

text \<open>A metadata field: \<open>None\<close> is the failure, anything but a string leaves the field as it is.\<close>

definition decodeStringMember :: "(string \<Rightarrow> qstring) \<Rightarrow> string \<Rightarrow> qstring \<Rightarrow> qstring option" where
  "decodeStringMember fromUtf8 bytes out =
     (case bytes of
        [] \<Rightarrow> None
      | c # _ \<Rightarrow>
          if c \<noteq> quote_char then Some out
          else map_option fst (decodeString fromUtf8 bytes))"

definition store_field ::
  "qstring option \<Rightarrow> (qstring \<Rightarrow> set_range) \<Rightarrow> set_range \<Rightarrow> scan_progress \<Rightarrow>
   unit verdict \<times> set_range \<times> scan_progress"
where
  "store_field v upd rg scan =
     (case v of None \<Rightarrow> (Reject, rg, scan) | Some x \<Rightarrow> (Accept (), upd x, scan))"

definition field_callback :: "(string \<Rightarrow> qstring) \<Rightarrow> set_range member_callback" where
  "field_callback fromUtf8 field e bytes rg scan =
     (if field = qlit ''code'' then
        store_field (decodeStringMember fromUtf8 bytes (code rg)) (\<lambda>x. rg\<lparr>code := x\<rparr>) rg scan
      else if field = qlit ''name'' then
        store_field (decodeStringMember fromUtf8 bytes (name rg)) (\<lambda>x. rg\<lparr>name := x\<rparr>) rg scan
      else if field = qlit ''type'' then
        store_field (decodeStringMember fromUtf8 bytes (type_field rg))
          (\<lambda>x. rg\<lparr>type_field := x\<rparr>) rg scan
      else if field = qlit ''releaseDate'' then
        store_field (decodeStringMember fromUtf8 bytes (releaseDate rg))
          (\<lambda>x. rg\<lparr>releaseDate := x\<rparr>) rg scan
      else if field = qlit ''cards'' then
        (case bytes of
           [] \<Rightarrow> (Reject, rg, scan)
         | c # _ \<Rightarrow>
             if c \<noteq> CHR ''['' then (Accept (), rg, scan)
             else
               (case countArrayElements (kMaxNestingDepth - 2) e bytes scan of
                  (Accept n, scan1) \<Rightarrow>
                    (if n \<ge> 0 then Accept () else Reject,
                     rg\<lparr>dataRange := (dataRange rg)\<lparr>cardCount := n\<rparr>\<rparr>, scan1)
                | (_, scan1) \<Rightarrow> (NoFuel, rg, scan1)))
      else (Accept (), rg, scan))"

record scan_state =
  ranges :: "set_range list"
  foundData :: bool
  malformedSetData :: bool

definition set_callback :: "(string \<Rightarrow> qstring) \<Rightarrow> scan_state member_callback" where
  "set_callback fromUtf8 setCode e bytes st scan =
     (if bytes = [] \<or> hd bytes \<noteq> CHR ''{'' then (Reject, st\<lparr>malformedSetData := True\<rparr>, scan)
      else
        let rg = \<lparr>dataRange = \<lparr>start = e - int (length bytes), range_length = int (length bytes),
                                cardCount = 0\<rparr>,
                     code = setCode, name = [], type_field = [], releaseDate = []\<rparr> in
        (case forEachObjectMember fromUtf8 (kMaxNestingDepth - 2) (field_callback fromUtf8)
                e bytes rg scan of
           (Accept _, range1, scan1) \<Rightarrow> (Accept (), st\<lparr>ranges := ranges st @ [range1]\<rparr>, scan1)
         | (Reject, _, scan1) \<Rightarrow> (Reject, st\<lparr>malformedSetData := True\<rparr>, scan1)
         | (NoFuel, _, scan1) \<Rightarrow> (NoFuel, st, scan1)))"

definition top_callback :: "(string \<Rightarrow> qstring) \<Rightarrow> scan_state member_callback" where
  "top_callback fromUtf8 key e bytes st scan =
     (if key = qlit ''data'' then
        let st1 = st\<lparr>foundData := True\<rparr> in
        if bytes = [] \<or> hd bytes \<noteq> CHR ''{'' then (Reject, st1\<lparr>malformedSetData := True\<rparr>, scan)
        else
          (case forEachObjectMember fromUtf8 (kMaxNestingDepth - 1) (set_callback fromUtf8)
                  e bytes st1 scan of
             (Accept _, st2, scan1) \<Rightarrow> (Accept (), st2, scan1)
           | (Reject, st2, scan1) \<Rightarrow> (Reject, st2\<lparr>malformedSetData := True\<rparr>, scan1)
           | (NoFuel, st2, scan1) \<Rightarrow> (NoFuel, st2, scan1))
      else (Accept (), st, scan))"

record scan_outcome =
  found :: "set_range list"
  message :: string
  reported :: "int list"

definition fail_scan :: "string \<Rightarrow> scan_progress \<Rightarrow> scan_outcome" where
  "fail_scan m scan = \<lparr>found = [], message = m, reported = reports scan\<rparr>"

definition init_scan :: "bool \<Rightarrow> string \<Rightarrow> scan_progress" where
  "init_scan progress json =
     \<lparr>doc_size = int (length json), has_callback = progress,
      step = max 1 (c_div (int (length json)) 100), lastReported = 0, reports = []\<rparr>"

definition scanSetRanges :: "(string \<Rightarrow> qstring) \<Rightarrow> bool \<Rightarrow> string \<Rightarrow> scan_outcome" where
  "scanSetRanges fromUtf8 progress json =
     (let scan = init_scan progress json; e = int (length json) in
      if json = [] then fail_scan ''empty JSON document'' scan
      else
        let p = skipWhitespace json in
        if p = [] \<or> hd p \<noteq> CHR ''{'' then fail_scan ''top-level JSON must be an object'' scan
        else
          (case forEachObjectMember fromUtf8 kMaxNestingDepth (top_callback fromUtf8) e p
                  \<lparr>ranges = [], foundData = False, malformedSetData = False\<rparr> scan of
             (Accept p1, st, scan1) \<Rightarrow>
               if skipWhitespace p1 \<noteq> [] then
                 fail_scan ''trailing content after top-level JSON object'' scan1
               else if \<not> foundData st then fail_scan ''missing \"data\" object'' scan1
               else if ranges st = [] then fail_scan ''no sets found in \"data\"'' scan1
               else \<lparr>found = ranges st, message = [], reported = reports (report e [] scan1)\<rparr>
           | (v, st, scan1) \<Rightarrow>
               fail_scan (if malformedSetData st then ''malformed set data'' else ''malformed JSON'') scan1))"

section \<open>Invariants through the member loop\<close>

lemma decode_key_suffix:
  assumes "decode_key f p = Some (key, p')"
  shows "strict_suffix p' p"
proof -
  from assms obtain c r p1 d where "skipWhitespace p = c # r" "decodeString f (c # r) = Some (key, p1)"
    "skipWhitespace p1 = d # p'"
    by (auto simp: decode_key_def split: list.splits option.splits if_splits)
  then show ?thesis
    by (metis decodeString_suffix skipWhitespace_cases suffix_order.less_trans suffix_skipWhitespace
        suffix_order.less_le_trans)
qed

text \<open>The bytes \<open>p\<close> are the part of the document that ends at the offset \<open>e\<close>.\<close>

definition within :: "string \<Rightarrow> int \<Rightarrow> string \<Rightarrow> bool" where
  "within doc e p \<longleftrightarrow> (\<exists>a b. doc = a @ p @ b \<and> e = int (length a + length p))"

lemma within_bounds: "within doc e p \<Longrightarrow> int (length p) \<le> e \<and> e \<le> int (length doc)"
  by (auto simp: within_def)

lemma within_suffix: "within doc e p \<Longrightarrow> suffix q p \<Longrightarrow> within doc e q"
proof -
  assume w: "within doc e p" and "suffix q p"
  then obtain u where u: "p = u @ q" by (auto simp: suffix_def)
  from w obtain a b where "doc = a @ p @ b" "e = int (length a + length p)" by (auto simp: within_def)
  with u have "doc = (a @ u) @ q @ b" "e = int (length (a @ u) + length q)" by simp_all
  then show ?thesis unfolding within_def by blast
qed

lemma within_front:
  assumes "within doc e p" and "suffix q p"
  shows "within doc (e - int (length q)) (take (length p - length q) p)"
proof -
  from assms(2) obtain u where u: "p = u @ q" by (auto simp: suffix_def)
  from assms(1) obtain a b where "doc = a @ p @ b" "e = int (length a + length p)" by (auto simp: within_def)
  with u have "doc = a @ u @ (q @ b)" "e - int (length q) = int (length a + length u)" by simp_all
  with u show ?thesis unfolding within_def by auto
qed

lemma within_text: "within doc e p \<Longrightarrow> take (length p) (drop (nat (e - int (length p))) doc) = p"
  by (auto simp: within_def)

text \<open>
  What a callback has to keep for an invariant \<open>I\<close> that may speak about the offset reached: it is
  called with the invariant at the start of the value and has to establish it at its end.
\<close>

definition callback_keeps :: "string \<Rightarrow> (int \<Rightarrow> 'c \<Rightarrow> bool) \<Rightarrow> 'c member_callback \<Rightarrow> bool" where
  "callback_keeps doc I cb \<longleftrightarrow>
     (\<forall>key e bytes c s v c' s'.
        cb key e bytes c s = (v, c', s') \<longrightarrow> within doc e bytes \<longrightarrow>
        scan_ok s \<longrightarrow> doc_size s = int (length doc) \<longrightarrow> I (e - int (length bytes)) c \<longrightarrow>
        (v = Accept () \<longrightarrow> I e c') \<and> v \<noteq> NoFuel \<and> scan_ok s' \<and> doc_size s' = int (length doc))"

definition growing :: "(int \<Rightarrow> 'c \<Rightarrow> bool) \<Rightarrow> bool" where
  "growing I \<longleftrightarrow> (\<forall>x y c. I x c \<longrightarrow> x \<le> y \<longrightarrow> I y c)"

text \<open>What a walk over the members then establishes.\<close>

definition walk_result ::
  "string \<Rightarrow> (int \<Rightarrow> 'c \<Rightarrow> bool) \<Rightarrow> int \<Rightarrow> string \<Rightarrow> string verdict \<times> 'c \<times> scan_progress \<Rightarrow> bool"
where
  "walk_result doc I e p r \<longleftrightarrow>
     (case r of (v, c, s) \<Rightarrow>
        (\<forall>p'. v = Accept p' \<longrightarrow> strict_suffix p' p \<and> I (e - int (length p')) c) \<and>
        v \<noteq> NoFuel \<and> scan_ok s \<and> doc_size s = int (length doc))"

lemma walk_result_simps [simp]:
  "walk_result doc I e p (Reject, c, s) \<longleftrightarrow> scan_ok s \<and> doc_size s = int (length doc)"
  "walk_result doc I e p (NoFuel, c, s) \<longleftrightarrow> False"
  "walk_result doc I e p (Accept p', c, s) \<longleftrightarrow>
     strict_suffix p' p \<and> I (e - int (length p')) c \<and> scan_ok s \<and> doc_size s = int (length doc)"
  by (auto simp: walk_result_def)

lemma walk_result_suffix:
  "walk_result doc I e q r \<Longrightarrow> suffix q p \<Longrightarrow> walk_result doc I e p r"
  by (auto simp: walk_result_def intro: suffix_order.less_le_trans)

context value_skipper begin

lemma member_loop_inv:
  assumes cb: "callback_keeps doc I cb" and grow: "growing I"
  shows "length p < n \<Longrightarrow> within doc e p \<Longrightarrow> scan_ok s \<Longrightarrow> doc_size s = int (length doc) \<Longrightarrow>
    I (e - int (length p)) c \<Longrightarrow> walk_result doc I e p (member_loop f val cb n e p c s)"
proof (induction n arbitrary: p c s)
  case (Suc n)
  note wp = within_bounds [OF Suc.prems(2)]
  show ?case
  proof (cases "decode_key f p")
    case None
    with Suc.prems show ?thesis by simp
  next
    case (Some kp)
    then obtain key p0 where k: "decode_key f p = Some (key, p0)" by (cases kp) simp
    define vs where "vs = skipWhitespace p0"
    have vsp: "strict_suffix vs p"
      unfolding vs_def using suffix_skipWhitespace decode_key_suffix [OF k]
      by (rule suffix_order.le_less_trans)
    have lvs: "length vs < length p" using strict_suffix_length [OF vsp] .
    have wvs: "within doc e vs" using within_suffix [OF Suc.prems(2)] vsp by (simp add: suffix_order.less_imp_le)
    obtain w s1 where w: "val e vs s = (w, s1)" by fastforce
    have s1: "scan_ok s1" "doc_size s1 = int (length doc)"
      using keeps_reports [of s vs e] keeps_size [of e vs s] w lvs wp Suc.prems by simp_all
    show ?thesis
    proof (cases w)
      case (Accept ve)
      have ve: "strict_suffix ve vs" using advances w Accept by blast
      let ?e = "e - int (length ve)" and ?b = "take (length vs - length ve) vs"
      have b: "int (length ?b) = int (length vs) - int (length ve)"
        using strict_suffix_length [OF ve] by simp
      obtain x c2 s2 where x: "cb key ?e ?b c s1 = (x, c2, s2)" by (metis prod_cases3)
      have Ivs: "I (?e - int (length ?b)) c"
        using grow Suc.prems(5) lvs b unfolding growing_def by fastforce
      have "within doc ?e ?b" using within_front [OF wvs] ve by (simp add: suffix_order.less_imp_le)
      then have r: "(x = Accept () \<longrightarrow> I ?e c2) \<and> x \<noteq> NoFuel \<and> scan_ok s2 \<and> doc_size s2 = int (length doc)"
        using cb x s1 Ivs unfolding callback_keeps_def by blast
      show ?thesis
      proof (cases x)
        case acc: (Accept u)
        show ?thesis
        proof (cases "skipWhitespace ve")
          case Nil
          with k w Accept x acc r show ?thesis by (simp add: Let_def vs_def)
        next
          case (Cons d p2)
          have suf: "strict_suffix p2 p"
            using after_value [OF w [unfolded Accept] Cons] vsp by (rule suffix_order.less_trans)
          have "length p2 < length ve" using strict_suffix_length [OF skipWhitespace_cases [OF Cons]] .
          then have I2: "I (e - int (length p2)) c2"
            using grow r acc unfolding growing_def by fastforce
          have "walk_result doc I e p2 (member_loop f val cb n e p2 c2 s2)"
            using I2 r strict_suffix_length [OF suf] Suc.prems suf
            by (intro Suc.IH) (auto intro: within_suffix suffix_order.less_imp_le)
          then have "walk_result doc I e p (member_loop f val cb n e p2 c2 s2)"
            by (rule walk_result_suffix) (use suf in \<open>simp add: suffix_order.less_imp_le\<close>)
          with k w Accept x acc Cons r I2 suf show ?thesis by (simp add: Let_def vs_def)
        qed
      qed (use k w Accept x r in \<open>simp_all add: Let_def vs_def\<close>)
    qed (use k w s1 enough [of e vs s] in \<open>simp_all add: Let_def vs_def\<close>)
  qed
qed simp

lemma count_loop_inv:
  "count_loop val n e p count s = (v, s') \<Longrightarrow> length p < n \<Longrightarrow> int (length p) \<le> e \<Longrightarrow>
   e \<le> sz \<Longrightarrow> scan_ok s \<Longrightarrow> doc_size s = sz \<Longrightarrow> v \<noteq> NoFuel \<and> v \<noteq> Reject \<and> scan_ok s' \<and> doc_size s' = sz"
proof (induction n arbitrary: p count s)
  case (Suc n)
  obtain w s1 where w: "val e p s = (w, s1)" by fastforce
  have s1: "scan_ok s1" "doc_size s1 = sz"
    using keeps_reports [of s p e] keeps_size [of e p s] w Suc.prems by simp_all
  show ?case
  proof (cases w)
    case (Accept p1)
    have l1: "length p1 < length p" using strict_suffix_length advances w Accept by blast
    then have s2: "scan_ok (report e p1 s1)" using s1 Suc.prems by (intro report_ok) simp_all
    show ?thesis
    proof (cases "skipWhitespace p1")
      case Nil
      with Suc.prems w Accept s1 s2 show ?thesis by (auto simp: Let_def)
    next
      case (Cons d p2)
      have l2: "length p2 < length p"
        using strict_suffix_length [OF after_value [OF w [unfolded Accept] Cons]] .
      show ?thesis
      proof (cases "d = CHR '',''")
        case True
        have "count_loop val n e p2 (count + 1) (report e p1 s1) = (v, s')"
          using Suc.prems(1) w Accept Cons True by (simp add: Let_def)
        from Suc.IH [OF this] l2 s1 s2 Suc.prems show ?thesis by simp
      next
        case False
        with Suc.prems w Accept Cons s1 s2 show ?thesis by (auto simp: Let_def split: if_splits)
      qed
    qed
  qed (use Suc.prems w s1 enough [of e p s] in auto)
qed simp

end

lemma forEach_inv:
  assumes "callback_keeps doc I cb" and "growing I" and "within doc e (c0 # p)"
    and "scan_ok s" and "doc_size s = int (length doc)" and "I (e - int (length (c0 # p))) c"
  shows "walk_result doc I e (c0 # p) (forEachObjectMember f d cb e (c0 # p) c s)"
proof (cases d)
  case (Suc d')
  let ?p = "skipWhitespace p"
  have suf: "suffix ?p (c0 # p)" by (simp add: suffix_Cons)
  have w: "within doc e ?p" using assms(3) suf by (rule within_suffix)
  have grow: "I (e - int (length q)) c" if "suffix q (c0 # p)" for q
    using assms(2,6) suffix_length_le [OF that] unfolding growing_def by fastforce
  have loop: "walk_result doc I e (c0 # p) (member_loop f (skipValue d') cb (Suc (length ?p)) e ?p c s)"
    using walk.member_loop_inv [OF assms(1,2) _ w assms(4,5), of "Suc (length ?p)" c f] grow [OF suf]
    by (intro walk_result_suffix [OF _ suf]) simp
  show ?thesis
  proof (cases "?p \<noteq> [] \<and> hd ?p = CHR ''}''")
    case True
    then obtain c1 r where c: "?p = c1 # r" by (cases ?p) auto
    have "strict_suffix r (c0 # p)"
      using skipWhitespace_cases [OF c] strict_suffix_Cons by (rule suffix_order.less_trans)
    with grow [of r] c True Suc assms(4,5) show ?thesis
      by (simp add: forEachObjectMember_def suffix_order.less_imp_le)
  next
    case False
    with Suc loop show ?thesis
      by (auto simp add: forEachObjectMember_def Let_def simp del: member_loop.simps)
  qed
qed (use assms in \<open>simp add: forEachObjectMember_def\<close>)

lemma countArrayElements_inv:
  assumes "countArrayElements d e p s = (v, s')" and "within doc e p"
    and "scan_ok s" and "doc_size s = int (length doc)"
  shows "v \<noteq> NoFuel \<and> v \<noteq> Reject \<and> scan_ok s' \<and> doc_size s' = int (length doc)"
proof (cases d)
  case (Suc d')
  let ?p = "skipWhitespace (tl p)"
  have "suffix ?p p" by (cases p) (simp_all add: suffix_Cons skipWhitespace_def suffix_dropWhile)
  from within_bounds [OF within_suffix [OF assms(2) this]]
  have b: "int (length ?p) \<le> e" "e \<le> int (length doc)" by simp_all
  show ?thesis
  proof (cases "?p \<noteq> [] \<and> hd ?p = CHR '']''")
    case False
    then have "count_loop (skipValue d') (Suc (length ?p)) e ?p 0 s = (v, s')"
      using assms(1) Suc
      by (auto simp add: countArrayElements_def Let_def simp del: count_loop.simps split: if_splits)
    from walk.count_loop_inv [OF this _ b assms(3,4)] show ?thesis by simp
  qed (use assms Suc in \<open>auto simp: countArrayElements_def\<close>)
qed (use assms in \<open>auto simp: countArrayElements_def\<close>)

section \<open>The three callbacks\<close>

definition range_end :: "set_range \<Rightarrow> int" where
  "range_end r = start (dataRange r) + range_length (dataRange r)"

text \<open>The bytes of the document that a range stands for.\<close>

definition slice :: "string \<Rightarrow> set_range \<Rightarrow> string" where
  "slice doc r = take (nat (range_length (dataRange r))) (drop (nat (start (dataRange r))) doc)"

definition range_ok :: "string \<Rightarrow> set_range \<Rightarrow> bool" where
  "range_ok doc r \<longleftrightarrow>
     0 \<le> start (dataRange r) \<and> 0 < range_length (dataRange r) \<and> 0 \<le> cardCount (dataRange r) \<and>
     hd (slice doc r) = CHR ''{''"

definition field_inv :: "int \<Rightarrow> int \<Rightarrow> int \<Rightarrow> set_range \<Rightarrow> bool" where
  "field_inv b l x r \<longleftrightarrow>
     start (dataRange r) = b \<and> range_length (dataRange r) = l \<and> 0 \<le> cardCount (dataRange r)"

definition sets_inv :: "string \<Rightarrow> int \<Rightarrow> scan_state \<Rightarrow> bool" where
  "sets_inv doc x st \<longleftrightarrow>
     (\<forall>r \<in> set (ranges st). range_ok doc r \<and> range_end r \<le> x) \<and>
     sorted_wrt (\<lambda>r r'. range_end r \<le> start (dataRange r')) (ranges st)"

lemma growing_field: "growing (field_inv b l)"
  by (simp add: growing_def field_inv_def)

lemma growing_sets: "growing (sets_inv doc)"
  by (fastforce simp: growing_def sets_inv_def)

lemma store_field_keeps:
  assumes "store_field v upd r s = (w, r', s')" and "\<And>x. field_inv b l e (upd x)"
  shows "(w = Accept () \<longrightarrow> field_inv b l e r') \<and> w \<noteq> NoFuel \<and> s' = s"
  using assms by (auto simp: store_field_def split: option.splits)

lemma field_callback_keeps: "callback_keeps doc (field_inv b l) (field_callback f)"
  unfolding callback_keeps_def
proof (intro allI impI)
  fix key e bytes r s v r' s'
  assume cb: "field_callback f key e bytes r s = (v, r', s')" and w: "within doc e bytes"
    and s: "scan_ok s" "doc_size s = int (length doc)"
    and inv: "field_inv b l (e - int (length bytes)) r"
  have upd: "field_inv b l e (r\<lparr>code := x\<rparr>)" "field_inv b l e (r\<lparr>name := x\<rparr>)"
    "field_inv b l e (r\<lparr>type_field := x\<rparr>)" "field_inv b l e (r\<lparr>releaseDate := x\<rparr>)" "field_inv b l e r" for x
    using inv by (simp_all add: field_inv_def)
  let ?goal = "(v = Accept () \<longrightarrow> field_inv b l e r') \<and> v \<noteq> NoFuel \<and> scan_ok s' \<and> doc_size s' = int (length doc)"
  have store: ?goal if "store_field vo u r s = (v, r', s')" "\<And>x. field_inv b l e (u x)" for vo u
    using store_field_keeps [OF that] s by simp
  consider (code) "key = qlit ''code''" | (name) "key \<noteq> qlit ''code''" "key = qlit ''name''"
    | (type) "key \<noteq> qlit ''code''" "key \<noteq> qlit ''name''" "key = qlit ''type''"
    | (date) "key \<noteq> qlit ''code''" "key \<noteq> qlit ''name''" "key \<noteq> qlit ''type''" "key = qlit ''releaseDate''"
    | (cards) t where "key \<noteq> qlit ''code''" "key \<noteq> qlit ''name''" "key \<noteq> qlit ''type''"
        "key \<noteq> qlit ''releaseDate''" "key = qlit ''cards''" "bytes = CHR ''['' # t"
    | (other) "s' = s" "v = Reject \<or> (v = Accept () \<and> r' = r)"
  proof -
    have "s' = s \<and> (v = Reject \<or> (v = Accept () \<and> r' = r))"
      if "key \<noteq> qlit ''code''" "key \<noteq> qlit ''name''" "key \<noteq> qlit ''type''" "key \<noteq> qlit ''releaseDate''"
        "key = qlit ''cards'' \<longrightarrow> (\<forall>t. bytes \<noteq> CHR ''['' # t)"
      using cb that by (cases bytes) (simp_all add: field_callback_def split: if_splits)
    with that show thesis by blast
  qed
  then show ?goal
  proof cases
    case code
    with cb show ?thesis by (intro store [OF _ upd(1)]) (simp add: field_callback_def)
  next
    case name
    with cb show ?thesis by (intro store [OF _ upd(2)]) (simp add: field_callback_def)
  next
    case type
    with cb show ?thesis by (intro store [OF _ upd(3)]) (simp add: field_callback_def)
  next
    case date
    with cb show ?thesis by (intro store [OF _ upd(4)]) (simp add: field_callback_def)
  next
    case (cards t)
    obtain x s1 where c: "countArrayElements (kMaxNestingDepth - 2) e bytes s = (x, s1)" by fastforce
    note inv1 = countArrayElements_inv [OF c w s]
    then obtain n where x: "x = Accept n" by (cases x) auto
    have "v = (if n \<ge> 0 then Accept () else Reject)" "s' = s1"
      "r' = r\<lparr>dataRange := (dataRange r)\<lparr>cardCount := n\<rparr>\<rparr>"
      using cb c x cards by (simp_all add: field_callback_def)
    with inv1 inv show ?thesis by (auto simp: field_inv_def)
  next
    case other
    with s upd(5) show ?thesis by auto
  qed
qed

lemma set_callback_keeps: "callback_keeps doc (sets_inv doc) (set_callback f)"
  unfolding callback_keeps_def
proof (intro allI impI)
  fix key e bytes st s v st' s'
  assume cb: "set_callback f key e bytes st s = (v, st', s')" and w: "within doc e bytes"
    and s: "scan_ok s" "doc_size s = int (length doc)"
    and inv: "sets_inv doc (e - int (length bytes)) st"
  show "(v = Accept () \<longrightarrow> sets_inv doc e st') \<and> v \<noteq> NoFuel \<and> scan_ok s' \<and> doc_size s' = int (length doc)"
  proof (cases "bytes = [] \<or> hd bytes \<noteq> CHR ''{''")
    case True
    with cb s show ?thesis by (auto simp: set_callback_def)
  next
    case False
    then obtain t where t: "bytes = CHR ''{'' # t" by (cases bytes) auto
    define r0 where "r0 = \<lparr>dataRange = \<lparr>start = e - int (length bytes),
        range_length = int (length bytes), cardCount = 0\<rparr>,
      code = key, name = [], type_field = [], releaseDate = []\<rparr>"
    obtain x r1 s1 where r: "forEachObjectMember f (kMaxNestingDepth - 2) (field_callback f) e bytes r0 s = (x, r1, s1)"
      by (metis prod_cases3)
    let ?I = "field_inv (e - int (length bytes)) (int (length bytes))"
    have "walk_result doc ?I e bytes (x, r1, s1)"
      using forEach_inv [OF field_callback_keeps growing_field, of doc e "CHR ''{''" t s
          "e - int (length bytes)" "int (length bytes)" r0 f "kMaxNestingDepth - 2" f] w s r
      by (simp add: t r0_def field_inv_def)
    then have x: "x \<noteq> NoFuel" "scan_ok s1" "doc_size s1 = int (length doc)"
      and acc: "\<And>p'. x = Accept p' \<Longrightarrow> field_inv (e - int (length bytes)) (int (length bytes)) 0 r1"
      by (auto simp: walk_result_def field_inv_def)
    have cb': "(v, st', s') = (case (x, r1, s1) of
        (Accept _, range1, scan1) \<Rightarrow> (Accept (), st\<lparr>ranges := ranges st @ [range1]\<rparr>, scan1)
      | (Reject, _, scan1) \<Rightarrow> (Reject, st\<lparr>malformedSetData := True\<rparr>, scan1)
      | (NoFuel, _, scan1) \<Rightarrow> (NoFuel, st, scan1))"
      using cb False unfolding set_callback_def Let_def r0_def [symmetric] r by simp
    show ?thesis
    proof (cases x)
      case (Accept p')
      note a = acc [OF this]
      have "slice doc r1 = bytes"
        using a within_text [OF w] by (simp add: slice_def field_inv_def)
      then have "range_ok doc r1" "range_end r1 = e" "start (dataRange r1) = e - int (length bytes)"
        using a t within_bounds [OF w] by (auto simp: range_ok_def range_end_def field_inv_def)
      with inv cb' Accept x show ?thesis
        by (fastforce simp: sets_inv_def sorted_wrt_append)
    qed (use cb' x in simp_all)
  qed
qed

lemma top_callback_keeps: "callback_keeps doc (sets_inv doc) (top_callback f)"
  unfolding callback_keeps_def
proof (intro allI impI)
  fix key e bytes st s v st' s'
  assume cb: "top_callback f key e bytes st s = (v, st', s')" and w: "within doc e bytes"
    and s: "scan_ok s" "doc_size s = int (length doc)"
    and inv: "sets_inv doc (e - int (length bytes)) st"
  have inv': "sets_inv doc e st" using growing_sets inv unfolding growing_def by fastforce
  show "(v = Accept () \<longrightarrow> sets_inv doc e st') \<and> v \<noteq> NoFuel \<and> scan_ok s' \<and> doc_size s' = int (length doc)"
  proof (cases "key = qlit ''data'' \<and> bytes \<noteq> [] \<and> hd bytes = CHR ''{''")
    case False
    with cb s inv' show ?thesis by (auto simp: top_callback_def Let_def split: if_splits)
  next
    case True
    then obtain t where t: "bytes = CHR ''{'' # t" by (cases bytes) auto
    define st1 where "st1 = st\<lparr>foundData := True\<rparr>"
    obtain x st2 s1 where r: "forEachObjectMember f (kMaxNestingDepth - 1) (set_callback f) e bytes st1 s = (x, st2, s1)"
      by (metis prod_cases3)
    have "walk_result doc (sets_inv doc) e bytes (x, st2, s1)"
      using forEach_inv [OF set_callback_keeps growing_sets, of doc e "CHR ''{''" t s st1 f "kMaxNestingDepth - 1" f] w s r inv
      by (simp add: t st1_def sets_inv_def)
    then have x: "x \<noteq> NoFuel" "scan_ok s1" "doc_size s1 = int (length doc)"
      and acc: "\<And>p'. x = Accept p' \<Longrightarrow> sets_inv doc e st2"
      by (auto simp: walk_result_def sets_inv_def)
    have cb': "(v, st', s') = (case (x, st2, s1) of
        (Accept _, st2, scan1) \<Rightarrow> (Accept (), st2, scan1)
      | (Reject, st2, scan1) \<Rightarrow> (Reject, st2\<lparr>malformedSetData := True\<rparr>, scan1)
      | (NoFuel, st2, scan1) \<Rightarrow> (NoFuel, st2, scan1))"
      using cb True unfolding top_callback_def Let_def st1_def [symmetric] r by simp
    show ?thesis using cb' x acc by (cases x) simp_all
  qed
qed

section \<open>Properties of the scan\<close>

lemma init_scan_ok [simp]: "scan_ok (init_scan b json)" "doc_size (init_scan b json) = int (length json)"
  by (simp_all add: init_scan_def scan_ok_def)

definition outcome_ok :: "string \<Rightarrow> scan_outcome \<Rightarrow> bool" where
  "outcome_ok json out \<longleftrightarrow>
     (found out = [] \<longleftrightarrow> message out \<noteq> []) \<and>
     (\<forall>r \<in> set (found out). range_ok json r \<and> range_end r \<le> int (length json)) \<and>
     sorted_wrt (\<lambda>r r'. range_end r \<le> start (dataRange r')) (found out) \<and>
     sorted_wrt (<) (0 # reported out) \<and> (\<forall>x \<in> set (reported out). x \<le> int (length json))"

lemma fail_scan_ok:
  "scan_ok s \<Longrightarrow> doc_size s = int (length json) \<Longrightarrow> m \<noteq> [] \<Longrightarrow> outcome_ok json (fail_scan m s)"
  by (simp add: fail_scan_def outcome_ok_def scan_ok_def)

lemma scanSetRanges_outcome_ok: "outcome_ok json (scanSetRanges f progress json)"
proof -
  let ?p = "skipWhitespace json" and ?e = "int (length json)"
  let ?st = "\<lparr>ranges = [], foundData = False, malformedSetData = False\<rparr>"
  show ?thesis
  proof (cases "json = [] \<or> ?p = [] \<or> hd ?p \<noteq> CHR ''{''")
    case True
    then show ?thesis by (auto simp: scanSetRanges_def Let_def intro!: fail_scan_ok)
  next
    case False
    then obtain t where t: "?p = CHR ''{'' # t" by (cases ?p) auto
    have "within json ?e json" unfolding within_def by (intro exI [of _ "[]"]) simp
    from within_suffix [OF this suffix_skipWhitespace] have w: "within json ?e (CHR ''{'' # t)" by (simp add: t)
    obtain v st s where r: "forEachObjectMember f kMaxNestingDepth (top_callback f) ?e (CHR ''{'' # t) ?st
        (init_scan progress json) = (v, st, s)" by (metis prod_cases3)
    have "walk_result json (sets_inv json) ?e (CHR ''{'' # t) (v, st, s)"
      unfolding r [symmetric]
      by (rule forEach_inv [OF top_callback_keeps growing_sets w]) (simp_all add: sets_inv_def)
    then have v: "v \<noteq> NoFuel" and s: "scan_ok s" "doc_size s = ?e"
      and acc: "\<And>p'. v = Accept p' \<Longrightarrow> sets_inv json (?e - int (length p')) st"
      by (auto simp: walk_result_def)
    have s': "scan_ok (report ?e [] s)" using s by (intro report_ok) simp_all
    have out: "scanSetRanges f progress json =
      (case v of Accept p1 \<Rightarrow>
         if skipWhitespace p1 \<noteq> [] then fail_scan ''trailing content after top-level JSON object'' s
         else if \<not> foundData st then fail_scan ''missing \"data\" object'' s
         else if ranges st = [] then fail_scan ''no sets found in \"data\"'' s
         else \<lparr>found = ranges st, message = [], reported = reports (report ?e [] s)\<rparr>
       | _ \<Rightarrow> fail_scan (if malformedSetData st then ''malformed set data'' else ''malformed JSON'') s)"
      using False by (cases v) (simp_all add: scanSetRanges_def Let_def t r)
    show ?thesis
    proof (cases v)
      case (Accept p1)
      have "outcome_ok json \<lparr>found = ranges st, message = [], reported = reports (report ?e [] s)\<rparr>"
        if "ranges st \<noteq> []"
        using that acc [OF Accept] s' s by (fastforce simp: outcome_ok_def sets_inv_def scan_ok_def)
      with Accept s show ?thesis unfolding out by (auto intro: fail_scan_ok)
    qed (use v s in \<open>simp_all add: out fail_scan_ok\<close>)
  qed
qed

text \<open>C17: A scan reports an error exactly when it returns no ranges. Every range it returns lies
  inside the document, starts with an opening brace and has a non-negative card count, and each
  range ends before the next one starts.\<close>

theorem scanSetRanges_ranges:
  "(found (scanSetRanges fromUtf8 progress json) = [] \<longleftrightarrow>
      message (scanSetRanges fromUtf8 progress json) \<noteq> []) \<and>
   (\<forall>r \<in> set (found (scanSetRanges fromUtf8 progress json)).
      0 \<le> start (dataRange r) \<and> 0 < range_length (dataRange r) \<and>
      start (dataRange r) + range_length (dataRange r) \<le> int (length json) \<and>
      0 \<le> cardCount (dataRange r) \<and> hd (slice json r) = CHR ''{'') \<and>
   sorted_wrt (\<lambda>r r'. start (dataRange r) + range_length (dataRange r) \<le> start (dataRange r'))
     (found (scanSetRanges fromUtf8 progress json))"
  using scanSetRanges_outcome_ok [of json fromUtf8 progress]
  unfolding outcome_ok_def range_ok_def range_end_def by blast

definition example_doc :: string where
  "example_doc = ''{\"data\":{\"A\":{\"cards\":[1]},\"B\":{}}}''"

definition latin1 :: "string \<Rightarrow> qstring" where
  "latin1 s = map of_char s"

theorem scanSetRanges_ranges_witness:
  "map (\<lambda>r. (start (dataRange r), range_length (dataRange r), cardCount (dataRange r)))
     (found (scanSetRanges latin1 True example_doc)) = [(13, 13, 1), (31, 2, 0)] \<and>
   list_all (\<lambda>r. start (dataRange r) + range_length (dataRange r) \<le> int (length example_doc))
     (found (scanSetRanges latin1 True example_doc))"
proof
  show "map (\<lambda>r. (start (dataRange r), range_length (dataRange r), cardCount (dataRange r)))
     (found (scanSetRanges latin1 True example_doc)) = [(13, 13, 1), (31, 2, 0)]"
    by code_simp
  show "list_all (\<lambda>r. start (dataRange r) + range_length (dataRange r) \<le> int (length example_doc))
     (found (scanSetRanges latin1 True example_doc))"
    unfolding list_all_iff using scanSetRanges_ranges [of latin1 True example_doc] by blast
qed

text \<open>The offsets reported during a scan ascend strictly, are positive and never pass the end
  of the document, although the walk passes over the set objects more than once.\<close>

theorem scanSetRanges_reports:
  "sorted_wrt (<) (0 # reported (scanSetRanges fromUtf8 progress json)) \<and>
   (\<forall>x \<in> set (reported (scanSetRanges fromUtf8 progress json)). x \<le> int (length json))"
  using scanSetRanges_outcome_ok [of json fromUtf8 progress]
  unfolding outcome_ok_def by blast

theorem scanSetRanges_reports_witness:
  "reported (scanSetRanges latin1 True example_doc) \<noteq> [] \<and>
   sorted_wrt (<) (0 # reported (scanSetRanges latin1 True example_doc)) \<and>
   list_all (\<lambda>x. x \<le> int (length example_doc)) (reported (scanSetRanges latin1 True example_doc))"
proof
  show "reported (scanSetRanges latin1 True example_doc) \<noteq> []" by code_simp
  show "sorted_wrt (<) (0 # reported (scanSetRanges latin1 True example_doc)) \<and>
    list_all (\<lambda>x. x \<le> int (length example_doc)) (reported (scanSetRanges latin1 True example_doc))"
    unfolding list_all_iff by (rule scanSetRanges_reports)
qed

end
