(* ===== verification/ServerCard.thy ===== *)
theory ServerCard
  imports Prelude
begin

text \<open>
  The cards and counters of the game server: \<open>clamped_arithmetic.h\<close>, \<open>counter_limits.h\<close>,
  \<open>server_counter\<close> and \<open>server_card\<close>, and the part of \<open>cmdCreateToken\<close> that turns a card into a
  token. Cards point to each other (parent, attached cards, stashed card), so they live in a store
  that maps addresses to cards; every operation that changes a card returns the new store. A call
  with an event argument returns the event next to its result, \<open>None\<close> standing for \<open>nullptr\<close>.
\<close>

section \<open>Bounded counters\<close>

definition addClamped :: "int \<Rightarrow> int \<Rightarrow> int \<Rightarrow> int \<Rightarrow> int" where
  "addClamped v delta minValue maxValue = qBound minValue (v + delta) maxValue"

definition max_counter_value :: int where
  "max_counter_value = 999"

record server_counter =
  counter_id :: int
  counter_name :: string
  counter_radius :: int
  counter_count :: int

definition setCount :: "int \<Rightarrow> server_counter \<Rightarrow> bool \<times> server_counter" where
  "setCount n c = (n \<noteq> counter_count c, c\<lparr>counter_count := n\<rparr>)"

definition incrementCount :: "int \<Rightarrow> server_counter \<Rightarrow> bool \<times> server_counter" where
  "incrementCount delta c =
     (let n = addClamped (counter_count c) delta int32_min int32_max
      in (n \<noteq> counter_count c, c\<lparr>counter_count := n\<rparr>))"

lemma addClamped_range:
  "lo \<le> hi \<Longrightarrow> lo \<le> addClamped v d lo hi \<and> addClamped v d lo hi \<le> hi"
  unfolding addClamped_def by (rule qBound_range)

lemma addClamped_mono: "v \<le> v' \<Longrightarrow> d \<le> d' \<Longrightarrow> addClamped v d lo hi \<le> addClamped v' d' lo hi"
  by (auto simp: addClamped_def qBound_def)

section \<open>Cards\<close>

record card_ref =
  ref_name :: string
  ref_provider :: string

datatype card_attribute =
  AttrTapped | AttrAttacking | AttrFaceDown | AttrColor | AttrPT | AttrAnnotation | AttrDoesntUntap

type_synonym addr = nat

text \<open>A zone pointer is the name of the zone and the id of its player.\<close>

type_synonym zone_ref = "string \<times> int"

record server_card =
  zone :: "zone_ref option"
  cid :: int
  coord_x :: int
  coord_y :: int
  cardRef :: card_ref
  counters :: "(int, int) qmap"
  tapped :: bool
  attacking :: bool
  facedown :: bool
  color :: string
  ptString :: string
  annotation :: string
  tokenAbilityKeywords :: "string list"
  tokenAbilityTexts :: "string list"
  tokenBasePt :: string
  tokenBaseManaCost :: string
  tokenBaseManaValue :: int
  destroyOnZoneChange :: bool
  doesntUntap :: bool
  parentCard :: "addr option"
  attachedCards :: "addr list"
  stashedCard :: "addr option"

type_synonym card_store = "addr \<Rightarrow> server_card"

definition new_server_card :: "card_ref \<Rightarrow> int \<Rightarrow> int \<Rightarrow> int \<Rightarrow> zone_ref option \<Rightarrow> server_card" where
  "new_server_card r i x y z =
     \<lparr>zone = z, cid = i, coord_x = x, coord_y = y, cardRef = r, counters = [], tapped = False,
      attacking = False, facedown = False, color = [], ptString = [], annotation = [],
      tokenAbilityKeywords = [], tokenAbilityTexts = [], tokenBasePt = [], tokenBaseManaCost = [],
      tokenBaseManaValue = 0, destroyOnZoneChange = False, doesntUntap = False, parentCard = None,
      attachedCards = [], stashedCard = None\<rparr>"

definition resetState :: "bool \<Rightarrow> server_card \<Rightarrow> server_card" where
  "resetState keepAnnotations c =
     (let c1 = c\<lparr>counters := [], tapped := False, attacking := False, ptString := []\<rparr>;
          c2 = (if \<not> keepAnnotations then c1\<lparr>annotation := []\<rparr> else c1)
      in c2\<lparr>doesntUntap := False\<rparr>)"

subsection \<open>Attributes\<close>

record attr_event =
  ev_attribute :: "card_attribute option"
  ev_attr_value :: "string option"

definition setAttribute ::
  "card_attribute \<Rightarrow> string \<Rightarrow> attr_event option \<Rightarrow> server_card \<Rightarrow> string \<times> attr_event option \<times> server_card"
where
  "setAttribute attr avalue event c =
     (let ev1 = map_option (\<lambda>e. e\<lparr>ev_attribute := Some attr\<rparr>) event;
          ev2 = map_option (\<lambda>e. e\<lparr>ev_attr_value := Some avalue\<rparr>) ev1;
          on = (avalue = ''1'')
      in case attr of
           AttrTapped \<Rightarrow> (avalue, ev2, c\<lparr>tapped := on\<rparr>)
         | AttrAttacking \<Rightarrow> (avalue, ev2, c\<lparr>attacking := on\<rparr>)
         | AttrFaceDown \<Rightarrow> (avalue, ev2, c\<lparr>facedown := on\<rparr>)
         | AttrColor \<Rightarrow> (avalue, ev2, c\<lparr>color := avalue\<rparr>)
         | AttrPT \<Rightarrow> (avalue, ev2, c\<lparr>ptString := avalue\<rparr>)
         | AttrAnnotation \<Rightarrow> (avalue, ev2, c\<lparr>annotation := avalue\<rparr>)
         | AttrDoesntUntap \<Rightarrow> (avalue, ev2, c\<lparr>doesntUntap := on\<rparr>))"

text \<open>\<open>QVariant(bool).toString()\<close>.\<close>

definition bool_string :: "bool \<Rightarrow> string" where
  "bool_string b = (if b then ''true'' else ''false'')"

text \<open>
  The overload for a change of all cards of a zone; whether a card is a land that untaps anyway is
  looked up in the card database, the parameter \<open>is_land\<close>.
\<close>

definition setAttributeAll ::
  "(card_ref \<Rightarrow> bool \<Rightarrow> bool) \<Rightarrow> card_attribute \<Rightarrow> string \<Rightarrow> bool \<Rightarrow> server_card \<Rightarrow> string \<times> server_card"
where
  "setAttributeAll is_land attr avalue allCards c =
     (if attr = AttrTapped \<and> avalue \<noteq> ''1'' \<and> allCards \<and> doesntUntap c \<and>
         \<not> is_land (cardRef c) (facedown c)
      then (bool_string (tapped c), c)
      else case setAttribute attr avalue None c of (r, _, c') \<Rightarrow> (r, c'))"

subsection \<open>Counters\<close>

record counter_event =
  ev_counter_id :: int
  ev_counter_value :: int

definition getCounter :: "int \<Rightarrow> server_card \<Rightarrow> int" where
  "getCounter i c = qm_value (counters c) i 0"

definition store_counter :: "int \<Rightarrow> int \<Rightarrow> server_card \<Rightarrow> server_card" where
  "store_counter i v c =
     (if v \<noteq> 0 then c\<lparr>counters := qm_insert i v (counters c)\<rparr>
      else c\<lparr>counters := qm_remove i (counters c)\<rparr>)"

definition setCounter :: "int \<Rightarrow> int \<Rightarrow> server_card \<Rightarrow> bool \<times> counter_event option \<times> server_card" where
  "setCounter i v c =
     (let v1 = qBound 0 v max_counter_value; oldValue = getCounter i c in
      if v1 = oldValue then (False, None, c)
      else (True, Some \<lparr>ev_counter_id = i, ev_counter_value = v1\<rparr>, store_counter i v1 c))"

definition incrementCounter :: "int \<Rightarrow> int \<Rightarrow> server_card \<Rightarrow> bool \<times> counter_event option \<times> server_card" where
  "incrementCounter i delta c =
     (let oldValue = getCounter i c; newValue = addClamped oldValue delta 0 max_counter_value in
      if newValue = oldValue then (False, None, c)
      else (True, Some \<lparr>ev_counter_id = i, ev_counter_value = newValue\<rparr>, store_counter i newValue c))"

subsection \<open>Attachments and the stashed card\<close>

definition addAttachedCard :: "addr \<Rightarrow> addr \<Rightarrow> card_store \<Rightarrow> card_store" where
  "addAttachedCard p c h = h(p := (h p)\<lparr>attachedCards := attachedCards (h p) @ [c]\<rparr>)"

definition removeAttachedCard :: "addr \<Rightarrow> addr \<Rightarrow> card_store \<Rightarrow> card_store" where
  "removeAttachedCard p c h = h(p := (h p)\<lparr>attachedCards := remove1 c (attachedCards (h p))\<rparr>)"

definition setParentCard :: "addr \<Rightarrow> addr option \<Rightarrow> card_store \<Rightarrow> card_store" where
  "setParentCard c np h =
     (let h1 = (case parentCard (h c) of None \<Rightarrow> h | Some p \<Rightarrow> removeAttachedCard p c h);
          h2 = h1(c := (h1 c)\<lparr>parentCard := np\<rparr>)
      in case np of None \<Rightarrow> h2 | Some p \<Rightarrow> addAttachedCard p c h2)"

text \<open>The destructor: its loop ends only when the list of attached cards is empty.\<close>

partial_function (option) detach_all :: "addr \<Rightarrow> card_store \<Rightarrow> card_store option" where
  "detach_all c h =
     (case attachedCards (h c) of
        [] \<Rightarrow> Some h
      | a # _ \<Rightarrow> detach_all c (setParentCard a None h))"

text \<open>The second component is the stashed card that is deleted with the card.\<close>

definition destroy_card :: "addr \<Rightarrow> card_store \<Rightarrow> (card_store \<times> addr option) option" where
  "destroy_card c h =
     (case detach_all c h of
        None \<Rightarrow> None
      | Some h1 \<Rightarrow>
          let h2 = (case parentCard (h1 c) of None \<Rightarrow> h1 | Some p \<Rightarrow> removeAttachedCard p c h1)
          in Some (h2(c := (h2 c)\<lparr>stashedCard := None\<rparr>), stashedCard (h2 c)))"

definition takeStashedCard :: "addr \<Rightarrow> card_store \<Rightarrow> addr option \<times> card_store" where
  "takeStashedCard c h = (stashedCard (h c), h(c := (h c)\<lparr>stashedCard := None\<rparr>))"

text \<open>The second component is the card that is deleted instead of being stashed.\<close>

definition setStashedCard :: "addr \<Rightarrow> addr \<Rightarrow> card_store \<Rightarrow> card_store \<times> addr option" where
  "setStashedCard c s h =
     (if stashedCard (h s) \<noteq> None \<or> destroyOnZoneChange (h s) then
        (case takeStashedCard s h of
           (t, h1) \<Rightarrow> (h1(c := (h1 c)\<lparr>stashedCard := t\<rparr>), Some s))
      else (h(c := (h c)\<lparr>stashedCard := Some s\<rparr>), None))"

subsection \<open>What a client is told about a card\<close>

record server_info_card =
  info_id :: int
  info_provider_id :: string
  info_name :: string
  info_x :: int
  info_y :: int
  info_face_down :: bool
  info_tapped :: bool
  info_attacking :: bool
  info_color :: string
  info_pt :: string
  info_annotation :: string
  info_destroy :: bool
  info_doesnt_untap :: bool
  info_keywords :: "string list"
  info_texts :: "string list"
  info_token_base_pt :: string
  info_token_base_mana :: "(string \<times> int) option"
  info_counters :: "(int \<times> int) list"
  info_attach :: "(int \<times> string \<times> int) option"

text \<open>
  The player, zone and id of the card this one is attached to: \<open>None\<close> is the null zone pointer of
  that card, which the code would dereference, \<open>Some None\<close> a card attached to nothing.
\<close>

definition attach_info :: "card_store \<Rightarrow> server_card \<Rightarrow> (int \<times> string \<times> int) option option" where
  "attach_info h c =
     (case parentCard c of
        None \<Rightarrow> Some None
      | Some p \<Rightarrow> (case zone (h p) of None \<Rightarrow> None | Some (zn, pl) \<Rightarrow> Some (Some (pl, zn, cid (h p)))))"

text \<open>Fields that are left unset are empty, \<open>False\<close> or \<open>None\<close>.\<close>

definition getInfo :: "card_store \<Rightarrow> server_card \<Rightarrow> server_info_card option" where
  "getInfo h c = map_option (\<lambda>attach.
     \<lparr>info_id = cid c,
      info_provider_id =
        (if facedown c \<and> (case zone c of None \<Rightarrow> False
                             | Some (zn, _) \<Rightarrow> zn = ''table'' \<or> zn = ''rfg'')
         then [] else ref_provider (cardRef c)),
      info_name = (if facedown c then [] else ref_name (cardRef c)),
      info_x = coord_x c,
      info_y = coord_y c,
      info_face_down = facedown c,
      info_tapped = tapped c,
      info_attacking = attacking c,
      info_color = color c,
      info_pt = ptString c,
      info_annotation = annotation c,
      info_destroy = destroyOnZoneChange c,
      info_doesnt_untap = doesntUntap c,
      info_keywords = (if facedown c then [] else tokenAbilityKeywords c),
      info_texts = (if facedown c then [] else tokenAbilityTexts c),
      info_token_base_pt = (if facedown c then [] else tokenBasePt c),
      info_token_base_mana =
        (if \<not> facedown c \<and> destroyOnZoneChange c
         then Some (tokenBaseManaCost c, tokenBaseManaValue c) else None),
      info_counters = counters c,
      info_attach = attach\<rparr>) (attach_info h c)"

subsection \<open>Turning a card into a token\<close>

text \<open>
  The \<open>TRANSFORM_INTO\<close> branch of \<open>cmdCreateToken\<close>: \<open>t\<close> is the card that is replaced, \<open>c\<close> the new
  token. One event object is reused for the four flags; the list holds what is sent.
\<close>

definition copy_flag ::
  "card_attribute \<Rightarrow> (server_card \<Rightarrow> bool) \<Rightarrow> server_card \<Rightarrow> server_card \<times> attr_event \<times> attr_event list \<Rightarrow>
   server_card \<times> attr_event \<times> attr_event list"
where
  "copy_flag attr flag t st =
     (case st of (c, ev, sent) \<Rightarrow>
        if flag c \<noteq> flag t then
          (case setAttribute attr (bool_string (flag t)) (Some ev) c of
             (_, ev1, c1) \<Rightarrow> (c1, the ev1, sent @ [the ev1]))
        else (c, ev, sent))"

definition copy_flags :: "server_card \<Rightarrow> server_card \<Rightarrow> server_card \<times> attr_event list" where
  "copy_flags t c =
     (case copy_flag AttrDoesntUntap doesntUntap t
             (copy_flag AttrFaceDown facedown t
               (copy_flag AttrAttacking attacking t
                 (copy_flag AttrTapped tapped t
                   (c, \<lparr>ev_attribute = None, ev_attr_value = None\<rparr>, [])))) of
        (c', _, sent) \<Rightarrow> (c', sent))"

fun copy_counters :: "(int, int) qmap \<Rightarrow> server_card \<Rightarrow> server_card \<times> counter_event list" where
  "copy_counters [] c = (c, [])"
| "copy_counters ((i, v) # m) c =
     (case setCounter i v c of
        (_, ev, c1) \<Rightarrow>
          (case copy_counters m c1 of
             (c2, evs) \<Rightarrow> (c2, (case ev of None \<Rightarrow> evs | Some e \<Rightarrow> e # evs))))"

definition copy_parent :: "addr \<Rightarrow> addr \<Rightarrow> card_store \<Rightarrow> card_store" where
  "copy_parent t c h =
     (case parentCard (h t) of
        None \<Rightarrow> h
      | Some p \<Rightarrow> setParentCard c (Some p) (setParentCard t None h))"

partial_function (option) copy_attachments :: "addr \<Rightarrow> addr \<Rightarrow> card_store \<Rightarrow> card_store option" where
  "copy_attachments t c h =
     (if attachedCards (h t) = [] then Some h
      else copy_attachments t c (setParentCard (last (attachedCards (h t))) (Some c) h))"

definition transform_into :: "addr \<Rightarrow> addr \<Rightarrow> card_store \<Rightarrow> card_store option" where
  "transform_into t c h =
     (let h1 = h(c := fst (copy_flags (h t) (h c)));
          h2 = h1(c := fst (copy_counters (counters (h1 t)) (h1 c)));
          h3 = copy_parent t c h2
      in case copy_attachments t c h3 of
           None \<Rightarrow> None
         | Some h4 \<Rightarrow> Some (fst (setStashedCard c t (h4(t := resetState False (h4 t))))))"

section \<open>Counters: values and events\<close>

definition counters_ok :: "server_card \<Rightarrow> bool" where
  "counters_ok c \<longleftrightarrow>
     qm_ok (counters c) \<and>
     (\<forall>i v. map_of (counters c) i = Some v \<longrightarrow> 1 \<le> v \<and> v \<le> max_counter_value)"

lemma counters_ok_getCounter: "counters_ok c \<Longrightarrow> 0 \<le> getCounter i c \<and> getCounter i c \<le> max_counter_value"
  by (cases "map_of (counters c) i")
     (auto simp: counters_ok_def getCounter_def qm_value_def max_counter_value_def, fastforce)

lemma store_counter_ok:
  assumes "counters_ok c" and "0 \<le> v" and "v \<le> max_counter_value"
  shows "counters_ok (store_counter i v c)"
    and "getCounter j (store_counter i v c) = (if j = i then v else getCounter j c)"
  using assms by (auto simp: counters_ok_def store_counter_def getCounter_def)

text \<open>Setting and incrementing a card counter saturate at 0 and 999 and touch no other counter;
  the result and the event say exactly whether the value changed, and a stored counter is never 0.\<close>

theorem card_counters:
  assumes "counters_ok c"
  shows "(case setCounter i v c of (changed, ev, c') \<Rightarrow>
            counters_ok c' \<and> getCounter i c' = qBound 0 v 999 \<and>
            (\<forall>j. j \<noteq> i \<longrightarrow> getCounter j c' = getCounter j c) \<and>
            (changed \<longleftrightarrow> getCounter i c' \<noteq> getCounter i c) \<and>
            ev = (if changed then Some \<lparr>ev_counter_id = i, ev_counter_value = getCounter i c'\<rparr> else None)) \<and>
         (case incrementCounter i v c of (changed, ev, c') \<Rightarrow>
            counters_ok c' \<and> getCounter i c' = qBound 0 (getCounter i c + v) 999 \<and>
            (\<forall>j. j \<noteq> i \<longrightarrow> getCounter j c' = getCounter j c) \<and>
            (changed \<longleftrightarrow> getCounter i c' \<noteq> getCounter i c) \<and>
            ev = (if changed then Some \<lparr>ev_counter_id = i, ev_counter_value = getCounter i c'\<rparr> else None))"
proof -
  have r: "0 \<le> qBound 0 x max_counter_value" "qBound 0 x max_counter_value \<le> max_counter_value" for x
    using qBound_range [of 0 max_counter_value x] by (simp_all add: max_counter_value_def)
  note put = store_counter_ok [OF assms r]
  have m: "max_counter_value = 999" by (simp add: max_counter_value_def)
  show ?thesis
    using assms put unfolding setCounter_def incrementCounter_def addClamped_def Let_def
    by (simp add: m)
qed

definition example_card :: server_card where
  "example_card = (new_server_card \<lparr>ref_name = ''Bear'', ref_provider = ''p1''\<rparr> 7 0 2 None)
     \<lparr>counters := [(1, 998), (4, 2)]\<rparr>"

theorem card_counters_witness:
  "incrementCounter 1 2147483647 example_card =
     (True, Some \<lparr>ev_counter_id = 1, ev_counter_value = 999\<rparr>, example_card\<lparr>counters := [(1, 999), (4, 2)]\<rparr>) \<and>
   (case setCounter 4 (- 3) example_card of (changed, ev, c') \<Rightarrow> changed \<and> counters_ok c' \<and> getCounter 4 c' = 0)"
proof -
  have ok: "counters_ok example_card"
    by (auto simp: counters_ok_def example_card_def new_server_card_def qm_ok_def max_counter_value_def
        split: if_splits)
  have "getCounter 4 example_card = 2" by (simp add: example_card_def getCounter_def qm_value_def)
  moreover have "incrementCounter 1 2147483647 example_card =
     (True, Some \<lparr>ev_counter_id = 1, ev_counter_value = 999\<rparr>, example_card\<lparr>counters := [(1, 999), (4, 2)]\<rparr>)"
    by code_simp
  ultimately show ?thesis
    using card_counters [OF ok, of 4 "- 3"] by (auto simp: qBound_def split: prod.splits)
qed

text \<open>Incrementing a player counter saturates at the limits of a 32-bit integer: the value stays
  in range, is the exact sum whenever that fits, and the result says whether it changed.\<close>

theorem increment_saturates:
  assumes "is_int32 (counter_count c)" and "is_int32 delta"
  shows "case incrementCount delta c of (changed, c') \<Rightarrow>
    is_int32 (counter_count c') \<and>
    (changed \<longleftrightarrow> counter_count c' \<noteq> counter_count c) \<and>
    counter_count c' = (if is_int32 (counter_count c + delta) then counter_count c + delta
                        else if delta < 0 then int32_min else int32_max)"
  using assms
  by (auto simp: incrementCount_def Let_def addClamped_def qBound_def is_int32_def
      int32_min_def int32_max_def)

theorem increment_saturates_witness:
  "incrementCount 5 \<lparr>counter_id = 0, counter_name = ''life'', counter_radius = 20, counter_count = 2147483645\<rparr>
   = (True, \<lparr>counter_id = 0, counter_name = ''life'', counter_radius = 20, counter_count = 2147483647\<rparr>)"
  using increment_saturates [of "\<lparr>counter_id = 0, counter_name = ''life'', counter_radius = 20,
      counter_count = 2147483645\<rparr>" 5]
  by (simp add: incrementCount_def Let_def addClamped_def qBound_def is_int32_def
      int32_min_def int32_max_def)

section \<open>Attachments\<close>

definition attach_ok :: "card_store \<Rightarrow> bool" where
  "attach_ok h \<longleftrightarrow>
     (\<forall>c p. parentCard (h c) = Some p \<longleftrightarrow> c \<in> set (attachedCards (h p))) \<and>
     (\<forall>p. distinct (attachedCards (h p)))"

lemma attachedCards_setParentCard:
  assumes "attach_ok h"
  shows "attachedCards (setParentCard c np h p) =
    (if np = Some p then remove1 c (attachedCards (h p)) @ [c] else remove1 c (attachedCards (h p)))"
proof -
  have "remove1 c (attachedCards (h p)) = attachedCards (h p)" if "parentCard (h c) \<noteq> Some p" for p
    using assms that by (simp add: attach_ok_def remove1_idem)
  then show ?thesis
    by (auto simp: setParentCard_def removeAttachedCard_def addAttachedCard_def Let_def
        split: option.splits)
qed

lemma parentCard_setParentCard:
  "parentCard (setParentCard c np h d) = (if d = c then np else parentCard (h d))"
  by (auto simp: setParentCard_def removeAttachedCard_def addAttachedCard_def Let_def
      split: option.splits)

lemma setParentCard_ok: "attach_ok h \<Longrightarrow> attach_ok (setParentCard c np h)"
  unfolding attach_ok_def [of "setParentCard c np h"]
  by (auto simp: attachedCards_setParentCard parentCard_setParentCard)
     (auto simp: attach_ok_def)

text \<open>Nothing but the links changes.\<close>

lemma setParentCard_other:
  "f (setParentCard c np h d) = f (h d)"
  if "\<And>x g. f (x\<lparr>attachedCards := g\<rparr>) = f x" and "\<And>x g. f (x\<lparr>parentCard := g\<rparr>) = f x"
  using that
  by (auto simp: setParentCard_def removeAttachedCard_def addAttachedCard_def Let_def
      split: option.splits)

text \<open>C24: Re-parenting a card keeps parent pointers and attachment lists in step with each other: the
  card is moved to the end of the new parent's list and leaves every other list.\<close>

theorem setParentCard_links:
  assumes "attach_ok h"
  shows "attach_ok (setParentCard c np h) \<and>
    parentCard (setParentCard c np h c) = np \<and>
    (\<forall>d. d \<noteq> c \<longrightarrow> parentCard (setParentCard c np h d) = parentCard (h d)) \<and>
    (\<forall>p. attachedCards (setParentCard c np h p) =
       filter (\<lambda>d. d \<noteq> c) (attachedCards (h p)) @ (if np = Some p then [c] else []))"
proof -
  have "remove1 c (attachedCards (h p)) = filter (\<lambda>d. d \<noteq> c) (attachedCards (h p))" for p
    using assms by (simp add: attach_ok_def distinct_remove1_removeAll removeAll_filter_not_eq neq_commute)
  then show ?thesis
    using assms by (simp add: setParentCard_ok attachedCards_setParentCard parentCard_setParentCard)
qed

lemma detach_all_simps:
  "attachedCards (h c) = [] \<Longrightarrow> detach_all c h = Some h"
  "attachedCards (h c) = a # as \<Longrightarrow> detach_all c h = detach_all c (setParentCard a None h)"
  by (subst detach_all.simps, simp)+

lemma detach_all_returns:
  "attach_ok h \<Longrightarrow> \<exists>h'. detach_all c h = Some h' \<and> attach_ok h' \<and> attachedCards (h' c) = [] \<and>
     (\<forall>d. parentCard (h' d) = (if parentCard (h d) = Some c then None else parentCard (h d)))"
proof (induction "attachedCards (h c)" arbitrary: h)
  case Nil
  then have "parentCard (h d) \<noteq> Some c" for d by (simp add: attach_ok_def)
  with Nil show ?case by (simp add: detach_all_simps)
next
  case (Cons a as)
  let ?h = "setParentCard a None h"
  have a: "attachedCards (h c) = a # as" and ok: "attach_ok h" using Cons by simp_all
  have "as = attachedCards (?h c)" using a by (simp add: attachedCards_setParentCard [OF ok])
  moreover have "parentCard (h a) = Some c" using ok a by (simp add: attach_ok_def)
  ultimately show ?case
    using Cons.hyps(1) [of ?h] setParentCard_ok [OF ok]
    by (auto simp: detach_all_simps(2) [of h c a as, OF a] parentCard_setParentCard)
qed

text \<open>C25: The destructor of a card returns, and afterwards no card has the deleted card as its parent
  or in its list of attached cards; links between other cards are as before.\<close>

theorem destroy_card_unlinks:
  assumes "attach_ok h"
  shows "\<exists>h'. destroy_card c h = Some (h', stashedCard (h c)) \<and>
    (\<forall>d. parentCard (h' d) = (if parentCard (h d) = Some c then None else parentCard (h d))) \<and>
    (\<forall>p. c \<notin> set (attachedCards (h' p))) \<and>
    (\<forall>p d. d \<noteq> c \<longrightarrow> p \<noteq> c \<longrightarrow> (d \<in> set (attachedCards (h' p)) \<longleftrightarrow> d \<in> set (attachedCards (h p))))"
proof -
  obtain h1 where h1: "detach_all c h = Some h1" "attach_ok h1" "attachedCards (h1 c) = []"
    and p1: "\<And>d. parentCard (h1 d) = (if parentCard (h d) = Some c then None else parentCard (h d))"
    using detach_all_returns [OF assms] by blast
  have stash: "stashedCard (h1 c) = stashedCard (h c)"
  proof -
    have "stashedCard (y c) = stashedCard (h c)" if "detach_all c h = Some y" for y
      by (rule detach_all.raw_induct [where P = "\<lambda>c h y. stashedCard (y c) = stashedCard (h c)", OF _ that])
         (auto simp: setParentCard_other [where f = stashedCard] split: list.splits)
    with h1 show ?thesis by blast
  qed
  let ?h2 = "case parentCard (h1 c) of None \<Rightarrow> h1 | Some p \<Rightarrow> removeAttachedCard p c h1"
  let ?h' = "?h2(c := (?h2 c)\<lparr>stashedCard := None\<rparr>)"
  have s2: "stashedCard (?h2 c) = stashedCard (h c)"
    by (auto simp: removeAttachedCard_def stash split: option.splits)
  have "destroy_card c h = Some (?h', stashedCard (h c))"
    using h1(1) s2 by (simp add: destroy_card_def Let_def)
  moreover have parents: "parentCard (?h' d) = parentCard (h1 d)" for d
    by (auto simp: removeAttachedCard_def split: option.splits)
  have att: "attachedCards (?h' p) = remove1 c (attachedCards (h1 p))" for p
  proof -
    have "remove1 c (attachedCards (h1 p)) = attachedCards (h1 p)" if "parentCard (h1 c) \<noteq> Some p" for p
      using h1(2) that by (simp add: attach_ok_def remove1_idem)
    then show ?thesis by (auto simp: removeAttachedCard_def split: option.splits)
  qed
  moreover have "c \<notin> set (attachedCards (?h' p))" for p
    unfolding att using h1(2) by (simp add: attach_ok_def)
  moreover have "d \<in> set (attachedCards (?h' p)) \<longleftrightarrow> d \<in> set (attachedCards (h p))"
    if "d \<noteq> c" "p \<noteq> c" for d p
  proof -
    have "d \<in> set (attachedCards (?h' p)) \<longleftrightarrow> parentCard (h1 d) = Some p"
      unfolding att using h1(2) that by (simp add: attach_ok_def)
    also have "\<dots> \<longleftrightarrow> parentCard (h d) = Some p" using that p1 [of d] by auto
    finally show ?thesis using assms by (simp add: attach_ok_def)
  qed
  ultimately show ?thesis using parents p1 by (intro exI [of _ ?h']) (simp del: fun_upd_apply)
qed

text \<open>A store with a creature (1), two cards attached to it (2 and 3) and a loose card (4).\<close>

definition example_store :: card_store where
  "example_store a =
     (let c = new_server_card \<lparr>ref_name = ''Bear'', ref_provider = ''p1''\<rparr> (int a) 0 0 (Some (''table'', 1)) in
      if a = 1 then c\<lparr>attachedCards := [2, 3], tapped := True, counters := [(0, 3)]\<rparr>
      else if a = 2 \<or> a = 3 then c\<lparr>parentCard := Some 1\<rparr>
      else c)"

lemma example_store_ok: "attach_ok example_store"
  by (auto simp: attach_ok_def example_store_def new_server_card_def Let_def)

theorem setParentCard_links_witness:
  "attachedCards (setParentCard 2 (Some 4) example_store 1) = [3] \<and>
   attachedCards (setParentCard 2 (Some 4) example_store 4) = [2] \<and>
   attach_ok (setParentCard 2 (Some 4) example_store)"
  using setParentCard_links [OF example_store_ok, of 2 "Some 4"]
  by (simp add: example_store_def new_server_card_def Let_def)

theorem destroy_card_unlinks_witness:
  "\<exists>h'. destroy_card 1 example_store = Some (h', None) \<and>
     parentCard (h' 2) = None \<and> parentCard (h' 3) = None"
proof -
  obtain h' where h': "destroy_card 1 example_store = Some (h', stashedCard (example_store 1))"
    "\<And>d. parentCard (h' d) = (if parentCard (example_store d) = Some 1 then None else parentCard (example_store d))"
    using destroy_card_unlinks [OF example_store_ok, of 1] by blast
  then show ?thesis
    by (intro exI [of _ h']) (simp add: example_store_def new_server_card_def Let_def)
qed

section \<open>Turning a card into a token\<close>

lemma copy_flag_fst:
  "fst (copy_flag AttrTapped tapped t st) = (fst st)\<lparr>tapped := tapped (fst st) \<and> tapped t\<rparr>"
  "fst (copy_flag AttrAttacking attacking t st) = (fst st)\<lparr>attacking := attacking (fst st) \<and> attacking t\<rparr>"
  "fst (copy_flag AttrFaceDown facedown t st) = (fst st)\<lparr>facedown := facedown (fst st) \<and> facedown t\<rparr>"
  "fst (copy_flag AttrDoesntUntap doesntUntap t st) =
     (fst st)\<lparr>doesntUntap := doesntUntap (fst st) \<and> doesntUntap t\<rparr>"
  by (cases st; cases "fst st"; simp add: copy_flag_def setAttribute_def bool_string_def Let_def)+

lemma copy_flags_eq [simp]:
  "fst (copy_flags t c) =
     c\<lparr>tapped := tapped c \<and> tapped t, attacking := attacking c \<and> attacking t,
       facedown := facedown c \<and> facedown t, doesntUntap := doesntUntap c \<and> doesntUntap t\<rparr>"
proof -
  have "fst (case st of (c', _, sent) \<Rightarrow> (c', sent)) = fst st"
    for st :: "server_card \<times> attr_event \<times> attr_event list"
    by (cases st) simp
  then show ?thesis by (simp add: copy_flags_def copy_flag_fst)
qed

lemma qm_insert_above:
  "\<forall>k \<in> fst ` set m. k < i \<Longrightarrow> qm_insert i v m = m @ [(i, v)]"
  by (induction m) auto

lemma map_of_below: "\<forall>k \<in> fst ` set m. k < i \<Longrightarrow> map_of m (i :: int) = None"
  by (induction m) force+

lemma copy_counters_eq:
  "qm_ok (counters c @ m) \<Longrightarrow> \<forall>(i, v) \<in> set m. 1 \<le> v \<and> v \<le> max_counter_value \<Longrightarrow>
   fst (copy_counters m c) = c\<lparr>counters := counters c @ m\<rparr>"
proof (induction m arbitrary: c)
  case (Cons iv m)
  obtain i v where iv: "iv = (i, v)" by force
  have below: "\<forall>k \<in> fst ` set (counters c). k < i"
    using Cons.prems(1) iv by (auto simp: qm_ok_def sorted_wrt_append)
  have v: "1 \<le> v" "v \<le> max_counter_value" using Cons.prems(2) iv by auto
  have "setCounter i v c = (True, Some \<lparr>ev_counter_id = i, ev_counter_value = v\<rparr>,
      c\<lparr>counters := counters c @ [(i, v)]\<rparr>)"
    using v below
    by (simp add: setCounter_def store_counter_def getCounter_def qm_value_def map_of_below
        qm_insert_above)
  moreover have "fst (copy_counters m (c\<lparr>counters := counters c @ [(i, v)]\<rparr>))
      = c\<lparr>counters := counters c @ [(i, v)]\<rparr>\<lparr>counters := counters c @ [(i, v)] @ m\<rparr>"
    using Cons.prems iv by (subst Cons.IH) simp_all
  ultimately show ?case
    by (cases "copy_counters m (c\<lparr>counters := counters c @ [(i, v)]\<rparr>)") (simp add: iv)
qed (simp add: qm_ok_def)

lemma copy_attachments_simps:
  "attachedCards (h t) = [] \<Longrightarrow> copy_attachments t c h = Some h"
  "attachedCards (h t) \<noteq> [] \<Longrightarrow>
     copy_attachments t c h = copy_attachments t c (setParentCard (last (attachedCards (h t))) (Some c) h)"
  by (subst copy_attachments.simps, simp)+

lemma copy_attachments_returns:
  "attach_ok h \<Longrightarrow> c \<noteq> t \<Longrightarrow> \<exists>h'. copy_attachments t c h = Some h' \<and> attach_ok h' \<and>
     attachedCards (h' t) = [] \<and>
     attachedCards (h' c) = attachedCards (h c) @ rev (attachedCards (h t)) \<and>
     (\<forall>d. parentCard (h' d) = (if parentCard (h d) = Some t then Some c else parentCard (h d))) \<and>
     (\<forall>d f. (\<forall>x g. f (x\<lparr>attachedCards := g\<rparr>) = f x) \<longrightarrow> (\<forall>x g. f (x\<lparr>parentCard := g\<rparr>) = f x) \<longrightarrow>
        (f (h' d) :: 'b) = f (h d))"
proof (induction "attachedCards (h t)" arbitrary: h rule: rev_induct)
  case Nil
  then have "parentCard (h d) \<noteq> Some t" for d by (simp add: attach_ok_def)
  with Nil show ?case by (simp add: copy_attachments_simps)
next
  case (snoc a as)
  let ?h = "setParentCard a (Some c) h"
  have a: "attachedCards (h t) = as @ [a]" using snoc by simp
  note ok = snoc.prems(1)
  have d: "a \<notin> set as" "distinct as" using a ok by (metis attach_ok_def distinct_append distinct.simps(2) Int_iff list.set_intros(1) empty_iff)+
  have pa: "parentCard (h a) = Some t" using ok a by (simp add: attach_ok_def)
  have "a \<notin> set (attachedCards (h c))" using ok pa snoc.prems(2) by (metis attach_ok_def option.inject)
  then have c: "attachedCards (?h c) = attachedCards (h c) @ [a]"
    by (simp add: attachedCards_setParentCard [OF ok] remove1_idem)
  have t: "attachedCards (?h t) = as"
    using d snoc.prems(2) a by (simp add: attachedCards_setParentCard [OF ok] remove1_append)
  from snoc.hyps(1) [OF t [symmetric] setParentCard_ok [OF ok] snoc.prems(2)] obtain h' where
    h': "copy_attachments t c ?h = Some h'" "attach_ok h'" "attachedCards (h' t) = []"
      "attachedCards (h' c) = attachedCards (?h c) @ rev (attachedCards (?h t))"
      "\<And>d. parentCard (h' d) = (if parentCard (?h d) = Some t then Some c else parentCard (?h d))"
      "\<And>d f. (\<forall>x g. f (x\<lparr>attachedCards := g\<rparr>) = f x) \<Longrightarrow> (\<forall>x g. f (x\<lparr>parentCard := g\<rparr>) = f x) \<Longrightarrow>
        (f (h' d) :: 'b) = f (?h d)"
    by blast
  have "copy_attachments t c h = Some h'" using h'(1) a by (simp add: copy_attachments_simps(2))
  moreover have "f (h' d) = f (h d)" if "\<forall>x g. f (x\<lparr>attachedCards := g\<rparr>) = f x"
    "\<forall>x g. f (x\<lparr>parentCard := g\<rparr>) = f x" for d and f :: "server_card \<Rightarrow> 'b"
    using h'(6) [OF that] setParentCard_other [of f] that by metis
  moreover have "parentCard (h' d) = (if parentCard (h d) = Some t then Some c else parentCard (h d))" for d
    using h'(5) pa snoc.prems(2) by (auto simp: parentCard_setParentCard)
  ultimately show ?case
    using h'(2-4) c t a by (intro exI [of _ h']) simp
qed

lemma attach_ok_upd:
  assumes "attach_ok h" and "parentCard x = parentCard (h c)" and "attachedCards x = attachedCards (h c)"
  shows "attach_ok (h(c := x))"
  using assms unfolding attach_ok_def by auto

lemma attach_ok_cong:
  "(\<And>d. parentCard (h' d) = parentCard (h d)) \<Longrightarrow> (\<And>d. attachedCards (h' d) = attachedCards (h d)) \<Longrightarrow>
   attach_ok h' = attach_ok h"
  by (simp add: attach_ok_def)

text \<open>The last step leaves the links alone, and the state of the token.\<close>

definition stash_old :: "addr \<Rightarrow> addr \<Rightarrow> card_store \<Rightarrow> card_store" where
  "stash_old t c h = fst (setStashedCard c t (h(t := resetState False (h t))))"

lemma stash_old_links [simp]:
  "parentCard (stash_old t c h d) = parentCard (h d)"
  "attachedCards (stash_old t c h d) = attachedCards (h d)"
  by (auto simp: stash_old_def setStashedCard_def takeStashedCard_def resetState_def Let_def)

lemma stash_old_state:
  "c \<noteq> t \<Longrightarrow> (\<And>x g. f (x\<lparr>stashedCard := g\<rparr>) = f x) \<Longrightarrow> f (stash_old t c h c) = f (h c)"
  by (auto simp: stash_old_def setStashedCard_def takeStashedCard_def)

text \<open>The token after flags and counters have been copied.\<close>

definition token_state :: "server_card \<Rightarrow> server_card \<Rightarrow> server_card" where
  "token_state t c = fst (copy_counters (counters t) (fst (copy_flags t c)))"

lemma token_state_eq:
  assumes "counters c = []" and "counters_ok t"
  shows "token_state t c =
    c\<lparr>tapped := tapped c \<and> tapped t, attacking := attacking c \<and> attacking t,
      facedown := facedown c \<and> facedown t, doesntUntap := doesntUntap c \<and> doesntUntap t,
      counters := counters t\<rparr>"
proof -
  have "\<forall>(i, v) \<in> set (counters t). 1 \<le> v \<and> v \<le> max_counter_value"
    using assms(2) by (auto simp: counters_ok_def map_of_qm_mem)
  with assms show ?thesis
    unfolding token_state_def by (subst copy_counters_eq) (simp_all add: counters_ok_def)
qed

lemma copy_parent_links:
  assumes ok: "attach_ok h" and ct: "c \<noteq> t"
    and fresh: "parentCard (h c) = None" "attachedCards (h c) = []" and self: "parentCard (h t) \<noteq> Some t"
  shows "attach_ok (copy_parent t c h)"
    and "parentCard (copy_parent t c h d) =
      (if d = c then parentCard (h t) else if d = t then None else parentCard (h d))"
    and "attachedCards (copy_parent t c h c) = []"
    and "attachedCards (copy_parent t c h t) = attachedCards (h t)"
proof -
  have nt: "t \<notin> set (attachedCards (h t))" using ok self by (auto simp: attach_ok_def)
  have nc: "c \<notin> set (attachedCards (h p))" for p using ok fresh by (metis attach_ok_def option.distinct(1))
  have pc: "parentCard (h t) \<noteq> Some c" using ok fresh(2) by (metis attach_ok_def empty_iff empty_set)
  show "attach_ok (copy_parent t c h)"
    using ok by (auto simp: copy_parent_def setParentCard_ok split: option.splits)
  show "parentCard (copy_parent t c h d) =
      (if d = c then parentCard (h t) else if d = t then None else parentCard (h d))"
    using fresh by (auto simp: copy_parent_def parentCard_setParentCard split: option.splits)
  show "attachedCards (copy_parent t c h c) = []" "attachedCards (copy_parent t c h t) = attachedCards (h t)"
    using fresh self nt nc pc ok setParentCard_ok [OF ok]
    by (auto simp: copy_parent_def attachedCards_setParentCard remove1_idem split: option.splits)
qed

lemma copy_parent_other:
  assumes "\<And>x g. f (x\<lparr>attachedCards := g\<rparr>) = f x" and "\<And>x g. f (x\<lparr>parentCard := g\<rparr>) = f x"
  shows "f (copy_parent t c h d) = f (h d)"
  using assms by (auto simp: copy_parent_def setParentCard_other split: option.splits)

text \<open>C26: Turning a card into a token returns; the token takes over the parent, the attached cards
  (in reverse order) and the counters, and the old card keeps no link. A flag of the new token is
  never switched on: the copied value is the text \<open>true\<close>, which \<open>setAttribute\<close> reads as off.\<close>

theorem transform_into_token:
  assumes ok: "attach_ok h" and ct: "c \<noteq> t"
    and fresh: "parentCard (h c) = None" "attachedCards (h c) = []" "counters (h c) = []"
    and cnt: "counters_ok (h t)" and self: "parentCard (h t) \<noteq> Some t"
  shows "\<exists>h'. transform_into t c h = Some h' \<and> attach_ok h' \<and>
    parentCard (h' c) = parentCard (h t) \<and> parentCard (h' t) = None \<and>
    attachedCards (h' c) = rev (attachedCards (h t)) \<and> attachedCards (h' t) = [] \<and>
    counters (h' c) = counters (h t) \<and>
    (tapped (h' c) \<longleftrightarrow> tapped (h c) \<and> tapped (h t)) \<and>
    (attacking (h' c) \<longleftrightarrow> attacking (h c) \<and> attacking (h t)) \<and>
    (facedown (h' c) \<longleftrightarrow> facedown (h c) \<and> facedown (h t)) \<and>
    (doesntUntap (h' c) \<longleftrightarrow> doesntUntap (h c) \<and> doesntUntap (h t))"
proof -
  let ?x = "token_state (h t) (h c)"
  define h2 where "h2 = h(c := ?x)"
  let ?h2 = h2 and ?h3 = "copy_parent t c h2"
  note x = token_state_eq [OF fresh(3) cnt]
  have h2: "h2 c = ?x" "h2 t = h t" "\<And>d. d \<noteq> c \<Longrightarrow> h2 d = h d" using ct by (simp_all add: h2_def)
  have ok2: "attach_ok ?h2" unfolding h2_def using ok x fresh by (intro attach_ok_upd) simp_all
  have fresh2: "parentCard (?h2 c) = None" "attachedCards (?h2 c) = []" "parentCard (?h2 t) \<noteq> Some t"
    using x fresh h2 self by simp_all
  note h3 = copy_parent_links [OF ok2 ct fresh2]
  obtain h4 where h4: "copy_attachments t c ?h3 = Some h4" "attach_ok h4" "attachedCards (h4 t) = []"
    "attachedCards (h4 c) = rev (attachedCards (h t))"
    "\<And>d. parentCard (h4 d) = (if parentCard (?h3 d) = Some t then Some c else parentCard (?h3 d))"
    using copy_attachments_returns [OF h3(1) ct, where 'b = bool] h3(3,4) h2(2) by auto
  have same: "f (stash_old t c h4 c) = f ?x"
    if f: "\<And>x g. f (x\<lparr>attachedCards := g\<rparr>) = f x" "\<And>x g. f (x\<lparr>parentCard := g\<rparr>) = f x"
      "\<And>x g. f (x\<lparr>stashedCard := g\<rparr>) = f x" for f :: "server_card \<Rightarrow> 'b"
  proof -
    have "f (stash_old t c h4 c) = f (h4 c)" by (rule stash_old_state [OF ct f(3)])
    also have "\<dots> = f (?h3 c)"
      using copy_attachments_returns [OF h3(1) ct, where 'b = 'b] h4(1) f by auto
    also have "\<dots> = f ?x" using copy_parent_other [of f t c ?h2 c] f h2(1) by simp
    finally show ?thesis .
  qed
  have "transform_into t c h = Some (stash_old t c h4)"
    using h4(1) ct
    by (simp add: transform_into_def Let_def stash_old_def token_state_def h2_def del: copy_flags_eq)
  moreover have "attach_ok (stash_old t c h4)"
    using h4(2) attach_ok_cong [of "stash_old t c h4" h4] by simp
  moreover have "parentCard (h4 c) = parentCard (h t)" "parentCard (h4 t) = None"
    using h4(5) h3(2) h2(2) self ct by auto
  ultimately show ?thesis
    using h4(3,4) same [of counters] same [of tapped] same [of attacking] same [of facedown]
      same [of doesntUntap] x
    by (intro exI [of _ "stash_old t c h4"]) simp
qed

theorem transform_into_token_witness:
  "\<exists>h'. transform_into 1 4 example_store = Some h' \<and>
     tapped (example_store 1) \<and> \<not> tapped (h' 4) \<and> attachedCards (h' 4) = [3, 2] \<and> getCounter 0 (h' 4) = 3"
proof -
  have "counters_ok (example_store 1)"
    by (auto simp: counters_ok_def example_store_def new_server_card_def qm_ok_def max_counter_value_def
        split: if_splits)
  then obtain h' where h': "transform_into 1 4 example_store = Some h'"
    "tapped (h' 4) \<longleftrightarrow> tapped (example_store 4) \<and> tapped (example_store 1)"
    "attachedCards (h' 4) = rev (attachedCards (example_store 1))" "counters (h' 4) = counters (example_store 1)"
    using transform_into_token [OF example_store_ok, of 4 1]
    by (auto simp: example_store_def new_server_card_def Let_def)
  then show ?thesis
    by (intro exI [of _ h'])
       (simp add: example_store_def new_server_card_def Let_def getCounter_def qm_value_def)
qed

section \<open>Face-down cards\<close>

text \<open>Everything that tells what a face-down card really is.\<close>

definition with_identity ::
  "card_ref \<Rightarrow> string list \<Rightarrow> string list \<Rightarrow> string \<Rightarrow> string \<Rightarrow> int \<Rightarrow> server_card \<Rightarrow> server_card"
where
  "with_identity r kws texts pt cost val c =
     c\<lparr>cardRef := r, tokenAbilityKeywords := kws, tokenAbilityTexts := texts, tokenBasePt := pt,
       tokenBaseManaCost := cost, tokenBaseManaValue := val\<rparr>"

text \<open>C27: What clients are told about a face-down card does not depend on its identity, but for the
  id of its printing where it lies neither on the table nor in exile: two cards that differ only in
  name, printing and token characteristics look the same.\<close>

theorem facedown_hides_identity:
  assumes "facedown c"
  shows "getInfo h (with_identity r kws texts pt cost val c) =
    map_option (\<lambda>i. i\<lparr>info_provider_id :=
       (if zone c \<noteq> None \<and> fst (the (zone c)) \<in> {''table'', ''rfg''} then [] else ref_provider r)\<rparr>) (getInfo h c)"
proof -
  have "attach_info h (with_identity r kws texts pt cost val c) = attach_info h c"
    by (simp add: attach_info_def with_identity_def)
  then show ?thesis
    using assms by (cases "attach_info h c") (auto simp: getInfo_def with_identity_def split: option.splits)
qed

theorem facedown_hides_identity_witness:
  "getInfo example_store (with_identity \<lparr>ref_name = ''Ox'', ref_provider = ''p9''\<rparr> [''flying''] [] ''1/1'' ''G'' 1
      ((example_store 2)\<lparr>facedown := True\<rparr>))
   = getInfo example_store ((example_store 2)\<lparr>facedown := True\<rparr>) \<and>
   getInfo example_store ((example_store 2)\<lparr>facedown := True\<rparr>) \<noteq> None"
  by (subst facedown_hides_identity)
     (simp_all add: getInfo_def attach_info_def example_store_def new_server_card_def Let_def)

text \<open>Reading a card fails only where it is attached to a card that lies in no zone.\<close>

lemma getInfo_fails_iff:
  "getInfo h c = None \<longleftrightarrow> (\<exists>p. parentCard c = Some p \<and> zone (h p) = None)"
  by (auto simp: getInfo_def attach_info_def split: option.splits)

end
