(* ===== verification/CardZone.thy ===== *)
theory CardZone
  imports ServerCard Rng "HOL-Library.Multiset"
begin

text \<open>
  \<open>server_cardzone\<close>: a zone of the game server. The cards of a zone are addresses of the card store;
  a zone with coordinates also keeps, per row \<open>y\<close>, the map from columns to cards, the piles that a
  card of the same name may join, and the first free column. A pile is three columns wide: its
  base is a multiple of 3. Looking a row up in one of the maps creates it with its default, so a
  map from rows is a total function. A \<open>QMultiMap\<close> is its list of bindings, the newest first.
\<close>

section \<open>The zone\<close>

datatype zone_type = PrivateZone | PublicZone | HiddenZone

record cardzone =
  zone_name :: string
  zone_player :: int
  has_coords :: bool
  ztype :: zone_type
  cardsBeingLookedAt :: int
  playersWithWritePermission :: "int set"
  alwaysRevealTopCard :: bool
  alwaysLookAtTopCard :: bool
  zcards :: "addr list"
  coordinateMap :: "int \<Rightarrow> (int, addr) qmap"
  freePilesMap :: "int \<Rightarrow> (string \<times> int) list"
  freeSpaceMap :: "int \<Rightarrow> int"

definition new_cardzone :: "int \<Rightarrow> string \<Rightarrow> bool \<Rightarrow> zone_type \<Rightarrow> cardzone" where
  "new_cardzone pl n coords t =
     \<lparr>zone_name = n, zone_player = pl, has_coords = coords, ztype = t, cardsBeingLookedAt = 0,
      playersWithWritePermission = {}, alwaysRevealTopCard = False, alwaysLookAtTopCard = False,
      zcards = [], coordinateMap = (\<lambda>_. []), freePilesMap = (\<lambda>_. []), freeSpaceMap = (\<lambda>_. 0)\<rparr>"

subsection \<open>Shuffling\<close>

definition swapItemsAt :: "nat \<Rightarrow> nat \<Rightarrow> 'a list \<Rightarrow> 'a list" where
  "swapItemsAt i j xs = xs[i := xs ! j, j := xs ! i]"

text \<open>The loop for \<open>i\<close> from \<open>start + k\<close> down to \<open>start + 1\<close>.\<close>

fun shuffle_loop ::
  "(int \<Rightarrow> int \<Rightarrow> 's \<Rightarrow> ('s, 32 word) draw) \<Rightarrow> nat \<Rightarrow> nat \<Rightarrow> 'a list \<Rightarrow> 's \<Rightarrow> ('s, 'a list) draw"
where
  "shuffle_loop rnd st 0 cs s = Some (Inr (cs, s))"
| "shuffle_loop rnd st (Suc k) cs s =
     (let i = st + Suc k in
      case rnd (int st) (int i) s of
        None \<Rightarrow> None
      | Some (Inl e) \<Rightarrow> Some (Inl e)
      | Some (Inr (u, s')) \<Rightarrow> shuffle_loop rnd st k (swapItemsAt (nat (sint u)) i cs) s')"

definition shuffle ::
  "(int \<Rightarrow> int \<Rightarrow> 's \<Rightarrow> ('s, 32 word) draw) \<Rightarrow> int \<Rightarrow> int \<Rightarrow> cardzone \<Rightarrow> 's \<Rightarrow> ('s, cardzone) draw"
where
  "shuffle rnd start end z s =
     (let z1 = z\<lparr>cardsBeingLookedAt := 0\<rparr>; n = int (length (zcards z)) in
      if n < 2 then Some (Inr (z1, s))
      else
        let end1 = (if end < 0 then end + n else end);
            start1 = (if start < 0 then start + n else start)
        in if start1 < 0 \<or> end1 < 0 \<or> start1 \<ge> n \<or> end1 \<ge> n then Some (Inr (z1, s))
           else
             (case shuffle_loop rnd (nat start1) (nat (end1 - start1)) (zcards z) s of
                None \<Rightarrow> None
              | Some (Inl e) \<Rightarrow> Some (Inl e)
              | Some (Inr (cs, s')) \<Rightarrow>
                  Some (Inr (z1\<lparr>zcards := cs, playersWithWritePermission := {}\<rparr>, s'))))"

subsection \<open>The coordinate map\<close>

definition col :: "cardzone \<Rightarrow> int \<Rightarrow> int \<Rightarrow> bool" where
  "col z y x \<longleftrightarrow> qm_contains (coordinateMap z y) x"

definition pile_base :: "int \<Rightarrow> int" where
  "pile_base x = c_div x 3 * 3"

definition card_at :: "cardzone \<Rightarrow> int \<Rightarrow> int \<Rightarrow> addr option" where
  "card_at z y x = map_of (coordinateMap z y) x"

definition getName :: "card_store \<Rightarrow> addr \<Rightarrow> string" where
  "getName h a = ref_name (cardRef (h a))"

text \<open>\<open>coordMap.contains(x) && coordMap.value(x)->getName() == name\<close>.\<close>

definition named_at :: "card_store \<Rightarrow> cardzone \<Rightarrow> int \<Rightarrow> int \<Rightarrow> string \<Rightarrow> bool" where
  "named_at h z y x n \<longleftrightarrow> (case card_at z y x of None \<Rightarrow> False | Some a \<Rightarrow> getName h a = n)"

definition set_row :: "(int \<Rightarrow> 'b) \<Rightarrow> int \<Rightarrow> 'b \<Rightarrow> int \<Rightarrow> 'b" where
  "set_row m y v = m(y := v)"

definition removeCardFromCoordMap :: "card_store \<Rightarrow> addr \<Rightarrow> int \<Rightarrow> int \<Rightarrow> cardzone \<Rightarrow> cardzone" where
  "removeCardFromCoordMap h c oldX oldY z =
     (if oldX < 0 then z
      else
        let baseX = pile_base oldX;
            z1 = (if col z oldY baseX \<and> col z oldY (baseX + 1) \<and> col z oldY (baseX + 2)
                  then z\<lparr>freePilesMap := set_row (freePilesMap z) oldY
                          ((getName h (the (card_at z oldY baseX)), baseX) # freePilesMap z oldY)\<rparr>
                  else z);
            z2 = z1\<lparr>coordinateMap := set_row (coordinateMap z1) oldY (qm_remove oldX (coordinateMap z1 oldY))\<rparr>;
            n = getName h c;
            z3 = (if \<not> named_at h z2 oldY baseX n \<and> \<not> named_at h z2 oldY (baseX + 1) n \<and>
                     \<not> named_at h z2 oldY (baseX + 2) n
                  then z2\<lparr>freePilesMap := set_row (freePilesMap z2) oldY
                           (filter (\<lambda>b. b \<noteq> (n, baseX)) (freePilesMap z2 oldY))\<rparr>
                  else z2)
        in if \<not> col z3 oldY baseX \<and> \<not> col z3 oldY (baseX + 1) \<and> \<not> col z3 oldY (baseX + 2) \<and>
              baseX < freeSpaceMap z3 oldY
           then z3\<lparr>freeSpaceMap := set_row (freeSpaceMap z3) oldY baseX\<rparr>
           else z3)"

text \<open>The \<open>do \<dots> while\<close> loop that looks for the next pile without any card.\<close>

function next_free_pile :: "(int, addr) qmap \<Rightarrow> int \<Rightarrow> int" where
  "next_free_pile m x =
     (let x' = x + 3 in
      if qm_contains m x' \<or> qm_contains m (x' + 1) \<or> qm_contains m (x' + 2)
      then next_free_pile m x' else x')"
  by pat_completeness auto
termination
proof (relation "measure (\<lambda>(m, x). card {k \<in> fst ` set m. x + 3 \<le> k})", goal_cases)
  case (2 m x x')
  have "{k \<in> fst ` set m. x' + 3 \<le> k} \<subset> {k \<in> fst ` set m. x + 3 \<le> k}"
  proof
    show "{k \<in> fst ` set m. x' + 3 \<le> k} \<subseteq> {k \<in> fst ` set m. x + 3 \<le> k}" using 2 by auto
    obtain k where "k \<in> fst ` set m" "x' \<le> k" "k \<le> x' + 2"
      using 2(2) unfolding qm_contains_def map_of_eq_None_iff by fastforce
    then have "k \<in> {k \<in> fst ` set m. x + 3 \<le> k} - {k \<in> fst ` set m. x' + 3 \<le> k}" using 2(1) by auto
    then show "{k \<in> fst ` set m. x' + 3 \<le> k} \<noteq> {k \<in> fst ` set m. x + 3 \<le> k}" by blast
  qed
  then have "card {k \<in> fst ` set m. x' + 3 \<le> k} < card {k \<in> fst ` set m. x + 3 \<le> k}"
    by (intro psubset_card_mono) simp_all
  then show ?case by simp
qed simp

declare next_free_pile.simps [simp del]

text \<open>\<open>None\<close> is the null pointer that the code dereferences when a card is put on top of a pile
  without a card at its base.\<close>

definition insertCardIntoCoordMap :: "card_store \<Rightarrow> addr \<Rightarrow> int \<Rightarrow> int \<Rightarrow> cardzone \<Rightarrow> cardzone option" where
  "insertCardIntoCoordMap h c x y z =
     (if x < 0 then Some z
      else
        let z1 = z\<lparr>coordinateMap := set_row (coordinateMap z) y (qm_insert x c (coordinateMap z y))\<rparr>;
            n = getName h c
        in if x mod 3 = 0 then
             let z2 = (if \<not> facedown (h c) \<and> (n, x) \<notin> set (freePilesMap z1 y) \<and>
                           attachedCards (h c) = []
                       then z1\<lparr>freePilesMap := set_row (freePilesMap z1) y ((n, x) # freePilesMap z1 y)\<rparr>
                       else z1)
             in if freeSpaceMap z2 y = x
                then Some (z2\<lparr>freeSpaceMap := set_row (freeSpaceMap z2) y (next_free_pile (coordinateMap z2 y) x)\<rparr>)
                else Some z2
           else if c_mod (x - 2) 3 = 0 then
             (case card_at z1 y (pile_base x) of
                None \<Rightarrow> None
              | Some b \<Rightarrow>
                  Some (z1\<lparr>freePilesMap := set_row (freePilesMap z1) y
                       (filter (\<lambda>e. e \<noteq> (getName h b, pile_base x)) (freePilesMap z1 y))\<rparr>))
           else Some z1)"

subsection \<open>Free columns\<close>

text \<open>\<open>while (coordMap.contains(resultX)) resultX += 3\<close>.\<close>

function next_free_base :: "(int, addr) qmap \<Rightarrow> int \<Rightarrow> int" where
  "next_free_base m x = (if qm_contains m x then next_free_base m (x + 3) else x)"
  by pat_completeness auto
termination
proof (relation "measure (\<lambda>(m, x). card {k \<in> fst ` set m. x \<le> k})", goal_cases)
  case (2 m x)
  then have "x \<in> fst ` set m" unfolding qm_contains_def map_of_eq_None_iff by blast
  then have "{k \<in> fst ` set m. x + 3 \<le> k} \<subset> {k \<in> fst ` set m. x \<le> k}" by force
  then have "card {k \<in> fst ` set m. x + 3 \<le> k} < card {k \<in> fst ` set m. x \<le> k}"
    by (intro psubset_card_mono) simp_all
  then show ?case by simp
qed simp

declare next_free_base.simps [simp del]

definition attached_at :: "card_store \<Rightarrow> cardzone \<Rightarrow> int \<Rightarrow> int \<Rightarrow> bool" where
  "attached_at h z y x \<longleftrightarrow> (case card_at z y x of None \<Rightarrow> False | Some a \<Rightarrow> attachedCards (h a) \<noteq> [])"

definition facedown_at :: "card_store \<Rightarrow> cardzone \<Rightarrow> int \<Rightarrow> int \<Rightarrow> bool" where
  "facedown_at h z y x \<longleftrightarrow> (case card_at z y x of None \<Rightarrow> False | Some a \<Rightarrow> facedown (h a))"

definition getFreeGridColumn :: "card_store \<Rightarrow> cardzone \<Rightarrow> int \<Rightarrow> int \<Rightarrow> string \<Rightarrow> bool \<Rightarrow> int" where
  "getFreeGridColumn h z x y cardName dontStackSameName =
     (if x = - 1 then
        (case map_of (freePilesMap z y) cardName of
           Some p \<Rightarrow>
             if dontStackSameName then freeSpaceMap z y
             else
               let x1 = pile_base p in
               if col z y x1 \<and> (facedown_at h z y x1 \<or> attached_at h z y x1) then freeSpaceMap z y
               else if \<not> col z y x1 then x1
               else if \<not> col z y (x1 + 1) then x1 + 1
               else x1 + 2
         | None \<Rightarrow> freeSpaceMap z y)
      else if x \<ge> 0 then
        let x1 = pile_base x in
        if \<not> col z y x1 then x1
        else if attached_at h z y x1 then next_free_base (coordinateMap z y) x1
        else if \<not> col z y (x1 + 1) then x1 + 1
        else if \<not> col z y (x1 + 2) then x1 + 2
        else next_free_base (coordinateMap z y) x1
      else freeSpaceMap z y)"

definition isColumnStacked :: "cardzone \<Rightarrow> int \<Rightarrow> int \<Rightarrow> bool" where
  "isColumnStacked z x y \<longleftrightarrow> has_coords z \<and> col z y (pile_base x + 1)"

definition isColumnEmpty :: "cardzone \<Rightarrow> int \<Rightarrow> int \<Rightarrow> bool" where
  "isColumnEmpty z x y \<longleftrightarrow> \<not> has_coords z \<or> \<not> col z y (pile_base x)"

subsection \<open>Cards coming and going\<close>

definition isCardAtPosLookedAt :: "cardzone \<Rightarrow> int \<Rightarrow> bool" where
  "isCardAtPosLookedAt z pos \<longleftrightarrow>
     ztype z = HiddenZone \<and> (cardsBeingLookedAt z = - 1 \<or> cardsBeingLookedAt z > pos)"

definition setCardsBeingLookedAt :: "int \<Rightarrow> cardzone \<Rightarrow> cardzone" where
  "setCardsBeingLookedAt n z = z\<lparr>cardsBeingLookedAt := max 0 n\<rparr>"

fun indexOf :: "'a \<Rightarrow> 'a list \<Rightarrow> int" where
  "indexOf x [] = - 1"
| "indexOf x (y # ys) = (if x = y then 0 else (let i = indexOf x ys in if i = - 1 then - 1 else i + 1))"

definition removeAt :: "nat \<Rightarrow> 'a list \<Rightarrow> 'a list" where
  "removeAt i xs = take i xs @ drop (Suc i) xs"

text \<open>The index, whether the card was being looked at, the cards and the zone; the card has to be in
  the zone (\<open>removeAt\<close> asserts it).\<close>

definition removeCard :: "addr \<Rightarrow> card_store \<Rightarrow> cardzone \<Rightarrow> int \<times> bool \<times> card_store \<times> cardzone" where
  "removeCard c h z =
     (let index = indexOf c (zcards z);
          wasLookedAt = isCardAtPosLookedAt z index;
          z1 = (if wasLookedAt \<and> cardsBeingLookedAt z > 0
                then z\<lparr>cardsBeingLookedAt := cardsBeingLookedAt z - 1\<rparr> else z);
          z2 = z1\<lparr>zcards := removeAt (nat index) (zcards z1)\<rparr>;
          z3 = (if has_coords z then removeCardFromCoordMap h c (coord_x (h c)) (coord_y (h c)) z2 else z2)
      in (index, wasLookedAt, h(c := (h c)\<lparr>zone := None\<rparr>), z3))"

fun find_card :: "card_store \<Rightarrow> int \<Rightarrow> nat \<Rightarrow> addr list \<Rightarrow> (nat \<times> addr) option" where
  "find_card h i n [] = None"
| "find_card h i n (c # cs) = (if cid (h c) = i then Some (n, c) else find_card h i (Suc n) cs)"

text \<open>The card found with its position, after it has been taken out when \<open>remove\<close> is set.\<close>

definition getCard ::
  "int \<Rightarrow> bool \<Rightarrow> card_store \<Rightarrow> cardzone \<Rightarrow> (nat \<times> addr) option \<times> card_store \<times> cardzone"
where
  "getCard i remove h z =
     (let found = (if ztype z \<noteq> HiddenZone then find_card h i 0 (zcards z)
                   else if i \<ge> int (length (zcards z)) \<or> i < 0 then None
                   else Some (nat i, zcards z ! nat i))
      in case found of
           None \<Rightarrow> (None, h, z)
         | Some (p, c) \<Rightarrow>
             if remove then (Some (p, c), h(c := (h c)\<lparr>zone := None\<rparr>), z\<lparr>zcards := removeAt p (zcards z)\<rparr>)
             else (Some (p, c), h, z))"

definition setCoords :: "addr \<Rightarrow> int \<Rightarrow> int \<Rightarrow> card_store \<Rightarrow> card_store" where
  "setCoords c x y h = h(c := (h c)\<lparr>coord_x := x, coord_y := y\<rparr>)"

definition updateCardCoordinates ::
  "addr \<Rightarrow> int \<Rightarrow> int \<Rightarrow> card_store \<Rightarrow> cardzone \<Rightarrow> cardzone option"
where
  "updateCardCoordinates c oldX oldY h z =
     (if \<not> has_coords z then Some z
      else
        let z1 = (if oldX \<noteq> - 1 then removeCardFromCoordMap h c oldX oldY z else z)
        in insertCardIntoCoordMap h c (coord_x (h c)) (coord_y (h c)) z1)"

definition insertCard :: "addr \<Rightarrow> int \<Rightarrow> int \<Rightarrow> card_store \<Rightarrow> cardzone \<Rightarrow> (card_store \<times> cardzone) option" where
  "insertCard c x y h z =
     (if has_coords z then
        let h1 = setCoords c x y h; z1 = z\<lparr>zcards := zcards z @ [c]\<rparr> in
        (case insertCardIntoCoordMap h1 c x y z1 of
           None \<Rightarrow> None
         | Some z2 \<Rightarrow> Some (h1(c := (h1 c)\<lparr>zone := Some (zone_name z, zone_player z)\<rparr>), z2))
      else
        let h1 = setCoords c 0 0 h;
            z1 = (if 0 \<le> x \<and> x < int (length (zcards z))
                  then z\<lparr>zcards := take (nat x) (zcards z) @ c # drop (nat x) (zcards z)\<rparr>
                  else z\<lparr>zcards := zcards z @ [c]\<rparr>)
        in Some (h1(c := (h1 c)\<lparr>zone := Some (zone_name z, zone_player z)\<rparr>), z1))"

text \<open>\<open>clear\<close> also deletes the cards; see \<open>destroy_card\<close> for what that does to the store.\<close>

definition clear_zone :: "cardzone \<Rightarrow> cardzone" where
  "clear_zone z =
     z\<lparr>zcards := [], coordinateMap := (\<lambda>_. []), freePilesMap := (\<lambda>_. []), freeSpaceMap := (\<lambda>_. 0),
       playersWithWritePermission := {}, cardsBeingLookedAt := 0\<rparr>"

definition addWritePermission :: "int \<Rightarrow> cardzone \<Rightarrow> cardzone" where
  "addWritePermission p z = z\<lparr>playersWithWritePermission := insert p (playersWithWritePermission z)\<rparr>"

record server_info_zone =
  zi_name :: string
  zi_type :: zone_type
  zi_with_coords :: bool
  zi_card_count :: int
  zi_reveal_top :: bool
  zi_look_top :: bool
  zi_card_list :: "server_info_card list"

text \<open>\<open>own\<close> is \<open>recipient == player\<close>; \<open>None\<close> is the null dereference of the card's \<open>getInfo\<close>.\<close>

definition zone_getInfo :: "card_store \<Rightarrow> bool \<Rightarrow> bool \<Rightarrow> cardzone \<Rightarrow> server_info_zone option" where
  "zone_getInfo h own omniscient z =
     (let selfPlayerAsking = own \<or> omniscient;
          zonesSelfCanSee = (ztype z \<noteq> HiddenZone);
          otherPlayerAsking = (\<not> own);
          zonesOthersCanSee = (ztype z = PublicZone)
      in map_option (\<lambda>cards.
         \<lparr>zi_name = zone_name z, zi_type = ztype z, zi_with_coords = has_coords z,
          zi_card_count = int (length (zcards z)),
          zi_reveal_top = alwaysRevealTopCard z, zi_look_top = alwaysLookAtTopCard z,
          zi_card_list = cards\<rparr>)
           (if (selfPlayerAsking \<and> zonesSelfCanSee) \<or> (otherPlayerAsking \<and> zonesOthersCanSee)
            then those (map (\<lambda>c. getInfo h (h c)) (zcards z)) else Some []))"

section \<open>The first free column\<close>

definition pile_used :: "cardzone \<Rightarrow> int \<Rightarrow> int \<Rightarrow> bool" where
  "pile_used z y b \<longleftrightarrow> col z y b \<or> col z y (b + 1) \<or> col z y (b + 2)"

text \<open>\<open>freeSpaceMap\<close> holds the leftmost pile without a card.\<close>

definition space_ok :: "cardzone \<Rightarrow> bool" where
  "space_ok z \<longleftrightarrow>
     (\<forall>y. qm_ok (coordinateMap z y) \<and> 0 \<le> freeSpaceMap z y \<and> freeSpaceMap z y mod 3 = 0 \<and>
        \<not> pile_used z y (freeSpaceMap z y) \<and>
        (\<forall>b. 0 \<le> b \<longrightarrow> b < freeSpaceMap z y \<longrightarrow> b mod 3 = 0 \<longrightarrow> pile_used z y b))"

lemma pile_base_nonneg: "0 \<le> x \<Longrightarrow> pile_base x = x - x mod 3"
  by (simp add: pile_base_def minus_mod_eq_div_mult)

lemma pile_base_facts:
  assumes "0 \<le> x"
  shows "0 \<le> pile_base x" "pile_base x mod 3 = 0" "x = pile_base x \<or> x = pile_base x + 1 \<or> x = pile_base x + 2"
    "pile_base x \<le> x"
  using assms by (simp_all add: pile_base_nonneg mod_diff_eq) presburger+

lemma next_free_pile_spec:
  "x mod 3 = 0 \<Longrightarrow> (let r = next_free_pile m x in
     x < r \<and> r mod 3 = 0 \<and> \<not> (qm_contains m r \<or> qm_contains m (r + 1) \<or> qm_contains m (r + 2)) \<and>
     (\<forall>b. x < b \<longrightarrow> b < r \<longrightarrow> b mod 3 = 0 \<longrightarrow> qm_contains m b \<or> qm_contains m (b + 1) \<or> qm_contains m (b + 2)))"
proof (induction m x rule: next_free_pile.induct)
  case (1 m x)
  let ?x = "x + 3"
  have between: "b = ?x" if "x < b" "b < x + 6" "b mod 3 = 0" for b using that 1(2) by presburger
  show ?case
  proof (cases "qm_contains m ?x \<or> qm_contains m (?x + 1) \<or> qm_contains m (?x + 2)")
    case True
    then have r: "next_free_pile m x = next_free_pile m ?x" by (subst next_free_pile.simps) simp
    have "?x mod 3 = 0" using 1(2) by simp
    note IH = 1(1) [OF refl True this]
    have "qm_contains m b \<or> qm_contains m (b + 1) \<or> qm_contains m (b + 2)"
      if "x < b" "b \<le> ?x" "b mod 3 = 0" for b using True between [of b] that by auto
    with IH show ?thesis unfolding r Let_def
      by (intro conjI allI impI) (linarith, blast, blast, meson not_le)
  next
    case False
    then have r: "next_free_pile m x = ?x" by (subst next_free_pile.simps) simp
    show ?thesis unfolding r Let_def using False 1(2) between by fastforce
  qed
qed

lemma next_free_base_spec:
  "let r = next_free_base m x in x \<le> r \<and> (r - x) mod 3 = 0 \<and> \<not> qm_contains m r"
proof (induction m x rule: next_free_base.induct)
  case (1 m x)
  show ?case
  proof (cases "qm_contains m x")
    case True
    have r: "next_free_base m x = next_free_base m (x + 3)" using True by (subst next_free_base.simps) simp
    have "x \<le> q \<and> (q - x) mod 3 = 0" if "x + 3 \<le> q" "(q - (x + 3)) mod 3 = 0" for q :: int
      using that by presburger
    with 1 [OF True, unfolded Let_def] show ?thesis unfolding r Let_def by simp
  next
    case False
    then have r: "next_free_base m x = x" by (subst next_free_base.simps) simp
    show ?thesis unfolding r Let_def using False by simp
  qed
qed

lemma col_set_row:
  "qm_ok (coordinateMap z y) \<Longrightarrow>
   col (z\<lparr>coordinateMap := set_row (coordinateMap z) y (qm_insert x c (coordinateMap z y))\<rparr>) y' x' \<longleftrightarrow>
   (y' = y \<and> x' = x) \<or> col z y' x'"
  "qm_ok (coordinateMap z y) \<Longrightarrow>
   col (z\<lparr>coordinateMap := set_row (coordinateMap z) y (qm_remove x (coordinateMap z y))\<rparr>) y' x' \<longleftrightarrow>
   \<not> (y' = y \<and> x' = x) \<and> col z y' x'"
  by (auto simp: col_def set_row_def)

lemma col_other [simp]:
  "col (z\<lparr>freePilesMap := m\<rparr>) = col z" "col (z\<lparr>freeSpaceMap := f\<rparr>) = col z"
  by (simp_all add: col_def fun_eq_iff)

lemma space_okD:
  assumes "space_ok z"
  shows "qm_ok (coordinateMap z y)" "0 \<le> freeSpaceMap z y" "freeSpaceMap z y mod 3 = 0"
    "\<not> pile_used z y (freeSpaceMap z y)"
    "0 \<le> b \<Longrightarrow> b < freeSpaceMap z y \<Longrightarrow> b mod 3 = 0 \<Longrightarrow> pile_used z y b"
  using spec [OF assms [unfolded space_ok_def], of y] by simp_all

text \<open>Removal: \<open>z2\<close> is the zone without the cell; only the free column may have to move left.\<close>

lemma removeCardFromCoordMap_state:
  assumes "0 \<le> x"
  shows "coordinateMap (removeCardFromCoordMap h c x y z) = set_row (coordinateMap z) y (qm_remove x (coordinateMap z y))"
    and "freeSpaceMap (removeCardFromCoordMap h c x y z) =
      (let z2 = z\<lparr>coordinateMap := set_row (coordinateMap z) y (qm_remove x (coordinateMap z y))\<rparr> in
       if \<not> pile_used z2 y (pile_base x) \<and> pile_base x < freeSpaceMap z y
       then set_row (freeSpaceMap z) y (pile_base x) else freeSpaceMap z)"
    and "zcards (removeCardFromCoordMap h c x y z) = zcards z"
    and "cardsBeingLookedAt (removeCardFromCoordMap h c x y z) = cardsBeingLookedAt z"
    and "ztype (removeCardFromCoordMap h c x y z) = ztype z"
  using assms
  by (simp_all add: removeCardFromCoordMap_def Let_def pile_used_def col_def)

lemma removeCardFromCoordMap_neg [simp]: "x < 0 \<Longrightarrow> removeCardFromCoordMap h c x y z = z"
  by (simp add: removeCardFromCoordMap_def)

lemma pile_used_cong: "coordinateMap z = coordinateMap z' \<Longrightarrow> pile_used z = pile_used z'"
  by (simp add: pile_used_def col_def fun_eq_iff)

lemma space_ok_remove:
  assumes "space_ok z"
  shows "space_ok (removeCardFromCoordMap h c x y z)"
proof (cases "0 \<le> x")
  case True
  let ?z = "removeCardFromCoordMap h c x y z"
  define z2 where "z2 = z\<lparr>coordinateMap := set_row (coordinateMap z) y (qm_remove x (coordinateMap z y))\<rparr>"
  note D = space_okD [OF assms]
  note st = removeCardFromCoordMap_state [OF True, of h c y z]
  note base = pile_base_facts [OF True]
  have used: "pile_used ?z = pile_used z2" by (rule pile_used_cong) (simp add: st z2_def)
  have free: "freeSpaceMap ?z = (if \<not> pile_used z2 y (pile_base x) \<and> pile_base x < freeSpaceMap z y
      then set_row (freeSpaceMap z) y (pile_base x) else freeSpaceMap z)"
    unfolding st(2) Let_def z2_def ..
  have c2: "col z2 y' x' \<longleftrightarrow> \<not> (y' = y \<and> x' = x) \<and> col z y' x'" for y' x'
    unfolding z2_def by (rule col_set_row(2) [OF D(1)])
  have less: "pile_used z2 y' b \<Longrightarrow> pile_used z y' b" for y' b by (auto simp: pile_used_def c2)
  have other: "pile_used z2 y' b \<longleftrightarrow> pile_used z y' b" if "y' \<noteq> y \<or> (b mod 3 = 0 \<and> b \<noteq> pile_base x)" for y' b
  proof (cases "y' = y")
    case y: True
    then have "b mod 3 = 0" "b \<noteq> pile_base x" using that by auto
    then have "x \<noteq> b" "x \<noteq> b + 1" "x \<noteq> b + 2" using base by presburger+
    then show ?thesis by (auto simp: pile_used_def c2)
  qed (auto simp: pile_used_def c2)
  show ?thesis
    unfolding space_ok_def
  proof (intro allI conjI impI)
    fix y'
    show "qm_ok (coordinateMap ?z y')" unfolding st(1) using D(1) by (simp add: set_row_def)
    show "0 \<le> freeSpaceMap ?z y'" "freeSpaceMap ?z y' mod 3 = 0"
      unfolding free using D(2,3) base by (auto simp: set_row_def)
    show "\<not> pile_used ?z y' (freeSpaceMap ?z y')"
      unfolding free used using D(4) less by (auto simp: set_row_def)
    fix b assume b: "0 \<le> b" "b < freeSpaceMap ?z y'" "b mod 3 = 0"
    then have lt: "b < freeSpaceMap z y'" unfolding free by (auto simp: set_row_def split: if_splits)
    show "pile_used ?z y' b"
    proof (cases "y' \<noteq> y \<or> b \<noteq> pile_base x")
      case True
      with other [of y' b] D(5) [OF b(1) lt b(3)] b(3) show ?thesis unfolding used by blast
    next
      case False
      with b lt show ?thesis unfolding free used by (auto simp: set_row_def split: if_splits)
    qed
  qed
qed (use assms in simp)

lemma insertCardIntoCoordMap_state:
  assumes "0 \<le> x" and "insertCardIntoCoordMap h c x y z = Some z'"
  shows "coordinateMap z' = set_row (coordinateMap z) y (qm_insert x c (coordinateMap z y))"
    and "freeSpaceMap z' =
      (if x mod 3 = 0 \<and> freeSpaceMap z y = x
       then set_row (freeSpaceMap z) y (next_free_pile (coordinateMap z' y) x) else freeSpaceMap z)"
    and "zcards z' = zcards z"
  using assms
  by (auto simp: insertCardIntoCoordMap_def Let_def split: if_splits option.splits)

lemma space_ok_insert:
  assumes ok: "space_ok z" and ins: "insertCardIntoCoordMap h c x y z = Some z'"
    and top: "x mod 3 \<noteq> 0 \<Longrightarrow> pile_used z y (pile_base x)"
  shows "space_ok z'"
proof (cases "0 \<le> x")
  case True
  note D = space_okD [OF ok]
  note st = insertCardIntoCoordMap_state [OF True ins]
  define z2 where "z2 = z\<lparr>coordinateMap := set_row (coordinateMap z) y (qm_insert x c (coordinateMap z y))\<rparr>"
  note base = pile_base_facts [OF True]
  have used: "pile_used z' = pile_used z2" by (rule pile_used_cong) (simp add: st z2_def)
  have c2: "col z2 y' x' \<longleftrightarrow> (y' = y \<and> x' = x) \<or> col z y' x'" for y' x'
    unfolding z2_def by (rule col_set_row(1) [OF D(1)])
  have more: "pile_used z y' b \<Longrightarrow> pile_used z2 y' b" for y' b by (auto simp: pile_used_def c2)
  have new: "pile_used z2 y' b \<longleftrightarrow> pile_used z y' b" if "y' \<noteq> y \<or> (b mod 3 = 0 \<and> b \<noteq> pile_base x)" for y' b
  proof (cases "y' = y")
    case y: True
    then have "b mod 3 = 0" "b \<noteq> pile_base x" using that by auto
    then have "x \<noteq> b" "x \<noteq> b + 1" "x \<noteq> b + 2" using base by presburger+
    then show ?thesis by (auto simp: pile_used_def c2)
  qed (auto simp: pile_used_def c2)
  have rowused: "qm_contains (coordinateMap z' y) b \<or> qm_contains (coordinateMap z' y) (b + 1) \<or>
      qm_contains (coordinateMap z' y) (b + 2) \<longleftrightarrow> pile_used z2 y b" for b
    unfolding st(1) by (simp add: pile_used_def col_def z2_def)
  show ?thesis
  proof (cases "x mod 3 = 0 \<and> freeSpaceMap z y = x")
    case moved: True
    define r where "r = next_free_pile (coordinateMap z' y) x"
    have r: "x < r" "r mod 3 = 0" "\<not> pile_used z2 y r" "\<And>b. x < b \<Longrightarrow> b < r \<Longrightarrow> b mod 3 = 0 \<Longrightarrow> pile_used z2 y b"
    proof -
      have "x mod 3 = 0" using moved by blast
      from next_free_pile_spec [OF this, of "coordinateMap z' y"]
      have spec: "x < r \<and> r mod 3 = 0 \<and> \<not> pile_used z2 y r \<and>
          (\<forall>b. x < b \<longrightarrow> b < r \<longrightarrow> b mod 3 = 0 \<longrightarrow> pile_used z2 y b)"
        unfolding Let_def r_def rowused .
      then show "x < r" "r mod 3 = 0" "\<not> pile_used z2 y r" by simp_all
      show "pile_used z2 y b" if "x < b" "b < r" "b mod 3 = 0" for b
        using spec [THEN conjunct2, THEN conjunct2, THEN conjunct2, rule_format, OF that] .
    qed
    have free: "freeSpaceMap z' y' = (if y' = y then r else freeSpaceMap z y')" for y'
      using st(2) moved by (simp add: set_row_def r_def)
    have "pile_used z2 y x" by (simp add: pile_used_def c2)
    then have "pile_used z2 y b" if "0 \<le> b" "b < r" "b mod 3 = 0" for b
      using that r(4) [of b] D(5) [of b y] more [of y b] moved by (cases b x rule: linorder_cases) auto
    moreover have "\<not> pile_used z2 y' (freeSpaceMap z y')" if "y' \<noteq> y" for y'
      using new [of y' "freeSpaceMap z y'"] D(4) [of y'] that by blast
    ultimately show ?thesis
      using D r(1-3) True more unfolding space_ok_def used free st(1)
      by (simp add: set_row_def)
  next
    case False
    then have free: "freeSpaceMap z' = freeSpaceMap z" using st(2) by auto
    have "pile_base x \<noteq> freeSpaceMap z y"
    proof
      assume f: "pile_base x = freeSpaceMap z y"
      have "x mod 3 \<noteq> 0"
      proof
        assume "x mod 3 = 0"
        then have "pile_base x = x" using True by (simp add: pile_base_nonneg)
        with f False \<open>x mod 3 = 0\<close> show False by simp
      qed
      from top [OF this] f D(4) [of y] show False by simp
    qed
    then have "\<not> pile_used z2 y' (freeSpaceMap z y')" for y'
      using new [of y' "freeSpaceMap z y'"] D(3,4) [of y'] by (cases "y' = y") auto
    with D more show ?thesis unfolding space_ok_def used free st(1) by (simp add: set_row_def)
  qed
qed (use assms in \<open>simp add: insertCardIntoCoordMap_def\<close>)

lemma pile_base_mod [simp]: "pile_base x mod 3 = 0"
  by (simp add: pile_base_def)

lemma pile_base_top:
  assumes "q mod 3 = 0" and "0 \<le> q + i" and "i = 0 \<or> i = 1 \<or> i = 2"
  shows "pile_base (q + i) = q"
proof -
  have "(q + i) mod 3 = i" using assms(1,3) by presburger
  with assms(2) show ?thesis by (simp add: pile_base_nonneg)
qed

text \<open>What \<open>getFreeGridColumn\<close> can return: the base of a pile, or a column on top of an occupied base.\<close>

lemma getFreeGridColumn_cases:
  assumes "space_ok z"
  shows "getFreeGridColumn h z x y n b mod 3 = 0 \<or>
    (\<exists>q i. getFreeGridColumn h z x y n b = q + i \<and> q mod 3 = 0 \<and> (i = 1 \<or> i = 2) \<and> col z y q)"
proof -
  have f: "freeSpaceMap z y mod 3 = 0" by (rule space_okD(3) [OF assms])
  have nb: "next_free_base (coordinateMap z y) (pile_base p) mod 3 = 0" for p
  proof -
    have "(next_free_base (coordinateMap z y) (pile_base p) - pile_base p) mod 3 = 0"
      using next_free_base_spec [of "coordinateMap z y" "pile_base p", unfolded Let_def] by blast
    then show ?thesis using pile_base_mod [of p] by presburger
  qed
  define P where "P r \<longleftrightarrow> r mod 3 = 0 \<or> (\<exists>q i. r = q + i \<and> q mod 3 = 0 \<and> (i = 1 \<or> i = 2) \<and> col z y q)" for r
  have P: "P (freeSpaceMap z y)" "P (next_free_base (coordinateMap z y) (pile_base p))" "P (pile_base p)"
    "col z y (pile_base p) \<Longrightarrow> P (pile_base p + 1)" "col z y (pile_base p) \<Longrightarrow> P (pile_base p + 2)" for p
  proof -
    show "P (freeSpaceMap z y)" "P (next_free_base (coordinateMap z y) (pile_base p))" "P (pile_base p)"
      using f nb [of p] by (simp_all add: P_def)
    show "P (pile_base p + 1)" if "col z y (pile_base p)"
      unfolding P_def by (intro disjI2 exI [of _ "pile_base p"] exI [of _ 1]) (simp add: that)
    show "P (pile_base p + 2)" if "col z y (pile_base p)"
      unfolding P_def by (intro disjI2 exI [of _ "pile_base p"] exI [of _ 2]) (simp add: that)
  qed
  have "P (getFreeGridColumn h z x y n b)"
    unfolding getFreeGridColumn_def Let_def by (simp add: P split: option.split)
  then show ?thesis unfolding P_def .
qed

lemma getFreeGridColumn_top:
  assumes "space_ok z" and "0 \<le> getFreeGridColumn h z x y n b" and "getFreeGridColumn h z x y n b mod 3 \<noteq> 0"
  shows "col z y (pile_base (getFreeGridColumn h z x y n b))"
  using getFreeGridColumn_cases [OF assms(1), of h x y n b] assms(2,3) pile_base_top by metis

lemma space_ok_cong:
  "coordinateMap z' = coordinateMap z \<Longrightarrow> freeSpaceMap z' = freeSpaceMap z \<Longrightarrow> space_ok z' = space_ok z"
  by (simp add: space_ok_def pile_used_cong [of z' z])

lemma getFreeGridColumn_pile:
  assumes "space_ok z" and "0 \<le> getFreeGridColumn h z x y n b" and "getFreeGridColumn h z x y n b mod 3 \<noteq> 0"
  shows "pile_used z y (pile_base (getFreeGridColumn h z x y n b))"
  using getFreeGridColumn_top [OF assms] by (simp add: pile_used_def)

lemma space_ok_insert_free:
  assumes "space_ok z" and "insertCardIntoCoordMap h c (getFreeGridColumn h' z x y n b) y z = Some z'"
  shows "space_ok z'"
proof (cases "0 \<le> getFreeGridColumn h' z x y n b")
  case True
  show ?thesis by (rule space_ok_insert [OF assms getFreeGridColumn_pile [OF assms(1) True]])
qed (use assms in \<open>simp add: insertCardIntoCoordMap_def\<close>)

lemma rows_zcards:
  "col (z\<lparr>zcards := cs\<rparr>) = col z" "facedown_at h (z\<lparr>zcards := cs\<rparr>) = facedown_at h z"
  "attached_at h (z\<lparr>zcards := cs\<rparr>) = attached_at h z"
  "freePilesMap (z\<lparr>zcards := cs\<rparr>) = freePilesMap z" "freeSpaceMap (z\<lparr>zcards := cs\<rparr>) = freeSpaceMap z"
  "coordinateMap (z\<lparr>zcards := cs\<rparr>) = coordinateMap z"
  by (simp_all add: fun_eq_iff col_def facedown_at_def attached_at_def card_at_def)

lemma insertCardIntoCoordMap_free:
  assumes "space_ok z"
  shows "\<exists>z'. insertCardIntoCoordMap h c (getFreeGridColumn h' z x y n b) y z = Some z' \<and> space_ok z'"
proof -
  let ?r = "getFreeGridColumn h' z x y n b"
  have "insertCardIntoCoordMap h c ?r y z \<noteq> None"
  proof
    assume none: "insertCardIntoCoordMap h c ?r y z = None"
    then have r: "0 \<le> ?r" "?r mod 3 \<noteq> 0"
      and no: "map_of (qm_insert ?r c (coordinateMap z y)) (pile_base ?r) = None"
      by (auto simp: insertCardIntoCoordMap_def Let_def card_at_def set_row_def
          split: if_splits option.splits)
    from getFreeGridColumn_top [OF assms r] no show False
      by (simp add: col_def qm_contains_def split: if_splits)
  qed
  with space_ok_insert_free [OF assms] show ?thesis by blast
qed

lemma getFreeGridColumn_zcards: "getFreeGridColumn h (z\<lparr>zcards := cs\<rparr>) x y n b = getFreeGridColumn h z x y n b"
  unfolding getFreeGridColumn_def rows_zcards by simp

lemma insertCard_free:
  assumes "space_ok z" and "has_coords z"
  shows "\<exists>h' z'. insertCard c (getFreeGridColumn h z x y n b) y h z = Some (h', z') \<and> space_ok z'"
proof -
  have "space_ok (z\<lparr>zcards := zcards z @ [c]\<rparr>)"
    using assms(1) space_ok_cong [of "z\<lparr>zcards := zcards z @ [c]\<rparr>" z] by simp
  from insertCardIntoCoordMap_free [OF this, of "setCoords c (getFreeGridColumn h z x y n b) y h" c h x y n b]
  show ?thesis using assms(2) by (auto simp: insertCard_def Let_def getFreeGridColumn_zcards)
qed

lemma removeCard_space_ok:
  assumes "space_ok z" and "removeCard c h z = (i, l, h', z')"
  shows "space_ok z'"
proof -
  have "space_ok (z\<lparr>zcards := cs\<rparr>)" "space_ok (z\<lparr>cardsBeingLookedAt := k, zcards := cs\<rparr>)" for cs k
    using assms(1) space_ok_cong [of "z\<lparr>zcards := cs\<rparr>" z]
      space_ok_cong [of "z\<lparr>cardsBeingLookedAt := k, zcards := cs\<rparr>" z] by simp_all
  with assms(2) show ?thesis by (auto simp: removeCard_def Let_def space_ok_remove split: if_splits)
qed

text \<open>C18: The stored free column of every row stays the leftmost pile without a card: a card that is
  put where \<open>getFreeGridColumn\<close> says, a card that is removed from anywhere and a card that is moved
  within the zone keep it so, and no insertion at such a column dereferences a null pointer.\<close>

theorem free_space_invariant:
  assumes "space_ok z" and "has_coords z"
  shows "(\<exists>h' z'. insertCard c (getFreeGridColumn h z x y n b) y h z = Some (h', z') \<and> space_ok z') \<and>
    (case removeCard c h z of (_, _, h', z') \<Rightarrow> space_ok z') \<and>
    (coord_x (h c) = getFreeGridColumn h (if oldX \<noteq> - 1 then removeCardFromCoordMap h c oldX oldY z else z)
                       x (coord_y (h c)) n b \<longrightarrow>
       (\<exists>z'. updateCardCoordinates c oldX oldY h z = Some z' \<and> space_ok z'))"
proof (intro conjI impI)
  show "\<exists>h' z'. insertCard c (getFreeGridColumn h z x y n b) y h z = Some (h', z') \<and> space_ok z'"
    by (rule insertCard_free [OF assms])
  show "case removeCard c h z of (_, _, h', z') \<Rightarrow> space_ok z'"
    using removeCard_space_ok [OF assms(1)] by (auto split: prod.split)
next
  let ?z = "if oldX \<noteq> - 1 then removeCardFromCoordMap h c oldX oldY z else z"
  assume "coord_x (h c) = getFreeGridColumn h ?z x (coord_y (h c)) n b"
  moreover have "space_ok ?z" using assms(1) space_ok_remove by simp
  ultimately show "\<exists>z'. updateCardCoordinates c oldX oldY h z = Some z' \<and> space_ok z'"
    using insertCardIntoCoordMap_free [of ?z h c h x "coord_y (h c)" n b] assms(2)
    by (simp add: updateCardCoordinates_def Let_def)
qed

text \<open>The column returned for a card is free, provided the pile chosen for its name is one that
  still has room.\<close>

theorem getFreeGridColumn_free:
  assumes "space_ok z"
    and "\<And>p. map_of (freePilesMap z y) n = Some p \<Longrightarrow> 0 \<le> p \<and>
      \<not> (col z y (pile_base p) \<and> col z y (pile_base p + 1) \<and> col z y (pile_base p + 2))"
  shows "0 \<le> getFreeGridColumn h z x y n b \<and> \<not> col z y (getFreeGridColumn h z x y n b)"
proof -
  define P where "P r \<longleftrightarrow> 0 \<le> r \<and> \<not> col z y r" for r
  have f: "P (freeSpaceMap z y)" using space_okD [OF assms(1)] by (simp add: P_def pile_used_def)
  have nb: "P (next_free_base (coordinateMap z y) (pile_base q))" if "0 \<le> q" for q
    using next_free_base_spec [of "coordinateMap z y" "pile_base q", unfolded Let_def] pile_base_facts(1) [OF that]
    by (simp add: P_def col_def)
  have base: "P (pile_base q)" if "0 \<le> q" "\<not> col z y (pile_base q)" for q
    using that pile_base_facts(1) by (simp add: P_def)
  have up: "P (pile_base q + 1)" if "0 \<le> q" "\<not> col z y (pile_base q + 1)" for q
    using that pile_base_facts(1) [of q] by (simp add: P_def)
  have top: "P (pile_base q + 2)" if "0 \<le> q" "\<not> col z y (pile_base q + 2)" for q
    using that pile_base_facts(1) [of q] by (simp add: P_def)
  have "P (getFreeGridColumn h z x y n b)"
    unfolding getFreeGridColumn_def Let_def
    using assms(2) by (auto simp: f nb base up top split: option.split)
  then show ?thesis unfolding P_def .
qed

text \<open>A row with a full pile of bears at column 0 and one more bear at column 3.\<close>

definition example_zone :: cardzone where
  "example_zone = (new_cardzone 1 ''table'' True PublicZone)
     \<lparr>zcards := [1, 2, 3, 4],
       coordinateMap := (\<lambda>y. if y = 2 then [(0, 1), (1, 2), (2, 3), (3, 4)] else []),
       freePilesMap := (\<lambda>y. if y = 2 then [(''Bear'', 3)] else []),
       freeSpaceMap := (\<lambda>y. if y = 2 then 6 else 0)\<rparr>"

lemma example_zone_ok: "space_ok example_zone"
proof -
  have "b = 0 \<or> b = 3" if "0 \<le> b" "b < 6" "b mod 3 = 0" for b :: int using that by presburger
  then show ?thesis
    by (auto simp: space_ok_def example_zone_def new_cardzone_def pile_used_def col_def qm_contains_def qm_ok_def)
qed

theorem free_space_invariant_witness:
  "getFreeGridColumn example_store example_zone 0 2 ''Bear'' False = 6 \<and>
   (\<exists>h' z'. insertCard 9 (getFreeGridColumn example_store example_zone 0 2 ''Bear'' False) 2
       example_store example_zone = Some (h', z') \<and> space_ok z')"
proof
  show "getFreeGridColumn example_store example_zone 0 2 ''Bear'' False = 6" by code_simp
  have c: "has_coords example_zone" by (simp add: example_zone_def new_cardzone_def)
  show "\<exists>h' z'. insertCard 9 (getFreeGridColumn example_store example_zone 0 2 ''Bear'' False) 2
       example_store example_zone = Some (h', z') \<and> space_ok z'"
    using free_space_invariant [OF example_zone_ok c] by blast
qed

theorem getFreeGridColumn_free_witness:
  "getFreeGridColumn example_store example_zone (- 1) 2 ''Bear'' False = 4 \<and>
   \<not> col example_zone 2 (getFreeGridColumn example_store example_zone (- 1) 2 ''Bear'' False)"
proof
  show "getFreeGridColumn example_store example_zone (- 1) 2 ''Bear'' False = 4" by code_simp
  have "0 \<le> p \<and> \<not> (col example_zone 2 (pile_base p) \<and> col example_zone 2 (pile_base p + 1) \<and>
      col example_zone 2 (pile_base p + 2))" if "map_of (freePilesMap example_zone 2) ''Bear'' = Some p" for p
    using that by (auto simp: example_zone_def new_cardzone_def col_def qm_contains_def pile_base_def)
  from getFreeGridColumn_free [OF example_zone_ok this]
  show "\<not> col example_zone 2 (getFreeGridColumn example_store example_zone (- 1) 2 ''Bear'' False)" by simp
qed

section \<open>Shuffling\<close>

lemma swapItemsAt_facts:
  assumes "i < length xs" "j < length xs"
  shows "mset (swapItemsAt i j xs) = mset xs" "length (swapItemsAt i j xs) = length xs"
    "k \<noteq> i \<Longrightarrow> k \<noteq> j \<Longrightarrow> swapItemsAt i j xs ! k = xs ! k" "swapItemsAt i j xs ! j = xs ! i"
  using assms by (auto simp: swapItemsAt_def mset_swap nth_list_update)

context range_rng begin

text \<open>The loop permutes the positions \<open>st .. st + k\<close> and leaves all others alone.\<close>

lemma shuffle_loop_perm:
  "shuffle_loop rnd st k cs s = Some (Inr (cs', s')) \<Longrightarrow> st + k < length cs \<Longrightarrow>
   int (st + k) \<le> int32_max \<Longrightarrow>
   mset cs' = mset cs \<and> length cs' = length cs \<and> (\<forall>m < length cs. m < st \<or> st + k < m \<longrightarrow> cs' ! m = cs ! m)"
proof (induction k arbitrary: cs s)
  case (Suc k)
  then obtain u t where d: "rnd (int st) (int (st + Suc k)) s = Some (Inr (u, t))"
    and rec: "shuffle_loop rnd st k (swapItemsAt (nat (sint u)) (st + Suc k) cs) t = Some (Inr (cs', s'))"
    by (auto simp: Let_def split: option.splits sum.splits prod.splits)
  have "int st \<le> sint u" "sint u \<le> int (st + Suc k)"
    using sint_draw [OF _ _ Suc.prems(3) d] by simp_all
  then have j: "st \<le> nat (sint u)" "nat (sint u) \<le> st + Suc k" by simp_all
  then have "nat (sint u) < length cs" using Suc.prems(2) by simp
  note sw = swapItemsAt_facts [OF this Suc.prems(2)]
  from Suc.IH [OF rec] Suc.prems sw j show ?case by auto
qed simp

lemma shuffle_loop_no_error:
  "st + k < length cs \<Longrightarrow> int (st + k) \<le> int32_max \<Longrightarrow> shuffle_loop rnd st k cs s \<noteq> Some (Inl e)"
proof (induction k arbitrary: cs s)
  case (Suc k)
  have "rnd (int st) (int (st + Suc k)) s \<noteq> Some (Inl x)" for x
    using Suc.prems by (intro no_error) simp_all
  moreover have "shuffle_loop rnd st k (swapItemsAt i (st + Suc k) cs) t \<noteq> Some (Inl e)" for i t
    using Suc.prems by (intro Suc.IH) (simp_all add: swapItemsAt_def)
  ultimately show ?case by (auto simp: Let_def split: option.splits sum.splits prod.splits)
qed simp

end

text \<open>Shuffling with the server's generator never throws; it clears the count of looked-at cards,
  keeps the cards of the zone as a multiset and moves only those between the two positions, which
  count from the end when they are negative.\<close>

theorem shuffle_permutes:
  assumes "shuffle (rand gen) start end z s = Some r" and "int (length (zcards z)) \<le> int32_max"
  shows "\<exists>z' s'. r = Inr (z', s') \<and> cardsBeingLookedAt z' = 0 \<and> mset (zcards z') = mset (zcards z) \<and>
    (let n = int (length (zcards z));
         lo = (if start < 0 then start + n else start); hi = (if end < 0 then end + n else end)
     in \<forall>m < length (zcards z). int m < lo \<or> hi < int m \<longrightarrow> zcards z' ! m = zcards z ! m)"
proof -
  let ?n = "int (length (zcards z))"
  define lo where "lo = (if start < 0 then start + ?n else start)"
  define hi where "hi = (if end < 0 then end + ?n else end)"
  show ?thesis
  proof (cases "?n < 2 \<or> lo < 0 \<or> hi < 0 \<or> lo \<ge> ?n \<or> hi \<ge> ?n")
    case True
    with assms show ?thesis
      by (auto simp: shuffle_def Let_def lo_def hi_def split: if_splits)
  next
    case False
    let ?k = "nat (hi - lo)"
    have run: "Some r = (case shuffle_loop (rand gen) (nat lo) ?k (zcards z) s of
        None \<Rightarrow> None | Some (Inl e) \<Rightarrow> Some (Inl e)
      | Some (Inr (cs, s')) \<Rightarrow>
          Some (Inr (z\<lparr>cardsBeingLookedAt := 0, zcards := cs, playersWithWritePermission := {}\<rparr>, s')))"
      using assms(1) False unfolding shuffle_def Let_def lo_def [symmetric] hi_def [symmetric] by simp
    have b1: "nat lo + ?k < length (zcards z)" using False by linarith
    have b2: "int (nat lo + ?k) \<le> int32_max" using b1 assms(2) by linarith
    note b = b1 b2
    obtain cs s' where l: "shuffle_loop (rand gen) (nat lo) ?k (zcards z) s = Some (Inr (cs, s'))"
      and r: "r = Inr (z\<lparr>cardsBeingLookedAt := 0, zcards := cs, playersWithWritePermission := {}\<rparr>, s')"
      using run sfmt.shuffle_loop_no_error [OF b, of gen s] by (auto split: option.splits sum.splits)
    note p = sfmt.shuffle_loop_perm [OF l b]
    have "cs ! m = zcards z ! m" if m: "m < length (zcards z)" "int m < lo \<or> hi < int m" for m
    proof (cases "lo \<le> hi")
      case True
      then have "m < nat lo \<or> nat lo + ?k < m" using m False by auto
      with p m show ?thesis by blast
    next
      case False
      then have "?k = 0" by simp
      with l show ?thesis by simp
    qed
    with p r show ?thesis unfolding Let_def lo_def [symmetric] hi_def [symmetric] by simp
  qed
qed

theorem shuffle_permutes_witness:
  "\<exists>z' s'. shuffle (rand example_gen) 1 (- 1) example_zone 5 = Some (Inr (z', s')) \<and>
     mset (zcards z') = {#1, 2, 3, 4#} \<and> zcards z' ! 0 = 1"
proof -
  have "\<not> Option.is_none (shuffle (rand example_gen) 1 (- 1) example_zone 5)" by code_simp
  then obtain r where r: "shuffle (rand example_gen) 1 (- 1) example_zone 5 = Some r"
    unfolding Option.is_none_def by blast
  have "int (length (zcards example_zone)) \<le> int32_max"
    by (simp add: example_zone_def new_cardzone_def int32_max_def)
  from shuffle_permutes [OF r this] obtain z' s' where "r = Inr (z', s')"
    "mset (zcards z') = mset (zcards example_zone)" "zcards z' ! 0 = zcards example_zone ! 0"
    by (auto simp: example_zone_def new_cardzone_def)
  with r show ?thesis by (simp add: example_zone_def new_cardzone_def)
qed














section \<open>Looking at the top of a zone\<close>

lemma indexOf_mem:
  "c \<in> set xs \<Longrightarrow> 0 \<le> indexOf c xs \<and> nat (indexOf c xs) < length xs \<and>
     removeAt (nat (indexOf c xs)) xs = remove1 c xs \<and>
     (\<forall>n. c \<in> set (take n xs) \<longleftrightarrow> indexOf c xs < int n)"
proof (induction xs)
  case (Cons x xs)
  show ?case
  proof (cases "c = x")
    case True
    then show ?thesis by (auto simp: removeAt_def take_Cons')
  next
    case False
    with Cons have IH: "0 \<le> indexOf c xs" "nat (indexOf c xs) < length xs"
      "removeAt (nat (indexOf c xs)) xs = remove1 c xs" "\<And>n. c \<in> set (take n xs) \<longleftrightarrow> indexOf c xs < int n"
      by auto
    from False IH(1) have i: "indexOf c (x # xs) = indexOf c xs + 1" by (simp add: Let_def)
    have "removeAt (nat (indexOf c xs + 1)) (x # xs) = x # removeAt (nat (indexOf c xs)) xs"
      using IH(1) by (simp add: removeAt_def nat_add_distrib)
    moreover have "c \<in> set (take n (x # xs)) \<longleftrightarrow> indexOf c xs + 1 < int n" for n
      using IH(1,4) False by (cases n) auto
    ultimately show ?thesis using False IH unfolding i by simp
  qed
qed simp

lemma take_remove1_mem: "c \<in> set (take n xs) \<Longrightarrow> take (n - 1) (remove1 c xs) = remove1 c (take n xs)"
proof (induction xs arbitrary: n)
  case (Cons x xs)
  then obtain m where n: "n = Suc m" by (cases n) auto
  show ?case
  proof (cases "c = x")
    case False
    then have m: "c \<in> set (take m xs)" using Cons.prems n by simp
    then obtain l where "m = Suc l" by (cases m) auto
    with Cons.IH [OF m] False n show ?thesis by simp
  qed (simp add: n)
qed simp

lemma take_remove1_notin: "c \<notin> set (take n xs) \<Longrightarrow> take n (remove1 c xs) = take n xs"
proof (induction xs arbitrary: n)
  case (Cons x xs)
  then show ?case by (cases n) auto
qed simp

text \<open>When a player looks at the top \<open>n\<close> cards of a hidden zone and a card leaves the zone, the
  call reports whether it was one of them, and the count is adjusted so that the player keeps
  looking at exactly the remaining ones. Looking at all cards (\<open>-1\<close>) stays so.\<close>

theorem removeCard_looked_at:
  assumes "ztype z = HiddenZone" and "c \<in> set (zcards z)" and "- 1 \<le> cardsBeingLookedAt z"
  shows "case removeCard c h z of (index, looked, h', z') \<Rightarrow>
    zcards z' = remove1 c (zcards z) \<and> zone (h' c) = None \<and>
    (if cardsBeingLookedAt z = - 1 then looked \<and> cardsBeingLookedAt z' = - 1
     else (looked \<longleftrightarrow> c \<in> set (take (nat (cardsBeingLookedAt z)) (zcards z))) \<and>
          0 \<le> cardsBeingLookedAt z' \<and>
          take (nat (cardsBeingLookedAt z')) (zcards z') =
            (if looked then remove1 c (take (nat (cardsBeingLookedAt z)) (zcards z))
             else take (nat (cardsBeingLookedAt z)) (zcards z)))"
proof -
  note i = indexOf_mem [OF assms(2)]
  define k where "k = cardsBeingLookedAt z"
  have keep: "zcards (removeCardFromCoordMap h c u v y) = zcards y"
    "cardsBeingLookedAt (removeCardFromCoordMap h c u v y) = cardsBeingLookedAt y" for u v y
    by (cases "0 \<le> u"; simp add: removeCardFromCoordMap_state)+
  obtain index looked h' z' where r: "removeCard c h z = (index, looked, h', z')" by (metis prod_cases4)
  have looked: "looked = isCardAtPosLookedAt z (indexOf c (zcards z))" and "zone (h' c) = None"
    using r by (auto simp: removeCard_def Let_def)
  moreover have "zcards z' = removeAt (nat (indexOf c (zcards z))) (zcards z) \<and>
      cardsBeingLookedAt z' = (if looked \<and> k > 0 then k - 1 else k)"
    using r looked by (cases "has_coords z"; cases "looked \<and> 0 < k")
      (simp_all add: removeCard_def Let_def keep k_def, auto simp: keep)
  ultimately have z': "zcards z' = remove1 c (zcards z)" "zone (h' c) = None"
    "looked \<longleftrightarrow> k = - 1 \<or> k > indexOf c (zcards z)"
    "cardsBeingLookedAt z' = (if looked \<and> k > 0 then k - 1 else k)"
    using i assms(1) by (simp_all add: isCardAtPosLookedAt_def k_def)
  show ?thesis
  proof (cases "k = - 1")
    case True
    with z' show ?thesis unfolding r k_def [symmetric] by simp
  next
    case False
    with assms(3) have k: "0 \<le> k" by (simp add: k_def)
    then have mem: "looked \<longleftrightarrow> c \<in> set (take (nat k) (zcards z))"
      using i z'(3) False by simp
    with z' k False take_remove1_mem [of c "nat k" "zcards z"] take_remove1_notin [of c "nat k" "zcards z"]
    show ?thesis unfolding r k_def [symmetric] by (cases "0 < k") (auto simp: nat_diff_distrib)
  qed
qed

theorem removeCard_looked_at_witness:
  "case removeCard 2 example_store ((new_cardzone 1 ''deck'' False HiddenZone)
      \<lparr>zcards := [1, 2, 3, 4], cardsBeingLookedAt := 3\<rparr>) of
    (index, looked, h', z') \<Rightarrow> looked \<and> take (nat (cardsBeingLookedAt z')) (zcards z') = [1, 3]"
  using removeCard_looked_at [of "(new_cardzone 1 ''deck'' False HiddenZone)
      \<lparr>zcards := [1, 2, 3, 4], cardsBeingLookedAt := 3\<rparr>" 2 example_store]
  by (auto simp: new_cardzone_def)

section \<open>Who may see the cards of a zone\<close>

text \<open>The cards of a hidden zone are listed for nobody, those of a private zone only for its
  player and omniscient recipients; then what the recipient gets depends on the number of cards
  alone.\<close>

theorem zone_getInfo_hides:
  assumes "ztype z = HiddenZone \<or> (ztype z = PrivateZone \<and> \<not> own \<and> \<not> omniscient)"
    and "length cs = length (zcards z)"
  shows "\<exists>i. zone_getInfo h own omniscient z = Some i \<and>
    zone_getInfo h2 own omniscient (z\<lparr>zcards := cs\<rparr>) = Some i \<and>
    zi_card_list i = [] \<and> zi_card_count i = int (length (zcards z))"
  using assms by (auto simp: zone_getInfo_def Let_def)

theorem zone_getInfo_hides_witness:
  "zone_getInfo example_store False False ((new_cardzone 1 ''hand'' False PrivateZone)\<lparr>zcards := [1, 2]\<rparr>) =
   zone_getInfo example_store False False ((new_cardzone 1 ''hand'' False PrivateZone)\<lparr>zcards := [3, 4]\<rparr>)"
  using zone_getInfo_hides [of "(new_cardzone 1 ''hand'' False PrivateZone)\<lparr>zcards := [1, 2]\<rparr>" False False
      "[3, 4]" example_store example_store]
  by (auto simp: new_cardzone_def)

end
