(* ===== verification/ManaCost.thy ===== *)
theory ManaCost
  imports RustStd
begin

text \<open>
  Mana costs in brace syntax, from \<open>tricerules-card-model/src/mana.rs\<close>: the symbols, the strict
  parser and the printer of \<open>ManaCost\<close>, mana value on and off the stack, and the colours of a cost.
  The main lemmas relate the parser and the printer.
\<close>

section \<open>Symbols\<close>

datatype color = White | Blue | Black | Red | Green

datatype color_pip = PipW | PipU | PipB | PipR | PipG

text \<open>\<open>ColorPip::parse\<close>, \<open>ColorPip::color\<close> and \<open>ColorPip::letter\<close>.\<close>

definition pip_parse :: "string \<Rightarrow> color_pip option" where
  "pip_parse token =
     (if token = ''W'' then Some PipW
      else if token = ''U'' then Some PipU
      else if token = ''B'' then Some PipB
      else if token = ''R'' then Some PipR
      else if token = ''G'' then Some PipG
      else None)"

fun pip_color :: "color_pip \<Rightarrow> color" where
  "pip_color PipW = White"
| "pip_color PipU = Blue"
| "pip_color PipB = Black"
| "pip_color PipR = Red"
| "pip_color PipG = Green"

fun pip_letter :: "color_pip \<Rightarrow> char" where
  "pip_letter PipW = CHR ''W''"
| "pip_letter PipU = CHR ''U''"
| "pip_letter PipB = CHR ''B''"
| "pip_letter PipR = CHR ''R''"
| "pip_letter PipG = CHR ''G''"

datatype mana_symbol =
    ManaW | ManaU | ManaB | ManaR | ManaG | ManaC
  | Generic u32
  | ManaX
  | Hybrid color_pip color_pip
  | MonoHybrid u32 color_pip
  | Phyrexian color_pip
  | HybridPhyrexian color_pip color_pip

type_synonym mana_cost = "mana_symbol list"

text \<open>The error strings of the parser, by their cause; they quote the token or the trimmed cost.\<close>

datatype mana_error = UnsupportedSymbol string | NotBraceGroup string | Unterminated string

section \<open>Parsing\<close>

definition pip_or :: "mana_error \<Rightarrow> string \<Rightarrow> mana_error + color_pip" where
  "pip_or e token = (case pip_parse token of None \<Rightarrow> Inl e | Some p \<Rightarrow> Inr p)"

definition parse_triple :: "string \<Rightarrow> string \<Rightarrow> string \<Rightarrow> string \<Rightarrow> mana_error + mana_symbol" where
  "parse_triple token p0 p1 p2 =
     (case pip_or (UnsupportedSymbol token) p0 of Inl e \<Rightarrow> Inl e | Inr a \<Rightarrow>
      (case pip_or (UnsupportedSymbol token) p1 of Inl e \<Rightarrow> Inl e | Inr b \<Rightarrow>
       (if p2 \<noteq> ''P'' \<or> a = b then Inl (UnsupportedSymbol token) else Inr (HybridPhyrexian a b))))"

definition parse_pair :: "string \<Rightarrow> string \<Rightarrow> string \<Rightarrow> mana_error + mana_symbol" where
  "parse_pair token a b =
     (if b = ''P'' then
        (case pip_or (UnsupportedSymbol token) a of Inl e \<Rightarrow> Inl e | Inr c \<Rightarrow> Inr (Phyrexian c))
      else
        (case pip_or (UnsupportedSymbol token) b of Inl e \<Rightarrow> Inl e | Inr right \<Rightarrow>
         (case parse_u32 a of
            Some n \<Rightarrow> Inr (MonoHybrid n right)
          | None \<Rightarrow>
              (case pip_or (UnsupportedSymbol token) a of Inl e \<Rightarrow> Inl e | Inr left \<Rightarrow> Inr (Hybrid left right)))))"

definition parse_single :: "string \<Rightarrow> mana_error + mana_symbol" where
  "parse_single token =
     (if token = ''W'' then Inr ManaW
      else if token = ''U'' then Inr ManaU
      else if token = ''B'' then Inr ManaB
      else if token = ''R'' then Inr ManaR
      else if token = ''G'' then Inr ManaG
      else if token = ''C'' then Inr ManaC
      else if token = ''X'' then Inr ManaX
      else (case parse_u32 token of None \<Rightarrow> Inl (UnsupportedSymbol token) | Some n \<Rightarrow> Inr (Generic n)))"

definition parse_symbol :: "string \<Rightarrow> mana_error + mana_symbol" where
  "parse_symbol token =
     (case split_on CHR ''/'' token of
        [p0, p1, p2] \<Rightarrow> parse_triple token p0 p1 p2
      | _ \<Rightarrow>
        (case split_once CHR ''/'' token of
           Some (a, b) \<Rightarrow> parse_pair token a b
         | None \<Rightarrow> parse_single token))"

text \<open>The loop of \<open>ManaCost::parse\<close>; \<open>whole\<close> is the trimmed string that the errors quote.\<close>

function parse_groups :: "string \<Rightarrow> string \<Rightarrow> mana_cost \<Rightarrow> mana_error + mana_cost" where
  "parse_groups whole [] pips = Inr pips"
| "parse_groups whole (c # open') pips =
     (if c \<noteq> CHR ''{'' then Inl (NotBraceGroup whole)
      else (case split_once CHR ''}'' open' of
              None \<Rightarrow> Inl (Unterminated whole)
            | Some (token, rest) \<Rightarrow>
                (case parse_symbol token of
                   Inl e \<Rightarrow> Inl e
                 | Inr p \<Rightarrow> parse_groups whole rest (pips @ [p]))))"
  by pat_completeness auto
termination
  by (relation "measure (\<lambda>(w, s, p). length s)") (auto dest: split_once_Some)

definition parse_cost :: "string \<Rightarrow> mana_error + mana_cost" where
  "parse_cost s = (let s' = utf8_trim s in if s' = [] then Inr [] else parse_groups s' s' [])"

section \<open>Printing\<close>

fun show_symbol :: "mana_symbol \<Rightarrow> string" where
  "show_symbol ManaW = ''{W}''"
| "show_symbol ManaU = ''{U}''"
| "show_symbol ManaB = ''{B}''"
| "show_symbol ManaR = ''{R}''"
| "show_symbol ManaG = ''{G}''"
| "show_symbol ManaC = ''{C}''"
| "show_symbol (Generic n) = ''{'' @ show_nat n @ ''}''"
| "show_symbol ManaX = ''{X}''"
| "show_symbol (Hybrid a b) = ''{'' @ [pip_letter a] @ ''/'' @ [pip_letter b] @ ''}''"
| "show_symbol (MonoHybrid n c) = ''{'' @ show_nat n @ ''/'' @ [pip_letter c] @ ''}''"
| "show_symbol (Phyrexian c) = ''{'' @ [pip_letter c] @ ''/P}''"
| "show_symbol (HybridPhyrexian a b) = ''{'' @ [pip_letter a] @ ''/'' @ [pip_letter b] @ ''/P}''"

definition show_cost :: "mana_cost \<Rightarrow> string" where
  "show_cost pips = concat (map show_symbol pips)"

section \<open>Mana value and colours\<close>

text \<open>The sum is unchecked addition: \<open>None\<close> is the overflow panic.\<close>

fun symbol_value :: "mana_symbol \<Rightarrow> u32" where
  "symbol_value (Generic n) = n"
| "symbol_value ManaX = 0"
| "symbol_value (MonoHybrid n _) = n"
| "symbol_value _ = 1"

definition mana_value :: "mana_cost \<Rightarrow> u32 option" where
  "mana_value pips = checked_sum 0 (map symbol_value pips)"

definition is_x :: "mana_symbol \<Rightarrow> bool" where
  "is_x p = (case p of ManaX \<Rightarrow> True | _ \<Rightarrow> False)"

text \<open>\<open>as u32\<close> truncates the count.\<close>

definition mana_value_on_stack :: "u32 \<Rightarrow> mana_cost \<Rightarrow> u32 option" where
  "mana_value_on_stack chosen_x pips =
     (case mana_value pips of
        None \<Rightarrow> None
      | Some v \<Rightarrow> Some (saturating_add v
                   (saturating_mul (length (filter is_x pips) mod (u32_max + 1)) chosen_x)))"

definition push_color :: "color \<Rightarrow> color list \<Rightarrow> color list" where
  "push_color c out = (if c \<in> set out then out else out @ [c])"

fun symbol_colors :: "mana_symbol \<Rightarrow> color list \<Rightarrow> color list" where
  "symbol_colors ManaW out = push_color White out"
| "symbol_colors ManaU out = push_color Blue out"
| "symbol_colors ManaB out = push_color Black out"
| "symbol_colors ManaR out = push_color Red out"
| "symbol_colors ManaG out = push_color Green out"
| "symbol_colors (Hybrid a b) out = push_color (pip_color b) (push_color (pip_color a) out)"
| "symbol_colors (HybridPhyrexian a b) out = push_color (pip_color b) (push_color (pip_color a) out)"
| "symbol_colors (MonoHybrid _ c) out = push_color (pip_color c) out"
| "symbol_colors (Phyrexian c) out = push_color (pip_color c) out"
| "symbol_colors _ out = out"

definition colors :: "mana_cost \<Rightarrow> color list" where
  "colors pips = fold symbol_colors pips []"

definition cost_is_empty :: "mana_cost \<Rightarrow> bool" where
  "cost_is_empty pips \<longleftrightarrow> pips = []"

definition has_x :: "mana_cost \<Rightarrow> bool" where
  "has_x pips \<longleftrightarrow> list_ex is_x pips"

section \<open>Parser and printer\<close>

text \<open>What the parser can produce.\<close>

fun symbol_ok :: "mana_symbol \<Rightarrow> bool" where
  "symbol_ok (Generic n) \<longleftrightarrow> n \<le> u32_max"
| "symbol_ok (MonoHybrid n _) \<longleftrightarrow> n \<le> u32_max"
| "symbol_ok (HybridPhyrexian a b) \<longleftrightarrow> a \<noteq> b"
| "symbol_ok _ \<longleftrightarrow> True"

definition cost_ok :: "mana_cost \<Rightarrow> bool" where
  "cost_ok pips \<longleftrightarrow> list_all symbol_ok pips"

lemma pip_parse_letter [simp]: "pip_parse [pip_letter c] = Some c"
  by (cases c) (simp_all add: pip_parse_def)

lemma pip_or_letter [simp]: "pip_or e [pip_letter c] = Inr c"
  by (simp add: pip_or_def)

lemma pip_letter_neq [simp]:
  "pip_letter c \<noteq> CHR ''/''" "pip_letter c \<noteq> CHR ''}''" "pip_letter c \<noteq> CHR ''P''"
  "CHR ''/'' \<noteq> pip_letter c" "CHR ''}'' \<noteq> pip_letter c" "CHR ''P'' \<noteq> pip_letter c"
  by (cases c; simp)+

lemma parse_u32_pip [simp]: "parse_u32 [pip_letter c] = None"
  by (cases c) (simp_all add: parse_u32_def is_digit_def char_between_def)

lemma digit_not_special:
  assumes "is_digit c"
  shows "c \<noteq> CHR ''/''" and "c \<noteq> CHR ''}''"
  using assms by (auto simp: is_digit_def char_between_def)

lemma show_nat_special [simp]:
  "CHR ''/'' \<notin> set (show_nat n)" "CHR ''}'' \<notin> set (show_nat n)"
  using show_nat_mem digit_not_special by blast+

lemma show_nat_not_letter:
  "\<not> is_digit c \<Longrightarrow> show_nat n \<noteq> [c]"
  using show_nat_mem [of c n] by force

definition token_of :: "mana_symbol \<Rightarrow> string" where
  "token_of p = butlast (tl (show_symbol p))"

lemma show_symbol_token: "show_symbol p = CHR ''{'' # token_of p @ ''}''"
  by (cases p) (simp_all add: token_of_def butlast_append)

lemma token_no_brace [simp]: "CHR ''}'' \<notin> set (token_of p)"
  by (cases p) (simp_all add: token_of_def butlast_append)

lemma parse_single_number: "n \<le> u32_max \<Longrightarrow> parse_single (show_nat n) = Inr (Generic n)"
  by (simp add: parse_single_def show_nat_not_letter is_digit_def char_between_def)

lemma split_triple: "split_on CHR ''/'' [pip_letter a, CHR ''/'', pip_letter b, CHR ''/'', CHR ''P''] =
    [[pip_letter a], [pip_letter b], ''P'']"
  by simp

lemma parse_token:
  assumes "symbol_ok p"
  shows "parse_symbol (token_of p) = Inr p"
proof (cases p)
  case (Generic n)
  then show ?thesis
    using assms by (simp add: token_of_def butlast_append parse_symbol_def parse_single_number)
next
  case (MonoHybrid n c)
  have t: "token_of p = show_nat n @ CHR ''/'' # [pip_letter c]"
    by (simp add: MonoHybrid token_of_def butlast_append)
  show ?thesis
    unfolding t parse_symbol_def parse_pair_def using assms MonoHybrid by simp
qed (use assms in \<open>simp_all add: token_of_def parse_symbol_def parse_pair_def parse_triple_def parse_single_def\<close>)

lemma parse_groups_show:
  "cost_ok c \<Longrightarrow> parse_groups whole (show_cost c) pips = Inr (pips @ c)"
proof (induction c arbitrary: pips)
  case Nil
  then show ?case by (simp add: show_cost_def)
next
  case (Cons p ps)
  have "parse_groups whole (show_cost (p # ps)) pips = parse_groups whole (show_cost ps) (pips @ [p])"
    using Cons.prems by (simp add: show_cost_def show_symbol_token cost_ok_def parse_token)
  with Cons show ?case by (simp add: cost_ok_def)
qed

lemma show_cost_ends:
  "show_cost c = [] \<or> (hd (show_cost c) = CHR ''{'' \<and> last (show_cost c) = CHR ''}'')"
proof (induction c)
  case Nil
  then show ?case by (simp add: show_cost_def)
next
  case (Cons p ps)
  then show ?case by (auto simp: show_cost_def show_symbol_token)
qed

lemma brace_not_space:
  "CHR ''{'' \<notin> hd ` set white_space" "CHR ''}'' \<notin> hd ` set (map rev white_space)"
  by (simp_all add: white_space_def)

lemma trim_show_cost [simp]: "utf8_trim (show_cost c) = show_cost c"
proof -
  have "strip_one white_space (show_cost c) = None"
    using show_cost_ends [of c] brace_not_space by (metis strip_one_hd)
  moreover have "strip_one (map rev white_space) (rev (show_cost c)) = None"
    using show_cost_ends [of c] brace_not_space by (metis hd_rev rev.simps(1) strip_one_hd)
  ultimately show ?thesis by (simp add: utf8_trim_def)
qed

lemma show_cost_Nil [simp]: "show_cost c = [] \<longleftrightarrow> c = []"
  by (cases c) (simp_all add: show_cost_def show_symbol_token)

lemma parse_show: "cost_ok c \<Longrightarrow> parse_cost (show_cost c) = Inr c"
  using parse_groups_show [of c "show_cost c" "[]"] by (auto simp: parse_cost_def Let_def)

lemma parse_single_ok: "parse_single token = Inr p \<Longrightarrow> symbol_ok p"
  by (auto simp: parse_single_def parse_u32_bound split: if_splits option.splits)

lemma parse_pair_ok: "parse_pair token a b = Inr p \<Longrightarrow> symbol_ok p"
  by (auto simp: parse_pair_def parse_u32_bound split: if_splits option.splits sum.splits)

lemma parse_triple_ok: "parse_triple token p0 p1 p2 = Inr p \<Longrightarrow> symbol_ok p"
  by (auto simp: parse_triple_def split: if_splits sum.splits)

lemma parse_symbol_cases:
  "parse_symbol token = (case split_once CHR ''/'' token of Some (a, b) \<Rightarrow> parse_pair token a b
     | None \<Rightarrow> parse_single token) \<or>
   (\<exists>p0 p1 p2. parse_symbol token = parse_triple token p0 p1 p2)"
  unfolding parse_symbol_def by (auto split: list.split)

lemma parse_symbol_ok: "parse_symbol token = Inr p \<Longrightarrow> symbol_ok p"
  using parse_symbol_cases [of token] parse_single_ok parse_pair_ok parse_triple_ok
  by (cases "split_once CHR ''/'' token") fastforce+

lemma parse_groups_ok:
  "parse_groups whole s pips = Inr c \<Longrightarrow> cost_ok pips \<Longrightarrow> cost_ok c"
proof (induction whole s pips rule: parse_groups.induct)
  case (1 whole pips)
  then show ?case by simp
next
  case (2 whole d open' pips)
  then show ?case
    by (fastforce simp: cost_ok_def dest: parse_symbol_ok split: if_splits option.splits sum.splits)
qed

lemma parse_cost_ok: "parse_cost s = Inr c \<Longrightarrow> cost_ok c"
  using parse_groups_ok by (auto simp: parse_cost_def Let_def cost_ok_def split: if_splits)

text \<open>C22: Parsing and printing are inverse to each other: the parser reads back from their printed
  form exactly the costs it can produce, those with 32-bit numbers and two different colours in a
  hybrid Phyrexian symbol; so printing what was parsed gives a canonical text of the same cost.\<close>

theorem parse_print_cost:
  "(cost_ok c \<longleftrightarrow> parse_cost (show_cost c) = Inr c) \<and> (parse_cost s = Inr c \<longrightarrow> cost_ok c)"
  using parse_cost_ok [of s c] parse_cost_ok [of "show_cost c" c] parse_show [of c] by blast

theorem parse_print_cost_witness:
  "parse_cost '' {02}{G/W/P} '' = Inr [Generic 2, HybridPhyrexian PipG PipW] \<and>
   parse_cost ''{2}{G/W/P}'' = Inr [Generic 2, HybridPhyrexian PipG PipW]"
proof
  show a: "parse_cost '' {02}{G/W/P} '' = Inr [Generic 2, HybridPhyrexian PipG PipW]"
    by code_simp
  have "parse_cost (show_cost [Generic 2, HybridPhyrexian PipG PipW])
      = Inr [Generic 2, HybridPhyrexian PipG PipW]"
    using parse_print_cost a by blast
  moreover have "show_cost [Generic 2, HybridPhyrexian PipG PipW] = ''{2}{G/W/P}''" by code_simp
  ultimately show "parse_cost ''{2}{G/W/P}'' = Inr [Generic 2, HybridPhyrexian PipG PipW]"
    by (simp only:)
qed

section \<open>Mana value on the stack\<close>

text \<open>The cost with the announced value in place of every X.\<close>

definition announce :: "u32 \<Rightarrow> mana_cost \<Rightarrow> mana_cost" where
  "announce x pips = map (\<lambda>p. if is_x p then Generic x else p) pips"

lemma is_x_iff [simp]: "is_x p \<longleftrightarrow> p = ManaX"
  by (simp add: is_x_def split: mana_symbol.split)

lemma announce_value:
  "sum_list (map symbol_value (announce x pips)) =
   sum_list (map symbol_value pips) + length (filter is_x pips) * x"
  by (induction pips) (simp_all add: announce_def)

lemma mana_value_eq:
  "mana_value pips = (if sum_list (map symbol_value pips) \<le> u32_max
     then Some (sum_list (map symbol_value pips)) else None)"
  by (simp add: mana_value_def checked_sum_eq)

text \<open>On the stack a cost is worth what it is worth with the announced value written in place of
  every X, capped at the largest 32-bit number; the only overflow panic is that of the fixed part.\<close>

theorem stack_mana_value:
  assumes "length pips \<le> u32_max"
  shows "mana_value_on_stack x pips =
    (if sum_list (map symbol_value pips) \<le> u32_max
     then Some (min (sum_list (map symbol_value (announce x pips))) u32_max) else None)"
proof -
  have "length (filter is_x pips) \<le> u32_max"
    using assms length_filter_le [of is_x pips] by linarith
  then have "length (filter is_x pips) mod (u32_max + 1) = length (filter is_x pips)"
    by simp
  then show ?thesis
    by (simp add: mana_value_on_stack_def mana_value_eq announce_value saturating_add_def
        saturating_mul_def min_def)
qed

theorem stack_mana_value_witness:
  "mana_value_on_stack 3 [ManaX, ManaX, ManaR] = Some 7 \<and>
   mana_value_on_stack 3000000000 [ManaX, ManaX, ManaR] = Some u32_max"
  using stack_mana_value [of "[ManaX, ManaX, ManaR]" 3]
    stack_mana_value [of "[ManaX, ManaX, ManaR]" 3000000000]
  by (simp add: announce_def u32_max_def)

section \<open>Colours\<close>

fun printed_colors :: "mana_symbol \<Rightarrow> color list" where
  "printed_colors ManaW = [White]"
| "printed_colors ManaU = [Blue]"
| "printed_colors ManaB = [Black]"
| "printed_colors ManaR = [Red]"
| "printed_colors ManaG = [Green]"
| "printed_colors (Hybrid a b) = [pip_color a, pip_color b]"
| "printed_colors (HybridPhyrexian a b) = [pip_color a, pip_color b]"
| "printed_colors (MonoHybrid _ c) = [pip_color c]"
| "printed_colors (Phyrexian c) = [pip_color c]"
| "printed_colors _ = []"

lemma fold_push_color:
  "distinct acc \<Longrightarrow> fold push_color cs acc = rev (remdups (rev (acc @ cs)))"
proof (induction cs rule: rev_induct)
  case Nil
  then show ?case by (simp add: distinct_remdups_id)
next
  case (snoc c cs)
  then show ?case by (auto simp: push_color_def)
qed

lemma symbol_colors_fold: "symbol_colors p out = fold push_color (printed_colors p) out"
  by (cases p) simp_all

lemma colors_first_appearance:
  "colors pips = rev (remdups (rev (concat (map printed_colors pips))))"
proof -
  have "fold symbol_colors pips acc = fold push_color (concat (map printed_colors pips)) acc" for acc
    by (induction pips arbitrary: acc) (simp_all add: symbol_colors_fold)
  then show ?thesis by (simp add: colors_def fold_push_color)
qed

lemma colors_distinct: "distinct (colors pips)"
  by (simp add: colors_first_appearance)

lemma has_x_announce: "\<not> has_x (announce x pips)"
  by (auto simp: has_x_def announce_def list_ex_iff)

end
