(* ===== verification/Demand.thy ===== *)
theory Demand
  imports ManaCost "HOL-Library.Multiset"
begin

text \<open>
  Normalised spell demands, from \<open>tricerules-core/src/engine/payment/demand.rs\<close>: a demand is the
  amount due in each of seven slots plus life; \<open>normalize\<close> enumerates the demands a cost can be
  turned into by choosing a side of every hybrid symbol, and \<open>pay_with_any_color\<close> takes creatures
  and mana off a demand. The theorems give the exact set that \<open>normalize\<close> returns and the exact
  condition under which a payment settles a demand.
\<close>

section \<open>Demands\<close>

datatype engine_error = Illegal string | Panic string

text \<open>The array has seven entries: W, U, B, R, G, C and generic.\<close>

datatype demand = Demand (amounts: "u32 list") (due_life: u32)

text \<open>The derived order compares the arrays lexicographically, then the life.\<close>

definition demand_le :: "demand \<Rightarrow> demand \<Rightarrow> bool" where
  "demand_le d e \<longleftrightarrow> amounts d < amounts e \<or> (amounts d = amounts e \<and> due_life d \<le> due_life e)"

instantiation demand :: linorder
begin

definition less_eq_demand :: "demand \<Rightarrow> demand \<Rightarrow> bool" where
  "less_eq_demand = demand_le"

definition less_demand :: "demand \<Rightarrow> demand \<Rightarrow> bool" where
  "less_demand d e \<longleftrightarrow> demand_le d e \<and> \<not> demand_le e d"

instance
  by standard (auto simp: less_eq_demand_def less_demand_def demand_le_def demand.expand)

end

section \<open>Paying a demand\<close>

fun tap_creatures :: "nat list \<Rightarrow> u32 list \<Rightarrow> u32 list option" where
  "tap_creatures [] am = Some am"
| "tap_creatures (slot # slots) am =
     (if slot < length am
      then (case checked_sub (am ! slot) 1 of
              None \<Rightarrow> None
            | Some n \<Rightarrow> tap_creatures slots (am[slot := n]))
      else None)"

text \<open>The loop over the coloured demands when mana counts as mana of any colour.\<close>

fun settle_colors :: "nat list \<Rightarrow> nat \<Rightarrow> u32 list \<Rightarrow> nat \<times> u32 list" where
  "settle_colors [] remaining am = (remaining, am)"
| "settle_colors (i # is) remaining am =
     (let used = min remaining (am ! i)
      in settle_colors is (remaining - used) (am[i := am ! i - used]))"

definition pay_any_color :: "u32 list \<Rightarrow> u32 list \<Rightarrow> u32 list option" where
  "pay_any_color mana am =
     (let true_colorless = min (mana ! 5) (am ! 5);
          am1 = am[5 := am ! 5 - true_colorless];
          (remaining, am2) = settle_colors [0, 1, 2, 3, 4] (sum_list mana - true_colorless) am1
      in if remaining \<le> u32_max
         then (case checked_sub (am2 ! 6) remaining of None \<Rightarrow> None | Some g \<Rightarrow> Some (am2[6 := g]))
         else None)"

fun pay_slots :: "nat \<Rightarrow> u32 list \<Rightarrow> u32 list \<Rightarrow> u32 list option" where
  "pay_slots slot [] am = Some am"
| "pay_slots slot (amount # mana) am =
     (let colored = min amount (am ! slot);
          am1 = am[slot := am ! slot - colored]
      in case checked_sub (am1 ! 6) (amount - colored) of
           None \<Rightarrow> None
         | Some g \<Rightarrow> pay_slots (Suc slot) mana (am1[6 := g]))"

definition pay_with_any_color :: "nat list \<Rightarrow> u32 list \<Rightarrow> bool \<Rightarrow> demand \<Rightarrow> demand option" where
  "pay_with_any_color creatures mana as_any_color d =
     (case tap_creatures creatures (amounts d) of
        None \<Rightarrow> None
      | Some am \<Rightarrow>
          (case (if as_any_color then pay_any_color mana am else pay_slots 0 mana am) of
             None \<Rightarrow> None
           | Some am' \<Rightarrow> Some (Demand am' (due_life d))))"

definition complete :: "demand \<Rightarrow> bool" where
  "complete d \<longleftrightarrow> list_all (\<lambda>n. n = 0) (amounts d)"

definition slot_label :: "char \<times> u32 \<Rightarrow> string" where
  "slot_label = (\<lambda>(symbol, amount).
     if 20 < amount then show_nat amount @ '' x {'' @ [symbol] @ ''}''
     else concat (replicate amount (''{'' @ [symbol] @ ''}'')))"

definition label :: "demand \<Rightarrow> string" where
  "label d =
     (let text = (if 0 < amounts d ! 6 then ''{'' @ show_nat (amounts d ! 6) @ ''}'' else '''') @
                 concat (map slot_label (zip ''WUBRGC'' (amounts d)));
          text' = (if text = [] then ''{0}'' else text)
      in if 0 < due_life d then text' @ '' + '' @ show_nat (due_life d) @ '' life'' else text')"

section \<open>Phyrexian symbols\<close>

record flex_pip_payment =
  pip_index :: nat
  pay_life :: bool
  mana_color :: int

datatype phyrexian_payment = PayMana color_pip | PayLife

definition pip_of_mana_color :: "int \<Rightarrow> color_pip option" where
  "pip_of_mana_color n =
     (if n = 1 then Some PipW else if n = 2 then Some PipU else if n = 3 then Some PipB
      else if n = 4 then Some PipR else if n = 5 then Some PipG else None)"

definition select_branch :: "mana_symbol \<Rightarrow> flex_pip_payment \<Rightarrow> engine_error + phyrexian_payment" where
  "select_branch pip ch =
     (case pip of
        Phyrexian c \<Rightarrow>
          if mana_color ch = 0 then Inr (if pay_life ch then PayLife else PayMana c)
          else Inl (Illegal ''invalid flexible pip selection'')
      | HybridPhyrexian a b \<Rightarrow>
          if pay_life ch \<and> mana_color ch = 0 then Inr PayLife
          else if \<not> pay_life ch then
            (case pip_of_mana_color (mana_color ch) of
               None \<Rightarrow> Inl (Illegal ''invalid hybrid Phyrexian color'')
             | Some c \<Rightarrow>
                 if c \<noteq> a \<and> c \<noteq> b then Inl (Illegal ''hybrid Phyrexian color is not a component'')
                 else Inr (PayMana c))
          else Inl (Illegal ''invalid flexible pip selection'')
      | _ \<Rightarrow> Inl (Illegal ''invalid flexible pip selection''))"

fun select_loop ::
  "mana_cost \<Rightarrow> flex_pip_payment list \<Rightarrow> phyrexian_payment option list \<Rightarrow>
   engine_error + phyrexian_payment option list" where
  "select_loop cost [] selected = Inr selected"
| "select_loop cost (ch # chs) selected =
     (if length cost \<le> pip_index ch then Inl (Illegal ''invalid flexible pip selection'')
      else if selected ! pip_index ch \<noteq> None then Inl (Illegal ''duplicate flexible pip selection'')
      else (case select_branch (cost ! pip_index ch) ch of
              Inl e \<Rightarrow> Inl e
            | Inr p \<Rightarrow> select_loop cost chs (selected[pip_index ch := Some p])))"

fun default_loop ::
  "mana_cost \<Rightarrow> phyrexian_payment option list \<Rightarrow> engine_error + phyrexian_payment option list" where
  "default_loop (pip # pips) (s # ss) =
     (case (case (pip, s) of
              (HybridPhyrexian _ _, None) \<Rightarrow>
                Inl (Illegal ''hybrid Phyrexian pip needs an announced branch'')
            | (Phyrexian c, None) \<Rightarrow> Inr (Some (PayMana c))
            | _ \<Rightarrow> Inr s) of
        Inl e \<Rightarrow> Inl e
      | Inr s' \<Rightarrow> (case default_loop pips ss of Inl e \<Rightarrow> Inl e | Inr ss' \<Rightarrow> Inr (s' # ss')))"
| "default_loop _ _ = Inr []"

definition validated_phyrexian_choices ::
  "mana_cost \<Rightarrow> flex_pip_payment list \<Rightarrow> engine_error + phyrexian_payment option list" where
  "validated_phyrexian_choices cost choices =
     (case select_loop cost choices (replicate (length cost) None) of
        Inl e \<Rightarrow> Inl e
      | Inr selected \<Rightarrow> default_loop cost selected)"

section \<open>Normalisation\<close>

fun color_index :: "color_pip \<Rightarrow> nat" where
  "color_index PipW = 0"
| "color_index PipU = 1"
| "color_index PipB = 2"
| "color_index PipR = 3"
| "color_index PipG = 4"

text \<open>Slot 7 stands for life. \<open>None\<close> is the panic of \<open>expect\<close>.\<close>

definition pip_options :: "u32 \<Rightarrow> mana_symbol \<Rightarrow> phyrexian_payment option \<Rightarrow> (nat \<times> u32) list option" where
  "pip_options x pip ph =
     (let branch = (case ph of
                      None \<Rightarrow> None
                    | Some PayLife \<Rightarrow> Some [(7, 2)]
                    | Some (PayMana c) \<Rightarrow> Some [(color_index c, 1)])
      in case pip of
           ManaW \<Rightarrow> Some [(0, 1)]
         | ManaU \<Rightarrow> Some [(1, 1)]
         | ManaB \<Rightarrow> Some [(2, 1)]
         | ManaR \<Rightarrow> Some [(3, 1)]
         | ManaG \<Rightarrow> Some [(4, 1)]
         | ManaC \<Rightarrow> Some [(5, 1)]
         | Generic n \<Rightarrow> Some [(6, n)]
         | ManaX \<Rightarrow> Some [(6, x)]
         | Hybrid a b \<Rightarrow> Some [(color_index a, 1), (color_index b, 1)]
         | MonoHybrid n c \<Rightarrow> Some [(color_index c, 1), (6, n)]
         | Phyrexian _ \<Rightarrow> branch
         | HybridPhyrexian _ _ \<Rightarrow> branch)"

definition add_slot :: "nat \<times> u32 \<Rightarrow> demand \<Rightarrow> demand option" where
  "add_slot = (\<lambda>(slot, amount) d.
     if slot = 7 then
       (case checked_add (due_life d) amount of None \<Rightarrow> None | Some l \<Rightarrow> Some (Demand (amounts d) l))
     else
       (case checked_add (amounts d ! slot) amount of
          None \<Rightarrow> None | Some n \<Rightarrow> Some (Demand ((amounts d)[slot := n]) (due_life d))))"

text \<open>A \<open>BTreeSet\<close> is its ascending list of elements.\<close>

fun btree_insert :: "'a::linorder \<Rightarrow> 'a list \<Rightarrow> 'a list" where
  "btree_insert x [] = [x]"
| "btree_insert x (y # ys) =
     (if x < y then x # y # ys else if x = y then y # ys else y # btree_insert x ys)"

fun extend_one :: "(nat \<times> u32) list \<Rightarrow> demand \<Rightarrow> demand list \<Rightarrow> demand list option" where
  "extend_one [] d acc = Some acc"
| "extend_one (opt # opts) d acc =
     (case add_slot opt d of None \<Rightarrow> None | Some d' \<Rightarrow> extend_one opts d (btree_insert d' acc))"

fun extend_all :: "(nat \<times> u32) list \<Rightarrow> demand list \<Rightarrow> demand list \<Rightarrow> demand list option" where
  "extend_all opts [] acc = Some acc"
| "extend_all opts (d # ds) acc =
     (case extend_one opts d acc of None \<Rightarrow> None | Some acc' \<Rightarrow> extend_all opts ds acc')"

fun normalize_loop ::
  "u32 \<Rightarrow> mana_cost \<Rightarrow> phyrexian_payment option list \<Rightarrow> demand list \<Rightarrow> engine_error + demand list" where
  "normalize_loop x (pip # pips) (ph # phs) demands =
     (case pip_options x pip ph of
        None \<Rightarrow> Inl (Panic ''validated Phyrexian choice'')
      | Some opts \<Rightarrow>
          (case extend_all opts demands [] of
             None \<Rightarrow> Inl (Illegal ''spell cost overflow'')
           | Some demands' \<Rightarrow> normalize_loop x pips phs demands'))"
| "normalize_loop x _ _ demands = Inr demands"

fun dedup :: "'a list \<Rightarrow> 'a list" where
  "dedup (x # y # zs) = (if x = y then dedup (y # zs) else x # dedup (y # zs))"
| "dedup xs = xs"

definition reduce_generic :: "u32 \<Rightarrow> demand \<Rightarrow> demand" where
  "reduce_generic reduction d =
     Demand ((amounts d)[6 := saturating_sub (amounts d ! 6) reduction]) (due_life d)"

definition normalize ::
  "mana_cost \<Rightarrow> u32 \<Rightarrow> u32 \<Rightarrow> u32 \<Rightarrow> flex_pip_payment list \<Rightarrow> engine_error + demand list" where
  "normalize cost x increase reduction life_pips =
     (case validated_phyrexian_choices cost life_pips of
        Inl e \<Rightarrow> Inl e
      | Inr phyrexian \<Rightarrow>
          (case normalize_loop x cost phyrexian [Demand [0, 0, 0, 0, 0, 0, increase] 0] of
             Inl e \<Rightarrow> Inl e
           | Inr demands \<Rightarrow> Inr (dedup (sort (map (reduce_generic reduction) demands)))))"

section \<open>What normalisation returns\<close>

lemma btree_insert_set [simp]: "set (btree_insert x xs) = insert x (set xs)"
  by (induction xs) auto

lemma btree_insert_sorted: "sorted_wrt (<) xs \<Longrightarrow> sorted_wrt (<) (btree_insert x xs)"
  by (induction xs) auto

lemma dedup_set [simp]: "set (dedup xs) = set xs"
  by (induction xs rule: dedup.induct) auto

lemma dedup_sorted: "sorted xs \<Longrightarrow> sorted_wrt (<) (dedup (xs :: 'a::linorder list))"
  by (induction xs rule: dedup.induct) (auto simp: less_le)

lemma dedup_sort: "dedup (sort xs) = sorted_list_of_set (set (xs :: 'a::linorder list))"
proof -
  have "sorted_wrt (<) (dedup (sort xs))" by (simp add: dedup_sorted)
  then have "sorted (dedup (sort xs)) \<and> distinct (dedup (sort xs))"
    by (simp add: strict_sorted_iff)
  then show ?thesis
    by (metis dedup_set set_sort sorted_list_of_set.idem_if_sorted_distinct)
qed

text \<open>Adding to a slot without a bound, and the demands that stay within their 32 bits.\<close>

definition charge :: "nat \<times> u32 \<Rightarrow> demand \<Rightarrow> demand" where
  "charge = (\<lambda>(slot, amount) d.
     if slot = 7 then Demand (amounts d) (due_life d + amount)
     else Demand ((amounts d)[slot := amounts d ! slot + amount]) (due_life d))"

definition fits :: "demand \<Rightarrow> bool" where
  "fits d \<longleftrightarrow> list_all (\<lambda>n. n \<le> u32_max) (amounts d) \<and> due_life d \<le> u32_max"

definition array_ok :: "demand \<Rightarrow> bool" where
  "array_ok d \<longleftrightarrow> length (amounts d) = 7"

definition slots_ok :: "(nat \<times> u32) list \<Rightarrow> bool" where
  "slots_ok opts \<longleftrightarrow> opts \<noteq> [] \<and> list_all (\<lambda>p. fst p \<le> 7) opts"

lemma array_ok_charge [simp]: "array_ok d \<Longrightarrow> array_ok (charge p d)"
  by (simp add: array_ok_def charge_def split: prod.split)

lemma fits_nth: "fits d \<longleftrightarrow> (\<forall>i < length (amounts d). amounts d ! i \<le> u32_max) \<and> due_life d \<le> u32_max"
  by (simp add: fits_def list_all_length)

lemma charge_grows:
  "length (amounts (charge p d)) = length (amounts d)"
  "i < length (amounts d) \<Longrightarrow> amounts d ! i \<le> amounts (charge p d) ! i"
  "due_life d \<le> due_life (charge p d)"
  by (cases p; cases "fst p = i"; simp add: charge_def; fail)+

lemma fits_charge_mono: "fits (charge p d) \<Longrightarrow> fits d"
  unfolding fits_nth charge_grows(1) using charge_grows(2,3) order_trans by blast

lemma fits_fold_mono: "fits (fold charge sel d) \<Longrightarrow> fits d"
  by (induction sel arbitrary: d) (auto dest: fits_charge_mono)

lemma add_slot_charge:
  assumes "fits d" "array_ok d" "fst p \<le> 7"
  shows "add_slot p d = (if fits (charge p d) then Some (charge p d) else None)"
proof -
  obtain slot amount where p: "p = (slot, amount)" by (cases p)
  show ?thesis
    using assms p
    by (cases "slot = 7")
      (auto simp: add_slot_def charge_def fits_nth array_ok_def checked_add_def nth_list_update
        split: if_splits)
qed

lemma extend_one_eq:
  assumes "fits d" "array_ok d" "list_all (\<lambda>p. fst p \<le> 7) opts"
  shows "extend_one opts d acc =
    (if list_all (\<lambda>p. fits (charge p d)) opts
     then Some (fold (\<lambda>p. btree_insert (charge p d)) opts acc) else None)"
  using assms by (induction opts arbitrary: acc) (auto simp: add_slot_charge)

lemma fold_insert_sorted:
  "sorted_wrt (<) acc \<Longrightarrow> sorted_wrt (<) (fold (\<lambda>p. btree_insert (f p)) opts acc)"
  by (induction opts arbitrary: acc) (auto intro: btree_insert_sorted)

lemma fold_insert_set: "set (fold (\<lambda>p. btree_insert (f p)) opts acc) = f ` set opts \<union> set acc"
  by (induction opts arbitrary: acc) auto

lemma extend_all_eq:
  assumes "\<forall>d \<in> set ds. fits d \<and> array_ok d" "list_all (\<lambda>p. fst p \<le> 7) opts" "sorted_wrt (<) acc"
  shows "(if \<forall>d \<in> set ds. \<forall>p \<in> set opts. fits (charge p d)
     then \<exists>ds'. extend_all opts ds acc = Some ds' \<and> sorted_wrt (<) ds' \<and>
       set ds' = (\<Union>d \<in> set ds. (\<lambda>p. charge p d) ` set opts) \<union> set acc
     else extend_all opts ds acc = None)"
  using assms
proof (induction ds arbitrary: acc)
  case Nil
  then show ?case by simp
next
  case (Cons d ds)
  show ?case
  proof (cases "list_all (\<lambda>p. fits (charge p d)) opts")
    case True
    let ?acc = "fold (\<lambda>p. btree_insert (charge p d)) opts acc"
    have e: "extend_all opts (d # ds) acc = extend_all opts ds ?acc"
      using Cons.prems True by (simp add: extend_one_eq)
    have "sorted_wrt (<) ?acc" using Cons.prems(3) by (rule fold_insert_sorted)
    with Cons.IH [of ?acc] Cons.prems True show ?thesis
      unfolding e by (auto simp: fold_insert_set list_all_iff)
  next
    case False
    then have "extend_all opts (d # ds) acc = None"
      using Cons.prems by (simp add: extend_one_eq)
    with False show ?thesis by (simp add: list_all_iff)
  qed
qed

fun all_sides :: "u32 \<Rightarrow> mana_cost \<Rightarrow> phyrexian_payment option list \<Rightarrow> (nat \<times> u32) list list option" where
  "all_sides x (pip # pips) (ph # phs) =
     (case (pip_options x pip ph, all_sides x pips phs) of
        (Some o1, Some os) \<Rightarrow> Some (o1 # os) | _ \<Rightarrow> None)"
| "all_sides x _ _ = Some []"

lemma color_index_less: "color_index c < 5"
  by (cases c) simp_all

lemma color_index_le [simp]: "color_index c \<le> 7"
  by (cases c) simp_all

lemma pip_options_slots: "pip_options x pip ph = Some opts \<Longrightarrow> slots_ok opts"
  by (cases pip; cases ph) (auto simp: pip_options_def slots_ok_def split: phyrexian_payment.splits)

lemma product_lists_nonempty: "list_all (\<lambda>xs. xs \<noteq> []) xss \<Longrightarrow> product_lists xss \<noteq> []"
  by (induction xss) (auto simp: neq_Nil_conv)

lemma all_sides_nonempty: "all_sides x pips phs = Some os \<Longrightarrow> list_all (\<lambda>xs. xs \<noteq> []) os"
  by (induction x pips phs arbitrary: os rule: all_sides.induct)
    (auto dest: pip_options_slots simp: slots_ok_def split: option.splits)

lemma fold_product_lists:
  "(\<lambda>sel. fold charge sel d) ` set (product_lists (o1 # os)) =
   (\<Union>p \<in> set o1. (\<lambda>sel. fold charge sel (charge p d)) ` set (product_lists os))"
  by (simp add: image_UN image_image)

lemma normalize_loop_eq:
  assumes "all_sides x pips phs = Some os" "\<forall>d \<in> set ds. fits d \<and> array_ok d" "sorted_wrt (<) ds"
  shows "if \<forall>d \<in> set ds. \<forall>sel \<in> set (product_lists os). fits (fold charge sel d)
    then \<exists>ds'. normalize_loop x pips phs ds = Inr ds' \<and> sorted_wrt (<) ds' \<and>
      set ds' = (\<Union>d \<in> set ds. (\<lambda>sel. fold charge sel d) ` set (product_lists os))
    else normalize_loop x pips phs ds = Inl (Illegal ''spell cost overflow'')"
  using assms
proof (induction x pips phs arbitrary: os ds rule: all_sides.induct)
  case (1 x pip pips ph phs)
  then obtain o1 os' where o: "pip_options x pip ph = Some o1" "all_sides x pips phs = Some os'"
    "os = o1 # os'"
    by (auto split: option.splits)
  have slots: "o1 \<noteq> []" "list_all (\<lambda>p. fst p \<le> 7) o1"
    using pip_options_slots [OF o(1)] by (simp_all add: slots_ok_def)
  obtain sel0 where sel0: "sel0 \<in> set (product_lists os')"
    using product_lists_nonempty [OF all_sides_nonempty [OF o(2)]] by (cases "product_lists os'") auto
  have ext: "if \<forall>d \<in> set ds. \<forall>p \<in> set o1. fits (charge p d)
     then \<exists>ds'. extend_all o1 ds [] = Some ds' \<and> sorted_wrt (<) ds' \<and>
       set ds' = (\<Union>d \<in> set ds. (\<lambda>p. charge p d) ` set o1) \<union> set []
     else extend_all o1 ds [] = None"
    by (rule extend_all_eq [OF "1.prems"(2) slots(2)]) simp
  show ?case
  proof (cases "\<forall>d \<in> set ds. \<forall>p \<in> set o1. fits (charge p d)")
    case True
    then obtain ds1 where ds1: "extend_all o1 ds [] = Some ds1" "sorted_wrt (<) ds1"
      "set ds1 = (\<Union>d \<in> set ds. (\<lambda>p. charge p d) ` set o1)"
      using ext by auto
    have ok: "\<forall>d \<in> set ds1. fits d \<and> array_ok d"
      using True "1.prems"(2) by (auto simp: ds1(3))
    have step: "normalize_loop x (pip # pips) (ph # phs) ds = normalize_loop x pips phs ds1"
      by (simp add: o(1) ds1(1))
    have all: "(\<forall>d \<in> set ds. \<forall>sel \<in> set (product_lists os). fits (fold charge sel d)) \<longleftrightarrow>
        (\<forall>d \<in> set ds1. \<forall>sel \<in> set (product_lists os'). fits (fold charge sel d))"
      by (auto simp: o(3) ds1(3))
    have img: "(\<Union>d \<in> set ds. (\<lambda>sel. fold charge sel d) ` set (product_lists os)) =
        (\<Union>d \<in> set ds1. (\<lambda>sel. fold charge sel d) ` set (product_lists os'))"
      unfolding o(3) fold_product_lists by (simp add: ds1(3))
    show ?thesis
      unfolding step all img by (rule "1.IH" [OF o(2) ok ds1(2)])
  next
    case False
    then obtain d p where dp: "d \<in> set ds" "p \<in> set o1" "\<not> fits (charge p d)" by blast
    then have "\<not> fits (fold charge (p # sel0) d)" using fits_fold_mono by auto
    moreover have "p # sel0 \<in> set (product_lists os)" using dp(2) sel0 by (auto simp: o(3))
    ultimately have "\<not> (\<forall>d \<in> set ds. \<forall>sel \<in> set (product_lists os). fits (fold charge sel d))"
      using dp(1) by blast
    moreover have "normalize_loop x (pip # pips) (ph # phs) ds = Inl (Illegal ''spell cost overflow'')"
      using ext False by (simp add: o(1))
    ultimately show ?thesis by simp
  qed
qed auto

lemma select_loop_length: "select_loop cost chs sel = Inr sel' \<Longrightarrow> length sel' = length sel"
  by (induction cost chs sel rule: select_loop.induct) (auto split: if_splits sum.splits)

definition branch_ok :: "mana_symbol \<Rightarrow> phyrexian_payment option \<Rightarrow> bool" where
  "branch_ok pip ph = (case pip of
     Phyrexian c \<Rightarrow> ph = Some (PayMana c) \<or> ph = Some PayLife
   | HybridPhyrexian a b \<Rightarrow> ph = Some (PayMana a) \<or> ph = Some (PayMana b) \<or> ph = Some PayLife
   | _ \<Rightarrow> ph = None)"

lemma select_branch_ok: "select_branch pip ch = Inr p \<Longrightarrow> branch_ok pip (Some p)"
  by (auto simp: select_branch_def branch_ok_def split: mana_symbol.splits option.splits if_splits)

lemma select_loop_ok:
  "select_loop cost chs sel = Inr sel' \<Longrightarrow> length sel = length cost \<Longrightarrow>
   \<forall>i < length cost. sel ! i = None \<or> branch_ok (cost ! i) (sel ! i) \<Longrightarrow>
   \<forall>i < length cost. sel' ! i = None \<or> branch_ok (cost ! i) (sel' ! i)"
proof (induction cost chs sel rule: select_loop.induct)
  case (1 cost sel)
  then show ?case by simp
next
  case (2 cost ch chs sel)
  then obtain p where p: "select_branch (cost ! pip_index ch) ch = Inr p"
    "pip_index ch < length cost" "sel ! pip_index ch = None"
    "select_loop cost chs (sel[pip_index ch := Some p]) = Inr sel'"
    by (auto split: if_splits sum.splits)
  have "\<forall>i < length cost. sel[pip_index ch := Some p] ! i = None \<or>
      branch_ok (cost ! i) (sel[pip_index ch := Some p] ! i)"
    using "2.prems"(2,3) p(2) select_branch_ok [OF p(1)]
    by (metis nth_list_update_eq nth_list_update_neq)
  then show ?case using "2.IH" p "2.prems" by simp
qed

lemma default_loop_ok:
  "default_loop pips ss = Inr phs \<Longrightarrow> length ss = length pips \<Longrightarrow>
   list_all2 (\<lambda>pip s. s = None \<or> branch_ok pip s) pips ss \<Longrightarrow> list_all2 branch_ok pips phs"
  by (induction pips ss arbitrary: phs rule: default_loop.induct)
    (auto simp: branch_ok_def split: mana_symbol.splits option.splits sum.splits prod.splits)

lemma validated_ok:
  assumes "validated_phyrexian_choices cost choices = Inr phs"
  shows "list_all2 branch_ok cost phs"
proof -
  obtain sel where sel: "select_loop cost choices (replicate (length cost) None) = Inr sel"
    "default_loop cost sel = Inr phs"
    using assms by (auto simp: validated_phyrexian_choices_def split: sum.splits)
  have "length sel = length cost" using select_loop_length [OF sel(1)] by simp
  moreover have "\<forall>i < length cost. sel ! i = None \<or> branch_ok (cost ! i) (sel ! i)"
    using select_loop_ok [OF sel(1)] by simp
  ultimately show ?thesis
    using default_loop_ok [OF sel(2)] by (simp add: list_all2_conv_all_nth)
qed

lemma all_sides_ok: "list_all2 branch_ok pips phs \<Longrightarrow> \<exists>os. all_sides x pips phs = Some os"
proof (induction pips phs rule: list_all2_induct)
  case Nil
  then show ?case by simp
next
  case (Cons pip pips ph phs)
  then show ?case
    by (cases pip) (auto simp: branch_ok_def pip_options_def)
qed

definition base_demand :: "u32 \<Rightarrow> demand" where
  "base_demand increase = Demand [0, 0, 0, 0, 0, 0, increase] 0"

definition sides :: "u32 \<Rightarrow> mana_cost \<Rightarrow> phyrexian_payment option list \<Rightarrow> (nat \<times> u32) list list" where
  "sides x cost phs = map2 (\<lambda>pip ph. the (pip_options x pip ph)) cost phs"

lemma all_sides_eq: "all_sides x pips phs = Some os \<Longrightarrow> os = sides x pips phs"
  by (induction x pips phs arbitrary: os rule: all_sides.induct)
    (auto simp: sides_def split: option.splits)

lemma validated_sides:
  "validated_phyrexian_choices cost choices = Inr phs \<Longrightarrow> all_sides x cost phs = Some (sides x cost phs)"
  using all_sides_ok [OF validated_ok] all_sides_eq by blast

lemma normalize_eq:
  assumes "increase \<le> u32_max"
  shows "normalize cost x increase reduction choices =
    (case validated_phyrexian_choices cost choices of
       Inl e \<Rightarrow> Inl e
     | Inr phs \<Rightarrow>
         (let totals = (\<lambda>sel. fold charge sel (base_demand increase)) ` set (product_lists (sides x cost phs))
          in if \<forall>d \<in> totals. fits d then Inr (sorted_list_of_set (reduce_generic reduction ` totals))
             else Inl (Illegal ''spell cost overflow'')))"
proof (cases "validated_phyrexian_choices cost choices")
  case (Inl e)
  then show ?thesis by (simp add: normalize_def)
next
  case (Inr phs)
  have base: "\<forall>d \<in> set [base_demand increase]. fits d \<and> array_ok d"
    using assms by (simp add: base_demand_def fits_def array_ok_def)
  let ?T = "(\<lambda>sel. fold charge sel (base_demand increase)) ` set (product_lists (sides x cost phs))"
  have loop: "if \<forall>d \<in> ?T. fits d
    then \<exists>ds'. normalize_loop x cost phs [base_demand increase] = Inr ds' \<and> set ds' = ?T
    else normalize_loop x cost phs [base_demand increase] = Inl (Illegal ''spell cost overflow'')"
    using normalize_loop_eq [OF validated_sides [OF Inr, of x] base] by auto
  show ?thesis
  proof (cases "\<forall>d \<in> ?T. fits d")
    case True
    with loop obtain ds' where
      "normalize_loop x cost phs [base_demand increase] = Inr ds'" "set ds' = ?T" by auto
    with True Inr show ?thesis
      by (simp add: normalize_def dedup_sort Let_def flip: base_demand_def)
  next
    case False
    then have "normalize_loop x cost phs [base_demand increase] = Inl (Illegal ''spell cost overflow'')"
      using loop by argo
    with False Inr show ?thesis
      by (simp add: normalize_def Let_def flip: base_demand_def)
  qed
qed

text \<open>C8: \<open>normalize\<close> returns, in order and without repetition, exactly the demands obtained by
  taking one side of every symbol, adding everything up and only then taking the reduction off the
  generic part; it fails when a choice of the flexible symbols is rejected or one of the sums needs
  more than 32 bits, and never panics.\<close>

theorem normalize_variants:
  assumes "increase \<le> u32_max"
  shows "normalize cost x increase reduction choices =
    (case validated_phyrexian_choices cost choices of
       Inl e \<Rightarrow> Inl e
     | Inr phs \<Rightarrow>
         (let totals = (\<lambda>sel. fold charge sel (base_demand increase)) ` set (product_lists (sides x cost phs))
          in if \<forall>d \<in> totals. fits d then Inr (sorted_list_of_set (reduce_generic reduction ` totals))
             else Inl (Illegal ''spell cost overflow'')))"
  using assms by (rule normalize_eq)

theorem normalize_variants_witness:
  "normalize [ManaX, MonoHybrid 2 PipW, ManaC] 2 1 4 [] =
     Inr [Demand [0, 0, 0, 0, 0, 1, 1] 0, Demand [1, 0, 0, 0, 0, 1, 0] 0] \<and>
   sorted_list_of_set (reduce_generic 4 ` (\<lambda>sel. fold charge sel (base_demand 1)) `
     set (product_lists (sides 2 [ManaX, MonoHybrid 2 PipW, ManaC] [None, None, None]))) =
     [Demand [0, 0, 0, 0, 0, 1, 1] 0, Demand [1, 0, 0, 0, 0, 1, 0] 0]"
proof
  let ?c = "[ManaX, MonoHybrid 2 PipW, ManaC]"
  let ?T = "(\<lambda>sel. fold charge sel (base_demand 1)) ` set (product_lists (sides 2 ?c [None, None, None]))"
  show run: "normalize ?c 2 1 4 [] =
      Inr [Demand [0, 0, 0, 0, 0, 1, 1] 0, Demand [1, 0, 0, 0, 0, 1, 0] 0]"
    by code_simp
  have val: "validated_phyrexian_choices ?c [] = Inr [None, None, None]" by code_simp
  have fit: "\<forall>d \<in> ?T. fits d" by code_simp
  have "(1 :: nat) \<le> u32_max" by (simp add: u32_max_def)
  from normalize_variants [OF this, of ?c 2 4 "[]"]
  have "normalize ?c 2 1 4 [] = Inr (sorted_list_of_set (reduce_generic 4 ` ?T))"
    by (simp only: val sum.case Let_def if_P [OF fit])
  with run show "sorted_list_of_set (reduce_generic 4 ` ?T) =
      [Demand [0, 0, 0, 0, 0, 1, 1] 0, Demand [1, 0, 0, 0, 0, 1, 0] 0]"
    by (simp only: sum.inject)
qed

section \<open>Settling a demand\<close>

lemma tap_creatures_eq:
  "tap_creatures cs am =
    (if (\<forall>c \<in> set cs. c < length am) \<and> (\<forall>i < length am. count_list cs i \<le> am ! i)
     then Some (map (\<lambda>i. am ! i - count_list cs i) [0..<length am]) else None)"
proof (induction cs arbitrary: am)
  case Nil
  then show ?case by (simp add: map_nth)
next
  case (Cons c cs)
  show ?case
  proof (cases "c < length am \<and> 1 \<le> am ! c")
    case True
    let ?am = "am[c := am ! c - 1]"
    have tap: "tap_creatures (c # cs) am = tap_creatures cs ?am"
      using True by (simp add: checked_sub_def)
    have "(\<forall>i < length am. count_list cs i \<le> ?am ! i) \<longleftrightarrow> (\<forall>i < length am. count_list (c # cs) i \<le> am ! i)"
      using True by (auto simp: nth_list_update)
    moreover have "map (\<lambda>i. ?am ! i - count_list cs i) [0..<length am] =
        map (\<lambda>i. am ! i - count_list (c # cs) i) [0..<length am]"
      using True by (auto simp: nth_list_update)
    ultimately show ?thesis unfolding tap Cons.IH [of ?am] using True by simp
  next
    case False
    then have none: "tap_creatures (c # cs) am = None" by (auto simp: checked_sub_def)
    have not: "\<not> ((\<forall>c \<in> set (c # cs). c < length am) \<and> (\<forall>i < length am. count_list (c # cs) i \<le> am ! i))"
      using False by auto
    show ?thesis unfolding none if_not_P [OF not] ..
  qed
qed

lemma monus_min: "(a::nat) - min m a = a - m" "(m::nat) - min m a = m - a"
  by (simp_all add: min_def)

lemma pay_slots_eq:
  assumes "length ms = length as" "length pre + length as = 6"
  shows "pay_slots (length pre) ms (pre @ as @ [g]) =
    (if sum_list (map2 (-) ms as) \<le> g
     then Some (pre @ map2 (-) as ms @ [g - sum_list (map2 (-) ms as)]) else None)"
  using assms
proof (induction ms as arbitrary: pre g rule: list_induct2)
  case Nil
  then show ?case by simp
next
  case (Cons m ms a as)
  let ?pre = "pre @ [a - m]" and ?e = "sum_list (map2 (-) ms as)"
  have six: "6 = Suc (length pre + length as)" using Cons.prems by simp
  have upd: "(pre @ (a # as) @ [g])[length pre := a - m] = ?pre @ as @ [g]" by simp
  have last6: "(?pre @ as @ [g]) ! 6 = g" "(?pre @ as @ [g])[6 := h] = ?pre @ as @ [h]" for h
    unfolding six by (simp_all add: nth_append list_update_append)
  have step: "pay_slots (length pre) (m # ms) (pre @ (a # as) @ [g]) =
      (if m - a \<le> g then pay_slots (length ?pre) ms (?pre @ as @ [g - (m - a)]) else None)"
    by (simp only: pay_slots.simps Let_def nth_append_length append_Cons monus_min upd[simplified] last6[simplified])
       (simp add: checked_sub_def monus_min upd[simplified] last6[simplified])
  show ?case
    unfolding step using Cons.IH [of ?pre "g - (m - a)"] Cons.prems by auto
qed

lemma monus_balance:
  "length ms = length as \<Longrightarrow>
   sum_list ms + sum_list (map2 (-) as ms) = sum_list as + sum_list (map2 (-) ms (as :: nat list))"
  by (induction ms as rule: list_induct2) auto

lemma pay_slots_complete:
  assumes "length ms = 6" "length as = 6"
  shows "(\<exists>r. pay_slots 0 ms (as @ [g]) = Some r \<and> list_all (\<lambda>n. n = 0) r) \<longleftrightarrow>
    list_all2 (\<le>) as ms \<and> sum_list ms = sum_list as + g"
proof -
  have zero: "list_all (\<lambda>n. n = 0) (map2 (-) as ms) \<longleftrightarrow> list_all2 (\<le>) as ms"
    using assms by (simp add: list_all_length list_all2_conv_all_nth)
  have pay: "pay_slots 0 ms (as @ [g]) = (if sum_list (map2 (-) ms as) \<le> g
     then Some (map2 (-) as ms @ [g - sum_list (map2 (-) ms as)]) else None)"
    using pay_slots_eq [of ms as "[]" g] assms by simp
  have bal: "sum_list ms + sum_list (map2 (-) as ms) = sum_list as + sum_list (map2 (-) ms as)"
    using monus_balance assms by simp
  show ?thesis
  proof (cases "list_all2 (\<le>) as ms")
    case True
    then have "\<forall>n \<in> set (map2 (-) as ms). n = 0" using zero unfolding list_all_iff by blast
    then have "sum_list (map2 (-) as ms) = 0" by (simp only: sum_list_eq_0_iff)
    then show ?thesis using pay bal zero True by (auto simp del: sum_list_eq_0_iff)
  next
    case False
    then show ?thesis using pay zero by (auto split: if_splits)
  qed
qed

lemma settle_colors_eq:
  assumes "settle_colors is remaining am = (rest, am')" "distinct is" "\<forall>i \<in> set is. i < length am"
  shows "rest = remaining - sum_list (map ((!) am) is) \<and> length am' = length am \<and>
    (\<forall>j. j \<notin> set is \<longrightarrow> am' ! j = am ! j) \<and>
    ((\<forall>i \<in> set is. am' ! i = 0) \<longleftrightarrow> sum_list (map ((!) am) is) \<le> remaining)"
  using assms
proof (induction "is" remaining am rule: settle_colors.induct)
  case (1 remaining am)
  then show ?case by simp
next
  case (2 i "is" remaining am)
  let ?used = "min remaining (am ! i)"
  let ?am = "am[i := am ! i - ?used]"
  have run: "settle_colors is (remaining - ?used) ?am = (rest, am')"
    using "2.prems"(1) by (simp add: Let_def)
  have same: "map ((!) ?am) is = map ((!) am) is"
    using "2.prems"(2) by (auto intro!: nth_list_update_neq)
  have ih: "rest = remaining - ?used - sum_list (map ((!) am) is)" "length am' = length am"
    "\<forall>j. j \<notin> set is \<longrightarrow> am' ! j = ?am ! j"
    "(\<forall>i \<in> set is. am' ! i = 0) \<longleftrightarrow> sum_list (map ((!) am) is) \<le> remaining - ?used"
    using "2.IH" [OF refl run] "2.prems"(2,3) by (simp_all add: same)
  have i: "am' ! i = am ! i - ?used" using ih(3) "2.prems"(2,3) by simp
  show ?case
    using ih i "2.prems"(2,3) by auto
qed

lemma length_7_cases: "length xs = 7 \<Longrightarrow> \<exists>a b c d e f g. xs = [a, b, c, d, e, f, g]"
  by (auto simp: numeral_eq_Suc length_Suc_conv)

lemma pay_any_color_complete:
  assumes "length am = 7" "length mana = 6" "am ! 6 \<le> u32_max"
  shows "(\<exists>r. pay_any_color mana am = Some r \<and> list_all (\<lambda>n. n = 0) r) \<longleftrightarrow>
    am ! 5 \<le> mana ! 5 \<and> sum_list mana = sum_list am"
proof -
  let ?t = "min (mana ! 5) (am ! 5)"
  let ?am1 = "am[5 := am ! 5 - ?t]"
  let ?S = "am ! 0 + am ! 1 + am ! 2 + am ! 3 + am ! 4"
  obtain rest am2 where run: "settle_colors [0, 1, 2, 3, 4] (sum_list mana - ?t) ?am1 = (rest, am2)"
    by (cases "settle_colors [0, 1, 2, 3, 4] (sum_list mana - ?t) ?am1")
  note eq = settle_colors_eq [OF run]
  have rest: "rest = sum_list mana - ?t - ?S" using eq assms by (simp add: ac_simps)
  have len: "length am2 = 7" and five: "am2 ! 5 = am ! 5 - mana ! 5" and six: "am2 ! 6 = am ! 6"
    using eq assms by (simp_all add: monus_min)
  have zero: "(\<forall>i \<in> {0, 1, 2, 3, 4}. am2 ! i = 0) \<longleftrightarrow> ?S \<le> sum_list mana - ?t"
    using eq assms by (simp add: ac_simps)
  have m5: "mana ! 5 \<le> sum_list mana" using assms by (intro elem_le_sum_list) simp
  have sum: "sum_list am = ?S + am ! 5 + am ! 6"
    using length_7_cases [OF assms(1)] by (auto simp: numeral_eq_Suc)
  have all: "list_all (\<lambda>n. n = 0) (am2[6 := g]) \<longleftrightarrow>
      (\<forall>i \<in> {0, 1, 2, 3, 4}. am2 ! i = 0) \<and> am2 ! 5 = 0 \<and> g = 0" for g
    using length_7_cases [OF len] by (auto simp: numeral_eq_Suc)
  have pay: "pay_any_color mana am =
      (if rest \<le> u32_max \<and> rest \<le> am ! 6 then Some (am2[6 := am ! 6 - rest]) else None)"
    unfolding pay_any_color_def Let_def run using six by (simp add: checked_sub_def)
  have tS: "am ! 5 \<le> mana ! 5 \<Longrightarrow> ?t = am ! 5" by simp
  have done': "(\<exists>r. pay_any_color mana am = Some r \<and> list_all (\<lambda>n. n = 0) r) \<longleftrightarrow>
      rest \<le> u32_max \<and> rest = am ! 6 \<and> ?S \<le> sum_list mana - ?t \<and> am ! 5 \<le> mana ! 5"
    unfolding pay zero [symmetric] using five by (auto simp: all)
  show ?thesis
    unfolding done' rest sum using assms(3) m5 tS by linarith
qed

lemma tapped_sum:
  assumes "length am = n" "\<forall>c \<in> set cs. c < n" "\<forall>i < n. count_list cs i \<le> am ! i"
  shows "sum_list (map (\<lambda>i. am ! i - count_list cs i) [0..<n]) + length cs = sum_list am"
proof -
  have "length cs = (\<Sum>i < n. count_list cs i)"
    using assms(2) by (intro sum_count_set [symmetric]) auto
  then have "sum_list (map (\<lambda>i. am ! i - count_list cs i) [0..<n]) + length cs =
      (\<Sum>i < n. (am ! i - count_list cs i) + count_list cs i)"
    by (simp add: interv_sum_list_conv_sum_set_nat sum.distrib atLeast0LessThan)
  also have "\<dots> = (\<Sum>i < n. am ! i)" using assms(3) by simp
  also have "\<dots> = sum_list am" using assms(1) by (simp add: sum_list_sum_nth atLeast0LessThan)
  finally show ?thesis .
qed

text \<open>A choice of creatures and mana settles a demand exactly when every creature taps for a
  slot that still has something due, nothing is paid beyond the total, and what is left of each
  colour is covered by mana of that colour; with the permission to spend mana as any colour only
  the colourless part still needs its own mana.\<close>

theorem pay_settles:
  assumes "array_ok d" and "fits d" and "length mana = 6"
  shows "(\<exists>r. pay_with_any_color cs mana any d = Some r \<and> complete r) \<longleftrightarrow>
    (\<forall>c \<in> set cs. c < 7) \<and> (\<forall>i < 7. count_list cs i \<le> amounts d ! i) \<and>
    (if any then amounts d ! 5 \<le> count_list cs 5 + mana ! 5
     else \<forall>i < 6. amounts d ! i \<le> count_list cs i + mana ! i) \<and>
    length cs + sum_list mana = sum_list (amounts d)"
proof (cases "(\<forall>c \<in> set cs. c < 7) \<and> (\<forall>i < 7. count_list cs i \<le> amounts d ! i)")
  case True
  let ?am = "map (\<lambda>i. amounts d ! i - count_list cs i) [0..<7]"
  let ?as = "map (\<lambda>i. amounts d ! i - count_list cs i) [0..<6]"
  have tap: "tap_creatures cs (amounts d) = Some ?am"
    using True assms(1) by (simp add: tap_creatures_eq array_ok_def)
  have total: "sum_list ?am + length cs = sum_list (amounts d)"
    using tapped_sum [of "amounts d" 7 cs] True assms(1) by (simp add: array_ok_def)
  have split: "?am = ?as @ [amounts d ! 6 - count_list cs 6]"
    using map_append [of _ "[0..<6]" "[6]"] by (simp add: upt_conv_Cons flip: One_nat_def)
  have six: "?am ! 6 \<le> u32_max" and five: "?am ! 5 = amounts d ! 5 - count_list cs 5"
    using assms(1,2) by (simp_all add: fits_nth array_ok_def le_diff_conv trans_le_add1)
  have run: "(\<exists>r. pay_with_any_color cs mana any d = Some r \<and> complete r) \<longleftrightarrow>
      (\<exists>r. (if any then pay_any_color mana ?am else pay_slots 0 mana ?am) = Some r \<and> list_all (\<lambda>n. n = 0) r)"
    unfolding pay_with_any_color_def tap by (auto simp: complete_def split: option.splits)
  have plain: "list_all2 (\<le>) ?as mana \<longleftrightarrow> (\<forall>i < 6. amounts d ! i \<le> count_list cs i + mana ! i)"
    using assms(3) by (auto simp: list_all2_conv_all_nth le_diff_conv ac_simps)
  show ?thesis
  proof (cases any)
    case T: True
    show ?thesis
      unfolding run using T pay_any_color_complete [of ?am mana] six five total True assms(3)
      by (auto simp: le_diff_conv)
  next
    case F: False
    have "(\<exists>r. pay_slots 0 mana ?am = Some r \<and> list_all (\<lambda>n. n = 0) r) \<longleftrightarrow>
        list_all2 (\<le>) ?as mana \<and> sum_list mana = sum_list ?am"
      using pay_slots_complete [of mana ?as "amounts d ! 6 - count_list cs 6"] assms(3)
      unfolding split by simp
    then show ?thesis
      unfolding run plain using F total True by auto
  qed
next
  case False
  then have "tap_creatures cs (amounts d) = None"
    using assms(1) by (subst tap_creatures_eq) (auto simp: array_ok_def)
  with False show ?thesis by (auto simp: pay_with_any_color_def)
qed

theorem pay_settles_witness:
  "pay_with_any_color [0, 6] [0, 0, 0, 0, 0, 1] False (Demand [1, 0, 0, 0, 0, 1, 1] 0) = Some (Demand [0, 0, 0, 0, 0, 0, 0] 0) \<and>
   \<not> (\<exists>r. pay_with_any_color [4] [0, 0, 0, 0, 0, 1] False (Demand [1, 0, 0, 0, 0, 1, 1] 0) = Some r \<and> complete r)"
proof
  show "pay_with_any_color [0, 6] [0, 0, 0, 0, 0, 1] False (Demand [1, 0, 0, 0, 0, 1, 1] 0) = Some (Demand [0, 0, 0, 0, 0, 0, 0] 0)"
    by code_simp
  have "array_ok (Demand [1, 0, 0, 0, 0, 1, 1] 0)" "fits (Demand [1, 0, 0, 0, 0, 1, 1] 0)" by code_simp+
  then show "\<not> (\<exists>r. pay_with_any_color [4] [0, 0, 0, 0, 0, 1] False (Demand [1, 0, 0, 0, 0, 1, 1] 0) = Some r \<and> complete r)"
    by (subst pay_settles) (auto intro!: exI [of _ 4])
qed

end
