(* ===== verification/FlexSolver.thy ===== *)
theory FlexSolver
  imports Demand
begin

text \<open>
  The two backtracking solvers of \<open>tricerules-core/src/engine/payment/mana.rs\<close>: given a pool of
  mana, a list of flexible symbols and an amount of generic mana, find what is left of the pool
  after paying. Their common recursion is the locale \<open>flex_solver\<close>; it is proved sound and complete
  there for the choices of sides that the relation \<open>resolves\<close> describes, and both solvers are
  interpretations.
\<close>

section \<open>Pools and flexible symbols\<close>

text \<open>The six slots of a pool: W, U, B, R, G and C.\<close>

type_synonym pool_vec = "u32 list"

definition pool_c :: nat where
  "pool_c = 5"

datatype flex_pip = FlexHybrid color_pip color_pip | FlexMono u32 color_pip | FlexColor color_pip

definition spend :: "nat \<Rightarrow> pool_vec \<Rightarrow> pool_vec" where
  "spend i p = p[i := p ! i - 1]"

text \<open>Taking generic mana from the slots in the given order.\<close>

fun drain :: "nat list \<Rightarrow> pool_vec \<Rightarrow> u32 \<Rightarrow> pool_vec \<times> u32" where
  "drain [] p g = (p, g)"
| "drain (i # is) p g = (let t = min g (p ! i) in drain is (p[i := p ! i - t]) (g - t))"

definition drain_order :: "nat list" where
  "drain_order = [pool_c, 0, 1, 2, 3, 4]"

definition settle_generic :: "pool_vec \<Rightarrow> u32 \<Rightarrow> pool_vec option" where
  "settle_generic pool generic =
     (case drain drain_order pool generic of (p, g) \<Rightarrow> if g = 0 then Some p else None)"

section \<open>The solver\<close>

text \<open>
  \<open>idx\<close> is the position in the slice; here the slice from that position on is the argument. The
  outer \<open>None\<close> is the panic of \<open>generic + n\<close>.
\<close>

fun solve_flex :: "pool_vec \<Rightarrow> flex_pip list \<Rightarrow> u32 \<Rightarrow> pool_vec option option" where
  "solve_flex pool [] generic = Some (settle_generic pool generic)"
| "solve_flex pool (FlexHybrid a b # flex) generic =
     (let try_b = (if 0 < pool ! color_index b
                   then solve_flex (spend (color_index b) pool) flex generic else Some None)
      in if 0 < pool ! color_index a
         then (case solve_flex (spend (color_index a) pool) flex generic of
                 None \<Rightarrow> None
               | Some (Some r) \<Rightarrow> Some (Some r)
               | Some None \<Rightarrow> try_b)
         else try_b)"
| "solve_flex pool (FlexColor c # flex) generic =
     (if pool ! color_index c = 0 then Some None
      else solve_flex (spend (color_index c) pool) flex generic)"
| "solve_flex pool (FlexMono n c # flex) generic =
     (let as_generic = (case checked_add generic n of
                          None \<Rightarrow> None | Some generic' \<Rightarrow> solve_flex pool flex generic')
      in if 0 < pool ! color_index c
         then (case solve_flex (spend (color_index c) pool) flex generic of
                 None \<Rightarrow> None
               | Some (Some r) \<Rightarrow> Some (Some r)
               | Some None \<Rightarrow> as_generic)
         else as_generic)"

text \<open>The variant that leaves at most \<open>max_remaining\<close> in each slot.\<close>

fun force_spend :: "nat list \<Rightarrow> pool_vec \<Rightarrow> pool_vec \<Rightarrow> u32 \<Rightarrow> (pool_vec \<times> u32) option" where
  "force_spend [] max_remaining p g = Some (p, g)"
| "force_spend (i # is) max_remaining p g =
     (let required = saturating_sub (p ! i) (max_remaining ! i)
      in if g < required then None
         else force_spend is max_remaining (p[i := p ! i - required]) (g - required))"

definition within_max :: "pool_vec \<Rightarrow> pool_vec \<Rightarrow> bool" where
  "within_max max_remaining p \<longleftrightarrow> list_all (\<lambda>i. p ! i \<le> max_remaining ! i) [0..<6]"

definition settle_required :: "pool_vec \<Rightarrow> pool_vec \<Rightarrow> u32 \<Rightarrow> pool_vec option" where
  "settle_required max_remaining pool generic =
     (case force_spend [0..<6] max_remaining pool generic of
        None \<Rightarrow> None
      | Some (p1, g1) \<Rightarrow>
          (case drain drain_order p1 g1 of (p, g) \<Rightarrow>
             if g = 0 \<and> within_max max_remaining p then Some p else None))"

fun solve_flex_with_required_spend ::
  "pool_vec \<Rightarrow> pool_vec \<Rightarrow> flex_pip list \<Rightarrow> u32 \<Rightarrow> pool_vec option" where
  "solve_flex_with_required_spend max_remaining pool [] generic = settle_required max_remaining pool generic"
| "solve_flex_with_required_spend max_remaining pool (FlexHybrid a b # flex) generic =
     (let try_b = (if 0 < pool ! color_index b
                   then solve_flex_with_required_spend max_remaining (spend (color_index b) pool) flex generic
                   else None)
      in if 0 < pool ! color_index a
         then (case solve_flex_with_required_spend max_remaining (spend (color_index a) pool) flex generic of
                 Some r \<Rightarrow> Some r | None \<Rightarrow> try_b)
         else try_b)"
| "solve_flex_with_required_spend max_remaining pool (FlexColor c # flex) generic =
     (if pool ! color_index c = 0 then None
      else solve_flex_with_required_spend max_remaining (spend (color_index c) pool) flex generic)"
| "solve_flex_with_required_spend max_remaining pool (FlexMono n c # flex) generic =
     (let as_generic = solve_flex_with_required_spend max_remaining pool flex (saturating_add generic n)
      in if 0 < pool ! color_index c
         then (case solve_flex_with_required_spend max_remaining (spend (color_index c) pool) flex generic of
                 Some r \<Rightarrow> Some r | None \<Rightarrow> as_generic)
         else as_generic)"

section \<open>Choices of sides\<close>

text \<open>
  \<open>resolves flex p g p' g'\<close>: some choice of sides takes the pool from \<open>p\<close> to \<open>p'\<close> and the generic
  amount from \<open>g\<close> to \<open>g'\<close>.
\<close>

inductive resolves :: "flex_pip list \<Rightarrow> pool_vec \<Rightarrow> u32 \<Rightarrow> pool_vec \<Rightarrow> u32 \<Rightarrow> bool" where
  resolves_Nil: "resolves [] p g p g"
| resolves_left: "0 < p ! color_index a \<Longrightarrow> resolves fs (spend (color_index a) p) g p' g' \<Longrightarrow>
    resolves (FlexHybrid a b # fs) p g p' g'"
| resolves_right: "0 < p ! color_index b \<Longrightarrow> resolves fs (spend (color_index b) p) g p' g' \<Longrightarrow>
    resolves (FlexHybrid a b # fs) p g p' g'"
| resolves_color: "0 < p ! color_index c \<Longrightarrow> resolves fs (spend (color_index c) p) g p' g' \<Longrightarrow>
    resolves (FlexColor c # fs) p g p' g'"
| resolves_mono: "0 < p ! color_index c \<Longrightarrow> resolves fs (spend (color_index c) p) g p' g' \<Longrightarrow>
    resolves (FlexMono n c # fs) p g p' g'"
| resolves_generic: "resolves fs p (g + n) p' g' \<Longrightarrow> resolves (FlexMono n c # fs) p g p' g'"

inductive_simps resolves_simps [simp]:
  "resolves [] p g p' g'"
  "resolves (FlexHybrid a b # fs) p g p' g'"
  "resolves (FlexColor c # fs) p g p' g'"
  "resolves (FlexMono n c # fs) p g p' g'"

text \<open>The generic mana when every monocoloured hybrid is paid with generic mana.\<close>

fun mono_total :: "flex_pip list \<Rightarrow> nat" where
  "mono_total [] = 0"
| "mono_total (FlexMono n _ # fs) = n + mono_total fs"
| "mono_total (_ # fs) = mono_total fs"

locale flex_solver =
  fixes solve :: "pool_vec \<Rightarrow> flex_pip list \<Rightarrow> u32 \<Rightarrow> pool_vec option"
    and settle :: "pool_vec \<Rightarrow> u32 \<Rightarrow> pool_vec option"
  assumes solve_Nil: "g \<le> u32_max \<Longrightarrow> solve p [] g = settle p g"
    and solve_Hybrid: "g + mono_total fs \<le> u32_max \<Longrightarrow>
      solve p (FlexHybrid a b # fs) g =
        (case (if 0 < p ! color_index a then solve (spend (color_index a) p) fs g else None) of
           Some r \<Rightarrow> Some r
         | None \<Rightarrow> if 0 < p ! color_index b then solve (spend (color_index b) p) fs g else None)"
    and solve_Color: "g + mono_total fs \<le> u32_max \<Longrightarrow>
      solve p (FlexColor c # fs) g =
        (if 0 < p ! color_index c then solve (spend (color_index c) p) fs g else None)"
    and solve_Mono: "g + n + mono_total fs \<le> u32_max \<Longrightarrow>
      solve p (FlexMono n c # fs) g =
        (case (if 0 < p ! color_index c then solve (spend (color_index c) p) fs g else None) of
           Some r \<Rightarrow> Some r
         | None \<Rightarrow> solve p fs (g + n))"
begin

lemmas solve_eqs = solve_Nil solve_Hybrid solve_Color solve_Mono

lemma solve_sound:
  "g + mono_total fs \<le> u32_max \<Longrightarrow> solve p fs g = Some r \<Longrightarrow>
   \<exists>p' g'. resolves fs p g p' g' \<and> settle p' g' = Some r"
proof (induction fs arbitrary: p g)
  case Nil
  then show ?case by (simp add: solve_eqs)
next
  case (Cons f fs)
  show ?case
  proof (cases f)
    case (FlexHybrid a b)
    with Cons.prems show ?thesis
      by (auto simp: solve_eqs split: option.splits if_splits dest!: Cons.IH [rotated])
  next
    case (FlexMono n c)
    with Cons.prems show ?thesis
      by (auto simp: solve_eqs add.assoc split: option.splits if_splits dest!: Cons.IH [rotated])
  next
    case (FlexColor c)
    with Cons.prems show ?thesis
      by (auto simp: solve_eqs split: if_splits dest!: Cons.IH [rotated])
  qed
qed

lemma solve_complete:
  "resolves fs p g p' g' \<Longrightarrow> g + mono_total fs \<le> u32_max \<Longrightarrow> settle p' g' \<noteq> None \<Longrightarrow> solve p fs g \<noteq> None"
  by (induction rule: resolves.induct) (auto simp: solve_eqs add.assoc split: option.splits)

lemma solve_None_iff:
  "g + mono_total fs \<le> u32_max \<Longrightarrow>
   solve p fs g = None \<longleftrightarrow> \<not> (\<exists>p' g'. resolves fs p g p' g' \<and> settle p' g' \<noteq> None)"
  using solve_sound [of g fs p] solve_complete [of fs p g] by (cases "solve p fs g") fastforce+

end

section \<open>Settling the generic part\<close>

lemma drain_eq:
  assumes "drain is p g = (p', g')" "distinct is" "\<forall>i \<in> set is. i < length p"
  shows "length p' = length p \<and> (\<forall>j. j < length p \<longrightarrow> p' ! j \<le> p ! j) \<and>
    g' = g - sum_list (map ((!) p) is) \<and> sum_list p' + g = sum_list p + g'"
  using assms
proof (induction "is" arbitrary: p g)
  case Nil
  then show ?case by simp
next
  case (Cons i "is")
  let ?t = "min g (p ! i)"
  let ?p = "p[i := p ! i - ?t]"
  have run: "drain is ?p (g - ?t) = (p', g')" using Cons.prems(1) by (simp add: Let_def)
  have ih: "length p' = length p" "\<forall>j. j < length p \<longrightarrow> p' ! j \<le> ?p ! j"
    "g' = g - ?t - sum_list (map ((!) ?p) is)" "sum_list p' + (g - ?t) = sum_list ?p + g'"
    using Cons.IH [OF run] Cons.prems(2,3) by auto
  have same: "map ((!) ?p) is = map ((!) p) is"
    using Cons.prems(2) by (auto intro!: nth_list_update_neq)
  have "?p ! j \<le> p ! j" if "j < length p" for j
    using that by (cases "j = i") auto
  with ih(2) have le: "\<forall>j. j < length p \<longrightarrow> p' ! j \<le> p ! j" using order_trans by blast
  have sum: "sum_list ?p + p ! i = sum_list p + (p ! i - ?t)"
    using Cons.prems(3) by (intro sum_list_update_nat) simp
  have "g' = g - sum_list (map ((!) p) (i # is))" unfolding ih(3) same by (auto simp: min_def)
  moreover have "sum_list p' + g = sum_list p + g'" using ih(4) sum by linarith
  ultimately show ?case using ih(1) le by blast
qed

lemma pool_cases: "length p = 6 \<Longrightarrow> \<exists>a b c d e f. p = [a, b, c, d, e, f]"
  by (auto simp: numeral_eq_Suc length_Suc_conv)

lemma drain_order_sum: "length (p :: pool_vec) = 6 \<Longrightarrow> sum_list (map ((!) p) drain_order) = sum_list p"
  using pool_cases [of p] by (auto simp: drain_order_def pool_c_def numeral_eq_Suc)

lemma drain_order_ok: "length p = 6 \<Longrightarrow> distinct drain_order \<and> (\<forall>i \<in> set drain_order. i < length p)"
  by (simp add: drain_order_def pool_c_def)

lemma drain_all:
  assumes "length p = 6" "drain drain_order p g = (p', g')"
  shows "length p' = 6" "j < 6 \<Longrightarrow> p' ! j \<le> p ! j" "g' = g - sum_list p" "sum_list p' + g = sum_list p + g'"
  using drain_eq [OF assms(2)] drain_order_ok [OF assms(1)] drain_order_sum [OF assms(1)] assms(1) by auto

definition below :: "pool_vec \<Rightarrow> pool_vec \<Rightarrow> bool" where
  "below r p \<longleftrightarrow> list_all2 (\<le>) r p"

lemma below_iff: "length p = 6 \<Longrightarrow> below r p \<longleftrightarrow> length r = 6 \<and> (\<forall>j < 6. r ! j \<le> p ! j)"
  by (auto simp: below_def list_all2_conv_all_nth)

lemma settle_generic_None: "length p = 6 \<Longrightarrow> settle_generic p g \<noteq> None \<longleftrightarrow> g \<le> sum_list p"
  by (cases "drain drain_order p g") (auto simp: settle_generic_def dest: drain_all(3))

lemma settle_generic_Some:
  assumes "length p = 6" "settle_generic p g = Some r"
  shows "below r p \<and> sum_list r + g = sum_list p"
proof -
  obtain p' g' where run: "drain drain_order p g = (p', g')" by fastforce
  then have "g' = 0" "r = p'" using assms(2) by (auto simp: settle_generic_def split: if_splits)
  then show ?thesis using drain_all [OF assms(1) run] assms(1) by (auto simp: below_iff)
qed

lemma force_spend_eq:
  assumes "distinct is" "\<forall>i \<in> set is. i < length p"
  shows "force_spend is m p g =
    (if (\<Sum>i \<leftarrow> is. p ! i - m ! i) \<le> g
     then Some (map (\<lambda>i. if i \<in> set is then min (p ! i) (m ! i) else p ! i) [0..<length p],
                g - (\<Sum>i \<leftarrow> is. p ! i - m ! i))
     else None)"
  using assms
proof (induction "is" arbitrary: p g)
  case Nil
  then show ?case by (simp add: map_nth)
next
  case (Cons i "is")
  let ?p = "p[i := p ! i - (p ! i - m ! i)]"
  have sum: "(\<Sum>i \<leftarrow> is. ?p ! i - m ! i) = (\<Sum>i \<leftarrow> is. p ! i - m ! i)"
  proof -
    have "?p ! j = p ! j" if "j \<in> set is" for j
      using that Cons.prems(1) by (metis distinct.simps(2) nth_list_update_neq)
    then show ?thesis by (intro arg_cong [of _ _ sum_list] map_cong) auto
  qed
  have "map (\<lambda>j. if j \<in> set is then min (?p ! j) (m ! j) else ?p ! j) [0..<length p] =
      map (\<lambda>j. if j \<in> set (i # is) then min (p ! j) (m ! j) else p ! j) [0..<length p]"
    using Cons.prems by (intro map_cong) (auto simp: nth_list_update min_def)
  then show ?case
    using Cons.IH [of ?p "g - (p ! i - m ! i)"] Cons.prems by (auto simp: saturating_sub_def sum Let_def)
qed

lemma force_spend_all:
  assumes "length p = 6"
  shows "force_spend [0..<6] m p g =
    (if (\<Sum>i \<leftarrow> [0..<6]. p ! i - m ! i) \<le> g
     then Some (map (\<lambda>i. min (p ! i) (m ! i)) [0..<6], g - (\<Sum>i \<leftarrow> [0..<6]. p ! i - m ! i)) else None)"
proof -
  have "map (\<lambda>i. if i \<in> set [0..<6] then min (p ! i) (m ! i) else p ! i) [0..<6] =
      map (\<lambda>i. min (p ! i) (m ! i)) [0..<6]"
    by (intro map_cong) auto
  moreover have "\<forall>i \<in> set [0..<6]. i < length p" using assms by auto
  ultimately show ?thesis using force_spend_eq [of "[0..<6]" p m g] assms by (simp del: set_upt)
qed

lemma forced_sum:
  fixes p m :: pool_vec
  assumes "length p = 6"
  shows "(\<Sum>i \<leftarrow> [0..<6]. min (p ! i) (m ! i)) + (\<Sum>i \<leftarrow> [0..<6]. p ! i - m ! i) = sum_list p"
proof -
  have "(\<Sum>i \<leftarrow> [0..<6]. min (p ! i) (m ! i)) + (\<Sum>i \<leftarrow> [0..<6]. p ! i - m ! i) =
      (\<Sum>i \<leftarrow> [0..<6]. min (p ! i) (m ! i) + (p ! i - m ! i))"
    by (simp add: sum_list_addf)
  also have "\<dots> = (\<Sum>i \<leftarrow> [0..<6]. p ! i)"
    by (intro arg_cong [of _ _ sum_list] map_cong) auto
  also have "\<dots> = sum_list p" using assms by (metis map_nth)
  finally show ?thesis .
qed

lemma settle_required_Some:
  assumes "length p = 6" "length m = 6" "settle_required m p g = Some r"
  shows "below r p \<and> below r m \<and> sum_list r + g = sum_list p"
proof -
  let ?p1 = "map (\<lambda>i. min (p ! i) (m ! i)) [0..<6]" and ?f = "\<Sum>i \<leftarrow> [0..<6]. p ! i - m ! i"
  have f: "?f \<le> g" "force_spend [0..<6] m p g = Some (?p1, g - ?f)"
    using assms(3) unfolding settle_required_def force_spend_all [OF assms(1)]
    by (auto split: if_splits)
  obtain p' g' where run: "drain drain_order ?p1 (g - ?f) = (p', g')" by fastforce
  then have "g' = 0" "r = p'"
    using assms(3) by (auto simp: settle_required_def f(2) split: if_splits)
  then show ?thesis
    using drain_all [OF _ run] forced_sum [OF assms(1), of m] f(1) assms(1,2)
    by (auto simp: below_iff)
qed

lemma settle_required_None:
  assumes "length p = 6" "length m = 6"
  shows "settle_required m p g \<noteq> None \<longleftrightarrow> (\<Sum>i \<leftarrow> [0..<6]. p ! i - m ! i) \<le> g \<and> g \<le> sum_list p"
proof -
  let ?p1 = "map (\<lambda>i. min (p ! i) (m ! i)) [0..<6]" and ?f = "\<Sum>i \<leftarrow> [0..<6]. p ! i - m ! i"
  obtain p' g' where run: "drain drain_order ?p1 (g - ?f) = (p', g')" by fastforce
  have d: "g' = g - ?f - sum_list ?p1" "\<forall>j < 6. p' ! j \<le> ?p1 ! j" using drain_all [OF _ run] by auto
  have "within_max m p'" using d(2) by (auto simp: within_max_def list_all_iff)
  then show ?thesis
    using run d(1) forced_sum [OF assms(1), of m]
    by (auto simp: settle_required_def force_spend_all [OF assms(1)] split: if_splits)
qed

section \<open>What the solvers find\<close>

lemma length_spend [simp]: "length (spend i p) = length p"
  by (simp add: spend_def)

lemma resolves_length: "resolves fs p g p' g' \<Longrightarrow> length p' = length p"
  by (induction rule: resolves.induct) auto

locale flex_payer = flex_solver +
  fixes payable :: "pool_vec \<Rightarrow> u32 \<Rightarrow> bool"
    and leaves :: "pool_vec \<Rightarrow> bool"
  assumes settle_payable: "length p = 6 \<Longrightarrow> settle p g \<noteq> None \<longleftrightarrow> payable p g"
    and settle_balance: "length p = 6 \<Longrightarrow> settle p g = Some r \<Longrightarrow>
      below r p \<and> leaves r \<and> sum_list r + g = sum_list p"
begin

lemma solve_spec:
  assumes "length p = 6" "g + mono_total fs \<le> u32_max"
  shows "case solve p fs g of
      None \<Rightarrow> \<forall>p' g'. resolves fs p g p' g' \<longrightarrow> \<not> payable p' g'
    | Some r \<Rightarrow> \<exists>p' g'. resolves fs p g p' g' \<and> below r p' \<and> leaves r \<and> sum_list r + g' = sum_list p'"
proof (cases "solve p fs g")
  case None
  then have "\<not> (\<exists>p' g'. resolves fs p g p' g' \<and> settle p' g' \<noteq> None)"
    using solve_None_iff [OF assms(2)] by simp
  moreover have "payable p' g' \<longleftrightarrow> settle p' g' \<noteq> None" if "resolves fs p g p' g'" for p' g'
    using that resolves_length settle_payable assms(1) by simp
  ultimately show ?thesis using None by auto
next
  case (Some r)
  then obtain p' g' where r: "resolves fs p g p' g'" "settle p' g' = Some r"
    using solve_sound [OF assms(2)] by blast
  have "length p' = 6" using resolves_length [OF r(1)] assms(1) by simp
  from settle_balance [OF this r(2)] r(1) Some show ?thesis by auto
qed

end

lemma solve_flex_no_panic: "g + mono_total fs \<le> u32_max \<Longrightarrow> solve_flex p fs g \<noteq> None"
proof (induction fs arbitrary: p g)
  case Nil
  then show ?case by simp
next
  case (Cons f fs)
  note ih = Cons.IH [unfolded not_None_eq]
  show ?case
  proof (cases f)
    case (FlexHybrid a b)
    with Cons.prems ih [of g "spend (color_index a) p"] ih [of g "spend (color_index b) p"]
    show ?thesis by (auto simp: Let_def split: option.splits)
  next
    case (FlexMono n c)
    with Cons.prems ih [of g "spend (color_index c) p"] ih [of "g + n" p]
    show ?thesis by (auto simp: checked_add_def Let_def split: option.splits)
  next
    case (FlexColor c)
    with Cons.prems ih [of g "spend (color_index c) p"] show ?thesis by auto
  qed
qed

interpretation plain: flex_payer "\<lambda>p fs g. the (solve_flex p fs g)" settle_generic
  "\<lambda>p g. g \<le> sum_list p" "\<lambda>r. True"
proof (unfold_locales, goal_cases)
  case (1 g p)
  then show ?case by simp
next
  case (2 g fs p a b)
  then show ?case
    using solve_flex_no_panic [OF 2, of "spend (color_index a) p"]
      solve_flex_no_panic [OF 2, of "spend (color_index b) p"]
    by (auto split: option.splits)
next
  case (3 g fs p c)
  then show ?case by simp
next
  case (4 g n fs p c)
  then have g: "g + mono_total fs \<le> u32_max" "g + n \<le> u32_max" by simp_all
  show ?case
    using g(2) solve_flex_no_panic [OF g(1), of "spend (color_index c) p"]
    by (auto simp: checked_add_def split: option.splits)
next
  case (5 p g)
  then show ?case by (rule settle_generic_None)
next
  case (6 p g r)
  then show ?case using settle_generic_Some by blast
qed

text \<open>A pool of \<open>max_remaining\<close> that is too short would be read out of range; the code passes six slots.\<close>

definition six :: "pool_vec \<Rightarrow> pool_vec" where
  "six m = (if length m = 6 then m else replicate 6 0)"

lemma length_six [simp]: "length (six m) = 6"
  by (simp add: six_def)

interpretation required: flex_payer "solve_flex_with_required_spend (six m)" "settle_required (six m)"
  "\<lambda>p g. (\<Sum>i \<leftarrow> [0..<6]. p ! i - six m ! i) \<le> g \<and> g \<le> sum_list p" "\<lambda>r. below r (six m)" for m
proof (unfold_locales, goal_cases)
  case (4 g n fs p c)
  then show ?case by (auto simp: saturating_add_def min_def Let_def split: option.splits)
next
  case (5 p g)
  then show ?case by (intro settle_required_None) simp_all
next
  case (6 p g r)
  then show ?case using settle_required_Some [of p "six m" g r] by simp
qed (auto simp: Let_def split: option.splits)

text \<open>C6: The backtracking payment solver is sound and complete: when the generic amounts fit in 32
  bits it does not panic; it finds a remaining pool exactly when some choice of sides leaves enough
  mana for the generic part, and then the pool it returns is what that choice leaves, less the
  generic part, with no slot increased.\<close>

theorem solve_flex_correct:
  assumes "length p = 6" and "g + mono_total fs \<le> u32_max"
  shows "\<exists>res. solve_flex p fs g = Some res \<and>
    (case res of
       None \<Rightarrow> \<forall>p' g'. resolves fs p g p' g' \<longrightarrow> sum_list p' < g'
     | Some r \<Rightarrow> \<exists>p' g'. resolves fs p g p' g' \<and> below r p' \<and> sum_list r + g' = sum_list p')"
proof -
  obtain res where "solve_flex p fs g = Some res" using solve_flex_no_panic [OF assms(2)] by blast
  with plain.solve_spec [OF assms] show ?thesis by (auto simp: not_le split: option.splits)
qed

theorem solve_flex_correct_witness:
  "solve_flex [1, 0, 0, 0, 1, 1] [FlexHybrid PipW PipG, FlexMono 2 PipW] 0 = Some (Some [0, 0, 0, 0, 0, 0]) \<and>
   (\<exists>p' g'. resolves [FlexHybrid PipW PipG, FlexMono 2 PipW] [1, 0, 0, 0, 1, 1] 0 p' g' \<and>
     below [0, 0, 0, 0, 0, 0] p' \<and> sum_list [0, 0, 0, 0, 0, 0] + g' = sum_list p')"
proof -
  let ?p = "[1, 0, 0, 0, 1, 1]" and ?f = "[FlexHybrid PipW PipG, FlexMono 2 PipW]"
  have run: "solve_flex ?p ?f 0 = Some (Some [0, 0, 0, 0, 0, 0])" by code_simp
  have len: "length ?p = 6" and fit: "0 + mono_total ?f \<le> u32_max" by (simp_all add: u32_max_def)
  obtain res where "Some (Some [0, 0, 0, 0, 0, 0]) = Some res"
    and res: "case res of
       None \<Rightarrow> \<forall>p' g'. resolves ?f ?p 0 p' g' \<longrightarrow> sum_list p' < g'
     | Some r \<Rightarrow> \<exists>p' g'. resolves ?f ?p 0 p' g' \<and> below r p' \<and> sum_list r + g' = sum_list p'"
    using solve_flex_correct [OF len fit] unfolding run by blast
  then have "res = Some [0, 0, 0, 0, 0, 0]" by (simp only: option.inject)
  with run res show ?thesis by (simp only: option.case simp_thms)
qed

text \<open>C23: The same holds of the solver that has to bring every slot down to a given maximum: it
  succeeds exactly when some choice of sides leaves a generic part that covers the excess over the
  maxima and is itself covered by the pool, and its result respects the maxima.\<close>

theorem solve_required_correct:
  assumes "length p = 6" and "length m = 6" and "g + mono_total fs \<le> u32_max"
  shows "case solve_flex_with_required_spend m p fs g of
      None \<Rightarrow> \<forall>p' g'. resolves fs p g p' g' \<longrightarrow>
        \<not> ((\<Sum>i \<leftarrow> [0..<6]. p' ! i - m ! i) \<le> g' \<and> g' \<le> sum_list p')
    | Some r \<Rightarrow> \<exists>p' g'. resolves fs p g p' g' \<and> below r p' \<and> below r m \<and> sum_list r + g' = sum_list p'"
proof -
  have "six m = m" using assms(2) by (simp add: six_def)
  then show ?thesis using required.solve_spec [OF assms(1,3), of m] by (simp only:)
qed

theorem solve_required_correct_witness:
  "solve_flex_with_required_spend [5, 0, 0, 0, 0, 1] [1, 0, 0, 0, 1, 1] [FlexHybrid PipW PipG] 1
     = Some [0, 0, 0, 0, 0, 1] \<and>
   (\<exists>p' g'. resolves [FlexHybrid PipW PipG] [1, 0, 0, 0, 1, 1] 1 p' g' \<and>
     below [0, 0, 0, 0, 0, 1] p' \<and> below [0, 0, 0, 0, 0, 1] [5, 0, 0, 0, 0, 1] \<and>
     sum_list [0, 0, 0, 0, 0, 1] + g' = sum_list p')"
proof -
  let ?p = "[1, 0, 0, 0, 1, 1]" and ?m = "[5, 0, 0, 0, 0, 1]" and ?f = "[FlexHybrid PipW PipG]"
  have f: "force_spend [0..<6] ?m [0, 0, 0, 0, 1, 1] 1 = Some ([0, 0, 0, 0, 0, 1], 0)" by code_simp
  have d: "drain drain_order [0, 0, 0, 0, 0, 1] 0 = ([0, 0, 0, 0, 0, 1], 0)" by code_simp
  have w: "within_max ?m [0, 0, 0, 0, 0, 1]" by code_simp
  have "settle_required ?m [0, 0, 0, 0, 1, 1] 1 = Some [0, 0, 0, 0, 0, 1]"
    by (simp only: settle_required_def f d w option.case prod.case simp_thms if_True)
  then have run: "solve_flex_with_required_spend ?m ?p ?f 1 = Some [0, 0, 0, 0, 0, 1]"
    by (simp add: Let_def spend_def del: One_nat_def)
  have len: "length ?p = 6" "length ?m = 6" and fit: "1 + mono_total ?f \<le> u32_max"
    by (simp_all add: u32_max_def)
  show ?thesis
    using solve_required_correct [OF len fit] run by (simp only: option.case simp_thms)
qed

end
