(* ===== verification/Payment.thy ===== *)
theory Payment
  imports FlexSolver
begin

text \<open>
  Planning, revalidating and committing a mana payment, from
  \<open>tricerules-core/src/engine/payment/mana.rs\<close>. A plan is computed without touching the player and
  records the pools it expects; committing writes the debit back. The player record holds the
  fields of the game state that these functions read or write.
\<close>

section \<open>The state a payment works on\<close>

text \<open>\<open>ManaPool\<close> and \<open>ManaAmount\<close> have the same six counts.\<close>

record mana_amount =
  amount_w :: u32
  amount_u :: u32
  amount_b :: u32
  amount_r :: u32
  amount_g :: u32
  amount_c :: u32

definition amount_slots :: "mana_amount \<Rightarrow> pool_vec" where
  "amount_slots a = [amount_w a, amount_u a, amount_b a, amount_r a, amount_g a, amount_c a]"

definition no_amount :: mana_amount where
  "no_amount = \<lparr>amount_w = 0, amount_u = 0, amount_b = 0, amount_r = 0, amount_g = 0, amount_c = 0\<rparr>"

definition pool_of :: "pool_vec \<Rightarrow> mana_amount" where
  "pool_of p = \<lparr>amount_w = p ! 0, amount_u = p ! 1, amount_b = p ! 2, amount_r = p ! 3,
     amount_g = p ! 4, amount_c = p ! pool_c\<rparr>"

record contribution =
  restriction_group_id :: u32
  contribution_amount :: mana_amount

record player =
  mana_pool :: mana_amount
  retained_combat_mana :: mana_amount
  life :: int
  restricted_mana :: "contribution list"
  life_gained :: nat
  life_lost :: nat

record spend_selection =
  selection_group :: u32
  selection_amount :: mana_amount

record payment_plan =
  remaining :: pool_vec
  life_cost :: u32
  phyrexian_symbols_paid_with_life :: u32
  restricted_spent :: "(u32 \<times> mana_amount) list"
  requires_any_color :: bool
  expected_pool :: pool_vec
  remaining_retained_combat :: pool_vec
  expected_retained_combat :: pool_vec
  expected_life :: int
  expected_restricted :: "contribution list"

section \<open>What a cost needs\<close>

record need =
  need_color :: pool_vec
  need_generic :: u32
  need_life :: u32
  need_symbols :: u32
  need_flex :: "flex_pip list"

definition overflow_panic :: engine_error where
  "overflow_panic = Panic ''attempt to add with overflow''"

definition need_one :: "nat \<Rightarrow> need \<Rightarrow> engine_error + need" where
  "need_one i n = (case checked_add (need_color n ! i) 1 of
     None \<Rightarrow> Inl overflow_panic
   | Some c \<Rightarrow> Inr (n\<lparr>need_color := (need_color n)[i := c]\<rparr>))"

definition need_flexible :: "flex_pip \<Rightarrow> need \<Rightarrow> need" where
  "need_flexible f n = n\<lparr>need_flex := need_flex n @ [f]\<rparr>"

definition need_phyrexian :: "phyrexian_payment option \<Rightarrow> need \<Rightarrow> engine_error + need" where
  "need_phyrexian ph n = (case ph of
     None \<Rightarrow> Inl (Panic ''validated Phyrexian choice'')
   | Some PayLife \<Rightarrow>
       (case (checked_add (need_life n) 2, checked_add (need_symbols n) 1) of
          (Some l, Some s) \<Rightarrow> Inr (n\<lparr>need_life := l, need_symbols := s\<rparr>)
        | _ \<Rightarrow> Inl overflow_panic)
   | Some (PayMana c) \<Rightarrow> Inr (need_flexible (FlexColor c) n))"

definition need_pip :: "u32 \<Rightarrow> mana_symbol \<Rightarrow> phyrexian_payment option \<Rightarrow> need \<Rightarrow> engine_error + need" where
  "need_pip x pip ph n = (case pip of
     ManaW \<Rightarrow> need_one (color_index PipW) n
   | ManaU \<Rightarrow> need_one (color_index PipU) n
   | ManaB \<Rightarrow> need_one (color_index PipB) n
   | ManaR \<Rightarrow> need_one (color_index PipR) n
   | ManaG \<Rightarrow> need_one (color_index PipG) n
   | ManaC \<Rightarrow> need_one pool_c n
   | Generic k \<Rightarrow> Inr (n\<lparr>need_generic := saturating_add (need_generic n) k\<rparr>)
   | ManaX \<Rightarrow> Inr (n\<lparr>need_generic := saturating_add (need_generic n) x\<rparr>)
   | Hybrid a b \<Rightarrow> Inr (need_flexible (FlexHybrid a b) n)
   | MonoHybrid k c \<Rightarrow> Inr (need_flexible (FlexMono k c) n)
   | Phyrexian _ \<Rightarrow> need_phyrexian ph n
   | HybridPhyrexian _ _ \<Rightarrow> need_phyrexian ph n)"

fun collect_needs ::
  "u32 \<Rightarrow> mana_cost \<Rightarrow> phyrexian_payment option list \<Rightarrow> need \<Rightarrow> engine_error + need" where
  "collect_needs x (pip # pips) (ph # phs) n =
     (case need_pip x pip ph n of Inl e \<Rightarrow> Inl e | Inr n' \<Rightarrow> collect_needs x pips phs n')"
| "collect_needs x _ _ n = Inr n"

definition no_needs :: "u32 \<Rightarrow> need" where
  "no_needs extra_generic = \<lparr>need_color = [0, 0, 0, 0, 0, 0], need_generic = extra_generic,
     need_life = 0, need_symbols = 0, need_flex = []\<rparr>"

section \<open>Restricted mana\<close>

definition add_amount :: "mana_amount \<Rightarrow> mana_amount \<Rightarrow> mana_amount option" where
  "add_amount a b =
     (let sums = map2 checked_add (amount_slots a) (amount_slots b)
      in if list_all (\<lambda>s. s \<noteq> None) sums then Some (pool_of (map the sums)) else None)"

fun group_total :: "u32 \<Rightarrow> contribution list \<Rightarrow> mana_amount \<Rightarrow> mana_amount option" where
  "group_total gid [] acc = Some acc"
| "group_total gid (e # es) acc =
     (if restriction_group_id e = gid
      then (case add_amount acc (contribution_amount e) of
              None \<Rightarrow> None | Some acc' \<Rightarrow> group_total gid es acc')
      else group_total gid es acc)"

definition exceeds :: "mana_amount \<Rightarrow> mana_amount \<Rightarrow> bool" where
  "exceeds a available \<longleftrightarrow> \<not> list_all2 (\<le>) (amount_slots a) (amount_slots available)"

fun select_restricted ::
  "contribution list \<Rightarrow> u32 list \<Rightarrow> spend_selection list \<Rightarrow> u32 list \<Rightarrow> pool_vec \<Rightarrow>
   (u32 \<times> mana_amount) list \<Rightarrow> engine_error + pool_vec \<times> (u32 \<times> mana_amount) list" where
  "select_restricted held eligible [] seen working spent = Inr (working, spent)"
| "select_restricted held eligible (s # ss) seen working spent =
     (let gid = selection_group s; a = selection_amount s
      in if gid = 0 \<or> gid \<in> set seen \<or> gid \<notin> set eligible
         then Inl (Illegal ''invalid or ineligible restricted mana selection'')
         else if list_all (\<lambda>n. n = 0) (amount_slots a)
         then Inl (Illegal ''restricted mana selection is empty'')
         else (case group_total gid held no_amount of
                 None \<Rightarrow> Inl overflow_panic
               | Some available \<Rightarrow>
                   if exceeds a available then Inl (Illegal ''restricted mana selection exceeds pool'')
                   else select_restricted held eligible ss (gid # seen)
                          (map2 saturating_add working (amount_slots a)) (spent @ [(gid, a)])))"

section \<open>Planning\<close>

definition as_i32 :: "u32 \<Rightarrow> int" where
  "as_i32 n = (if n \<le> 2147483647 then int n else int n - 4294967296)"

definition not_enough :: engine_error where
  "not_enough = Illegal ''not enough mana in pool; tap your lands first''"

text \<open>The two solvers behind one call; \<open>None\<close> is the panic of the first.\<close>

definition run_solver ::
  "bool \<Rightarrow> pool_vec \<Rightarrow> pool_vec \<Rightarrow> flex_pip list \<Rightarrow> u32 \<Rightarrow> pool_vec option option" where
  "run_solver unrestricted_only unrestricted working flex generic =
     (if unrestricted_only then solve_flex working flex generic
      else Some (solve_flex_with_required_spend unrestricted working flex generic))"

fun try_demands :: "bool \<Rightarrow> pool_vec \<Rightarrow> pool_vec \<Rightarrow> demand list \<Rightarrow> pool_vec option option" where
  "try_demands unrestricted_only unrestricted working [] = Some None"
| "try_demands unrestricted_only unrestricted working (d # ds) =
     (case checked_sub (working ! pool_c) (amounts d ! pool_c) of
        None \<Rightarrow> try_demands unrestricted_only unrestricted working ds
      | Some c \<Rightarrow>
          (case checked_sum 0 (map ((!) (amounts d)) [0, 1, 2, 3, 4, 6]) of
             None \<Rightarrow> try_demands unrestricted_only unrestricted working ds
           | Some generic \<Rightarrow>
               (case run_solver unrestricted_only unrestricted (working[pool_c := c]) [] generic of
                  None \<Rightarrow> None
                | Some None \<Rightarrow> try_demands unrestricted_only unrestricted working ds
                | Some (Some r) \<Rightarrow> Some (Some r))))"

text \<open>Paying the fixed colours, slot by slot.\<close>

fun pay_fixed :: "nat list \<Rightarrow> pool_vec \<Rightarrow> pool_vec \<Rightarrow> pool_vec option" where
  "pay_fixed [] need working = Some working"
| "pay_fixed (i # is) need working =
     (if working ! i < need ! i then None
      else pay_fixed is need (working[i := working ! i - need ! i]))"

definition solve_any_color ::
  "mana_cost \<Rightarrow> u32 \<Rightarrow> u32 \<Rightarrow> u32 \<Rightarrow> flex_pip_payment list \<Rightarrow> bool \<Rightarrow> pool_vec \<Rightarrow> pool_vec \<Rightarrow>
   engine_error + pool_vec" where
  "solve_any_color cost x extra_generic reduction flex_payments unrestricted_only unrestricted working =
     (case normalize cost x extra_generic reduction flex_payments of
        Inl e \<Rightarrow> Inl e
      | Inr demands \<Rightarrow>
          (case try_demands unrestricted_only unrestricted working
                  (sort_key (\<lambda>d. sum_list (amounts d)) demands) of
             None \<Rightarrow> Inl overflow_panic | Some None \<Rightarrow> Inl not_enough | Some (Some r) \<Rightarrow> Inr r))"

definition solve_by_color ::
  "need \<Rightarrow> u32 \<Rightarrow> bool \<Rightarrow> pool_vec \<Rightarrow> pool_vec \<Rightarrow> engine_error + pool_vec" where
  "solve_by_color n generic unrestricted_only unrestricted working =
     (case pay_fixed [0..<6] (need_color n) working of
        None \<Rightarrow> Inl not_enough
      | Some working' \<Rightarrow>
          (case run_solver unrestricted_only unrestricted working' (need_flex n) generic of
             None \<Rightarrow> Inl overflow_panic | Some None \<Rightarrow> Inl not_enough | Some (Some r) \<Rightarrow> Inr r))"

definition make_plan ::
  "player \<Rightarrow> need \<Rightarrow> (u32 \<times> mana_amount) list \<Rightarrow> pool_vec \<Rightarrow> payment_plan" where
  "make_plan pl n spent r =
     (let retained = amount_slots (retained_combat_mana pl)
      in \<lparr>remaining = r, life_cost = need_life n, phyrexian_symbols_paid_with_life = need_symbols n,
          restricted_spent = spent, requires_any_color = False,
          expected_pool = amount_slots (mana_pool pl),
          remaining_retained_combat = map2 min retained r,
          expected_retained_combat = retained,
          expected_life = life pl, expected_restricted = restricted_mana pl\<rparr>)"

definition plan_mana_payment_with_any_color ::
  "player \<Rightarrow> mana_cost \<Rightarrow> u32 \<Rightarrow> u32 \<Rightarrow> u32 \<Rightarrow> flex_pip_payment list \<Rightarrow> spend_selection list \<Rightarrow>
   u32 list \<Rightarrow> bool \<Rightarrow> engine_error + payment_plan" where
  "plan_mana_payment_with_any_color pl cost x extra_generic generic_reduction flex_payments selections
       eligible as_any_color =
     (case validated_phyrexian_choices cost flex_payments of Inl e \<Rightarrow> Inl e | Inr phyrexian \<Rightarrow>
      (case collect_needs x cost phyrexian (no_needs extra_generic) of Inl e \<Rightarrow> Inl e | Inr n \<Rightarrow>
       (let generic = saturating_sub (need_generic n) generic_reduction;
            unrestricted = amount_slots (mana_pool pl)
        in if 0 < need_life n \<and> life pl < as_i32 (need_life n)
           then Inl (Illegal ''not enough life to pay Phyrexian cost'')
           else (case select_restricted (restricted_mana pl) eligible selections [] unrestricted [] of
                   Inl e \<Rightarrow> Inl e
                 | Inr (working, spent) \<Rightarrow>
                     (case (if as_any_color
                            then solve_any_color cost x extra_generic generic_reduction flex_payments
                                   (spent = []) unrestricted working
                            else solve_by_color n generic (spent = []) unrestricted working) of
                        Inl e \<Rightarrow> Inl e
                      | Inr r \<Rightarrow> Inr (make_plan pl n spent r))))))"

definition plan_mana_payment_with_restricted_reduction ::
  "player \<Rightarrow> mana_cost \<Rightarrow> u32 \<Rightarrow> u32 \<Rightarrow> u32 \<Rightarrow> flex_pip_payment list \<Rightarrow> spend_selection list \<Rightarrow>
   u32 list \<Rightarrow> engine_error + payment_plan" where
  "plan_mana_payment_with_restricted_reduction pl cost x extra_generic generic_reduction flex_payments
       selections eligible =
     plan_mana_payment_with_any_color pl cost x extra_generic generic_reduction flex_payments
       selections eligible False"

definition plan_mana_payment_with_reduction ::
  "player \<Rightarrow> mana_cost \<Rightarrow> u32 \<Rightarrow> u32 \<Rightarrow> u32 \<Rightarrow> flex_pip_payment list \<Rightarrow> engine_error + payment_plan" where
  "plan_mana_payment_with_reduction pl cost x extra_generic generic_reduction flex_payments =
     plan_mana_payment_with_restricted_reduction pl cost x extra_generic generic_reduction flex_payments [] []"

definition plan_mana_payment ::
  "player \<Rightarrow> mana_cost \<Rightarrow> u32 \<Rightarrow> u32 \<Rightarrow> flex_pip_payment list \<Rightarrow> engine_error + payment_plan" where
  "plan_mana_payment pl cost x extra_generic flex_payments =
     plan_mana_payment_with_reduction pl cost x extra_generic 0 flex_payments"

definition plan_exact_mana_payment ::
  "player \<Rightarrow> pool_vec \<Rightarrow> spend_selection list \<Rightarrow> u32 list \<Rightarrow> u32 \<Rightarrow> engine_error + payment_plan" where
  "plan_exact_mana_payment pl ordinary restricted eligible life_due =
     (let available = amount_slots (mana_pool pl)
      in if \<not> list_all2 (\<le>) ordinary available \<or> life pl < int life_due
         then Inl (Illegal ''selected mana or life is unavailable'')
         else (case checked_sum 0 (ordinary @ concat (map (amount_slots \<circ> selection_amount) restricted)) of
                 None \<Rightarrow> Inl (Illegal ''payment overflow'')
               | Some due \<Rightarrow>
                   (case plan_mana_payment_with_restricted_reduction pl [] 0 due 0 [] restricted eligible of
                      Inl e \<Rightarrow> Inl e
                    | Inr plan \<Rightarrow>
                        (let r = map2 (-) available ordinary
                         in Inr (plan\<lparr>remaining := r,
                                  remaining_retained_combat := map2 min (expected_retained_combat plan) r,
                                  life_cost := life_due\<rparr>)))))"

section \<open>Revalidating and committing\<close>

text \<open>\<open>players.get(player_idx)\<close> is an option.\<close>

definition mana_payment_still_valid :: "player option \<Rightarrow> payment_plan \<Rightarrow> bool" where
  "mana_payment_still_valid mpl plan =
     (case mpl of
        None \<Rightarrow> False
      | Some pl \<Rightarrow>
          expected_pool plan = amount_slots (mana_pool pl) \<and>
          expected_life plan = life pl \<and>
          expected_retained_combat plan = amount_slots (retained_combat_mana pl) \<and>
          expected_restricted plan = restricted_mana pl)"

text \<open>Taking one slot of a group from the entries, oldest first.\<close>

definition take_slot :: "nat \<Rightarrow> u32 \<Rightarrow> contribution \<Rightarrow> contribution" where
  "take_slot i t e = e\<lparr>contribution_amount :=
     pool_of ((amount_slots (contribution_amount e))[i := amount_slots (contribution_amount e) ! i - t])\<rparr>"

fun take_from_group :: "u32 \<Rightarrow> nat \<Rightarrow> u32 \<Rightarrow> contribution list \<Rightarrow> contribution list" where
  "take_from_group gid i rem [] = []"
| "take_from_group gid i rem (e # es) =
     (if restriction_group_id e \<noteq> gid then e # take_from_group gid i rem es
      else if rem = 0 then e # es
      else (let t = min rem (amount_slots (contribution_amount e) ! i)
            in take_slot i t e # take_from_group gid i (rem - t) es))"

fun take_slots :: "u32 \<Rightarrow> nat \<Rightarrow> u32 list \<Rightarrow> contribution list \<Rightarrow> contribution list" where
  "take_slots gid i [] es = es"
| "take_slots gid i (n # ns) es = take_slots gid (Suc i) ns (take_from_group gid i n es)"

text \<open>\<open>retain\<close> adds the six counts of each entry unchecked; \<open>None\<close> is its panic.\<close>

definition is_live :: "contribution \<Rightarrow> bool option" where
  "is_live e = (case checked_sum 0 (amount_slots (contribution_amount e)) of
     None \<Rightarrow> None | Some s \<Rightarrow> Some (0 < s))"

definition retain_live :: "contribution list \<Rightarrow> contribution list option" where
  "retain_live es =
     (if list_ex (\<lambda>e. is_live e = None) es then None else Some (filter (\<lambda>e. is_live e = Some True) es))"

fun spend_restricted :: "(u32 \<times> mana_amount) list \<Rightarrow> contribution list \<Rightarrow> contribution list option" where
  "spend_restricted [] es = Some es"
| "spend_restricted ((gid, a) # ss) es =
     (case retain_live (take_slots gid 0 (amount_slots a) es) of
        None \<Rightarrow> None | Some es' \<Rightarrow> spend_restricted ss es')"

definition u64_max :: nat where
  "u64_max = 18446744073709551615"

definition commit_life_change :: "int \<Rightarrow> player \<Rightarrow> player option" where
  "commit_life_change delta pl =
     (if delta = 0 then Some pl
      else if \<not> is_int32 (life pl + delta) then None
      else if 0 < delta
      then Some (pl\<lparr>life := life pl + delta, life_gained := min (life_gained pl + nat delta) u64_max\<rparr>)
      else Some (pl\<lparr>life := life pl + delta, life_lost := min (life_lost pl + nat (- delta)) u64_max\<rparr>))"

definition commit_mana_payment :: "payment_plan \<Rightarrow> player \<Rightarrow> player option" where
  "commit_mana_payment plan pl =
     (let pl1 = pl\<lparr>mana_pool := pool_of (remaining plan),
                   retained_combat_mana := pool_of (remaining_retained_combat plan)\<rparr>
      in case spend_restricted (restricted_spent plan) (restricted_mana pl1) of
           None \<Rightarrow> None
         | Some es \<Rightarrow> commit_life_change (- as_i32 (life_cost plan)) (pl1\<lparr>restricted_mana := es\<rparr>))"

section \<open>Reading a plan\<close>

definition unrestricted_spent :: "payment_plan \<Rightarrow> mana_amount" where
  "unrestricted_spent plan = pool_of (map2 (-) (expected_pool plan) (remaining plan))"

definition colors_spent :: "payment_plan \<Rightarrow> bool list" where
  "colors_spent plan =
     fold (\<lambda>(_, a) present. map2 (\<or>) present (map (\<lambda>n. 0 < n) (take 5 (amount_slots a))))
       (restricted_spent plan)
       (map (\<lambda>i. remaining plan ! i < expected_pool plan ! i) [0..<5])"

definition mana_spent :: "payment_plan \<Rightarrow> nat" where
  "mana_spent plan =
     sum_list (map2 (-) (expected_pool plan) (remaining plan)) +
     sum_list (map (\<lambda>(_, a). sum_list (amount_slots a)) (restricted_spent plan))"

definition remap_restricted_groups :: "(u32 \<rightharpoonup> u32) \<Rightarrow> payment_plan \<Rightarrow> payment_plan" where
  "remap_restricted_groups remap plan =
     plan\<lparr>restricted_spent := map (\<lambda>(gid, a). (case remap gid of Some g \<Rightarrow> g | None \<Rightarrow> gid, a))
       (restricted_spent plan)\<rparr>"

text \<open>The hash map of what is left of each group, filled with saturating sums.\<close>

definition add_saturating :: "mana_amount \<Rightarrow> mana_amount \<Rightarrow> mana_amount" where
  "add_saturating a b = pool_of (map2 saturating_add (amount_slots a) (amount_slots b))"

fun held_groups :: "contribution list \<Rightarrow> (u32 \<rightharpoonup> mana_amount) \<Rightarrow> (u32 \<rightharpoonup> mana_amount)" where
  "held_groups [] m = m"
| "held_groups (e # es) m =
     held_groups es (m(restriction_group_id e \<mapsto>
       add_saturating (case m (restriction_group_id e) of None \<Rightarrow> no_amount | Some a \<Rightarrow> a)
         (contribution_amount e)))"

fun replay_restricted :: "(u32 \<times> mana_amount) list \<Rightarrow> (u32 \<rightharpoonup> mana_amount) \<Rightarrow> bool" where
  "replay_restricted [] m = True"
| "replay_restricted ((gid, a) # ss) m =
     (case m gid of
        None \<Rightarrow> False
      | Some available \<Rightarrow>
          \<not> exceeds a available \<and>
          replay_restricted ss (m(gid \<mapsto> pool_of (map2 (-) (amount_slots available) (amount_slots a)))))"

definition rebase_for_attack_receipt :: "player option \<Rightarrow> payment_plan \<Rightarrow> engine_error + payment_plan" where
  "rebase_for_attack_receipt mpl plan =
     (case mpl of
        None \<Rightarrow> Inl (Illegal ''attack mana receipt payer changed'')
      | Some pl \<Rightarrow>
          (let available = amount_slots (mana_pool pl);
               retained = amount_slots (retained_combat_mana pl);
               spent = map2 saturating_sub (expected_pool plan) (remaining plan);
               retained_spent = map2 saturating_sub (expected_retained_combat plan) (remaining_retained_combat plan)
           in if \<not> (list_all2 (\<le>) spent available \<and> list_all2 (\<le>) retained_spent retained)
              then Inl (Illegal ''later mana activation depends on the reversed mana receipt'')
              else if \<not> replay_restricted (restricted_spent plan) (held_groups (restricted_mana pl) Map.empty)
              then Inl (Illegal ''later mana activation depends on the reversed restricted-mana receipt'')
              else Inr (plan\<lparr>remaining := map2 (-) available spent,
                             remaining_retained_combat := map2 (-) retained retained_spent,
                             expected_pool := available,
                             expected_retained_combat := retained,
                             expected_life := life pl,
                             expected_restricted := restricted_mana pl\<rparr>)))"

end
