(* ===== verification/PaymentCommit.thy ===== *)
theory PaymentCommit
  imports Payment
begin

text \<open>
  From planning to committing: what a plan promises about the pools, that a plan just made is still
  valid and can be committed, and that committing debits exactly what the plan says.
\<close>

section \<open>Amounts and slots\<close>

lemma length_amount_slots [simp]: "length (amount_slots a) = 6"
  by (simp add: amount_slots_def)

lemma amount_slots_pool_of [simp]: "length p = 6 \<Longrightarrow> amount_slots (pool_of p) = p"
  using pool_cases [of p] by (auto simp: amount_slots_def pool_of_def pool_c_def numeral_eq_Suc)

lemma pool_of_amount_slots [simp]: "pool_of (amount_slots a) = a"
  by (simp add: amount_slots_def pool_of_def pool_c_def)

lemma exceeds_iff: "exceeds a b \<longleftrightarrow> \<not> below (amount_slots a) (amount_slots b)"
  by (simp add: exceeds_def below_def)

lemma below_refl [simp]: "below p p"
  by (simp add: below_def list_all2_conv_all_nth)

lemma below_trans: "below p q \<Longrightarrow> below q r \<Longrightarrow> below p r"
  unfolding below_def list_all2_conv_all_nth by force

lemma below_length: "below p q \<Longrightarrow> length p = length q"
  by (simp add: below_def list_all2_conv_all_nth)

lemma below_update: "v \<le> p ! i \<Longrightarrow> below (p[i := v]) p"
  by (cases "i < length p") (auto simp: below_def list_all2_conv_all_nth nth_list_update)

lemma below_spend [simp]: "below (spend i p) p"
  by (simp add: spend_def below_update)

section \<open>The solvers never increase a slot\<close>

lemma solve_flex_below:
  "solve_flex p fs g = Some (Some r) \<Longrightarrow> length p = 6 \<Longrightarrow> below r p"
proof (induction p fs g rule: solve_flex.induct)
  case (1 p g)
  then show ?case using settle_generic_Some by simp
next
  case (2 p a b fs g)
  then show ?case
    by (auto simp: Let_def split: if_splits option.splits
        dest!: below_trans [OF _ below_spend])
next
  case (3 p c fs g)
  then show ?case by (auto split: if_splits dest!: below_trans [OF _ below_spend])
next
  case (4 p n c fs g)
  then show ?case
    by (auto simp: Let_def split: if_splits option.splits dest!: below_trans [OF _ below_spend])
qed

lemma solve_required_below:
  "solve_flex_with_required_spend m p fs g = Some r \<Longrightarrow> length p = 6 \<Longrightarrow> length m = 6 \<Longrightarrow> below r m"
proof (induction m p fs g rule: solve_flex_with_required_spend.induct)
  case (1 m p g)
  then show ?case using settle_required_Some by simp
qed (auto simp: Let_def split: if_splits option.splits)

lemma run_solver_below:
  assumes "run_solver only u w fs g = Some (Some r)" "length w = 6" "length u = 6" "only \<Longrightarrow> below w u"
  shows "below r u"
proof (cases only)
  case True
  then have "below r w" using assms(1,2) solve_flex_below by (simp add: run_solver_def)
  then show ?thesis using assms(4) True below_trans by blast
next
  case False
  then show ?thesis using assms(1-3) solve_required_below by (simp add: run_solver_def)
qed

lemma pay_fixed_below: "pay_fixed is need w = Some w' \<Longrightarrow> below w' w"
proof (induction "is" arbitrary: w)
  case (Cons i "is")
  have "below (w[i := w ! i - need ! i]) w"
    by (simp add: below_update)
  with Cons show ?case by (auto split: if_splits intro: below_trans)
qed simp

lemma try_demands_below:
  "try_demands only u w ds = Some (Some r) \<Longrightarrow> length w = 6 \<Longrightarrow> length u = 6 \<Longrightarrow> (only \<Longrightarrow> below w u) \<Longrightarrow>
   below r u"
proof (induction ds)
  case Nil
  then show ?case by simp
next
  case (Cons d ds)
  show ?case
  proof (cases "try_demands only u w (d # ds) = try_demands only u w ds")
    case True
    with Cons show ?thesis by simp
  next
    case False
    then obtain c generic where run: "run_solver only u (w[pool_c := c]) [] generic = Some (Some r)"
      and c: "checked_sub (w ! pool_c) (amounts d ! pool_c) = Some c"
      using Cons.prems(1) by (auto split: option.splits)
    have "below (w[pool_c := c]) w"
      using c by (intro below_update) (auto simp: checked_sub_Some_iff)
    then show ?thesis
      using run_solver_below [OF run] Cons.prems(2-4) below_trans by simp
  qed
qed

section \<open>Totals of a restriction group\<close>

definition held :: "u32 \<Rightarrow> nat \<Rightarrow> contribution list \<Rightarrow> nat" where
  "held gid i es = (\<Sum>e \<leftarrow> filter (\<lambda>e. restriction_group_id e = gid) es. amount_slots (contribution_amount e) ! i)"

lemma held_simps [simp]:
  "held gid i [] = 0"
  "held gid i (e # es) =
    (if restriction_group_id e = gid then amount_slots (contribution_amount e) ! i else 0) + held gid i es"
  by (simp_all add: held_def)

lemma add_amount_Some:
  assumes "add_amount a b = Some c" "i < 6"
  shows "amount_slots c ! i = amount_slots a ! i + amount_slots b ! i"
proof -
  let ?s = "map2 checked_add (amount_slots a) (amount_slots b)"
  have ok: "list_all (\<lambda>s. s \<noteq> None) ?s" and c: "c = pool_of (map the ?s)"
    using assms(1) by (auto simp: add_amount_def Let_def split: if_splits)
  have "?s ! i \<noteq> None" using ok assms(2) by (simp add: list_all_length)
  then show ?thesis using assms(2) by (auto simp: c checked_add_def split: if_splits)
qed

lemma group_total_Some:
  "group_total gid es acc = Some t \<Longrightarrow> i < 6 \<Longrightarrow> amount_slots t ! i = amount_slots acc ! i + held gid i es"
  by (induction es arbitrary: acc) (auto simp: add_amount_Some split: if_splits option.splits)

lemma amount_slots_none: "i < 6 \<Longrightarrow> amount_slots no_amount ! i = 0"
  by (auto simp: amount_slots_def no_amount_def numeral_eq_Suc less_Suc_eq)

lemma take_slot_slots [simp]:
  "restriction_group_id (take_slot i t e) = restriction_group_id e"
  "amount_slots (contribution_amount (take_slot i t e)) =
    (amount_slots (contribution_amount e))[i := amount_slots (contribution_amount e) ! i - t]"
  by (simp_all add: take_slot_def)

lemma held_take_from:
  "i < 6 \<Longrightarrow> j < 6 \<Longrightarrow>
   held g j (take_from_group gid i n es) = (if g = gid \<and> j = i then held g j es - n else held g j es)"
  by (induction gid i n es rule: take_from_group.induct) (auto simp: Let_def min_def)

lemma held_take_slots:
  "i + length ns \<le> 6 \<Longrightarrow> j < 6 \<Longrightarrow>
   held g j (take_slots gid i ns es) =
     (if g = gid \<and> i \<le> j \<and> j < i + length ns then held g j es - ns ! (j - i) else held g j es)"
proof (induction ns arbitrary: i es)
  case Nil
  then show ?case by simp
next
  case (Cons n ns)
  then show ?case
    using Cons.IH [of "Suc i" "take_from_group gid i n es"]
    by (auto simp: held_take_from nth_Cons' Suc_diff_le)
qed

definition small :: "contribution list \<Rightarrow> bool" where
  "small es \<longleftrightarrow> (\<forall>e \<in> set es. sum_list (amount_slots (contribution_amount e)) \<le> u32_max)"

lemma sum_list_update_le:
  "i < length xs \<Longrightarrow> v \<le> xs ! i \<Longrightarrow> sum_list (xs[i := v]) \<le> (sum_list xs :: nat)"
  using sum_list_update_nat [of i xs v] by linarith

lemma small_take_from: "i < 6 \<Longrightarrow> small es \<Longrightarrow> small (take_from_group gid i n es)"
proof (induction gid i n es rule: take_from_group.induct)
  case (2 gid i n e es)
  have "sum_list ((amount_slots (contribution_amount e))[i := amount_slots (contribution_amount e) ! i - t])
      \<le> u32_max" for t
  proof -
    have "sum_list (amount_slots (contribution_amount e)) \<le> u32_max"
      using "2.prems"(2) by (simp add: small_def)
    with sum_list_update_le [of i "amount_slots (contribution_amount e)"
        "amount_slots (contribution_amount e) ! i - t"] "2.prems"(1)
    show ?thesis by simp
  qed
  with 2 show ?case by (auto simp: small_def Let_def)
qed simp

lemma small_take_slots: "i + length ns \<le> 6 \<Longrightarrow> small es \<Longrightarrow> small (take_slots gid i ns es)"
proof (induction ns arbitrary: i es)
  case (Cons n ns)
  then show ?case using small_take_from [of i es gid n] Cons.IH [of "Suc i"] by simp
qed simp

lemma retain_live_small:
  assumes "small es"
  shows "\<exists>es'. retain_live es = Some es' \<and> small es' \<and> (\<forall>g j. j < 6 \<longrightarrow> held g j es' = held g j es)"
proof -
  have live: "is_live e = Some (0 < sum_list (amount_slots (contribution_amount e)))" if "e \<in> set es" for e
    using that assms by (simp add: is_live_def small_def checked_sum_eq u32_max_def)
  then have "retain_live es = Some (filter (\<lambda>e. is_live e = Some True) es)"
    by (auto simp: retain_live_def list_ex_iff)
  moreover have "held g j (filter (\<lambda>e. is_live e = Some True) es) = held g j es" if "j < 6" for g j
    using live
  proof (induction es)
    case Nil
    then show ?case by simp
  next
    case (Cons e es)
    have "amount_slots (contribution_amount e) ! j = 0"
      if "\<not> 0 < sum_list (amount_slots (contribution_amount e))"
      using that \<open>j < 6\<close> nth_mem [of j "amount_slots (contribution_amount e)"] by simp
    with Cons show ?case by auto
  qed
  ultimately show ?thesis using assms by (auto simp: small_def)
qed

fun debit :: "u32 \<Rightarrow> nat \<Rightarrow> (u32 \<times> mana_amount) list \<Rightarrow> nat" where
  "debit g j [] = 0"
| "debit g j ((gid, a) # ss) = (if gid = g then amount_slots a ! j else 0) + debit g j ss"

lemma debit_absent: "g \<notin> fst ` set ss \<Longrightarrow> debit g j ss = 0"
  by (induction ss) auto

lemma spend_restricted_debits:
  assumes "small es" "distinct (map fst ss)"
    "\<forall>gid a i. (gid, a) \<in> set ss \<longrightarrow> i < 6 \<longrightarrow> amount_slots a ! i \<le> held gid i es"
  shows "\<exists>es'. spend_restricted ss es = Some es' \<and> (\<forall>g j. j < 6 \<longrightarrow> held g j es' + debit g j ss = held g j es)"
  using assms
proof (induction ss arbitrary: es)
  case Nil
  then show ?case by simp
next
  case (Cons s ss)
  obtain gid a where s: "s = (gid, a)" by (cases s)
  let ?t = "take_slots gid 0 (amount_slots a) es"
  obtain es1 where es1: "retain_live ?t = Some es1" "small es1"
    "\<And>g j. j < 6 \<Longrightarrow> held g j es1 = held g j ?t"
    using retain_live_small [OF small_take_slots [OF _ Cons.prems(1)], of 0 "amount_slots a" gid] by auto
  have h1: "held g j es1 = (if g = gid then held g j es - amount_slots a ! j else held g j es)" if "j < 6" for g j
    using that es1(3) held_take_slots [of 0 "amount_slots a" j g gid es] by simp
  have "amount_slots a' ! i \<le> held gid' i es1" if "(gid', a') \<in> set ss" "i < 6" for gid' a' i
  proof -
    have "gid' \<noteq> gid" using that(1) Cons.prems(2) s by force
    then show ?thesis using that Cons.prems(3) h1 by (simp add: s)
  qed
  then obtain es' where es': "spend_restricted ss es1 = Some es'"
    "\<And>g j. j < 6 \<Longrightarrow> held g j es' + debit g j ss = held g j es1"
    using Cons.IH [OF es1(2)] Cons.prems(2) by auto
  have "held g j es' + debit g j (s # ss) = held g j es" if "j < 6" for g j
  proof (cases "g = gid")
    case True
    then have "amount_slots a ! j \<le> held g j es" using Cons.prems(3) that s by simp
    then show ?thesis using es'(2) [OF that, of g] h1 [OF that, of g] True s by simp
  next
    case False
    then show ?thesis using es'(2) [OF that, of g] h1 [OF that, of g] s by simp
  qed
  then show ?case using es'(1) es1(1) s by auto
qed

section \<open>Plans\<close>

lemma select_restricted_Inr:
  "select_restricted hs el ss seen w sp = Inr (w', sp') \<Longrightarrow> length w = 6 \<Longrightarrow>
   \<exists>new. sp' = sp @ new \<and> length w' = 6 \<and> distinct (map fst new) \<and> fst ` set new \<inter> set seen = {} \<and>
     (\<forall>gid a i. (gid, a) \<in> set new \<longrightarrow> i < 6 \<longrightarrow> amount_slots a ! i \<le> held gid i hs) \<and>
     (new = [] \<longrightarrow> w' = w)"
proof (induction ss arbitrary: seen w sp)
  case Nil
  then show ?case by simp
next
  case (Cons s ss)
  let ?gid = "selection_group s" and ?a = "selection_amount s"
  obtain available where fresh: "?gid \<notin> set seen" and avail: "group_total ?gid hs no_amount = Some available"
    and le: "\<not> exceeds ?a available"
    and run: "select_restricted hs el ss (?gid # seen) (map2 saturating_add w (amount_slots ?a))
      (sp @ [(?gid, ?a)]) = Inr (w', sp')"
    using Cons.prems(1) by (auto simp: Let_def split: if_splits option.splits)
  have amount: "amount_slots ?a ! i \<le> held ?gid i hs" if "i < 6" for i
  proof -
    have "amount_slots ?a ! i \<le> amount_slots available ! i"
      using le that by (simp add: exceeds_iff below_iff)
    then show ?thesis using group_total_Some [OF avail that] that by (simp add: amount_slots_none)
  qed
  obtain new where "sp' = (sp @ [(?gid, ?a)]) @ new" "length w' = 6" "distinct (map fst new)"
    "fst ` set new \<inter> set (?gid # seen) = {}"
    "\<forall>gid a i. (gid, a) \<in> set new \<longrightarrow> i < 6 \<longrightarrow> amount_slots a ! i \<le> held gid i hs"
    using Cons.IH [OF run] Cons.prems(2) by auto
  then show ?case
    using fresh amount by (intro exI [of _ "(?gid, ?a) # new"]) auto
qed

lemma need_pip_life:
  "need_pip x pip ph n = Inr n' \<Longrightarrow> need_life n' \<le> need_life n + 2"
  by (auto simp: need_pip_def need_one_def need_flexible_def need_phyrexian_def checked_add_Some_iff
      split: mana_symbol.splits option.splits phyrexian_payment.splits)

lemma collect_needs_life:
  "collect_needs x pips phs n = Inr n' \<Longrightarrow> need_life n' \<le> need_life n + 2 * length pips"
proof (induction x pips phs n rule: collect_needs.induct)
  case (1 x pip pips ph phs n)
  then obtain n1 where "need_pip x pip ph n = Inr n1" "collect_needs x pips phs n1 = Inr n'"
    by (auto split: sum.splits)
  then show ?case using "1.IH" need_pip_life by fastforce
qed auto

text \<open>The parts of a successful plan.\<close>

lemma plan_parts:
  assumes "plan_mana_payment_with_any_color pl cost x extra reduction flexes sels eligible any = Inr plan"
  obtains n r spent where "plan = make_plan pl n spent r"
    and "need_life n \<le> 2 * length cost" and "need_life n = 0 \<or> as_i32 (need_life n) \<le> life pl"
    and "below r (amount_slots (mana_pool pl))" and "distinct (map fst spent)"
    and "\<And>gid a i. (gid, a) \<in> set spent \<Longrightarrow> i < 6 \<Longrightarrow> amount_slots a ! i \<le> held gid i (restricted_mana pl)"
proof -
  let ?u = "amount_slots (mana_pool pl)"
  obtain phs n working spent r where n: "collect_needs x cost phs (no_needs extra) = Inr n"
    and life: "\<not> (0 < need_life n \<and> life pl < as_i32 (need_life n))"
    and sel: "select_restricted (restricted_mana pl) eligible sels [] ?u [] = Inr (working, spent)"
    and solved: "(if any then solve_any_color cost x extra reduction flexes (spent = []) ?u working
       else solve_by_color n (saturating_sub (need_generic n) reduction) (spent = []) ?u working) = Inr r"
    and plan: "plan = make_plan pl n spent r"
    using assms unfolding plan_mana_payment_with_any_color_def
    by (auto simp: Let_def split: sum.splits if_splits)
  have s: "length working = 6" "distinct (map fst spent)" "spent = [] \<Longrightarrow> working = ?u"
    "\<And>gid a i. (gid, a) \<in> set spent \<Longrightarrow> i < 6 \<Longrightarrow> amount_slots a ! i \<le> held gid i (restricted_mana pl)"
    using select_restricted_Inr [OF sel] by auto
  have "below r ?u"
  proof (cases any)
    case True
    then obtain ds where "try_demands (spent = []) ?u working ds = Some (Some r)"
      using solved by (auto simp: solve_any_color_def split: sum.splits option.splits)
    then show ?thesis using try_demands_below s(1,3) by simp
  next
    case False
    then obtain w' where w': "pay_fixed [0..<6] (need_color n) working = Some w'"
      "run_solver (spent = []) ?u w' (need_flex n) (saturating_sub (need_generic n) reduction) = Some (Some r)"
      using solved by (auto simp: solve_by_color_def split: option.splits)
    have "below w' working" by (rule pay_fixed_below [OF w'(1)])
    then show ?thesis
      using run_solver_below [OF w'(2)] s(1,3) below_length by (metis length_amount_slots)
  qed
  moreover have "need_life n \<le> 2 * length cost"
    using collect_needs_life [OF n] by (simp add: no_needs_def)
  ultimately show thesis using that [OF plan] life s(2,4) by force
qed

lemma map2_min_below: "length p = 6 \<Longrightarrow> length q = 6 \<Longrightarrow> below (map2 min p q) q"
  by (simp add: below_iff)

text \<open>C7: A plan that was just made is valid and can be committed without a panic; committing sets
  the ordinary pool to what the plan leaves of it, never more than was there, keeps the retained
  combat mana within the pool, takes exactly the selected amounts from every restriction group and
  the life cost from the life total.\<close>

theorem plan_commit:
  assumes "plan_mana_payment_with_any_color pl cost x extra reduction flexes sels eligible any = Inr plan"
    and "small (restricted_mana pl)" and "is_int32 (life pl)" and "length cost \<le> 1073741823"
  shows "mana_payment_still_valid (Some pl) plan \<and>
    (\<exists>pl'. commit_mana_payment plan pl = Some pl' \<and>
      amount_slots (mana_pool pl') = remaining plan \<and>
      below (amount_slots (mana_pool pl')) (amount_slots (mana_pool pl)) \<and>
      below (amount_slots (retained_combat_mana pl')) (amount_slots (mana_pool pl')) \<and>
      life pl' = life pl - int (life_cost plan) \<and>
      (\<forall>g j. j < 6 \<longrightarrow> held g j (restricted_mana pl') + debit g j (restricted_spent plan) = held g j (restricted_mana pl)))"
proof -
  obtain n spent r where plan: "plan = make_plan pl n spent r"
    and cost: "need_life n \<le> 2 * length cost" "need_life n = 0 \<or> as_i32 (need_life n) \<le> life pl"
    and r: "below r (amount_slots (mana_pool pl))" and d: "distinct (map fst spent)"
    and le: "\<And>gid a i. (gid, a) \<in> set spent \<Longrightarrow> i < 6 \<Longrightarrow> amount_slots a ! i \<le> held gid i (restricted_mana pl)"
    by (rule plan_parts [OF assms(1)]) (rule that)
  have len: "length r = 6" using below_length [OF r] by simp
  obtain es where es: "spend_restricted spent (restricted_mana pl) = Some es"
    "\<forall>g j. j < 6 \<longrightarrow> held g j es + debit g j spent = held g j (restricted_mana pl)"
    using spend_restricted_debits [OF assms(2) d] le by blast
  have i32: "as_i32 (need_life n) = int (need_life n)" using cost(1) assms(4) by (simp add: as_i32_def)
  let ?m = "pool_of (map2 min (amount_slots (retained_combat_mana pl)) r)"
  let ?pl = "pl\<lparr>mana_pool := pool_of r, retained_combat_mana := ?m, restricted_mana := es\<rparr>"
  have "commit_mana_payment plan pl = commit_life_change (- int (need_life n)) ?pl"
    by (simp add: commit_mana_payment_def plan make_plan_def Let_def es(1) i32)
  moreover have "\<exists>pl'. commit_life_change (- int (need_life n)) ?pl = Some pl' \<and>
      mana_pool pl' = pool_of r \<and> retained_combat_mana pl' = ?m \<and> restricted_mana pl' = es \<and>
      life pl' = life pl - int (need_life n)"
    using cost(2) i32 assms(3) by (auto simp: commit_life_change_def is_int32_def int32_min_def)
  ultimately obtain pl' where pl': "commit_mana_payment plan pl = Some pl'" "mana_pool pl' = pool_of r"
    "retained_combat_mana pl' = ?m" "restricted_mana pl' = es" "life pl' = life pl - int (need_life n)"
    by auto
  have valid: "mana_payment_still_valid (Some pl) plan"
    by (simp add: mana_payment_still_valid_def plan make_plan_def Let_def)
  have kept: "below (amount_slots (retained_combat_mana pl')) (amount_slots (mana_pool pl'))"
    using map2_min_below [of "amount_slots (retained_combat_mana pl)" r] len by (simp add: pl')
  have pool: "amount_slots (mana_pool pl') = r" using pl'(2) len by simp
  have fields: "remaining plan = r" "life_cost plan = need_life n" "restricted_spent plan = spent"
    by (simp_all add: plan make_plan_def Let_def)
  show ?thesis
    unfolding fields using valid kept pl'(1,5) es(2) r
    by (intro conjI exI [of _ pl']) (simp_all add: pool pl'(4))
qed

definition example_payer :: player where
  "example_payer = \<lparr>mana_pool = pool_of [2, 0, 0, 0, 0, 1], retained_combat_mana = no_amount, life = 20,
     restricted_mana = [\<lparr>restriction_group_id = 7, contribution_amount = pool_of [0, 0, 0, 0, 2, 0]\<rparr>],
     life_gained = 0, life_lost = 0\<rparr>"

definition example_cost :: mana_cost where
  "example_cost = [ManaW, Generic 2, HybridPhyrexian PipW PipG]"

definition example_plan :: "engine_error + payment_plan" where
  "example_plan = plan_mana_payment_with_any_color example_payer example_cost 0 0 0
     [\<lparr>pip_index = 2, pay_life = True, mana_color = 0\<rparr>]
     [\<lparr>selection_group = 7, selection_amount = pool_of [0, 0, 0, 0, 1, 0]\<rparr>] [7] False"

text \<open>The stages of the example, evaluated one by one.\<close>

lemma example_stages:
  "validated_phyrexian_choices example_cost [\<lparr>pip_index = 2, pay_life = True, mana_color = 0\<rparr>] =
     Inr [None, None, Some PayLife]"
  "collect_needs 0 example_cost [None, None, Some PayLife] (no_needs 0) =
     Inr \<lparr>need_color = [1, 0, 0, 0, 0, 0], need_generic = 2, need_life = 2, need_symbols = 1, need_flex = []\<rparr>"
  "select_restricted (restricted_mana example_payer) [7]
     [\<lparr>selection_group = 7, selection_amount = pool_of [0, 0, 0, 0, 1, 0]\<rparr>] [] [2, 0, 0, 0, 0, 1] [] =
     Inr ([2, 0, 0, 0, 1, 1], [(7, pool_of [0, 0, 0, 0, 1, 0])])"
  "amount_slots (mana_pool example_payer) = [2, 0, 0, 0, 0, 1]"
  "saturating_sub 2 0 = 2" "life example_payer < as_i32 2 \<longleftrightarrow> False"
  by code_simp+

lemma example_solved:
  "pay_fixed [0..<6] [1, 0, 0, 0, 0, 0] [2, 0, 0, 0, 1, 1] = Some [1, 0, 0, 0, 1, 1]"
  "force_spend [0..<6] [2, 0, 0, 0, 0, 1] [1, 0, 0, 0, 1, 1] 2 = Some ([1, 0, 0, 0, 0, 1], 1)"
  "drain drain_order [1, 0, 0, 0, 0, 1] 1 = ([1, 0, 0, 0, 0, 0], 0)"
  "within_max [2, 0, 0, 0, 0, 1] [1, 0, 0, 0, 0, 0]"
  by code_simp+

lemma example_plan_run:
  "\<exists>plan. example_plan = Inr plan \<and> life_cost plan = 2 \<and> remaining plan = [1, 0, 0, 0, 0, 0]"
  unfolding example_plan_def plan_mana_payment_with_any_color_def example_stages sum.case need.simps
    solve_by_color_def run_solver_def solve_flex_with_required_spend.simps settle_required_def
    Let_def prod.case
  by (simp add: example_stages example_solved solve_by_color_def run_solver_def settle_required_def make_plan_def
      Let_def del: One_nat_def)

theorem plan_commit_witness:
  "\<exists>plan pl'. example_plan = Inr plan \<and> life_cost plan = 2 \<and> remaining plan = [1, 0, 0, 0, 0, 0] \<and>
     commit_mana_payment plan example_payer = Some pl' \<and> life pl' = 18 \<and>
     amount_slots (mana_pool pl') = [1, 0, 0, 0, 0, 0]"
proof -
  obtain plan where plan: "example_plan = Inr plan" "life_cost plan = 2" "remaining plan = [1, 0, 0, 0, 0, 0]"
    using example_plan_run by blast
  have ok: "small (restricted_mana example_payer)" "is_int32 (life example_payer)"
    "length example_cost \<le> 1073741823" and twenty: "life example_payer = 20"
    by (simp_all add: example_payer_def example_cost_def small_def is_int32_def int32_min_def
        int32_max_def u32_max_def)
  obtain pl' where "commit_mana_payment plan example_payer = Some pl'"
    "amount_slots (mana_pool pl') = remaining plan" "life pl' = life example_payer - int (life_cost plan)"
    using plan_commit [OF plan(1) [unfolded example_plan_def] ok] by blast
  with plan twenty show ?thesis by auto
qed

end
