(* ===== verification/PaymentAgree.thy ===== *)
theory PaymentAgree
  imports PaymentCommit
begin

text \<open>
  Two parts of the engine decide whether a spell can be paid for: the automatic plan of
  \<open>payment/mana.rs\<close>, which collects needs and searches, and the normalised demands of
  \<open>payment/demand.rs\<close>, which the previews and Convoke use. Here they are shown to agree when no
  reduction meets a monocoloured hybrid symbol, and to differ otherwise.
\<close>

section \<open>Demands that a pool can pay\<close>

definition covers :: "pool_vec \<Rightarrow> demand \<Rightarrow> bool" where
  "covers p d \<longleftrightarrow> (\<forall>i < 6. amounts d ! i \<le> p ! i) \<and> sum_list (amounts d) \<le> sum_list p"

lemma sum_list_charge_mono: "sum_list (amounts d) \<le> sum_list (amounts (charge p d))"
proof -
  obtain slot k where p: "p = (slot, k)" by (cases p)
  show ?thesis
  proof (cases "slot < length (amounts d)")
    case True
    then have "sum_list ((amounts d)[slot := amounts d ! slot + k]) + amounts d ! slot =
        sum_list (amounts d) + (amounts d ! slot + k)"
      by (rule sum_list_update_nat)
    then show ?thesis by (simp add: p charge_def)
  qed (simp add: p charge_def not_less list_update_beyond)
qed

lemma covers_charge_mono:
  assumes "array_ok d" "covers p (charge o1 d)"
  shows "covers p d"
proof -
  have "amounts d ! i \<le> p ! i" if "i < 6" for i
    using charge_grows(2) [of i d o1] assms that by (force simp: covers_def array_ok_def)
  moreover have "sum_list (amounts d) \<le> sum_list p"
    using sum_list_charge_mono [of d o1] assms(2) by (simp add: covers_def)
  ultimately show ?thesis by (simp add: covers_def)
qed

lemma array_ok_fold [simp]: "array_ok d \<Longrightarrow> array_ok (fold charge sel d)"
  by (induction sel arbitrary: d) auto

lemma covers_fold_mono: "array_ok d \<Longrightarrow> covers p (fold charge sel d) \<Longrightarrow> covers p d"
proof (induction sel arbitrary: d)
  case (Cons o1 sel)
  have "covers p (charge o1 d)"
    by (rule Cons.IH) (use Cons.prems in \<open>simp_all\<close>)
  then show ?case by (rule covers_charge_mono [OF Cons.prems(1)])
qed simp

lemma update_commute:
  "(xs[i := xs ! i + a])[j := (xs[i := xs ! i + a]) ! j + b] =
   (xs[j := xs ! j + b])[i := (xs[j := xs ! j + b]) ! i + (a :: nat)]"
proof (cases "i = j")
  case True
  then show ?thesis by (cases "i < length xs") (simp_all add: not_less list_update_beyond ac_simps)
next
  case False
  then show ?thesis by (simp add: list_update_swap)
qed

lemma charge_commute: "charge p (charge q d) = charge q (charge p d)"
proof -
  obtain i a j b where pq: "p = (i, a)" "q = (j, b)" by (cases p, cases q) blast
  show ?thesis
    unfolding pq by (auto simp: charge_def update_commute [of "amounts d" j b i a])
qed

lemma fold_charge_commute: "fold charge sel (charge p d) = charge p (fold charge sel d)"
  by (induction sel arbitrary: d) (simp_all add: charge_commute [of _ p])

section \<open>The solver and the demands of its symbols\<close>

fun flex_sides :: "flex_pip \<Rightarrow> (nat \<times> u32) list" where
  "flex_sides (FlexHybrid a b) = [(color_index a, 1), (color_index b, 1)]"
| "flex_sides (FlexMono n c) = [(color_index c, 1), (6, n)]"
| "flex_sides (FlexColor c) = [(color_index c, 1)]"

definition pool_minus :: "pool_vec \<Rightarrow> pool_vec \<Rightarrow> pool_vec" where
  "pool_minus p c = map2 (-) p c"

lemma length_pool_minus [simp]: "length p = 6 \<Longrightarrow> length c = 6 \<Longrightarrow> length (pool_minus p c) = 6"
  by (simp add: pool_minus_def)

lemma nth_pool_minus [simp]: "length p = 6 \<Longrightarrow> length c = 6 \<Longrightarrow> i < 6 \<Longrightarrow> pool_minus p c ! i = p ! i - c ! i"
  by (simp add: pool_minus_def)

lemma sum_pool_minus:
  assumes "below c p"
  shows "sum_list (pool_minus p c) + sum_list c = sum_list p"
proof -
  have "list_all2 (\<le>) c p" using assms by (simp add: below_def)
  then show ?thesis unfolding pool_minus_def by (induction rule: list_all2_induct) auto
qed

lemma color_index_6 [simp]: "color_index c < 6" "color_index c < 7" "color_index c \<noteq> 6" "color_index c \<noteq> 7"
  by (cases c; simp)+

lemma charge_color:
  "length c = 6 \<Longrightarrow> i < 6 \<Longrightarrow> charge (i, k) (Demand (c @ [g]) l) = Demand (c[i := c ! i + k] @ [g]) l"
  by (simp add: charge_def list_update_append nth_append)

lemma charge_generic: "length c = 6 \<Longrightarrow> charge (6, k) (Demand (c @ [g]) l) = Demand (c @ [g + k]) l"
  by (simp add: charge_def list_update_append nth_append)

lemma spend_pool_minus:
  assumes "length p = 6" "length c = 6" "i < 6"
  shows "spend i (pool_minus p c) = pool_minus p (c[i := c ! i + 1])"
  using assms by (intro nth_equalityI) (auto simp: spend_def nth_list_update)

lemma covers_color_iff:
  assumes "length p = 6" "length c = 6" "i < 6" "below c p"
  shows "covers p (Demand (c[i := c ! i + 1] @ [g]) l) \<Longrightarrow> 0 < pool_minus p c ! i \<and> below (c[i := c ! i + 1]) p"
    and "0 < pool_minus p c ! i \<Longrightarrow> below (c[i := c ! i + 1]) p"
  using assms by (auto simp: covers_def below_iff nth_append nth_list_update split: if_splits)

lemma resolves_covers:
  assumes "length p = 6" "length c = 6" "below c p"
  shows "(\<exists>p' g'. resolves fs (pool_minus p c) g p' g' \<and> g' \<le> sum_list p') \<longleftrightarrow>
    (\<exists>sel \<in> set (product_lists (map flex_sides fs)). covers p (fold charge sel (Demand (c @ [g]) l)))"
  using assms(2,3)
proof (induction fs arbitrary: c g)
  case Nil
  have "covers p (Demand (c @ [g]) l) \<longleftrightarrow> g \<le> sum_list (pool_minus p c)"
    using sum_pool_minus [OF Nil(2)] Nil assms(1) by (auto simp: covers_def below_iff nth_append)
  then show ?case by simp
next
  case (Cons f fs)
  let ?d = "Demand (c @ [g]) l"
  define R where "R q h \<longleftrightarrow> (\<exists>p' g'. resolves fs q h p' g' \<and> g' \<le> sum_list p')" for q h
  define C where "C d \<longleftrightarrow> (\<exists>sel \<in> set (product_lists (map flex_sides fs)). covers p (fold charge sel d))" for d
  have ok: "array_ok (Demand (c' @ [g']) l)" if "length c' = 6" for c' g'
    using that by (simp add: array_ok_def)
  have color: "0 < pool_minus p c ! color_index a \<and> R (spend (color_index a) (pool_minus p c)) g \<longleftrightarrow>
      C (charge (color_index a, 1) ?d)" for a
  proof -
    let ?c = "c[color_index a := c ! color_index a + 1]"
    have "C (Demand (?c @ [g]) l) \<Longrightarrow> covers p (Demand (?c @ [g]) l)"
      unfolding C_def using covers_fold_mono ok [of ?c] Cons.prems(1) by auto
    moreover have "R (pool_minus p ?c) g \<longleftrightarrow> C (Demand (?c @ [g]) l)" if "below ?c p"
      unfolding R_def C_def using Cons.IH [of ?c g] Cons.prems(1) that by simp
    ultimately show ?thesis
      using covers_color_iff [OF assms(1) Cons.prems(1) color_index_6(1) Cons.prems(2)] Cons.prems(1)
      by (simp add: charge_color spend_pool_minus assms(1)) blast
  qed
  have gen: "R (pool_minus p c) (g + n) \<longleftrightarrow> C (charge (6, n) ?d)" for n
    unfolding R_def C_def using Cons.IH [of c "g + n"] Cons.prems by (simp add: charge_generic)
  have expand: "(\<exists>sel \<in> set (product_lists (map flex_sides (f # fs))). covers p (fold charge sel ?d)) \<longleftrightarrow>
      (\<exists>o1 \<in> set (flex_sides f). C (charge o1 ?d))"
    unfolding C_def by auto
  show ?case
    unfolding expand
  proof (cases f)
    case (FlexHybrid a b)
    show "(\<exists>p' g'. resolves (f # fs) (pool_minus p c) g p' g' \<and> g' \<le> sum_list p') \<longleftrightarrow>
        (\<exists>o1 \<in> set (flex_sides f). C (charge o1 ?d))"
      using color [of a] color [of b] FlexHybrid unfolding R_def by auto
  next
    case (FlexMono n a)
    show "(\<exists>p' g'. resolves (f # fs) (pool_minus p c) g p' g' \<and> g' \<le> sum_list p') \<longleftrightarrow>
        (\<exists>o1 \<in> set (flex_sides f). C (charge o1 ?d))"
      using color [of a] gen [of n] FlexMono unfolding R_def by auto
  next
    case (FlexColor a)
    show "(\<exists>p' g'. resolves (f # fs) (pool_minus p c) g p' g' \<and> g' \<le> sum_list p') \<longleftrightarrow>
        (\<exists>o1 \<in> set (flex_sides f). C (charge o1 ?d))"
      using color [of a] FlexColor unfolding R_def by auto
  qed
qed

section \<open>Collecting needs\<close>

definition need_base :: "need \<Rightarrow> demand" where
  "need_base n = Demand (need_color n @ [need_generic n]) (need_life n)"

definition need_set :: "need \<Rightarrow> demand set" where
  "need_set n = (\<lambda>sel. fold charge sel (need_base n)) ` set (product_lists (map flex_sides (need_flex n)))"

definition need_ok :: "need \<Rightarrow> bool" where
  "need_ok n \<longleftrightarrow> length (need_color n) = 6 \<and> need_life n = 2 * need_symbols n"

lemma product_lists_snoc:
  "set (product_lists (xss @ [ys])) = (\<Union>xs \<in> set (product_lists xss). (\<lambda>y. xs @ [y]) ` set ys)"
  by (induction xss) (auto simp: image_iff)

lemma flex_sides_nonempty: "product_lists (map flex_sides fs) \<noteq> []"
  by (rule product_lists_nonempty) (auto simp: list_all_iff elim: flex_sides.elims)

lemma need_set_nonempty: "\<exists>sel. fold charge sel (need_base n) \<in> need_set n"
  using flex_sides_nonempty [of "need_flex n"] by (cases "product_lists (map flex_sides (need_flex n))")
    (auto simp: need_set_def)

lemma need_set_charge:
  "need_base n' = charge o1 (need_base n) \<Longrightarrow> need_flex n' = need_flex n \<Longrightarrow>
   need_set n' = (\<Union>d \<in> need_set n. (\<lambda>p. charge p d) ` {o1})"
  by (auto simp: need_set_def fold_charge_commute)

lemma need_set_flexible:
  "need_set (need_flexible f n) = (\<Union>d \<in> need_set n. (\<lambda>p. charge p d) ` set (flex_sides f))"
  by (simp add: need_set_def need_flexible_def need_base_def product_lists_snoc image_UN image_image)

lemma fits_base:
  assumes "\<forall>d \<in> need_set n. fits (charge o1 d)"
  shows "fits (charge o1 (need_base n))"
proof -
  obtain sel where "fold charge sel (need_base n) \<in> need_set n" using need_set_nonempty by blast
  with assms have "fits (fold charge sel (charge o1 (need_base n)))" by (simp add: fold_charge_commute)
  then show ?thesis by (rule fits_fold_mono)
qed

lemma need_one_step:
  assumes "need_ok n" "i < 6" "\<forall>d \<in> need_set n. fits (charge (i, 1) d)"
  shows "\<exists>n'. need_one i n = Inr n' \<and> need_ok n' \<and>
    need_set n' = (\<Union>d \<in> need_set n. (\<lambda>p. charge p d) ` {(i, 1)})"
proof -
  have base: "charge (i, 1) (need_base n) = Demand ((need_color n)[i := need_color n ! i + 1] @ [need_generic n]) (need_life n)"
    using assms(1,2) by (simp add: need_base_def charge_color need_ok_def)
  have "need_color n ! i + 1 \<le> u32_max"
    using fits_base [OF assms(3)] assms(1,2) unfolding base
    by (auto simp: fits_def need_ok_def list_all_length nth_append dest: spec [of _ i])
  then show ?thesis
    using assms(1) base need_set_charge [of "n\<lparr>need_color := (need_color n)[i := need_color n ! i + 1]\<rparr>" "(i, 1)" n]
    by (auto simp: need_one_def checked_add_def need_ok_def need_base_def)
qed

lemma need_generic_step:
  assumes "need_ok n" "\<forall>d \<in> need_set n. fits (charge (6, k) d)"
  shows "\<exists>n'. n\<lparr>need_generic := saturating_add (need_generic n) k\<rparr> = n' \<and> need_ok n' \<and>
    need_set n' = (\<Union>d \<in> need_set n. (\<lambda>p. charge p d) ` {(6, k)})"
proof -
  have base: "charge (6, k) (need_base n) = Demand (need_color n @ [need_generic n + k]) (need_life n)"
    using assms(1) by (simp add: need_base_def charge_generic need_ok_def)
  have "need_generic n + k \<le> u32_max"
    using fits_base [OF assms(2)] unfolding base by (simp add: fits_def)
  then have "saturating_add (need_generic n) k = need_generic n + k" by (simp add: saturating_add_def)
  then show ?thesis
    using assms(1) base need_set_charge [of "n\<lparr>need_generic := need_generic n + k\<rparr>" "(6, k)" n]
    by (simp add: need_ok_def need_base_def)
qed

lemma need_life_step:
  assumes "need_ok n" "\<forall>d \<in> need_set n. fits (charge (7, 2) d)"
  shows "\<exists>n'. need_phyrexian (Some PayLife) n = Inr n' \<and> need_ok n' \<and>
    need_set n' = (\<Union>d \<in> need_set n. (\<lambda>p. charge p d) ` {(7, 2)})"
proof -
  have base: "charge (7, 2) (need_base n) = Demand (need_color n @ [need_generic n]) (need_life n + 2)"
    by (simp add: need_base_def charge_def)
  have "need_life n + 2 \<le> u32_max" using fits_base [OF assms(2)] unfolding base by (simp add: fits_def)
  then have "need_phyrexian (Some PayLife) n =
      Inr (n\<lparr>need_life := need_life n + 2, need_symbols := need_symbols n + 1\<rparr>)"
    using assms(1) by (simp add: need_phyrexian_def checked_add_def need_ok_def)
  then show ?thesis
    using assms(1) base
      need_set_charge [of "n\<lparr>need_life := need_life n + 2, need_symbols := need_symbols n + 1\<rparr>" "(7, 2)" n]
    by (simp add: need_ok_def need_base_def)
qed

lemma need_ok_flexible [simp]: "need_ok (need_flexible f n) = need_ok n"
  by (simp add: need_ok_def need_flexible_def)

lemma need_phyrexian_step:
  assumes "need_ok n" "pip_options x pip ph = Some opts" "\<exists>a b. pip = Phyrexian a \<or> pip = HybridPhyrexian a b"
    "\<forall>d \<in> need_set n. \<forall>o1 \<in> set opts. fits (charge o1 d)"
  shows "\<exists>n'. need_phyrexian ph n = Inr n' \<and> need_ok n' \<and>
    need_set n' = (\<Union>d \<in> need_set n. (\<lambda>p. charge p d) ` set opts)"
proof (cases ph)
  case None
  then show ?thesis using assms(2,3) by (auto simp: pip_options_def)
next
  case (Some b)
  show ?thesis
  proof (cases b)
    case (PayMana c)
    then have "set opts = set (flex_sides (FlexColor c))"
      using assms(2,3) Some by (auto simp: pip_options_def)
    then show ?thesis using Some PayMana assms(1) need_set_flexible [of "FlexColor c" n]
      by (simp add: need_phyrexian_def)
  next
    case PayLife
    then have "opts = [(7, 2)]" using assms(2,3) Some by (auto simp: pip_options_def)
    then show ?thesis using need_life_step [OF assms(1)] assms(4) Some PayLife by simp
  qed
qed

lemma need_pip_step:
  assumes "need_ok n" "pip_options x pip ph = Some opts"
    "\<forall>d \<in> need_set n. \<forall>o1 \<in> set opts. fits (charge o1 d)"
  shows "\<exists>n'. need_pip x pip ph n = Inr n' \<and> need_ok n' \<and>
    need_set n' = (\<Union>d \<in> need_set n. (\<lambda>p. charge p d) ` set opts)"
proof -
  note fixed = need_one_step [OF assms(1)] and gen = need_generic_step [OF assms(1)]
    and phy = need_phyrexian_step [OF assms(1,2) _ assms(3)]
  show ?thesis
  proof (cases pip)
    case ManaW with assms fixed [of 0] show ?thesis by (auto simp: need_pip_def pip_options_def)
  next
    case ManaU with assms fixed [of 1] show ?thesis by (auto simp: need_pip_def pip_options_def)
  next
    case ManaB with assms fixed [of 2] show ?thesis by (auto simp: need_pip_def pip_options_def)
  next
    case ManaR with assms fixed [of 3] show ?thesis by (auto simp: need_pip_def pip_options_def)
  next
    case ManaG with assms fixed [of 4] show ?thesis by (auto simp: need_pip_def pip_options_def)
  next
    case ManaC with assms fixed [of 5] show ?thesis by (auto simp: need_pip_def pip_options_def pool_c_def)
  next
    case (Generic k) with assms gen [of k] show ?thesis by (auto simp: need_pip_def pip_options_def)
  next
    case ManaX with assms gen [of x] show ?thesis by (auto simp: need_pip_def pip_options_def)
  next
    case (Hybrid a b) with assms(1,2) show ?thesis
      by (auto simp: need_pip_def pip_options_def need_set_flexible)
  next
    case (MonoHybrid k c) with assms(1,2) show ?thesis
      by (auto simp: need_pip_def pip_options_def need_set_flexible)
  next
    case (Phyrexian c) with phy show ?thesis by (simp add: need_pip_def)
  next
    case (HybridPhyrexian a b) with phy show ?thesis by (simp add: need_pip_def)
  qed
qed

lemma collect_needs_step:
  assumes "all_sides x pips phs = Some os" "need_ok n"
    "\<forall>d \<in> need_set n. \<forall>sel \<in> set (product_lists os). fits (fold charge sel d)"
  shows "\<exists>n'. collect_needs x pips phs n = Inr n' \<and> need_ok n' \<and>
    need_set n' = (\<Union>d \<in> need_set n. (\<lambda>sel. fold charge sel d) ` set (product_lists os))"
  using assms
proof (induction x pips phs arbitrary: os n rule: all_sides.induct)
  case (1 x pip pips ph phs)
  then obtain o1 os' where o: "pip_options x pip ph = Some o1" "all_sides x pips phs = Some os'"
    "os = o1 # os'"
    by (auto split: option.splits)
  obtain sel0 where sel0: "sel0 \<in> set (product_lists os')"
    using product_lists_nonempty [OF all_sides_nonempty [OF o(2)]] by (cases "product_lists os'") auto
  have "fits (charge p d)" if "d \<in> need_set n" "p \<in> set o1" for d p
  proof -
    have "p # sel0 \<in> set (product_lists os)" using that(2) sel0 by (auto simp: o(3))
    with "1.prems"(3) that(1) have "fits (fold charge (p # sel0) d)" by blast
    then show ?thesis using fits_fold_mono by simp
  qed
  then obtain n1 where n1: "need_pip x pip ph n = Inr n1" "need_ok n1"
    "need_set n1 = (\<Union>d \<in> need_set n. (\<lambda>p. charge p d) ` set o1)"
    using need_pip_step [OF "1.prems"(2) o(1)] by blast
  have "\<forall>d \<in> need_set n1. \<forall>sel \<in> set (product_lists os'). fits (fold charge sel d)"
    using "1.prems"(3) by (auto simp: n1(3) o(3))
  from "1.IH" [OF o(2) n1(2) this] obtain n' where "collect_needs x pips phs n1 = Inr n'" "need_ok n'"
    "need_set n' = (\<Union>d \<in> need_set n1. (\<lambda>sel. fold charge sel d) ` set (product_lists os'))"
    by blast
  then show ?case
    using n1(1) unfolding o(3) fold_product_lists by (simp add: n1(3))
qed auto

section \<open>Agreement\<close>

fun is_mono :: "mana_symbol \<Rightarrow> bool" where
  "is_mono (MonoHybrid _ _) \<longleftrightarrow> True"
| "is_mono _ \<longleftrightarrow> False"

fun is_flex_mono :: "flex_pip \<Rightarrow> bool" where
  "is_flex_mono (FlexMono _ _) \<longleftrightarrow> True"
| "is_flex_mono _ \<longleftrightarrow> False"

lemma need_pip_mono:
  "need_pip x pip ph n = Inr n' \<Longrightarrow> \<not> is_mono pip \<Longrightarrow> \<not> list_ex is_flex_mono (need_flex n) \<Longrightarrow>
   \<not> list_ex is_flex_mono (need_flex n')"
  by (auto simp: need_pip_def need_one_def need_flexible_def need_phyrexian_def
      split: mana_symbol.splits option.splits phyrexian_payment.splits)

lemma collect_needs_mono:
  "collect_needs x pips phs n = Inr n' \<Longrightarrow> \<not> list_ex is_mono pips \<Longrightarrow>
   \<not> list_ex is_flex_mono (need_flex n) \<Longrightarrow> \<not> list_ex is_flex_mono (need_flex n')"
proof (induction x pips phs n rule: collect_needs.induct)
  case (1 x pip pips ph phs n)
  then obtain n1 where "need_pip x pip ph n = Inr n1" "collect_needs x pips phs n1 = Inr n'"
    by (auto split: sum.splits)
  then show ?case using "1.IH" need_pip_mono [of x pip ph n n1] "1.prems"(2,3) by simp
qed auto

lemma reduce_charge:
  assumes "array_ok d" "slot \<noteq> 6"
  shows "reduce_generic r (charge (slot, k) d) = charge (slot, k) (reduce_generic r d)"
  using assms by (auto simp: reduce_generic_def charge_def list_update_swap)

lemma reduce_zero [simp]: "reduce_generic 0 d = d"
  by (simp add: reduce_generic_def saturating_sub_def)

lemma flex_sides_no_generic: "\<not> is_flex_mono f \<Longrightarrow> p \<in> set (flex_sides f) \<Longrightarrow> fst p \<noteq> 6"
  by (cases f) auto

lemma reduce_fold:
  "array_ok d \<Longrightarrow> r = 0 \<or> \<not> list_ex is_flex_mono fs \<Longrightarrow> sel \<in> set (product_lists (map flex_sides fs)) \<Longrightarrow>
   reduce_generic r (fold charge sel d) = fold charge sel (reduce_generic r d)"
proof (induction fs arbitrary: sel d)
  case Nil
  then show ?case by simp
next
  case (Cons f fs)
  show ?case
  proof (cases "r = 0")
    case False
    then obtain p sel' where sel: "sel = p # sel'" "p \<in> set (flex_sides f)"
      "sel' \<in> set (product_lists (map flex_sides fs))"
      using Cons.prems(3) by auto
    have "fst p \<noteq> 6" using flex_sides_no_generic [OF _ sel(2)] Cons.prems(2) False by simp
    then show ?thesis
      using Cons.IH [of "charge p d" sel'] Cons.prems(1,2) False sel(1,3) reduce_charge [of d "fst p" r "snd p"]
      by simp
  qed simp
qed

lemma flex_sides_life: "p \<in> set (flex_sides f) \<Longrightarrow> fst p \<noteq> 7"
  by (cases f) auto

lemma fold_charge_life:
  "sel \<in> set (product_lists (map flex_sides fs)) \<Longrightarrow> due_life (fold charge sel d) = due_life d"
  by (induction fs arbitrary: sel d) (auto simp: charge_def dest: flex_sides_life)

lemma mono_total_side:
  "length c = 6 \<Longrightarrow> \<exists>sel \<in> set (product_lists (map flex_sides fs)).
     amounts (fold charge sel (Demand (c @ [g]) l)) ! 6 = g + mono_total fs"
proof (induction fs arbitrary: c g)
  case Nil
  then show ?case by (simp add: nth_append)
next
  case (Cons f fs)
  show ?case
  proof (cases f)
    case (FlexMono n a)
    obtain sel where "sel \<in> set (product_lists (map flex_sides fs))"
      "amounts (fold charge sel (Demand (c @ [g + n]) l)) ! 6 = g + n + mono_total fs"
      using Cons.IH [OF Cons.prems] by blast
    then show ?thesis
      using FlexMono Cons.prems by (intro bexI [of _ "(6, n) # sel"]) (auto simp: charge_generic)
  next
    case (FlexHybrid a b)
    obtain sel where "sel \<in> set (product_lists (map flex_sides fs))"
      "amounts (fold charge sel (Demand (c[color_index a := c ! color_index a + 1] @ [g]) l)) ! 6 = g + mono_total fs"
      using Cons.IH [of "c[color_index a := c ! color_index a + 1]" g] Cons.prems by auto
    then show ?thesis
      using FlexHybrid Cons.prems
      by (intro bexI [of _ "(color_index a, 1) # sel"]) (auto simp: charge_color)
  next
    case (FlexColor a)
    obtain sel where "sel \<in> set (product_lists (map flex_sides fs))"
      "amounts (fold charge sel (Demand (c[color_index a := c ! color_index a + 1] @ [g]) l)) ! 6 = g + mono_total fs"
      using Cons.IH [of "c[color_index a := c ! color_index a + 1]" g] Cons.prems by auto
    then show ?thesis
      using FlexColor Cons.prems
      by (intro bexI [of _ "(color_index a, 1) # sel"]) (auto simp: charge_color)
  qed
qed

lemma pay_fixed_eq:
  assumes "length p = 6" "length c = 6"
  shows "pay_fixed [0..<6] c p = (if below c p then Some (pool_minus p c) else None)"
proof -
  have six: "[0..<6] = [0, 1, 2, 3, 4, 5]" by (simp add: upt_rec)
  obtain p0 p1 p2 p3 p4 p5 c0 c1 c2 c3 c4 c5
    where p: "p = [p0, p1, p2, p3, p4, p5]" and c: "c = [c0, c1, c2, c3, c4, c5]"
    using pool_cases [OF assms(1)] pool_cases [OF assms(2)] by blast
  show ?thesis
    unfolding six p c by (auto simp: below_def pool_minus_def numeral_eq_Suc)
qed

lemma run_plain:
  assumes "length w = 6" "g + mono_total fs \<le> u32_max"
  shows "(\<exists>r. run_solver True u w fs g = Some (Some r)) \<longleftrightarrow>
    (\<exists>p' g'. resolves fs w g p' g' \<and> g' \<le> sum_list p')"
proof -
  obtain res where run: "solve_flex w fs g = Some res" using solve_flex_no_panic [OF assms(2)] by blast
  have "res = None \<longleftrightarrow> \<not> (\<exists>p' g'. resolves fs w g p' g' \<and> settle_generic p' g' \<noteq> None)"
    using plain.solve_None_iff [OF assms(2), of w] run by simp
  moreover have "settle_generic p' g' \<noteq> None \<longleftrightarrow> g' \<le> sum_list p'" if "resolves fs w g p' g'" for p' g'
    using settle_generic_None resolves_length [OF that] assms(1) by simp
  ultimately have "res \<noteq> None \<longleftrightarrow> (\<exists>p' g'. resolves fs w g p' g' \<and> g' \<le> sum_list p')" by blast
  moreover have "(\<exists>r. run_solver True u w fs g = Some (Some r)) \<longleftrightarrow> res \<noteq> None"
    by (simp add: run_solver_def run)
  ultimately show ?thesis by blast
qed

lemma solve_by_color_iff:
  assumes "need_ok n" "length u = 6" "\<forall>d \<in> need_set n. fits d"
    "reduction = 0 \<or> \<not> list_ex is_flex_mono (need_flex n)"
  shows "(\<exists>r. solve_by_color n (need_generic n - reduction) True u u = Inr r) \<longleftrightarrow>
    (\<exists>d \<in> need_set n. covers u (reduce_generic reduction d))"
proof -
  let ?c = "need_color n" and ?g = "need_generic n - reduction" and ?fs = "need_flex n"
  have len: "length ?c = 6" using assms(1) by (simp add: need_ok_def)
  have base: "reduce_generic reduction (need_base n) = Demand (?c @ [?g]) (need_life n)"
    using len by (simp add: reduce_generic_def need_base_def saturating_sub_def list_update_append nth_append)
  have ok: "array_ok (need_base n)" using len by (simp add: array_ok_def need_base_def)
  have red: "(\<exists>d \<in> need_set n. covers u (reduce_generic reduction d)) \<longleftrightarrow>
      (\<exists>sel \<in> set (product_lists (map flex_sides ?fs)).
        covers u (fold charge sel (Demand (?c @ [?g]) (need_life n))))"
    using reduce_fold [OF ok assms(4)] by (auto simp: need_set_def base)
  show ?thesis
  proof (cases "below ?c u")
    case True
    obtain sel where "sel \<in> set (product_lists (map flex_sides ?fs))"
      "amounts (fold charge sel (need_base n)) ! 6 = need_generic n + mono_total ?fs"
      using mono_total_side [OF len, of ?fs "need_generic n" "need_life n"] by (auto simp: need_base_def)
    then have "fits (fold charge sel (need_base n))" "array_ok (fold charge sel (need_base n))"
      using assms(3) ok by (auto simp: need_set_def)
    then have "need_generic n + mono_total ?fs \<le> u32_max"
      using \<open>amounts (fold charge sel (need_base n)) ! 6 = _\<close>
      by (force simp: fits_nth array_ok_def dest: spec [of _ 6])
    then have bound: "?g + mono_total ?fs \<le> u32_max" by simp
    have "(\<exists>r. solve_by_color n ?g True u u = Inr r) \<longleftrightarrow>
        (\<exists>r. run_solver True u (pool_minus u ?c) ?fs ?g = Some (Some r))"
      using True by (auto simp: solve_by_color_def pay_fixed_eq [OF assms(2) len] split: option.splits)
    also have "\<dots> \<longleftrightarrow> (\<exists>p' g'. resolves ?fs (pool_minus u ?c) ?g p' g' \<and> g' \<le> sum_list p')"
      using bound len assms(2) by (intro run_plain) simp_all
    finally show ?thesis
      unfolding red using resolves_covers [OF assms(2) len True, of ?fs ?g "need_life n"] by simp
  next
    case False
    have "\<not> covers u (fold charge sel (Demand (?c @ [?g]) (need_life n)))" for sel
    proof
      assume "covers u (fold charge sel (Demand (?c @ [?g]) (need_life n)))"
      then have "covers u (Demand (?c @ [?g]) (need_life n))"
        by (rule covers_fold_mono [rotated]) (simp add: array_ok_def len)
      then show False using False len assms(2) by (auto simp: covers_def below_iff nth_append)
    qed
    then show ?thesis
      unfolding red using False by (simp add: solve_by_color_def pay_fixed_eq [OF assms(2) len])
  qed
qed

text \<open>C2: The automatic plan and the normalised demands agree: when the demands of a cost fit in 32
  bits and no reduction meets a monocoloured hybrid symbol, a plan from the ordinary pool alone
  exists exactly when the pool covers one of the demands and the life total covers its life.\<close>

theorem plan_agrees:
  assumes "normalize cost x extra reduction flexes = Inr ds" and "extra \<le> u32_max"
    and "length cost \<le> 1073741823" and "reduction = 0 \<or> \<not> list_ex is_mono cost"
  shows "(\<exists>plan. plan_mana_payment_with_any_color pl cost x extra reduction flexes [] [] False = Inr plan) \<longleftrightarrow>
    (\<exists>d \<in> set ds. covers (amount_slots (mana_pool pl)) d \<and> (due_life d = 0 \<or> int (due_life d) \<le> life pl))"
proof -
  let ?u = "amount_slots (mana_pool pl)"
  obtain phs where val: "validated_phyrexian_choices cost flexes = Inr phs"
    using assms(1) by (auto simp: normalize_def split: sum.splits)
  let ?T = "(\<lambda>sel. fold charge sel (base_demand extra)) ` set (product_lists (sides x cost phs))"
  have T: "\<forall>d \<in> ?T. fits d" "ds = sorted_list_of_set (reduce_generic reduction ` ?T)"
    using assms(1) normalize_eq [OF assms(2), of cost x reduction flexes] val
    by (auto simp: Let_def split: if_splits)
  have base: "need_base (no_needs extra) = base_demand extra"
    by (simp add: need_base_def no_needs_def base_demand_def)
  have set0: "need_set (no_needs extra) = {base_demand extra}"
    by (simp add: need_set_def base) (simp add: no_needs_def)
  obtain n where n: "collect_needs x cost phs (no_needs extra) = Inr n" "need_ok n" "need_set n = ?T"
    using collect_needs_step [OF validated_sides [OF val, of x], of "no_needs extra"] T(1)
    unfolding set0 by (auto simp: need_ok_def no_needs_def)
  have mono: "reduction = 0 \<or> \<not> list_ex is_flex_mono (need_flex n)"
    using assms(4) collect_needs_mono [OF n(1)] by (auto simp: no_needs_def)
  have life: "due_life d = need_life n" if "d \<in> ?T" for d
    using that unfolding n(3) [symmetric] by (auto simp: need_set_def fold_charge_life need_base_def)
  have "need_life n \<le> 2 * length cost" using collect_needs_life [OF n(1)] by (simp add: no_needs_def)
  then have i32: "as_i32 (need_life n) = int (need_life n)" using assms(3) by (simp add: as_i32_def)
  have fin: "set ds = reduce_generic reduction ` ?T" using T(2) by simp
  have "(\<exists>plan. plan_mana_payment_with_any_color pl cost x extra reduction flexes [] [] False = Inr plan) \<longleftrightarrow>
      (need_life n = 0 \<or> int (need_life n) \<le> life pl) \<and>
      (\<exists>r. solve_by_color n (need_generic n - reduction) True ?u ?u = Inr r)"
    by (auto simp: plan_mana_payment_with_any_color_def val n(1) i32 Let_def saturating_sub_def
        split: sum.splits)
  also have "\<dots> \<longleftrightarrow> (need_life n = 0 \<or> int (need_life n) \<le> life pl) \<and>
      (\<exists>d \<in> ?T. covers ?u (reduce_generic reduction d))"
    using solve_by_color_iff [OF n(2) _ _ mono, of ?u] T(1) by (simp add: n(3))
  also have "\<dots> \<longleftrightarrow> (\<exists>d \<in> set ds. covers ?u d \<and> (due_life d = 0 \<or> int (due_life d) \<le> life pl))"
    unfolding fin using life by (auto simp: reduce_generic_def)
  finally show ?thesis .
qed

definition red_player :: player where
  "red_player = \<lparr>mana_pool = pool_of [0, 0, 0, 1, 0, 0], retained_combat_mana = no_amount, life = 20,
     restricted_mana = [], life_gained = 0, life_lost = 0\<rparr>"

lemma twobrid_normalized:
  "normalize [MonoHybrid 2 PipW] 0 0 0 [] =
     Inr [Demand [0, 0, 0, 0, 0, 0, 2] 0, Demand [1, 0, 0, 0, 0, 0, 0] 0]"
  "normalize [MonoHybrid 2 PipW] 0 0 1 [] =
     Inr [Demand [0, 0, 0, 0, 0, 0, 1] 0, Demand [1, 0, 0, 0, 0, 0, 0] 0]"
  by code_simp+

theorem plan_agrees_witness:
  "\<not> (\<exists>plan. plan_mana_payment_with_any_color red_player [MonoHybrid 2 PipW] 0 0 0 [] [] [] False = Inr plan)"
proof -
  have "(0 :: nat) \<le> u32_max" "length [MonoHybrid 2 PipW] \<le> 1073741823" by simp_all
  moreover have "amount_slots (mana_pool red_player) = [0, 0, 0, 1, 0, 0]"
    by (simp add: red_player_def)
  ultimately show ?thesis
    by (subst plan_agrees [OF twobrid_normalized(1)]) (auto simp: covers_def intro!: exI [of _ 0])
qed

text \<open>
  With a reduction of one, the demand of one generic mana is covered by the single red mana, but
  the plan takes the reduction off before it chooses the generic side and asks for two.
\<close>

lemma reduction_order_differs:
  "\<exists>d. normalize [MonoHybrid 2 PipW] 0 0 1 [] = Inr [d, Demand [1, 0, 0, 0, 0, 0, 0] 0] \<and>
     covers (amount_slots (mana_pool red_player)) d \<and>
     plan_mana_payment_with_any_color red_player [MonoHybrid 2 PipW] 0 0 1 [] [] [] False = Inl not_enough"
proof -
  have "amount_slots (mana_pool red_player) = [0, 0, 0, 1, 0, 0]" by (simp add: red_player_def)
  then have "covers (amount_slots (mana_pool red_player)) (Demand [0, 0, 0, 0, 0, 0, 1] 0)"
    by (auto simp: covers_def less_Suc_eq numeral_eq_Suc)
  moreover have "plan_mana_payment_with_any_color red_player [MonoHybrid 2 PipW] 0 0 1 [] [] [] False = Inl not_enough"
    by code_simp
  ultimately show ?thesis using twobrid_normalized(2) by blast
qed

end
