(* ===== verification/DeckTree.thy ===== *)
theory DeckTree
  imports RustStd "HOL-Library.Multiset" "HOL-Library.Sublist"
begin

text \<open>
  The card tree of a deck list: \<open>libcockatrice_deck_list/.../deck_list_node_tree.cpp\<close> over the nodes
  of \<open>tree/inner_deck_list_node.cpp\<close> and \<open>tree/deck_list_card_node.h\<close>.

  A node is a card or a zone. The code identifies nodes by their addresses; every node here carries
  its address, a number that the tree hands out when the node is created, and a pointer argument is
  such a number. The parent pointer of a node is the zone that lists it: the constructors append the
  node to the parent they store, and the only operation that moves a node (\<open>moveCustomZone\<close>) sets
  both. Which address a node got is not observable, so statements about content use
  \<open>map_deck_node (\<lambda>_. ())\<close>, which forgets them. The sort method of a node is a display matter and is
  left out, as is \<open>sort\<close>, whose order of equal nodes \<open>std::sort\<close> does not fix.
\<close>

section \<open>Nodes\<close>

record deck_card =
  card_name :: string
  copies :: int
  set_short_name :: string
  collector_number :: string
  provider_id :: string
  format_legal :: bool

datatype 'a deck_node =
    CardNode 'a deck_card
  | ZoneNode 'a string "'a deck_node list"

record deck_tree =
  tree_root :: "nat deck_node list"
  totalCards :: int
  next_addr :: nat

definition zone_main :: string where "zone_main = ''main''"
definition zone_side :: string where "zone_side = ''side''"
definition zone_tokens :: string where "zone_tokens = ''tokens''"
definition zone_maybeboard :: string where "zone_maybeboard = ''maybeboard''"
definition zone_commander :: string where "zone_commander = CHR 0x1F # ''commander''"

lemmas zone_names = zone_main_def zone_side_def zone_tokens_def zone_maybeboard_def zone_commander_def

definition max_deck_size :: int where "max_deck_size = 100000"

fun node_addr :: "'a deck_node \<Rightarrow> 'a" where
  "node_addr (CardNode i c) = i"
| "node_addr (ZoneNode i n ns) = i"

fun node_name :: "'a deck_node \<Rightarrow> string" where
  "node_name (CardNode i c) = card_name c"
| "node_name (ZoneNode i n ns) = n"

fun is_zone :: "'a deck_node \<Rightarrow> bool" where
  "is_zone (CardNode i c) = False"
| "is_zone (ZoneNode i n ns) = True"

text \<open>The children of a zone; a card has none.\<close>

fun children :: "'a deck_node \<Rightarrow> 'a deck_node list" where
  "children (CardNode i c) = []"
| "children (ZoneNode i n ns) = ns"

definition findChild :: "string \<Rightarrow> 'a deck_node list \<Rightarrow> 'a deck_node option" where
  "findChild n ns = List.find (\<lambda>x. node_name x = n) ns"

fun node_count :: "bool \<Rightarrow> 'a deck_node \<Rightarrow> int" where
  "node_count b (CardNode i c) = (if b then copies c else 1)"
| "node_count b (ZoneNode i n ns) = sum_list (map (node_count b) ns)"

definition recursiveCount :: "bool \<Rightarrow> 'a deck_node list \<Rightarrow> int" where
  "recursiveCount b ns = sum_list (map (node_count b) ns)"

fun node_height :: "'a deck_node \<Rightarrow> int" where
  "node_height (CardNode i c) = 0"
| "node_height (ZoneNode i n []) = 1"
| "node_height (ZoneNode i n (x # xs)) = node_height x + 1"

fun collect_node :: "'a deck_node \<Rightarrow> deck_card list" where
  "collect_node (CardNode i c) = [c]"
| "collect_node (ZoneNode i n ns) = concat (map collect_node ns)"

definition collectCardsRecursive :: "'a deck_node list \<Rightarrow> deck_card list" where
  "collectCardsRecursive ns = concat (map collect_node ns)"

text \<open>A change made through the pointer \<open>i\<close> to a zone: to its name and to its list of children.\<close>

fun map_zone ::
  "'a \<Rightarrow> (string \<Rightarrow> string) \<Rightarrow> ('a deck_node list \<Rightarrow> 'a deck_node list) \<Rightarrow> 'a deck_node \<Rightarrow> 'a deck_node" where
  "map_zone i g f (CardNode j c) = CardNode j c"
| "map_zone i g f (ZoneNode j n ns) =
     (if i = j then ZoneNode j (g n) (f ns) else ZoneNode j n (map (map_zone i g f) ns))"

definition edit_zone ::
  "nat \<Rightarrow> (string \<Rightarrow> string) \<Rightarrow> (nat deck_node list \<Rightarrow> nat deck_node list) \<Rightarrow> deck_tree \<Rightarrow> deck_tree" where
  "edit_zone i g f t = t\<lparr>tree_root := map (map_zone i g f) (tree_root t)\<rparr>"

fun detach :: "'a \<Rightarrow> 'a deck_node list \<Rightarrow> 'a deck_node list" where
  "detach i [] = []"
| "detach i (x # xs) = (if node_addr x = i then xs else x # detach i xs)"

section \<open>The tree\<close>

definition new_tree :: deck_tree where
  "new_tree = \<lparr>tree_root = [], totalCards = 0, next_addr = 1\<rparr>"

definition tree_isEmpty :: "deck_tree \<Rightarrow> bool" where
  "tree_isEmpty t \<longleftrightarrow> tree_root t = []"

subsection \<open>Zones by name\<close>

definition getZoneNodes :: "string list \<Rightarrow> 'a deck_node list \<Rightarrow> 'a deck_node list" where
  "getZoneNodes zs ns = filter (\<lambda>x. is_zone x \<and> (zs = [] \<or> node_name x \<in> set zs)) ns"

definition getCardNodes :: "string list \<Rightarrow> 'a deck_node list \<Rightarrow> deck_card list" where
  "getCardNodes zs ns = concat (map collect_node (getZoneNodes zs ns))"

definition findBoardZone :: "string \<Rightarrow> 'a deck_node list \<Rightarrow> 'a deck_node option" where
  "findBoardZone b ns =
     (case findChild b ns of
        None \<Rightarrow> None
      | Some x \<Rightarrow> if is_zone x then Some x else None)"

text \<open>A custom zone is found together with the board that lists it, its parent.\<close>

fun findCustomZoneByName :: "string \<Rightarrow> 'a deck_node list \<Rightarrow> ('a deck_node \<times> 'a deck_node) option" where
  "findCustomZoneByName n [] = None"
| "findCustomZoneByName n (b # bs) =
     (case List.find (\<lambda>z. is_zone z \<and> node_name z = n) (children b) of
        Some z \<Rightarrow> Some (b, z)
      | None \<Rightarrow> findCustomZoneByName n bs)"

definition hasZoneName :: "string \<Rightarrow> deck_tree \<Rightarrow> bool" where
  "hasZoneName n t \<longleftrightarrow>
     n \<in> {zone_main, zone_side, zone_maybeboard, zone_tokens, zone_commander}
     \<or> findChild n (tree_root t) \<noteq> None
     \<or> findCustomZoneByName n (tree_root t) \<noteq> None"

definition getCustomZones :: "string \<Rightarrow> 'a deck_node list \<Rightarrow> 'a deck_node list" where
  "getCustomZones b ns =
     (case findBoardZone b ns of None \<Rightarrow> [] | Some z \<Rightarrow> filter is_zone (children z))"

text \<open>\<open>new InnerDecklistNode(name, root)\<close>\<close>

definition new_board :: "string \<Rightarrow> deck_tree \<Rightarrow> nat \<times> deck_tree" where
  "new_board n t =
     (next_addr t,
      t\<lparr>tree_root := tree_root t @ [ZoneNode (next_addr t) n []], next_addr := next_addr t + 1\<rparr>)"

definition getZoneObjFromName :: "string \<Rightarrow> deck_tree \<Rightarrow> nat \<times> deck_tree" where
  "getZoneObjFromName n t =
     (case List.find (\<lambda>x. is_zone x \<and> node_name x = n) (tree_root t) of
        Some x \<Rightarrow> (node_addr x, t)
      | None \<Rightarrow>
          (case findCustomZoneByName n (tree_root t) of
             Some (b, z) \<Rightarrow> (node_addr z, t)
           | None \<Rightarrow> new_board n t))"

definition findOrCreateBoardZone :: "string \<Rightarrow> deck_tree \<Rightarrow> nat option \<times> deck_tree" where
  "findOrCreateBoardZone b t =
     (case findBoardZone b (tree_root t) of
        Some z \<Rightarrow> (Some (node_addr z), t)
      | None \<Rightarrow>
          if b \<in> {zone_maybeboard, zone_main, zone_side}
          then (case new_board b t of (i, t') \<Rightarrow> (Some i, t'))
          else (None, t))"

subsection \<open>Adding and deleting\<close>

text \<open>\<open>QList::insert\<close>, for the positions it accepts; \<open>-1\<close> appends.\<close>

definition insert_node :: "int \<Rightarrow> 'a deck_node \<Rightarrow> 'a deck_node list \<Rightarrow> 'a deck_node list" where
  "insert_node p x ns = (if p = - 1 then ns @ [x] else take (nat p) ns @ x # drop (nat p) ns)"

definition tree_addCard :: "deck_card \<Rightarrow> string \<Rightarrow> int \<Rightarrow> deck_tree \<Rightarrow> nat \<times> deck_tree" where
  "tree_addCard c zn pos t =
     (let amount = min (copies c) (max_deck_size - totalCards t);
          t = t\<lparr>totalCards := totalCards t + amount\<rparr>
      in case getZoneObjFromName zn t of
           (z, t) \<Rightarrow>
             (next_addr t,
              (edit_zone z (\<lambda>n. n) (insert_node pos (CardNode (next_addr t) (c\<lparr>copies := amount\<rparr>))) t)
                \<lparr>next_addr := next_addr t + 1\<rparr>))"

text \<open>
  \<open>deleteNode\<close> searches a container and then its zones, depth first; \<open>None\<close> is the result
  \<open>false\<close>. A board zone (\<open>outer\<close>: the container is the root) that lost its last child is pruned.
\<close>

definition prune_board :: "bool \<Rightarrow> 'a deck_node \<Rightarrow> 'a deck_node list \<Rightarrow> 'a deck_node list" where
  "prune_board outer z ns = (if outer \<and> children z = [] then ns else z # ns)"

function (sequential) delete_in :: "bool \<Rightarrow> 'a \<Rightarrow> 'a deck_node list \<Rightarrow> 'a deck_node list option"
  and delete_below :: "bool \<Rightarrow> 'a \<Rightarrow> 'a deck_node list \<Rightarrow> 'a deck_node list option" where
  "delete_in outer i ns =
     (if i \<in> node_addr ` set ns then Some (detach i ns) else delete_below outer i ns)"
| "delete_below outer i [] = None"
| "delete_below outer i (CardNode j c # ns) = map_option (Cons (CardNode j c)) (delete_below outer i ns)"
| "delete_below outer i (ZoneNode j n cs # ns) =
     (case delete_in False i cs of
        Some cs' \<Rightarrow> Some (prune_board outer (ZoneNode j n cs') ns)
      | None \<Rightarrow> map_option (Cons (ZoneNode j n cs)) (delete_below outer i ns))"
  by pat_completeness auto
termination
  by (relation "measure (case_sum (\<lambda>(b, i, ns). 2 * size_list (size_deck_node (\<lambda>_. 0)) ns + 1)
                                  (\<lambda>(b, i, ns). 2 * size_list (size_deck_node (\<lambda>_. 0)) ns))") auto

text \<open>The root itself has address 0 and is never deleted.\<close>

definition deleteNode :: "nat \<Rightarrow> deck_tree \<Rightarrow> bool \<times> deck_tree" where
  "deleteNode i t =
     (if i = 0 then (True, t)
      else case delete_in True i (tree_root t) of
             Some ns \<Rightarrow> (True, t\<lparr>tree_root := ns\<rparr>)
           | None \<Rightarrow> (False, t))"

definition clear_tree :: "bool \<Rightarrow> deck_tree \<Rightarrow> deck_tree" where
  "clear_tree preserve t =
     (case (if preserve then findBoardZone zone_commander (tree_root t) else None) of
        None \<Rightarrow> t\<lparr>tree_root := [], totalCards := 0\<rparr>
      | Some z \<Rightarrow> t\<lparr>tree_root := [z], totalCards := node_count True z\<rparr>)"

definition clearCommanders :: "deck_tree \<Rightarrow> deck_tree" where
  "clearCommanders t =
     (case findBoardZone zone_commander (tree_root t) of
        None \<Rightarrow> t
      | Some z \<Rightarrow> snd (deleteNode (node_addr z) (t\<lparr>totalCards := max 0 (totalCards t - node_count True z)\<rparr>)))"

subsection \<open>Custom zones\<close>

definition addCustomZone :: "string \<Rightarrow> string \<Rightarrow> deck_tree \<Rightarrow> nat option \<times> deck_tree" where
  "addCustomZone b n t =
     (if hasZoneName n t then (None, t)
      else case findOrCreateBoardZone b t of
             (None, t) \<Rightarrow> (None, t)
           | (Some i, t) \<Rightarrow>
               (Some (next_addr t),
                (edit_zone i (\<lambda>n. n) (\<lambda>ns. ns @ [ZoneNode (next_addr t) n []]) t)\<lparr>next_addr := next_addr t + 1\<rparr>))"

definition renameCustomZone :: "string \<Rightarrow> string \<Rightarrow> deck_tree \<Rightarrow> bool \<times> deck_tree" where
  "renameCustomZone old new t =
     (if hasZoneName new t then (False, t)
      else case findCustomZoneByName old (tree_root t) of
             None \<Rightarrow> (False, t)
           | Some (b, z) \<Rightarrow> (True, edit_zone (node_addr z) (\<lambda>_. new) (\<lambda>ns. ns) t))"

definition moveCustomZone :: "string \<Rightarrow> string \<Rightarrow> deck_tree \<Rightarrow> bool \<times> deck_tree" where
  "moveCustomZone n nb t =
     (case findCustomZoneByName n (tree_root t) of
        None \<Rightarrow> (False, t)
      | Some (b, z) \<Rightarrow>
          if node_name b = nb then (True, t)
          else case findOrCreateBoardZone nb t of
                 (None, t) \<Rightarrow> (False, t)
               | (Some i, t) \<Rightarrow>
                   (True, edit_zone i (\<lambda>n. n) (\<lambda>ns. ns @ [z])
                            (edit_zone (node_addr b) (\<lambda>n. n) (detach (node_addr z)) t)))"

definition removeCustomZone :: "string \<Rightarrow> deck_tree \<Rightarrow> bool \<times> deck_tree" where
  "removeCustomZone n t =
     (case findCustomZoneByName n (tree_root t) of
        None \<Rightarrow> (False, t)
      | Some (b, z) \<Rightarrow> (True, edit_zone (node_addr b) (\<lambda>n. n) (detach (node_addr z)) t))"


subsection \<open>Cards in place\<close>

fun map_cards :: "(deck_card \<Rightarrow> deck_card) \<Rightarrow> 'a deck_node \<Rightarrow> 'a deck_node" where
  "map_cards f (CardNode i c) = CardNode i (f c)"
| "map_cards f (ZoneNode i n ns) = ZoneNode i n (map (map_cards f) ns)"

text \<open>\<open>func\<close> gets the top-level zone, here by its name, and may change the card.\<close>

definition forEachCard :: "(string \<Rightarrow> deck_card \<Rightarrow> deck_card) \<Rightarrow> deck_tree \<Rightarrow> deck_tree" where
  "forEachCard f t =
     t\<lparr>tree_root := map (\<lambda>x. if is_zone x then map_cards (f (node_name x)) x else x) (tree_root t)\<rparr>"

text \<open>
  Copying: the copy constructor of a card does not set \<open>formatLegal\<close>, so the value in the copy is
  whatever the memory held (\<open>junk\<close>). The copy constructor of the tree leaves \<open>totalCards\<close> at its
  initial 0, and the assignment leaves it as it was. The addresses of the copies are those of the
  originals: they only have to differ within one tree.
\<close>

definition copy_nodes :: "(deck_card \<Rightarrow> bool) \<Rightarrow> 'a deck_node list \<Rightarrow> 'a deck_node list" where
  "copy_nodes junk ns = map (map_cards (\<lambda>c. c\<lparr>format_legal := junk c\<rparr>)) ns"

definition copy_tree :: "(deck_card \<Rightarrow> bool) \<Rightarrow> deck_tree \<Rightarrow> deck_tree" where
  "copy_tree junk other =
     \<lparr>tree_root = copy_nodes junk (tree_root other), totalCards = 0, next_addr = next_addr other\<rparr>"

definition assign_tree :: "(deck_card \<Rightarrow> bool) \<Rightarrow> deck_tree \<Rightarrow> deck_tree \<Rightarrow> deck_tree" where
  "assign_tree junk other t =
     t\<lparr>tree_root := copy_nodes junk (tree_root other), next_addr := next_addr other\<rparr>"

section \<open>The mutating operations as events\<close>

datatype deck_op =
    AddCard deck_card string int
  | DeleteNode nat
  | ClearTree bool
  | ClearCommanders
  | AddZone string string
  | RenameZone string string
  | MoveZone string string
  | RemoveZone string
  | VisitCards "string \<Rightarrow> deck_card \<Rightarrow> deck_card"
  | CopyTree "deck_card \<Rightarrow> bool"

fun deck_step :: "deck_op \<Rightarrow> deck_tree \<Rightarrow> deck_tree" where
  "deck_step (AddCard c z p) t = snd (tree_addCard c z p t)"
| "deck_step (DeleteNode i) t = snd (deleteNode i t)"
| "deck_step (ClearTree b) t = clear_tree b t"
| "deck_step ClearCommanders t = clearCommanders t"
| "deck_step (AddZone b n) t = snd (addCustomZone b n t)"
| "deck_step (RenameZone a b) t = snd (renameCustomZone a b t)"
| "deck_step (MoveZone n b) t = snd (moveCustomZone n b t)"
| "deck_step (RemoveZone n) t = snd (removeCustomZone n t)"
| "deck_step (VisitCards f) t = forEachCard f t"
| "deck_step (CopyTree junk) t = copy_tree junk t"

definition deck_run :: "deck_op list \<Rightarrow> deck_tree \<Rightarrow> deck_tree" where
  "deck_run ops t = foldl (\<lambda>t op. deck_step op t) t ops"

lemma deck_run_Nil [simp]: "deck_run [] t = t"
  by (simp add: deck_run_def)

lemma deck_run_Cons [simp]: "deck_run (op # ops) t = deck_run ops (deck_step op t)"
  by (simp add: deck_run_def)

text \<open>An invariant of every step is an invariant of every run.\<close>

lemma deck_run_invariant:
  assumes "\<And>op t. P t \<Longrightarrow> ok op \<Longrightarrow> P (deck_step op t)" and "P t" and "list_all ok ops"
  shows "P (deck_run ops t)"
  using assms(2,3) by (induction ops arbitrary: t) (auto intro: assms(1))

section \<open>Well-formed trees\<close>

fun node_addrs :: "'a deck_node \<Rightarrow> 'a list" where
  "node_addrs (CardNode i c) = [i]"
| "node_addrs (ZoneNode i n ns) = i # concat (map node_addrs ns)"

definition addrs :: "'a deck_node list \<Rightarrow> 'a list" where
  "addrs ns = concat (map node_addrs ns)"

definition zone_names_in :: "'a deck_node list \<Rightarrow> string list" where
  "zone_names_in ns = map node_name (filter is_zone ns)"

definition custom_names :: "'a deck_node list \<Rightarrow> string list" where
  "custom_names ns = concat (map (\<lambda>b. zone_names_in (children b)) ns)"

text \<open>Zones are nested at most \<open>d\<close> deep.\<close>

fun nested_within :: "nat \<Rightarrow> 'a deck_node \<Rightarrow> bool" where
  "nested_within d (CardNode i c) = True"
| "nested_within 0 (ZoneNode i n ns) = False"
| "nested_within (Suc d) (ZoneNode i n ns) = list_all (nested_within d) ns"

definition reserved_names :: "string list" where
  "reserved_names = [zone_main, zone_side, zone_maybeboard, zone_tokens, zone_commander]"

definition deck_wf :: "deck_tree \<Rightarrow> bool" where
  "deck_wf t \<longleftrightarrow>
     0 < next_addr t
     \<and> distinct (addrs (tree_root t))
     \<and> list_all (\<lambda>i. 0 < i \<and> i < next_addr t) (addrs (tree_root t))
     \<and> list_all is_zone (tree_root t)
     \<and> list_all (nested_within 2) (tree_root t)
     \<and> distinct (zone_names_in (tree_root t) @ custom_names (tree_root t))
     \<and> list_all (\<lambda>n. n \<notin> set reserved_names) (custom_names (tree_root t))"

definition deck_capped :: "deck_tree \<Rightarrow> bool" where
  "deck_capped t \<longleftrightarrow>
     list_all (\<lambda>c. 0 \<le> copies c) (collectCardsRecursive (tree_root t))
     \<and> recursiveCount True (tree_root t) \<le> totalCards t
     \<and> totalCards t \<le> max_deck_size"

subsection \<open>Structure of the lists\<close>

lemma addrs_simps [simp]:
  "addrs [] = []" "addrs (x # xs) = node_addrs x @ addrs xs" "addrs (xs @ ys) = addrs xs @ addrs ys"
  by (simp_all add: addrs_def)

lemma node_addrs_Zone [simp]: "node_addrs (ZoneNode i n ns) = i # addrs ns"
  by (simp add: addrs_def)

declare node_addrs.simps(2) [simp del]

lemma zone_names_in_simps [simp]:
  "zone_names_in [] = []"
  "zone_names_in (CardNode i c # ns) = zone_names_in ns"
  "zone_names_in (ZoneNode i n cs # ns) = n # zone_names_in ns"
  "zone_names_in (xs @ ys) = zone_names_in xs @ zone_names_in ys"
  by (simp_all add: zone_names_in_def)

lemma custom_names_simps [simp]:
  "custom_names [] = []"
  "custom_names (x # ns) = zone_names_in (children x) @ custom_names ns"
  "custom_names (xs @ ys) = custom_names xs @ custom_names ys"
  by (simp_all add: custom_names_def)

lemma collect_simps [simp]:
  "collectCardsRecursive [] = []"
  "collectCardsRecursive (x # ns) = collect_node x @ collectCardsRecursive ns"
  "collectCardsRecursive (xs @ ys) = collectCardsRecursive xs @ collectCardsRecursive ys"
  by (simp_all add: collectCardsRecursive_def)

lemma collect_Zone [simp]: "collect_node (ZoneNode i n ns) = collectCardsRecursive ns"
  by (simp add: collectCardsRecursive_def)

declare collect_node.simps(2) [simp del]

lemma count_collect_list:
  "(\<And>x. x \<in> set ns \<Longrightarrow> node_count True x = sum_list (map copies (collect_node x))) \<Longrightarrow>
   sum_list (map (node_count True) ns) = sum_list (map copies (collectCardsRecursive ns))"
  by (induction ns) simp_all

lemma node_count_collect: "node_count True x = sum_list (map copies (collect_node x))"
  by (induction x) (simp_all add: count_collect_list)

lemma recursiveCount_collect: "recursiveCount True ns = sum_list (map copies (collectCardsRecursive ns))"
  by (induction ns) (simp_all add: recursiveCount_def node_count_collect)

lemma node_addr_mem [simp, intro]: "node_addr x \<in> set (node_addrs x)"
  by (cases x) auto

lemma node_addr_mem_addrs: "x \<in> set ns \<Longrightarrow> node_addr x \<in> set (addrs ns)"
  by (auto simp: addrs_def)


text \<open>An edit through an address changes the one node that has it.\<close>

lemma map_zone_other [simp]: "i \<notin> set (node_addrs x) \<Longrightarrow> map_zone i g f x = x"
  by (induction x) (auto simp: addrs_def map_idI)

lemma map_zone_others [simp]: "i \<notin> set (addrs ns) \<Longrightarrow> map (map_zone i g f) ns = ns"
  by (induction ns) simp_all

lemma edit_board:
  assumes "tree_root t = l @ ZoneNode i n cs # r" and "distinct (addrs (tree_root t))"
  shows "edit_zone i g f t = t\<lparr>tree_root := l @ ZoneNode i (g n) (f cs) # r\<rparr>"
  using assms by (auto simp: edit_zone_def)

lemma edit_custom:
  assumes "tree_root t = l @ ZoneNode j b (l' @ ZoneNode i n cs # r') # r" and "distinct (addrs (tree_root t))"
  shows "edit_zone i g f t = t\<lparr>tree_root := l @ ZoneNode j b (l' @ ZoneNode i (g n) (f cs) # r') # r\<rparr>"
  using assms by (auto simp: edit_zone_def)

lemma detach_split: "i \<notin> set (addrs l) \<Longrightarrow> node_addr x = i \<Longrightarrow> detach i (l @ x # r) = l @ r"
proof (induction l)
  case (Cons a l)
  then have "node_addr a \<noteq> i" by (metis Un_iff addrs_simps(2) node_addr_mem set_append)
  with Cons show ?case by simp
qed simp

subsection \<open>Lookups\<close>

lemma find_SomeE:
  assumes "List.find P xs = Some x"
  obtains l r where "xs = l @ x # r" and "P x" and "list_all (\<lambda>y. \<not> P y) l"
  using assms
proof (induction xs arbitrary: thesis)
  case (Cons a xs)
  show ?case
  proof (cases "P a")
    case True
    with Cons.prems show ?thesis using Cons.prems(1) [of "[]" xs] by simp
  next
    case False
    with Cons.prems obtain l r where "xs = l @ x # r" "P x" "list_all (\<lambda>y. \<not> P y) l"
      using Cons.IH by (metis List.find.simps(2))
    with False show ?thesis using Cons.prems(1) [of "a # l" r] by simp
  qed
qed simp

lemma is_zoneE: "is_zone z \<Longrightarrow> (\<And>i n cs. z = ZoneNode i n cs \<Longrightarrow> P) \<Longrightarrow> P"
  by (cases z) auto

lemma find_zone_None: "List.find (\<lambda>x. is_zone x \<and> node_name x = n) ns = None \<longleftrightarrow> n \<notin> set (zone_names_in ns)"
  by (auto simp: zone_names_in_def find_None_iff)

lemma findBoardZone_SomeE:
  assumes "findBoardZone b ns = Some z"
  obtains l i cs r where "ns = l @ ZoneNode i b cs # r" and "z = ZoneNode i b cs"
proof -
  from assms have f: "findChild b ns = Some z" and z: "is_zone z"
    by (auto simp: findBoardZone_def split: option.splits if_splits)
  from f obtain l r where "ns = l @ z # r" and "node_name z = b"
    unfolding findChild_def by (rule find_SomeE)
  moreover from z obtain i n cs where "z = ZoneNode i n cs" by (rule is_zoneE)
  ultimately show thesis using that by simp
qed

lemma findBoardZone_None:
  "list_all is_zone ns \<Longrightarrow> findBoardZone b ns = None \<longleftrightarrow> b \<notin> set (zone_names_in ns)"
  by (auto simp: findBoardZone_def findChild_def zone_names_in_def list_all_iff find_None_iff
      split: option.splits dest!: find_Some_iff [THEN iffD1])

lemma findCustomZoneByName_split:
  "findCustomZoneByName n ns = Some (b, z) \<Longrightarrow>
   \<exists>l j bn l' i cs r' r. ns = l @ b # r \<and> b = ZoneNode j bn (l' @ z # r') \<and> z = ZoneNode i n cs"
proof (induction n ns rule: findCustomZoneByName.induct)
  case (2 n c bs)
  show ?case
  proof (cases "List.find (\<lambda>z. is_zone z \<and> node_name z = n) (children c)")
    case None
    with 2 obtain l r where "bs = l @ b # r"
      and z: "\<exists>j bn l' i cs r'. b = ZoneNode j bn (l' @ z # r') \<and> z = ZoneNode i n cs"
      by auto
    then have "c # bs = (c # l) @ b # r" by simp
    with z show ?thesis by blast
  next
    case (Some y)
    with 2 have y: "y = z" "b = c" by auto
    from Some obtain l' r' where "children c = l' @ y # r'" and "is_zone y \<and> node_name y = n"
      by (rule find_SomeE)
    moreover from this obtain i cs where "y = ZoneNode i n cs" by (cases y) auto
    moreover have "c # bs = [] @ b # bs" using y by simp
    ultimately show ?thesis using y by (cases c) (simp_all, blast)
  qed
qed simp

lemma findCustomZoneByName_SomeE:
  assumes "findCustomZoneByName n ns = Some (b, z)"
  obtains l j bn l' i cs r' r where
    "ns = l @ ZoneNode j bn (l' @ ZoneNode i n cs # r') # r"
    "b = ZoneNode j bn (l' @ ZoneNode i n cs # r')" and "z = ZoneNode i n cs"
proof -
  from findCustomZoneByName_split [OF assms] obtain l j bn l' i cs r' r where
    "ns = l @ b # r" "b = ZoneNode j bn (l' @ z # r')" "z = ZoneNode i n cs" by (elim exE conjE)
  then show thesis using that by simp
qed

lemma findCustomZoneByName_None: "findCustomZoneByName n ns = None \<longleftrightarrow> n \<notin> set (custom_names ns)"
proof (induction n ns rule: findCustomZoneByName.induct)
  case (2 n c bs)
  then show ?case
    using find_zone_None [of n "children c"]
    by (cases "List.find (\<lambda>z. is_zone z \<and> node_name z = n) (children c)") auto
qed simp

lemma hasZoneName_iff:
  "list_all is_zone (tree_root t) \<Longrightarrow>
   hasZoneName n t \<longleftrightarrow> n \<in> set reserved_names \<or> n \<in> set (zone_names_in (tree_root t)) \<or> n \<in> set (custom_names (tree_root t))"
  by (auto simp: hasZoneName_def reserved_names_def findCustomZoneByName_None findChild_def find_None_iff
      zone_names_in_def list_all_iff)


subsection \<open>Dropping nodes\<close>

text \<open>
  All the operations that only take nodes away, at whatever depth, give a tree that is slimmer than
  the old one, and every part of the invariant is inherited by slimmer trees.
\<close>

inductive slim :: "'a deck_node list \<Rightarrow> 'a deck_node list \<Rightarrow> bool" where
  slim_Nil: "slim [] []"
| slim_drop: "slim xs ys \<Longrightarrow> slim xs (y # ys)"
| slim_keep: "slim xs ys \<Longrightarrow> slim (x # xs) (x # ys)"
| slim_zone: "slim cs' cs \<Longrightarrow> slim xs ys \<Longrightarrow> slim (ZoneNode i n cs' # xs) (ZoneNode i n cs # ys)"

lemmas slim_intros = slim_Nil slim_drop slim_keep slim_zone

lemma slim_refl [simp, intro]: "slim xs xs"
  by (induction xs) (auto intro: slim_intros)

lemma slim_empty [simp, intro]: "slim [] xs"
  by (induction xs) (auto intro: slim_intros)

lemma slim_append: "slim xs ys \<Longrightarrow> slim (l @ xs) (l @ ys)"
  by (induction l) (auto intro: slim_keep)

lemma slim_suffix: "slim xs ys \<Longrightarrow> slim xs (l @ ys)"
  by (induction l) (auto intro: slim_drop)

lemma slim_detach: "slim (detach i xs) xs"
  by (induction xs) (auto intro: slim_intros)

lemma slim_delete:
  "delete_in b i ns = Some ns' \<Longrightarrow> slim ns' ns"
  "delete_below b i ns = Some ns' \<Longrightarrow> slim ns' ns"
proof (induction b i ns and b i ns arbitrary: ns' and ns' rule: delete_in_delete_below.induct)
  case (4 b i j n cs ns)
  show ?case
  proof (cases "delete_in False i cs")
    case None
    with 4 show ?thesis by (auto intro: slim_keep)
  next
    case (Some cs')
    with 4 show ?thesis by (auto simp: prune_board_def intro: slim_zone slim_drop split: if_splits)
  qed
qed (auto intro: slim_detach slim_keep split: if_splits)

lemma slim_addrs: "slim xs ys \<Longrightarrow> subseq (addrs xs) (addrs ys)"
  by (induction rule: slim.induct) (auto intro: list_emb_append_mono simp: list_emb_append2)

lemma slim_collect: "slim xs ys \<Longrightarrow> subseq (collectCardsRecursive xs) (collectCardsRecursive ys)"
  by (induction rule: slim.induct) (auto intro: list_emb_append_mono simp: list_emb_append2)

lemma slim_zone_names: "slim xs ys \<Longrightarrow> subseq (zone_names_in xs) (zone_names_in ys)"
proof (induction rule: slim.induct)
  case (slim_drop xs ys y)
  then show ?case by (cases y) auto
next
  case (slim_keep xs ys x)
  then show ?case by (cases x) auto
qed auto

lemma slim_custom_names: "slim xs ys \<Longrightarrow> subseq (custom_names xs) (custom_names ys)"
  by (induction rule: slim.induct) (auto intro: list_emb_append_mono slim_zone_names simp: list_emb_append2)

lemma slim_is_zone: "slim xs ys \<Longrightarrow> list_all is_zone ys \<Longrightarrow> list_all is_zone xs"
  by (induction rule: slim.induct) auto

lemma slim_within: "slim xs ys \<Longrightarrow> list_all (nested_within d) ys \<Longrightarrow> list_all (nested_within d) xs"
proof (induction arbitrary: d rule: slim.induct)
  case (slim_zone cs' cs xs ys i n)
  then show ?case by (cases d) auto
qed auto

lemma subseq_list_all: "subseq xs ys \<Longrightarrow> list_all P ys \<Longrightarrow> list_all P xs"
  by (induction rule: list_emb.induct) auto

lemma subseq_distinct_mono: "subseq xs ys \<Longrightarrow> distinct ys \<Longrightarrow> distinct xs"
  by (metis subseq_conv_nths distinct_nthsI)

lemma subseq_sum_le:
  "subseq xs ys \<Longrightarrow> list_all (\<lambda>x. 0 \<le> f x) ys \<Longrightarrow> sum_list (map f xs) \<le> (sum_list (map f ys) :: int)"
proof (induction rule: list_emb.induct)
  case (list_emb_Nil ys)
  then show ?case by (induction ys) auto
qed auto

lemma deck_wf_slim:
  assumes "deck_wf t" and "slim ns (tree_root t)" and "next_addr t' = next_addr t" and "tree_root t' = ns"
  shows "deck_wf t'"
proof -
  have "subseq (zone_names_in ns @ custom_names ns) (zone_names_in (tree_root t) @ custom_names (tree_root t))"
    using assms(2) by (intro list_emb_append_mono slim_zone_names slim_custom_names)
  with assms show ?thesis
    unfolding deck_wf_def
    by (auto elim: subseq_distinct_mono [rotated] subseq_list_all [rotated] slim_within slim_is_zone
        intro: slim_addrs slim_custom_names
        simp del: distinct_append)
qed

lemma deck_capped_slim:
  assumes "deck_capped t" and "slim ns (tree_root t)" and "tree_root t' = ns" and "totalCards t' = totalCards t"
  shows "deck_capped t'"
proof -
  note sub = slim_collect [OF assms(2)]
  have pos: "list_all (\<lambda>c. 0 \<le> copies c) (collectCardsRecursive (tree_root t))"
    using assms(1) by (simp add: deck_capped_def)
  show ?thesis
    using assms subseq_sum_le [OF sub pos] subseq_list_all [OF sub pos]
    by (simp add: deck_capped_def recursiveCount_collect)
qed


subsection \<open>Every operation keeps the tree well formed\<close>

text \<open>A tree whose content is unchanged may use up addresses.\<close>

lemma deck_wf_new: "deck_wf new_tree"
  by (simp add: deck_wf_def new_tree_def)

lemma new_board_wf:
  assumes "deck_wf t" and "n \<notin> set (zone_names_in (tree_root t))" and "n \<notin> set (custom_names (tree_root t))"
  shows "deck_wf (snd (new_board n t))"
  using assms by (auto simp: deck_wf_def new_board_def list_all_iff numeral_2_eq_2)

lemma deck_wf_next:
  assumes "deck_wf t" and "next_addr t \<le> next_addr t'" and "tree_root t' = tree_root t"
  shows "deck_wf t'"
  using assms by (auto simp: deck_wf_def list_all_iff)

lemma deck_wf_totalCards [simp]: "deck_wf (t\<lparr>totalCards := n\<rparr>) \<longleftrightarrow> deck_wf t"
  by (simp add: deck_wf_def)

text \<open>
  Where a zone pointer points: a board of the root, or a custom zone of a board. A new child without
  children of its own may be put at any place in either, a new zone only in a board.
\<close>

definition zone_at :: "nat \<Rightarrow> nat deck_node list \<Rightarrow> bool" where
  "zone_at i ns \<longleftrightarrow>
     (\<exists>l n cs r. ns = l @ ZoneNode i n cs # r)
     \<or> (\<exists>l j b l' n cs r' r. ns = l @ ZoneNode j b (l' @ ZoneNode i n cs # r') # r)"

lemma insert_nodeE:
  obtains l r where "cs = l @ r" and "insert_node p x cs = l @ x # r"
proof (cases "p = - 1")
  case True
  then show ?thesis using that [of cs "[]"] by (simp add: insert_node_def)
next
  case False
  then show ?thesis using that [of "take (nat p) cs" "drop (nat p) cs"] by (simp add: insert_node_def)
qed

lemma getZoneObjFromName_zone_at: "zone_at (fst (getZoneObjFromName n t)) (tree_root (snd (getZoneObjFromName n t)))"
proof (cases "List.find (\<lambda>x. is_zone x \<and> node_name x = n) (tree_root t)")
  case (Some x)
  then obtain l r where "tree_root t = l @ x # r" and "is_zone x \<and> node_name x = n" by (rule find_SomeE)
  then obtain i cs where "tree_root t = l @ ZoneNode i n cs # r" and "x = ZoneNode i n cs" by (cases x) auto
  with Some show ?thesis unfolding zone_at_def getZoneObjFromName_def by simp blast
next
  case none: None
  show ?thesis
  proof (cases "findCustomZoneByName n (tree_root t)")
    case None
    with none show ?thesis by (simp add: getZoneObjFromName_def new_board_def zone_at_def) blast
  next
    case (Some p)
    then obtain b z where "findCustomZoneByName n (tree_root t) = Some (b, z)" by (cases p) auto
    then obtain l j bn l' i cs r' r where "tree_root t = l @ ZoneNode j bn (l' @ ZoneNode i n cs # r') # r"
      "z = ZoneNode i n cs" by (rule findCustomZoneByName_SomeE)
    with none \<open>findCustomZoneByName n (tree_root t) = Some (b, z)\<close> show ?thesis
      unfolding zone_at_def getZoneObjFromName_def by simp blast
  qed
qed

lemma getZoneObjFromName_wf: "deck_wf t \<Longrightarrow> deck_wf (snd (getZoneObjFromName n t))"
  using new_board_wf [of t n]
  by (auto simp: getZoneObjFromName_def find_zone_None findCustomZoneByName_None split: option.splits)

lemma getZoneObjFromName_frame:
  "totalCards (snd (getZoneObjFromName n t)) = totalCards t"
  "collectCardsRecursive (tree_root (snd (getZoneObjFromName n t))) = collectCardsRecursive (tree_root t)"
  by (auto simp: getZoneObjFromName_def new_board_def split: option.splits)


lemma fresh_addr:
  "list_all (\<lambda>i. 0 < i \<and> i < k) xs \<Longrightarrow> k \<notin> set xs"
  "list_all (\<lambda>i. 0 < i \<and> i < k) xs \<Longrightarrow> list_all (\<lambda>i. 0 < i \<and> i < Suc k) xs"
  "list_all (\<lambda>i. 0 < i \<and> i < k) xs \<Longrightarrow> 0 \<notin> set xs"
  by (auto simp: list_all_iff)

lemma insert_card_board:
  assumes wf: "deck_wf t" and r: "tree_root t = l @ ZoneNode i n cs # r"
  shows "deck_wf ((edit_zone i (\<lambda>n. n) (insert_node p (CardNode (next_addr t) c)) t)\<lparr>next_addr := next_addr t + 1\<rparr>)"
    and "mset (collectCardsRecursive (tree_root (edit_zone i (\<lambda>n. n) (insert_node p (CardNode (next_addr t) c)) t)))
         = add_mset c (mset (collectCardsRecursive (tree_root t)))"
proof -
  obtain l' r' where cs: "cs = l' @ r'" and ins: "insert_node p (CardNode (next_addr t) c) cs = l' @ CardNode (next_addr t) c # r'"
    by (rule insert_nodeE)
  have d: "distinct (addrs (tree_root t))" using wf by (simp add: deck_wf_def)
  note e = edit_board [OF r d, of "\<lambda>n. n" "insert_node p (CardNode (next_addr t) c)"]
  show "deck_wf ((edit_zone i (\<lambda>n. n) (insert_node p (CardNode (next_addr t) c)) t)\<lparr>next_addr := next_addr t + 1\<rparr>)"
    using wf unfolding deck_wf_def e by (auto simp: r cs ins [unfolded cs] numeral_2_eq_2 fresh_addr)
  show "mset (collectCardsRecursive (tree_root (edit_zone i (\<lambda>n. n) (insert_node p (CardNode (next_addr t) c)) t)))
         = add_mset c (mset (collectCardsRecursive (tree_root t)))"
    unfolding e by (simp add: r cs ins [unfolded cs])
qed

lemma insert_card_custom:
  assumes wf: "deck_wf t" and r: "tree_root t = l @ ZoneNode j b (m @ ZoneNode i n cs # k) # r"
  shows "deck_wf ((edit_zone i (\<lambda>n. n) (insert_node p (CardNode (next_addr t) c)) t)\<lparr>next_addr := next_addr t + 1\<rparr>)"
    and "mset (collectCardsRecursive (tree_root (edit_zone i (\<lambda>n. n) (insert_node p (CardNode (next_addr t) c)) t)))
         = add_mset c (mset (collectCardsRecursive (tree_root t)))"
proof -
  obtain l' r' where cs: "cs = l' @ r'" and ins: "insert_node p (CardNode (next_addr t) c) cs = l' @ CardNode (next_addr t) c # r'"
    by (rule insert_nodeE)
  have d: "distinct (addrs (tree_root t))" using wf by (simp add: deck_wf_def)
  note e = edit_custom [OF r d, of "\<lambda>n. n" "insert_node p (CardNode (next_addr t) c)"]
  show "deck_wf ((edit_zone i (\<lambda>n. n) (insert_node p (CardNode (next_addr t) c)) t)\<lparr>next_addr := next_addr t + 1\<rparr>)"
    using wf unfolding deck_wf_def e by (auto simp: r cs ins [unfolded cs] numeral_2_eq_2 fresh_addr)
  show "mset (collectCardsRecursive (tree_root (edit_zone i (\<lambda>n. n) (insert_node p (CardNode (next_addr t) c)) t)))
         = add_mset c (mset (collectCardsRecursive (tree_root t)))"
    unfolding e by (simp add: r cs ins [unfolded cs])
qed

lemma insert_card_at:
  assumes wf: "deck_wf t" and z: "zone_at i (tree_root t)"
  shows "deck_wf ((edit_zone i (\<lambda>n. n) (insert_node p (CardNode (next_addr t) c)) t)\<lparr>next_addr := next_addr t + 1\<rparr>)"
    and "mset (collectCardsRecursive (tree_root (edit_zone i (\<lambda>n. n) (insert_node p (CardNode (next_addr t) c)) t)))
         = add_mset c (mset (collectCardsRecursive (tree_root t)))"
proof -
  have "deck_wf ((edit_zone i (\<lambda>n. n) (insert_node p (CardNode (next_addr t) c)) t)\<lparr>next_addr := next_addr t + 1\<rparr>)
    \<and> mset (collectCardsRecursive (tree_root (edit_zone i (\<lambda>n. n) (insert_node p (CardNode (next_addr t) c)) t)))
         = add_mset c (mset (collectCardsRecursive (tree_root t)))" (is ?P)
    using z unfolding zone_at_def
  proof (elim disjE exE)
    fix l n cs r assume "tree_root t = l @ ZoneNode i n cs # r"
    then show ?P using insert_card_board [OF wf] by simp
  next
    fix l j b m n cs k r assume "tree_root t = l @ ZoneNode j b (m @ ZoneNode i n cs # k) # r"
    then show ?P using insert_card_custom [OF wf] by simp
  qed
  then show "deck_wf ((edit_zone i (\<lambda>n. n) (insert_node p (CardNode (next_addr t) c)) t)\<lparr>next_addr := next_addr t + 1\<rparr>)"
    and "mset (collectCardsRecursive (tree_root (edit_zone i (\<lambda>n. n) (insert_node p (CardNode (next_addr t) c)) t)))
         = add_mset c (mset (collectCardsRecursive (tree_root t)))"
    by simp_all
qed

lemma tree_addCard_wf: "deck_wf t \<Longrightarrow> deck_wf (snd (tree_addCard c zn p t))"
proof -
  assume wf: "deck_wf t"
  let ?t = "t\<lparr>totalCards := totalCards t + min (copies c) (max_deck_size - totalCards t)\<rparr>"
  let ?p = "getZoneObjFromName zn ?t"
  have "deck_wf (snd ?p)" using wf by (intro getZoneObjFromName_wf) simp
  then show ?thesis
    using insert_card_at(1) [OF _ getZoneObjFromName_zone_at [of zn ?t]]
    by (simp add: tree_addCard_def Let_def case_prod_beta)
qed

lemma tree_addCard_cards:
  assumes wf: "deck_wf t"
  shows "totalCards (snd (tree_addCard c zn p t)) = totalCards t + min (copies c) (max_deck_size - totalCards t)"
    and "mset (collectCardsRecursive (tree_root (snd (tree_addCard c zn p t))))
         = add_mset (c\<lparr>copies := min (copies c) (max_deck_size - totalCards t)\<rparr>) (mset (collectCardsRecursive (tree_root t)))"
proof -
  let ?t = "t\<lparr>totalCards := totalCards t + min (copies c) (max_deck_size - totalCards t)\<rparr>"
  have "deck_wf (snd (getZoneObjFromName zn ?t))" using wf by (intro getZoneObjFromName_wf) simp
  then show "mset (collectCardsRecursive (tree_root (snd (tree_addCard c zn p t))))
         = add_mset (c\<lparr>copies := min (copies c) (max_deck_size - totalCards t)\<rparr>) (mset (collectCardsRecursive (tree_root t)))"
    using insert_card_at(2) [OF _ getZoneObjFromName_zone_at [of zn ?t]]
    by (simp add: tree_addCard_def Let_def case_prod_beta getZoneObjFromName_frame)
  show "totalCards (snd (tree_addCard c zn p t)) = totalCards t + min (copies c) (max_deck_size - totalCards t)"
    by (simp add: tree_addCard_def Let_def case_prod_beta getZoneObjFromName_frame edit_zone_def)
qed


text \<open>Deleting, clearing and removing only take nodes away.\<close>

lemma deleteNode_slim:
  "slim (tree_root (snd (deleteNode i t))) (tree_root t)"
  "next_addr (snd (deleteNode i t)) = next_addr t" "totalCards (snd (deleteNode i t)) = totalCards t"
  by (auto simp: deleteNode_def slim_delete(1) simp del: delete_in.simps split: option.splits)

lemma clear_tree_slim:
  "slim (tree_root (clear_tree b t)) (tree_root t)" "next_addr (clear_tree b t) = next_addr t"
proof -
  have "slim [z] (l @ z # r)" for z :: "nat deck_node" and l r
    by (intro slim_suffix slim_keep slim_empty)
  then show "slim (tree_root (clear_tree b t)) (tree_root t)"
    by (auto simp: clear_tree_def elim!: findBoardZone_SomeE split: option.splits if_splits)
  show "next_addr (clear_tree b t) = next_addr t"
    by (auto simp: clear_tree_def split: option.splits)
qed

lemma clearCommanders_slim:
  "slim (tree_root (clearCommanders t)) (tree_root t)" "next_addr (clearCommanders t) = next_addr t"
  using deleteNode_slim [of _ "t\<lparr>totalCards := m\<rparr>" for m]
  by (auto simp: clearCommanders_def split: option.splits)

lemma removeCustomZone_slim:
  assumes "deck_wf t"
  shows "slim (tree_root (snd (removeCustomZone n t))) (tree_root t)"
    and "next_addr (snd (removeCustomZone n t)) = next_addr t"
    and "totalCards (snd (removeCustomZone n t)) = totalCards t"
proof -
  have d: "distinct (addrs (tree_root t))" using assms by (simp add: deck_wf_def)
  show "slim (tree_root (snd (removeCustomZone n t))) (tree_root t)"
  proof (cases "findCustomZoneByName n (tree_root t)")
    case (Some q)
    then obtain b z where f: "findCustomZoneByName n (tree_root t) = Some (b, z)" by (cases q) auto
    then obtain l j bn l' i cs r' r where r: "tree_root t = l @ ZoneNode j bn (l' @ ZoneNode i n cs # r') # r"
      and b: "b = ZoneNode j bn (l' @ ZoneNode i n cs # r')" and z: "z = ZoneNode i n cs"
      by (rule findCustomZoneByName_SomeE)
    have "slim (l @ ZoneNode j bn (detach i (l' @ ZoneNode i n cs # r')) # r) (tree_root t)"
      unfolding r by (intro slim_append slim_zone slim_detach slim_refl)
    moreover have "snd (removeCustomZone n t) = t\<lparr>tree_root := l @ ZoneNode j bn (detach i (l' @ ZoneNode i n cs # r')) # r\<rparr>"
      using edit_board [OF r d] by (simp add: removeCustomZone_def f b z)
    ultimately show ?thesis by simp
  qed (simp add: removeCustomZone_def)
  show "next_addr (snd (removeCustomZone n t)) = next_addr t"
    and "totalCards (snd (removeCustomZone n t)) = totalCards t"
    by (auto simp: removeCustomZone_def edit_zone_def split: option.splits)
qed

lemma findOrCreateBoardZone_SomeE:
  assumes "deck_wf t" and "findOrCreateBoardZone b t = (Some i, t')"
  obtains l cs r new where "tree_root t' = l @ ZoneNode i b cs # r" and "deck_wf t'"
    and "tree_root t' = tree_root t @ new" and "collectCardsRecursive new = []"
    and "custom_names new = []" and "set (zone_names_in new) \<subseteq> set reserved_names"
    and "totalCards t' = totalCards t"
proof (cases "findBoardZone b (tree_root t)")
  case (Some z)
  then obtain l j cs r where "tree_root t = l @ ZoneNode j b cs # r" and "z = ZoneNode j b cs"
    by (rule findBoardZone_SomeE)
  moreover from this Some assms(2) have "t' = t" and "i = j" by (simp_all add: findOrCreateBoardZone_def)
  ultimately show ?thesis using assms(1) by (intro that [of l cs r "[]"]) simp_all
next
  case None
  have z: "list_all is_zone (tree_root t)" and res: "list_all (\<lambda>n. n \<notin> set reserved_names) (custom_names (tree_root t))"
    using assms(1) by (simp_all add: deck_wf_def)
  have b: "b \<in> {zone_maybeboard, zone_main, zone_side}" and e: "(i, t') = new_board b t"
    using None assms(2) by (auto simp: findOrCreateBoardZone_def split: if_splits prod.splits)
  then have "b \<notin> set (custom_names (tree_root t))" using res by (auto simp: list_all_iff reserved_names_def)
  moreover have "b \<notin> set (zone_names_in (tree_root t))" using None findBoardZone_None [OF z] by simp
  ultimately have "deck_wf t'" using new_board_wf [OF assms(1)] e by (metis snd_conv)
  with e show ?thesis
    by (intro that [of "tree_root t" "[]" "[]" "[ZoneNode i b []]"]) (use b in \<open>auto simp: new_board_def reserved_names_def\<close>)
qed

lemma findOrCreateBoardZone_None: "findOrCreateBoardZone b t = (None, t') \<Longrightarrow> t' = t"
  by (auto simp: findOrCreateBoardZone_def split: option.splits if_splits prod.splits)

lemma deck_wf_mset:
  assumes "deck_wf t" and "mset (addrs (tree_root t')) = mset (addrs (tree_root t))"
    and "mset (zone_names_in (tree_root t') @ custom_names (tree_root t'))
         = mset (zone_names_in (tree_root t) @ custom_names (tree_root t))"
    and "set (custom_names (tree_root t')) \<subseteq> set (custom_names (tree_root t))"
    and "list_all is_zone (tree_root t')" and "list_all (nested_within 2) (tree_root t')" and "next_addr t' = next_addr t"
  shows "deck_wf t'"
proof -
  have "distinct (addrs (tree_root t'))"
    using assms(1) mset_eq_imp_distinct_iff [OF assms(2)] by (simp add: deck_wf_def)
  moreover have "distinct (zone_names_in (tree_root t') @ custom_names (tree_root t'))"
    using assms(1) mset_eq_imp_distinct_iff [OF assms(3)] unfolding deck_wf_def by blast
  moreover have "set (addrs (tree_root t')) = set (addrs (tree_root t))"
    using assms(2) by (rule mset_eq_setD)
  ultimately show ?thesis
    using assms unfolding deck_wf_def by (auto simp: list_all_iff simp del: distinct_append)
qed


lemma addCustomZone_step:
  assumes wf: "deck_wf t"
  shows "deck_wf (snd (addCustomZone b n t))"
    and "totalCards (snd (addCustomZone b n t)) = totalCards t"
    and "collectCardsRecursive (tree_root (snd (addCustomZone b n t))) = collectCardsRecursive (tree_root t)"
proof -
  have "deck_wf (snd (addCustomZone b n t)) \<and> totalCards (snd (addCustomZone b n t)) = totalCards t
    \<and> collectCardsRecursive (tree_root (snd (addCustomZone b n t))) = collectCardsRecursive (tree_root t)" (is ?P)
  proof (cases "hasZoneName n t \<or> fst (findOrCreateBoardZone b t) = None")
    case True
    then show ?P using wf
      by (cases "findOrCreateBoardZone b t") (auto simp: addCustomZone_def dest: findOrCreateBoardZone_None)
  next
    case False
    then obtain i t' where f: "findOrCreateBoardZone b t = (Some i, t')"
      by (cases "findOrCreateBoardZone b t") auto
    then obtain l cs r new where r: "tree_root t' = l @ ZoneNode i b cs # r" and wf': "deck_wf t'"
      and new: "tree_root t' = tree_root t @ new" "collectCardsRecursive new = []" "custom_names new = []"
        "set (zone_names_in new) \<subseteq> set reserved_names" and tot: "totalCards t' = totalCards t"
      by (rule findOrCreateBoardZone_SomeE [OF wf])
    have d: "distinct (addrs (tree_root t'))" using wf' by (simp add: deck_wf_def)
    have "list_all is_zone (tree_root t)" using wf by (simp add: deck_wf_def)
    with False hasZoneName_iff [of t n]
    have n: "n \<notin> set (zone_names_in (tree_root t'))" "n \<notin> set (custom_names (tree_root t'))" "n \<notin> set reserved_names"
      using new by auto
    let ?t = "t'\<lparr>tree_root := l @ ZoneNode i b (cs @ [ZoneNode (next_addr t') n []]) # r, next_addr := next_addr t' + 1\<rparr>"
    have e: "snd (addCustomZone b n t) = ?t"
      using False f edit_board [OF r d] by (simp add: addCustomZone_def)
    have "deck_wf ?t"
      using wf' n unfolding deck_wf_def by (auto simp: r numeral_2_eq_2 fresh_addr)
    moreover have "collectCardsRecursive (tree_root ?t) = collectCardsRecursive (tree_root t')" by (simp add: r)
    ultimately show ?P using new(1,2) tot unfolding e by simp
  qed
  then show "deck_wf (snd (addCustomZone b n t))" and "totalCards (snd (addCustomZone b n t)) = totalCards t"
    and "collectCardsRecursive (tree_root (snd (addCustomZone b n t))) = collectCardsRecursive (tree_root t)"
    by simp_all
qed

lemma renameCustomZone_step:
  assumes wf: "deck_wf t"
  shows "deck_wf (snd (renameCustomZone a n t))"
    and "totalCards (snd (renameCustomZone a n t)) = totalCards t"
    and "collectCardsRecursive (tree_root (snd (renameCustomZone a n t))) = collectCardsRecursive (tree_root t)"
proof -
  have "deck_wf (snd (renameCustomZone a n t)) \<and> totalCards (snd (renameCustomZone a n t)) = totalCards t
    \<and> collectCardsRecursive (tree_root (snd (renameCustomZone a n t))) = collectCardsRecursive (tree_root t)" (is ?P)
  proof (cases "hasZoneName n t \<or> findCustomZoneByName a (tree_root t) = None")
    case True
    then show ?P using wf by (auto simp: renameCustomZone_def)
  next
    case False
    then obtain b z where f: "findCustomZoneByName a (tree_root t) = Some (b, z)" by auto
    then obtain l j bn l' i cs r' r where r: "tree_root t = l @ ZoneNode j bn (l' @ ZoneNode i a cs # r') # r"
      and z: "z = ZoneNode i a cs" by (rule findCustomZoneByName_SomeE)
    have d: "distinct (addrs (tree_root t))" and "list_all is_zone (tree_root t)"
      using wf by (simp_all add: deck_wf_def)
    then have n: "n \<notin> set (zone_names_in (tree_root t))" "n \<notin> set (custom_names (tree_root t))" "n \<notin> set reserved_names"
      using False hasZoneName_iff [of t n] by auto
    let ?t = "t\<lparr>tree_root := l @ ZoneNode j bn (l' @ ZoneNode i n cs # r') # r\<rparr>"
    have e: "snd (renameCustomZone a n t) = ?t"
      using False edit_custom [OF r d, of "\<lambda>_. n" "\<lambda>ns. ns"] by (simp add: renameCustomZone_def f z)
    have "deck_wf ?t" using wf n unfolding deck_wf_def by (auto simp: r numeral_2_eq_2)
    then show ?P unfolding e by (simp add: r)
  qed
  then show "deck_wf (snd (renameCustomZone a n t))" and "totalCards (snd (renameCustomZone a n t)) = totalCards t"
    and "collectCardsRecursive (tree_root (snd (renameCustomZone a n t))) = collectCardsRecursive (tree_root t)"
    by simp_all
qed

text \<open>The part of \<open>moveCustomZone\<close> behind its guards: cut the zone out of one board, append it to the other.\<close>

lemma move_between_boards:
  assumes wf: "deck_wf t" and r: "tree_root t = l @ ZoneNode j bn (l' @ z # r') # r" and z: "is_zone z"
    and i: "ZoneNode i nb cs \<in> set (tree_root t)" and ne: "nb \<noteq> bn"
  defines "t' \<equiv> edit_zone i (\<lambda>n. n) (\<lambda>ns. ns @ [z]) (edit_zone j (\<lambda>n. n) (detach (node_addr z)) t)"
  shows "deck_wf t'" and "totalCards t' = totalCards t"
    and "mset (collectCardsRecursive (tree_root t')) = mset (collectCardsRecursive (tree_root t))"
proof -
  have d: "distinct (addrs (tree_root t))" using wf by (simp add: deck_wf_def)
  then have "node_addr z \<notin> set (addrs l')" using r node_addr_mem [of z] by auto
  then have e: "edit_zone j (\<lambda>n. n) (detach (node_addr z)) t = t\<lparr>tree_root := l @ ZoneNode j bn (l' @ r') # r\<rparr>" (is "_ = ?t")
    using edit_board [OF r d] by (simp add: detach_split)
  have "ZoneNode i nb cs \<in> set (tree_root ?t)" using i ne unfolding r by auto
  then obtain a c where s: "tree_root ?t = a @ ZoneNode i nb cs # c" by (meson split_list)
  have "distinct (addrs (tree_root ?t))" using d unfolding r by auto
  from edit_board [OF s this]
  have t': "t' = ?t\<lparr>tree_root := a @ ZoneNode i nb (cs @ [z]) # c\<rparr>" unfolding t'_def e by simp
  have s': "l @ ZoneNode j bn (l' @ r') # r = a @ ZoneNode i nb cs # c" using s by simp
  note eqs = arg_cong [where f = "\<lambda>x. mset (addrs x)", OF s'] arg_cong [where f = "\<lambda>x. mset (zone_names_in x)", OF s']
    arg_cong [where f = "\<lambda>x. mset (custom_names x)", OF s'] arg_cong [where f = "\<lambda>x. mset (collectCardsRecursive x)", OF s']
    arg_cong [where f = "list_all is_zone", OF s'] arg_cong [where f = "list_all (nested_within (Suc (Suc 0)))", OF s']
  obtain zi zn zs where zz: "z = ZoneNode zi zn zs" using z by (rule is_zoneE)
  have ms: "mset (addrs (tree_root t')) = mset (addrs (tree_root t))"
      "mset (zone_names_in (tree_root t')) = mset (zone_names_in (tree_root t))"
      "mset (custom_names (tree_root t')) = mset (custom_names (tree_root t))"
    using eqs(1-3) unfolding t' r zz by simp_all
  show "deck_wf t'"
  proof (rule deck_wf_mset [OF wf ms(1)])
    show "mset (zone_names_in (tree_root t') @ custom_names (tree_root t')) =
        mset (zone_names_in (tree_root t) @ custom_names (tree_root t))" using ms(2,3) by simp
    show "set (custom_names (tree_root t')) \<subseteq> set (custom_names (tree_root t))"
      using mset_eq_setD [OF ms(3)] by simp
    show "list_all is_zone (tree_root t')" using eqs(5) wf unfolding t' deck_wf_def r by simp
    show "list_all (nested_within 2) (tree_root t')" using eqs(6) wf unfolding t' deck_wf_def r numeral_2_eq_2 by simp
  qed (simp add: t')
  show "totalCards t' = totalCards t" by (simp add: t')
  show "mset (collectCardsRecursive (tree_root t')) = mset (collectCardsRecursive (tree_root t))"
    using eqs(4) unfolding t' r by simp
qed

lemma moveCustomZone_step:
  assumes wf: "deck_wf t"
  shows "deck_wf (snd (moveCustomZone n b t))"
    and "totalCards (snd (moveCustomZone n b t)) = totalCards t"
    and "mset (collectCardsRecursive (tree_root (snd (moveCustomZone n b t)))) = mset (collectCardsRecursive (tree_root t))"
proof -
  have "deck_wf (snd (moveCustomZone n b t)) \<and> totalCards (snd (moveCustomZone n b t)) = totalCards t
    \<and> mset (collectCardsRecursive (tree_root (snd (moveCustomZone n b t)))) = mset (collectCardsRecursive (tree_root t))" (is ?P)
  proof (cases "findCustomZoneByName n (tree_root t)")
    case None
    then show ?P using wf by (simp add: moveCustomZone_def)
  next
    case (Some q)
    then obtain x z where f: "findCustomZoneByName n (tree_root t) = Some (x, z)" by (cases q) auto
    then obtain l j bn l' i cs r' r where r: "tree_root t = l @ ZoneNode j bn (l' @ ZoneNode i n cs # r') # r"
      and x: "x = ZoneNode j bn (l' @ ZoneNode i n cs # r')" and z: "z = ZoneNode i n cs"
      by (rule findCustomZoneByName_SomeE)
    show ?P
    proof (cases "bn = b \<or> fst (findOrCreateBoardZone b t) = None")
      case True
      then show ?P using wf x
        by (cases "findOrCreateBoardZone b t") (auto simp: moveCustomZone_def f dest: findOrCreateBoardZone_None)
    next
      case False
      then obtain k t' where o: "findOrCreateBoardZone b t = (Some k, t')"
        by (cases "findOrCreateBoardZone b t") auto
      then obtain a ds c new where s: "tree_root t' = a @ ZoneNode k b ds # c" and wf': "deck_wf t'"
        and new: "tree_root t' = tree_root t @ new" "collectCardsRecursive new = []" "custom_names new = []"
          "set (zone_names_in new) \<subseteq> set reserved_names" "totalCards t' = totalCards t"
        by (rule findOrCreateBoardZone_SomeE [OF wf])
      have mem: "ZoneNode k b ds \<in> set (tree_root t')" by (simp add: s)
      have r': "tree_root t' = l @ ZoneNode j bn (l' @ z # r') # (r @ new)" using new r z by simp
      have ne: "b \<noteq> bn" using False by blast
      have "snd (moveCustomZone n b t) =
          edit_zone k (\<lambda>n. n) (\<lambda>ns. ns @ [z]) (edit_zone j (\<lambda>n. n) (detach (node_addr z)) t')"
        using ne by (simp add: moveCustomZone_def f x o z)
      with move_between_boards [OF wf' r' _ mem ne] new show ?P by (simp add: z)
    qed
  qed
  then show "deck_wf (snd (moveCustomZone n b t))" and "totalCards (snd (moveCustomZone n b t)) = totalCards t"
    and "mset (collectCardsRecursive (tree_root (snd (moveCustomZone n b t)))) = mset (collectCardsRecursive (tree_root t))"
    by simp_all
qed


lemma slim_ops_wf:
  assumes "deck_wf t"
  shows "deck_wf (snd (deleteNode i t))" and "deck_wf (clear_tree b t)" and "deck_wf (clearCommanders t)"
    and "deck_wf (snd (removeCustomZone n t))"
proof -
  show "deck_wf (snd (deleteNode i t))"
    by (rule deck_wf_slim [OF assms deleteNode_slim(1)]) (simp_all add: deleteNode_slim)
  show "deck_wf (clear_tree b t)"
    by (rule deck_wf_slim [OF assms clear_tree_slim(1)]) (simp_all add: clear_tree_slim)
  show "deck_wf (clearCommanders t)"
    by (rule deck_wf_slim [OF assms clearCommanders_slim(1)]) (simp_all add: clearCommanders_slim)
  show "deck_wf (snd (removeCustomZone n t))"
    by (rule deck_wf_slim [OF assms removeCustomZone_slim(1) [OF assms]]) (simp_all add: removeCustomZone_slim assms)
qed

lemmas step_wf = tree_addCard_wf slim_ops_wf addCustomZone_step(1) renameCustomZone_step(1) moveCustomZone_step(1)

text \<open>Changing the cards in place changes no zone.\<close>

lemma map_cards_shape:
  "node_addrs (map_cards f x) = node_addrs x" "is_zone (map_cards f x) = is_zone x"
  "nested_within d (map_cards f x) = nested_within d x" "is_zone x \<Longrightarrow> node_name (map_cards f x) = node_name x"
proof -
  show "node_addrs (map_cards f x) = node_addrs x"
  proof (induction x)
    case (ZoneNode i n ns)
    then have "addrs (map (map_cards f) ns) = addrs ns" by (induction ns) simp_all
    then show ?case by simp
  qed simp
  show "nested_within d (map_cards f x) = nested_within d x"
  proof (induction x arbitrary: d)
    case (ZoneNode i n ns)
    then show ?case by (cases d) (simp_all add: list_all_iff)
  qed simp
  show "is_zone (map_cards f x) = is_zone x" "is_zone x \<Longrightarrow> node_name (map_cards f x) = node_name x"
    by (cases x; simp)+
qed

lemma zone_names_map_cards: "zone_names_in (map (\<lambda>x. map_cards (g x) x) ns) = zone_names_in ns"
proof (induction ns)
  case (Cons x ns)
  then show ?case by (cases x) simp_all
qed simp

lemma map_cards_list_shape:
  "addrs (map (\<lambda>x. map_cards (g x) x) ns) = addrs ns" "zone_names_in (map (\<lambda>x. map_cards (g x) x) ns) = zone_names_in ns"
  "custom_names (map (\<lambda>x. map_cards (g x) x) ns) = custom_names ns"
  "list_all is_zone (map (\<lambda>x. map_cards (g x) x) ns) = list_all is_zone ns"
  "list_all (nested_within d) (map (\<lambda>x. map_cards (g x) x) ns) = list_all (nested_within d) ns"
proof -
  have ch: "zone_names_in (children (map_cards f x)) = zone_names_in (children x)" for f and x :: "'a deck_node"
    using zone_names_map_cards [of "\<lambda>_. f" "children x"] by (cases x) simp_all
  show "custom_names (map (\<lambda>x. map_cards (g x) x) ns) = custom_names ns" by (induction ns) (simp_all add: ch map_cards_shape)
  show "addrs (map (\<lambda>x. map_cards (g x) x) ns) = addrs ns" by (induction ns) (simp_all add: map_cards_shape)
qed (simp_all add: list_all_iff map_cards_shape zone_names_map_cards)

lemma deck_wf_map_cards:
  assumes "deck_wf t" and "tree_root t' = map (\<lambda>x. map_cards (g x) x) (tree_root t)" and "next_addr t' = next_addr t"
  shows "deck_wf t'"
  using assms(1) unfolding deck_wf_def assms(2,3) map_cards_list_shape .

lemma copy_tree_wf: "deck_wf t \<Longrightarrow> deck_wf (copy_tree junk t)"
  by (rule deck_wf_map_cards [where g = "\<lambda>_ c. c\<lparr>format_legal := junk c\<rparr>"]) (simp_all add: copy_tree_def copy_nodes_def)

lemma forEachCard_wf: "deck_wf t \<Longrightarrow> deck_wf (forEachCard f t)"
proof (rule deck_wf_map_cards [where g = "\<lambda>x. if is_zone x then f (node_name x) else (\<lambda>c. c)"])
  have "map_cards (\<lambda>c. c) x = x" if "\<not> is_zone x" for x :: "nat deck_node" using that by (cases x) simp_all
  then show "tree_root (forEachCard f t) = map (\<lambda>x. map_cards (if is_zone x then f (node_name x) else (\<lambda>c. c)) x) (tree_root t)"
    by (simp add: forEachCard_def)
qed (simp_all add: forEachCard_def)

lemma deck_step_wf: "deck_wf t \<Longrightarrow> deck_wf (deck_step op t)"
  by (cases op) (simp_all add: step_wf forEachCard_wf copy_tree_wf)

lemma deck_run_wf: "deck_wf t \<Longrightarrow> deck_wf (deck_run ops t)"
  by (rule deck_run_invariant [where ok = "\<lambda>_. True"]) (simp_all add: deck_step_wf list_all_iff)

text \<open>C11: However the editing operations follow each other (adding a card, deleting a node, clearing
  the tree or the commanders, adding, renaming, moving and removing a custom zone, changing cards in
  place, copying the tree), starting from an empty deck: no node is listed twice and every address
  was handed out, the children of the root are zones, zones are nested at most two deep, and no two
  zones of the deck, boards and custom zones together, share a name, nor does a custom zone have the
  name of a standard board. Reading XML is not among these operations: a file may nest and name its
  zones as it likes (\<open>read_zone_takes_any_name\<close> in \<open>DeckLoad\<close>).\<close>

theorem deck_tree_wf: "deck_wf (deck_run ops new_tree)"
  by (rule deck_run_wf [OF deck_wf_new])

section \<open>The size limit\<close>

fun op_ok :: "deck_op \<Rightarrow> bool" where
  "op_ok (AddCard c z p) = (0 \<le> copies c)"
| "op_ok (CopyTree junk) = False"
| "op_ok (VisitCards f) = (\<forall>z c. copies (f z c) = copies c)"
| "op_ok _ = True"

lemma deck_capped_mset:
  assumes "deck_capped t" and "mset (collectCardsRecursive (tree_root t')) = mset (collectCardsRecursive (tree_root t))"
    and "totalCards t' = totalCards t"
  shows "deck_capped t'"
proof -
  have "sum_list (map copies (collectCardsRecursive (tree_root t'))) = sum_list (map copies (collectCardsRecursive (tree_root t)))"
    by (metis assms(2) mset_map sum_mset_sum_list)
  then show ?thesis
    using assms mset_eq_setD [OF assms(2)] by (simp add: deck_capped_def recursiveCount_collect list_all_iff)
qed

lemma tree_addCard_capped:
  assumes "deck_wf t" and "deck_capped t" and "0 \<le> copies c"
  shows "deck_capped (snd (tree_addCard c zn p t))"
proof -
  note a = tree_addCard_cards [OF assms(1), of c zn p]
  have "sum_list (map copies (collectCardsRecursive (tree_root (snd (tree_addCard c zn p t)))))
      = min (copies c) (max_deck_size - totalCards t) + sum_list (map copies (collectCardsRecursive (tree_root t)))"
    using arg_cong [where f = "\<lambda>M. sum_mset (image_mset copies M)", OF a(2)]
    by (simp flip: sum_mset_sum_list mset_map)
  moreover have "set (collectCardsRecursive (tree_root (snd (tree_addCard c zn p t))))
      = insert (c\<lparr>copies := min (copies c) (max_deck_size - totalCards t)\<rparr>) (set (collectCardsRecursive (tree_root t)))"
    using arg_cong [where f = set_mset, OF a(2)] by simp
  ultimately show ?thesis
    using assms a(1) by (simp add: deck_capped_def recursiveCount_collect list_all_iff)
qed

lemma clear_tree_capped:
  assumes "deck_capped t"
  shows "deck_capped (clear_tree b t)"
proof -
  let ?z = "if b then findBoardZone zone_commander (tree_root t) else None"
  have pos: "list_all (\<lambda>c. 0 \<le> copies c) (collectCardsRecursive (tree_root t))"
    and le: "sum_list (map copies (collectCardsRecursive (tree_root t))) \<le> max_deck_size"
    using assms by (simp_all add: deck_capped_def recursiveCount_collect)
  note sub = slim_collect [OF clear_tree_slim(1) [of b t]]
  have "totalCards (clear_tree b t) = sum_list (map copies (collectCardsRecursive (tree_root (clear_tree b t))))"
    by (auto simp: clear_tree_def node_count_collect split: option.splits)
  then show ?thesis
    using subseq_list_all [OF sub pos] subseq_sum_le [OF sub pos] le
    by (simp add: deck_capped_def recursiveCount_collect)
qed

lemma clearCommanders_capped:
  assumes wf: "deck_wf t" and cap: "deck_capped t"
  shows "deck_capped (clearCommanders t)"
proof (cases "findBoardZone zone_commander (tree_root t)")
  case None
  with cap show ?thesis by (simp add: clearCommanders_def)
next
  case (Some z)
  then obtain l i cs r where r: "tree_root t = l @ ZoneNode i zone_commander cs # r" and z: "z = ZoneNode i zone_commander cs"
    by (rule findBoardZone_SomeE)
  have "i \<notin> set (addrs l)" and "i \<noteq> 0" using wf r by (auto simp: deck_wf_def)
  then have e: "clearCommanders t = t\<lparr>tree_root := l @ r, totalCards := max 0 (totalCards t - node_count True z)\<rparr>"
    using Some r z by (simp add: clearCommanders_def deleteNode_def detach_split)
  have "list_all (\<lambda>c. 0 \<le> copies c) (collectCardsRecursive (l @ r))"
    and "recursiveCount True (l @ r) = recursiveCount True (tree_root t) - node_count True z"
    using cap by (auto simp: deck_capped_def r z recursiveCount_collect node_count_collect simp del: node_count.simps)
  moreover have "0 \<le> node_count True z"
    using cap by (auto simp: deck_capped_def r z node_count_collect list_all_iff
        simp del: node_count.simps intro!: sum_list_nonneg)
  ultimately show ?thesis using cap by (auto simp: e deck_capped_def max_deck_size_def)
qed

lemma copies_map_cards:
  "(\<And>c. copies (f c) = copies c) \<Longrightarrow> map copies (collect_node (map_cards f x)) = map copies (collect_node x)"
proof (induction x)
  case (ZoneNode i n ns)
  then have "map copies (collectCardsRecursive (map (map_cards f) ns)) = map copies (collectCardsRecursive ns)"
    by (induction ns) simp_all
  then show ?case by simp
qed simp

lemma forEachCard_capped:
  assumes "deck_capped t" and "\<And>z c. copies (f z c) = copies c"
  shows "deck_capped (forEachCard f t)"
proof -
  have "map copies (collect_node (if is_zone x then map_cards (f (node_name x)) x else x)) = map copies (collect_node x)" for x :: "nat deck_node"
    using copies_map_cards [of "f (node_name x)" x] assms(2) by simp
  then have eq: "map copies (collectCardsRecursive (map (\<lambda>x. if is_zone x then map_cards (f (node_name x)) x else x) ns))
      = map copies (collectCardsRecursive ns)" for ns :: "nat deck_node list"
    by (induction ns) simp_all
  have all: "list_all (\<lambda>c. 0 \<le> copies c) cs = list_all (\<lambda>k. 0 \<le> k) (map copies cs)" for cs by (simp add: list_all_iff)
  show ?thesis
    using assms(1) unfolding deck_capped_def recursiveCount_collect all by (simp add: forEachCard_def eq)
qed

lemma deck_step_capped:
  assumes "deck_wf t" and "deck_capped t" and "op_ok op"
  shows "deck_capped (deck_step op t)"
  using assms(3)
  by (cases op)
    (auto intro: tree_addCard_capped clear_tree_capped clearCommanders_capped forEachCard_capped
      deck_capped_mset [OF assms(2)] deck_capped_slim [OF assms(2) deleteNode_slim(1)]
      deck_capped_slim [OF assms(2) removeCustomZone_slim(1)] assms
      simp: assms addCustomZone_step renameCustomZone_step moveCustomZone_step deleteNode_slim removeCustomZone_slim)

text \<open>C10: A deck that is edited in place never holds more than 100000 cards: for every sequence of
  additions of cards (of no negative amount), deletions, clearings, operations on custom zones and
  changes of cards that leave the number of copies alone, starting from an empty deck, the copies of
  all cards in all zones sum up to at most the running total the tree keeps, and that total to at
  most the limit. (The total may stay above the sum: \<open>deleteNode\<close> and \<open>removeCustomZone\<close> do not
  decrease it. Not covered are a copied tree, which forgets its total
  (\<open>copied_tree_forgets_its_total\<close>), \<open>setNumber\<close> on a card, which bypasses the tree, and XML with
  negative amounts.)\<close>

theorem deck_size_capped:
  assumes "list_all op_ok ops"
  shows "recursiveCount True (tree_root (deck_run ops new_tree)) \<le> totalCards (deck_run ops new_tree)
    \<and> totalCards (deck_run ops new_tree) \<le> 100000
    \<and> list_all (\<lambda>c. 0 \<le> copies c) (collectCardsRecursive (tree_root (deck_run ops new_tree)))"
proof -
  have "deck_wf (deck_run ops new_tree) \<and> deck_capped (deck_run ops new_tree)"
  proof (rule deck_run_invariant [where ok = op_ok and P = "\<lambda>t. deck_wf t \<and> deck_capped t", OF _ _ assms])
    show "deck_wf new_tree \<and> deck_capped new_tree"
      by (simp add: deck_wf_new) (simp add: deck_capped_def new_tree_def recursiveCount_def max_deck_size_def)
  qed (simp add: deck_step_wf deck_step_capped)
  then show ?thesis by (simp add: deck_capped_def max_deck_size_def)
qed

definition some_card :: "int \<Rightarrow> string \<Rightarrow> deck_card" where
  "some_card k n = \<lparr>card_name = n, copies = k, set_short_name = ''M11'', collector_number = ''149'',
                    provider_id = '''', format_legal = True\<rparr>"

definition some_ops :: "deck_op list" where
  "some_ops = [AddCard (some_card 4 ''Shock'') zone_main (- 1), AddZone zone_main ''burn'',
               AddCard (some_card 200000 ''Opt'') ''burn'' (- 1), MoveZone ''burn'' zone_side]"

theorem deck_size_capped_witness:
  "recursiveCount True (tree_root (deck_run some_ops new_tree)) \<le> totalCards (deck_run some_ops new_tree)
   \<and> totalCards (deck_run some_ops new_tree) = 100000
   \<and> map (\<lambda>c. (card_name c, copies c)) (getCardNodes [zone_side] (tree_root (deck_run some_ops new_tree)))
      = [(''Opt'', 99996)]"
proof -
  have "list_all op_ok some_ops" by (simp add: some_ops_def some_card_def)
  from deck_size_capped [OF this] have "recursiveCount True (tree_root (deck_run some_ops new_tree)) \<le> totalCards (deck_run some_ops new_tree)"
    by (elim conjE)
  moreover have "totalCards (deck_run some_ops new_tree) = 100000
   \<and> map (\<lambda>c. (card_name c, copies c)) (getCardNodes [zone_side] (tree_root (deck_run some_ops new_tree)))
      = [(''Opt'', 99996)]" by code_simp
  ultimately show ?thesis by simp
qed

text \<open>
  The running total drifts: deleting a card does not give its copies back, so a deck that is empty
  again can refuse every further card, and a copied tree starts to count at zero although it may be
  full.
\<close>

lemma deleted_cards_still_counted:
  "map copies (getCardNodes [] (tree_root (deck_run
     [AddCard (some_card 100000 ''Relentless Rats'') zone_main (- 1), DeleteNode 2,
      AddCard (some_card 1 ''Shock'') zone_main (- 1)] new_tree))) = [0]"
  by code_simp

lemma copied_tree_forgets_its_total:
  "recursiveCount True (tree_root (deck_run [AddCard (some_card 100000 ''Shock'') zone_main (- 1)]
     (copy_tree format_legal (deck_run [AddCard (some_card 100000 ''Opt'') zone_main (- 1)] new_tree)))) = 200000"
  by code_simp

end
