(* ===== verification/DeckHash.thy ===== *)
theory DeckHash
  imports DeckTree
begin

text \<open>
  The identity of a deck: \<open>computeDeckHash\<close> of \<open>deck_list_node_tree.cpp\<close>. It sorts the lower-case
  names of all copies in the main deck and, with a prefix, the sideboard, hashes the joined text and
  shows the first five bytes of the digest in base 32. \<open>lower\<close> stands for \<open>QString::toLower\<close> and
  \<open>digest\<close> for \<open>QCryptographicHash::hash(text.toUtf8(), Sha1)\<close>.
\<close>

unbundle bit_operations_syntax

section \<open>Definitions\<close>

definition cardNodesToCopies :: "(string \<Rightarrow> string) \<Rightarrow> deck_card list \<Rightarrow> string \<Rightarrow> string list" where
  "cardNodesToCopies lower cs pre =
     concat (map (\<lambda>c. replicate (nat (copies c)) (pre @ lower (card_name c))) cs)"

fun join :: "string \<Rightarrow> string list \<Rightarrow> string" where
  "join d [] = []"
| "join d [x] = x"
| "join d (x # y # xs) = x @ d @ join d (y # xs)"

definition deck_text :: "(string \<Rightarrow> string) \<Rightarrow> 'a deck_node list \<Rightarrow> string" where
  "deck_text lower ns =
     join '';'' (sort (cardNodesToCopies lower (getCardNodes [zone_main] ns) []
                       @ cardNodesToCopies lower (getCardNodes [zone_side] ns) ''SB:''))"

definition pack_digest :: "8 word list \<Rightarrow> 64 word" where
  "pack_digest d = foldl (\<lambda>number i. number OR push_bit (32 - 8 * i) (ucast (d ! i))) 0 [0..<5]"

definition digit32 :: "nat \<Rightarrow> char" where
  "digit32 v = char_of (if v < 10 then v + 48 else v + 87)"

fun number32 :: "nat \<Rightarrow> string" where
  "number32 n = (if n < 32 then [digit32 n] else number32 (n div 32) @ [digit32 (n mod 32)])"

declare number32.simps [simp del]

definition rightJustified :: "nat \<Rightarrow> char \<Rightarrow> string \<Rightarrow> string" where
  "rightJustified k c s = replicate (k - length s) c @ s"

definition encodeDeckHash :: "8 word list \<Rightarrow> string" where
  "encodeDeckHash d = rightJustified 8 CHR ''0'' (number32 (unat (pack_digest d)))"

definition computeDeckHash :: "(string \<Rightarrow> string) \<Rightarrow> (string \<Rightarrow> 8 word list) \<Rightarrow> 'a deck_node list \<Rightarrow> string" where
  "computeDeckHash lower digest ns = encodeDeckHash (digest (deck_text lower ns))"

section \<open>The printed number\<close>

definition value32 :: "char \<Rightarrow> nat" where
  "value32 c = (let v = of_char c in if v < 58 then v - 48 else v - 87)"

definition decode32 :: "string \<Rightarrow> nat" where
  "decode32 s = foldl (\<lambda>v c. v * 32 + value32 c) 0 s"

lemma value_digit32 [simp]: "v < 32 \<Longrightarrow> value32 (digit32 v) = v"
  by (simp add: value32_def digit32_def)

lemma decode_number32 [simp]: "decode32 (number32 n) = n"
proof (induction n rule: number32.induct)
  case (1 n)
  then show ?case by (cases "n < 32"; subst number32.simps) (simp_all add: decode32_def)
qed

lemma decode_padding [simp]: "decode32 (replicate k CHR ''0'' @ s) = decode32 s"
  by (induction k) (simp_all add: decode32_def value32_def)

lemma length_number32: "n < 32 ^ Suc k \<Longrightarrow> length (number32 n) \<le> Suc k"
proof (induction k arbitrary: n)
  case 0
  then show ?case by (subst number32.simps) simp
next
  case (Suc k)
  show ?case
  proof (cases "n < 32")
    case True
    then show ?thesis by (subst number32.simps) simp
  next
    case False
    have "n div 32 < 32 ^ Suc k" using Suc.prems by (simp add: less_mult_imp_div_less mult.commute)
    from Suc.IH [OF this] False show ?thesis by (subst number32.simps) simp
  qed
qed

lemma pack_digest_Cons:
  "pack_digest (a # b # c # d # e # r) =
     push_bit 32 (ucast a) OR push_bit 24 (ucast b) OR push_bit 16 (ucast c) OR push_bit 8 (ucast d) OR ucast e"
proof -
  have "[0..<5] = [0, 1, 2, 3, 4 :: nat]" by code_simp
  then show ?thesis by (simp add: pack_digest_def nth_Cons numeral_eq_Suc or.assoc split: nat.splits)
qed

lemma pack_digest_bytes:
  defines "p a b c d e \<equiv> push_bit 32 (ucast a) OR push_bit 24 (ucast b) OR push_bit 16 (ucast c)
    OR push_bit 8 (ucast d) OR (ucast (e :: 8 word) :: 64 word)"
  shows "(ucast (drop_bit 32 (p a b c d e)) :: 8 word) = a" and "(ucast (drop_bit 24 (p a b c d e)) :: 8 word) = b"
    and "(ucast (drop_bit 16 (p a b c d e)) :: 8 word) = c" and "(ucast (drop_bit 8 (p a b c d e)) :: 8 word) = d"
    and "(ucast (p a b c d e) :: 8 word) = e" and "unat (p a b c d e) < 2 ^ 40"
proof -
  show "(ucast (drop_bit 32 (p a b c d e)) :: 8 word) = a"
    by (rule bit_word_eqI) (auto simp: p_def bit_simps dest: bit_imp_le_length)
  show "(ucast (drop_bit 24 (p a b c d e)) :: 8 word) = b"
    by (rule bit_word_eqI) (auto simp: p_def bit_simps dest: bit_imp_le_length)
  show "(ucast (drop_bit 16 (p a b c d e)) :: 8 word) = c"
    by (rule bit_word_eqI) (auto simp: p_def bit_simps dest: bit_imp_le_length)
  show "(ucast (drop_bit 8 (p a b c d e)) :: 8 word) = d"
    by (rule bit_word_eqI) (auto simp: p_def bit_simps dest: bit_imp_le_length)
  show "(ucast (p a b c d e) :: 8 word) = e"
    by (rule bit_word_eqI) (auto simp: p_def bit_simps dest: bit_imp_le_length)
  have "n < 40" if "bit (p a b c d e) n" for n
    using that by (auto simp: p_def bit_or_iff bit_push_bit_iff bit_ucast_iff dest!: bit_imp_le_length)
  then have "take_bit 40 (p a b c d e) = p a b c d e"
    by (intro bit_word_eqI) (auto simp: bit_take_bit_iff)
  then show "unat (p a b c d e) < 2 ^ 40"
    by (metis take_bit_nat_less_exp unsigned_take_bit_eq)
qed

lemma five_bytesE:
  assumes "5 \<le> length d"
  obtains a b c e f r where "d = a # b # c # e # f # r"
  using assms by (auto simp: numeral_eq_Suc Suc_le_length_iff)

lemma pack_digest_eq_iff:
  assumes "5 \<le> length d" and "5 \<le> length d'"
  shows "pack_digest d = pack_digest d' \<longleftrightarrow> take 5 d = take 5 d'"
proof -
  from assms(1) obtain a b c e f r where d: "d = a # b # c # e # f # r" by (rule five_bytesE)
  from assms(2) obtain a' b' c' e' f' r' where d': "d' = a' # b' # c' # e' # f' # r'" by (rule five_bytesE)
  note bytes = pack_digest_bytes [of a b c e f] pack_digest_bytes [of a' b' c' e' f']
  show ?thesis
  proof
    assume "pack_digest d = pack_digest d'"
    then have "a = a' \<and> b = b' \<and> c = c' \<and> e = e' \<and> f = f'"
      unfolding d d' pack_digest_Cons using bytes(1-5,7-11) by metis
    then show "take 5 d = take 5 d'" by (simp add: d d')
  next
    assume "take 5 d = take 5 d'"
    then show "pack_digest d = pack_digest d'" by (simp add: d d' pack_digest_Cons)
  qed
qed

lemma pack_digest_bound: "5 \<le> length d \<Longrightarrow> unat (pack_digest d) < 32 ^ 8"
  by (erule five_bytesE) (use pack_digest_bytes(6) in \<open>simp add: pack_digest_Cons\<close>)

lemma encodeDeckHash_eq_iff:
  assumes "5 \<le> length d" and "5 \<le> length d'"
  shows "encodeDeckHash d = encodeDeckHash d' \<longleftrightarrow> take 5 d = take 5 d'"
proof -
  have "decode32 (encodeDeckHash x) = unat (pack_digest x)" for x
    by (simp add: encodeDeckHash_def rightJustified_def)
  then show ?thesis
    by (metis encodeDeckHash_def pack_digest_eq_iff [OF assms] unsigned_word_eqI)
qed

lemma length_encodeDeckHash: "5 \<le> length d \<Longrightarrow> length (encodeDeckHash d) = 8"
  using length_number32 [of "unat (pack_digest d)" 7] pack_digest_bound [of d]
  by (simp add: encodeDeckHash_def rightJustified_def)

section \<open>The hashed text\<close>

lemma split_join: "xs \<noteq> [] \<Longrightarrow> \<forall>x \<in> set xs. d \<notin> set x \<Longrightarrow> split_on d (join [d] xs) = xs"
  by (induction "[d]" xs rule: join.induct) auto

lemma join_eq_iff:
  assumes "\<forall>x \<in> set xs \<union> set ys. x \<noteq> [] \<and> d \<notin> set x"
  shows "join [d] xs = join [d] ys \<longleftrightarrow> xs = ys"
proof -
  have nil: "join [d] zs = [] \<longleftrightarrow> zs = []" if "\<forall>x \<in> set zs. x \<noteq> []" for zs
    using that by (cases "([d], zs)" rule: join.cases) auto
  show ?thesis using nil [of xs] nil [of ys] split_join [of xs d] split_join [of ys d] assms
    by (metis UnCI)
qed

text \<open>A name that cannot be confused with a separator or with the sideboard prefix.\<close>

definition hash_safe :: "(string \<Rightarrow> string) \<Rightarrow> deck_card \<Rightarrow> bool" where
  "hash_safe lower c \<longleftrightarrow>
     lower (card_name c) \<noteq> [] \<and> CHR '';'' \<notin> set (lower (card_name c)) \<and> \<not> starts_with ''SB:'' (lower (card_name c))"

abbreviation main_copies :: "(string \<Rightarrow> string) \<Rightarrow> 'a deck_node list \<Rightarrow> string list" where
  "main_copies lower ns \<equiv> cardNodesToCopies lower (getCardNodes [zone_main] ns) []"

abbreviation side_copies :: "(string \<Rightarrow> string) \<Rightarrow> 'a deck_node list \<Rightarrow> string list" where
  "side_copies lower ns \<equiv> cardNodesToCopies lower (getCardNodes [zone_side] ns) []"

lemma copies_prefix: "cardNodesToCopies lower cs p = map ((@) p) (cardNodesToCopies lower cs [])"
  by (induction cs) (simp_all add: cardNodesToCopies_def)

lemma copies_safe:
  "list_all (hash_safe lower) cs \<Longrightarrow> x \<in> set (cardNodesToCopies lower cs []) \<Longrightarrow>
   x \<noteq> [] \<and> CHR '';'' \<notin> set x \<and> \<not> starts_with ''SB:'' x"
  by (auto simp: cardNodesToCopies_def hash_safe_def list_all_iff)

lemma prefix_mset_eq_iff:
  assumes "\<forall>x \<in> set ms \<union> set ms'. \<not> starts_with p x"
  shows "mset ms + mset (map ((@) p) ss) = mset ms' + mset (map ((@) p) ss') \<longleftrightarrow> mset ms = mset ms' \<and> mset ss = mset ss'"
proof
  assume eq: "mset ms + mset (map ((@) p) ss) = mset ms' + mset (map ((@) p) ss')"
  have main: "filter_mset (\<lambda>x. \<not> starts_with p x) (mset xs + mset (map ((@) p) ys)) = mset xs"
    if "\<forall>x \<in> set xs. \<not> starts_with p x" for xs ys
  proof -
    have "filter_mset (\<lambda>x. \<not> starts_with p x) (mset xs) = mset xs" using that by (simp add: filter_mset_eq_conv)
    moreover have "filter_mset (\<lambda>x. \<not> starts_with p x) (mset (map ((@) p) ys)) = {#}"
      by (induction ys) (auto simp: starts_with_iff)
    ultimately show ?thesis by simp
  qed
  have "mset ms = mset ms'"
    using main [of ms ss] main [of ms' ss'] arg_cong [OF eq, of "filter_mset (\<lambda>x. \<not> starts_with p x)"] assms by simp
  moreover have "mset ss = mset ss'"
  proof -
    have undo: "image_mset (drop (length p)) (image_mset ((@) p) M) = M" for M
      by (simp add: image_mset.compositionality comp_def)
    have "image_mset ((@) p) (mset ss) = image_mset ((@) p) (mset ss')" using eq calculation by simp
    then show ?thesis using undo by metis
  qed
  ultimately show "mset ms = mset ms' \<and> mset ss = mset ss'" ..
qed simp

lemma sort_eq_iff: "sort xs = sort ys \<longleftrightarrow> mset xs = mset (ys :: 'a::linorder list)"
proof
  assume "sort xs = sort ys"
  then have "mset (sort xs) = mset (sort ys)" by simp
  then show "mset xs = mset ys" by simp
next
  assume "mset xs = mset ys"
  then show "sort xs = sort ys" by (intro properties_for_sort) simp_all
qed

lemma deck_text_eq_iff:
  assumes "list_all (hash_safe lower) (getCardNodes [zone_main] ns @ getCardNodes [zone_side] ns)"
    and "list_all (hash_safe lower) (getCardNodes [zone_main] ms @ getCardNodes [zone_side] ms)"
  shows "deck_text lower ns = deck_text lower ms \<longleftrightarrow>
    mset (main_copies lower ns) = mset (main_copies lower ms) \<and> mset (side_copies lower ns) = mset (side_copies lower ms)"
proof -
  let ?l = "\<lambda>ks. main_copies lower ks @ map ((@) ''SB:'') (side_copies lower ks)"
  have tn: "deck_text lower ks = join [CHR '';''] (sort (?l ks))" for ks :: "'a deck_node list"
    by (simp add: deck_text_def copies_prefix [of _ _ "''SB:''"])
  have tm: "deck_text lower ks = join [CHR '';''] (sort (?l ks))" for ks :: "'b deck_node list"
    by (simp add: deck_text_def copies_prefix [of _ _ "''SB:''"])
  have safe: "\<forall>x \<in> set (?l ns) \<union> set (?l ms). x \<noteq> [] \<and> CHR '';'' \<notin> set x"
  proof -
    have ok: "\<forall>x \<in> set (cardNodesToCopies lower cs []). x \<noteq> [] \<and> CHR '';'' \<notin> set x"
      if "list_all (hash_safe lower) cs" for cs
      using copies_safe [OF that] by simp
    have "list_all (hash_safe lower) (getCardNodes [zone_main] ns)" "list_all (hash_safe lower) (getCardNodes [zone_side] ns)"
      "list_all (hash_safe lower) (getCardNodes [zone_main] ms)" "list_all (hash_safe lower) (getCardNodes [zone_side] ms)"
      using assms by simp_all
    from this [THEN ok] show ?thesis by (simp add: ball_Un)
  qed
  have "deck_text lower ns = deck_text lower ms \<longleftrightarrow> sort (?l ns) = sort (?l ms)"
    unfolding tn tm using safe by (intro join_eq_iff) simp
  also have "\<dots> \<longleftrightarrow> mset (?l ns) = mset (?l ms)"
    by (rule sort_eq_iff)
  also have "\<dots> \<longleftrightarrow> mset (main_copies lower ns) = mset (main_copies lower ms) \<and> mset (side_copies lower ns) = mset (side_copies lower ms)"
    unfolding mset_append using assms by (intro prefix_mset_eq_iff) (auto dest: copies_safe)
  finally show ?thesis .
qed

text \<open>C12: What the deck hash identifies. Two decks are given the same text to digest exactly when their
  main decks hold the same lower-case card names in the same numbers and their sideboards do, in
  whatever order and in whatever custom zones of the two boards the cards stand (for names without a
  semicolon that do not start like the sideboard prefix); and two decks get the same hash exactly when
  the first five bytes of their digests agree, because the eight characters lose none of them.\<close>

theorem deck_hash_identifies:
  fixes ns ms :: "nat deck_node list"
  assumes "\<And>s. 5 \<le> length (digest s)"
    and "list_all (hash_safe lower) (getCardNodes [zone_main] ns @ getCardNodes [zone_side] ns)"
    and "list_all (hash_safe lower) (getCardNodes [zone_main] ms @ getCardNodes [zone_side] ms)"
  shows "(deck_text lower ns = deck_text lower ms \<longleftrightarrow>
          mset (main_copies lower ns) = mset (main_copies lower ms) \<and> mset (side_copies lower ns) = mset (side_copies lower ms))
    \<and> (computeDeckHash lower digest ns = computeDeckHash lower digest ms \<longleftrightarrow>
         take 5 (digest (deck_text lower ns)) = take 5 (digest (deck_text lower ms)))
    \<and> length (computeDeckHash lower digest ns) = 8"
  using deck_text_eq_iff [OF assms(2,3)] encodeDeckHash_eq_iff [OF assms(1) assms(1)] length_encodeDeckHash [OF assms(1)]
  by (simp add: computeDeckHash_def)

definition one_deck :: "nat deck_node list" where
  "one_deck = tree_root (deck_run
     [AddCard (some_card 2 ''Shock'') zone_main (- 1), AddCard (some_card 2 ''Opt'') zone_side (- 1)] new_tree)"

definition other_deck :: "nat deck_node list" where
  "other_deck = tree_root (deck_run
     [AddCard (some_card 1 ''opt'') zone_side (- 1), AddZone zone_main ''burn'', AddCard (some_card 2 ''SHOCK'') ''burn'' (- 1),
      AddCard (some_card 1 ''Opt'') zone_side 0] new_tree)"

theorem deck_hash_identifies_witness:
  "deck_text to_lower one_deck = deck_text to_lower other_deck
   \<and> length (computeDeckHash to_lower (\<lambda>s. [of_nat (length s), 1, 2, 3, 4]) one_deck) = 8
   \<and> computeDeckHash to_lower (\<lambda>s. [of_nat (length s), 1, 2, 3, 4]) one_deck
       = computeDeckHash to_lower (\<lambda>s. [of_nat (length s), 1, 2, 3, 4]) other_deck"
proof -
  let ?d = "\<lambda>s. [of_nat (length s), 1, 2, 3, 4] :: 8 word list"
  have len: "\<And>s. 5 \<le> length (?d s)" by simp
  have safe: "list_all (hash_safe to_lower) (getCardNodes [zone_main] one_deck @ getCardNodes [zone_side] one_deck)"
    "list_all (hash_safe to_lower) (getCardNodes [zone_main] other_deck @ getCardNodes [zone_side] other_deck)"
    by code_simp+
  have "mset (main_copies to_lower one_deck) = mset (main_copies to_lower other_deck)"
    "mset (side_copies to_lower one_deck) = mset (side_copies to_lower other_deck)" by code_simp+
  with deck_hash_identifies [of ?d to_lower one_deck other_deck, OF len safe]
  have "deck_text to_lower one_deck = deck_text to_lower other_deck" by blast
  with deck_hash_identifies [of ?d to_lower one_deck other_deck, OF len safe]
  show ?thesis by (metis (no_types))
qed

end
