(* ===== verification/DeckXml.thy ===== *)
theory DeckXml
  imports Complex_Main DeckTree ServerCard
begin

text \<open>
  Deck lists and their XML form: \<open>deck_list.cpp\<close>, \<open>sideboard_plan.cpp\<close> and the readers and writers of
  the tree nodes, on the level of \<open>QXmlStreamWriter\<close> and \<open>QXmlStreamReader\<close>. A document is the
  sequence of tokens the writer is told to write and the reader reports; the text between, which Qt
  prints and parses, and the document start and end tokens, which no loop reacts to, are left out.
  A reader state is the list of tokens still to come, or \<open>None\<close> once an error was raised: then
  \<open>atEnd()\<close> holds and every loop stops.

  \<open>double\<close> values are real numbers; how they are printed with four decimals (\<open>fmt\<close>) and parsed
  (\<open>to_double\<close>) is a parameter.
\<close>

section \<open>Tokens\<close>

datatype xml_token =
    StartElement string "(string \<times> string) list"
  | EndElement string
  | Characters string

type_synonym attributes = "(string \<times> string) list"
type_synonym tokens = "xml_token list"
type_synonym reader = "xml_token list option"

definition attribute :: "string \<Rightarrow> attributes \<Rightarrow> string" where
  "attribute n as = (case map_of as n of None \<Rightarrow> [] | Some v \<Rightarrow> v)"

subsection \<open>What Qt's reader offers\<close>

text \<open>\<open>readElementText()\<close>: text up to the end of the element; a child element is an error.\<close>

fun read_text :: "string \<Rightarrow> tokens \<Rightarrow> string \<times> reader" where
  "read_text acc [] = (acc, None)"
| "read_text acc (Characters s # ts) = read_text (acc @ s) ts"
| "read_text acc (EndElement n # ts) = (acc, Some ts)"
| "read_text acc (StartElement n as # ts) = (acc, None)"

text \<open>\<open>readNextStartElement()\<close> and \<open>skipCurrentElement()\<close>\<close>

fun next_start :: "tokens \<Rightarrow> (string \<times> attributes) option \<times> tokens" where
  "next_start [] = (None, [])"
| "next_start (StartElement n as # ts) = (Some (n, as), ts)"
| "next_start (EndElement n # ts) = (None, ts)"
| "next_start (Characters s # ts) = next_start ts"

fun skip_element :: "nat \<Rightarrow> tokens \<Rightarrow> tokens" where
  "skip_element d [] = []"
| "skip_element d (StartElement n as # ts) = skip_element (Suc d) ts"
| "skip_element d (EndElement n # ts) = (case d of 0 \<Rightarrow> ts | Suc k \<Rightarrow> skip_element k ts)"
| "skip_element d (Characters s # ts) = skip_element d ts"

definition rest_length :: "reader \<Rightarrow> nat" where
  "rest_length r = (case r of None \<Rightarrow> 0 | Some ts \<Rightarrow> length ts)"

lemma rest_length_simps [simp]: "rest_length None = 0" "rest_length (Some ts) = length ts"
  by (simp_all add: rest_length_def)

lemma read_text_length: "rest_length (snd (read_text acc ts)) \<le> length ts"
  by (induction acc ts rule: read_text.induct) auto

lemma next_start_length: "length (snd (next_start ts)) \<le> length ts"
  by (induction ts rule: next_start.induct) auto

lemma next_start_Some_length: "next_start ts = (Some p, ts') \<Longrightarrow> length ts' < length ts"
  by (induction ts rule: next_start.induct) auto

lemma skip_element_length: "length (skip_element d ts) \<le> length ts"
  by (induction d ts rule: skip_element.induct) (auto split: nat.splits)

subsection \<open>Numbers\<close>

text \<open>\<open>QString::number(int)\<close>, and \<open>QString::toInt()\<close>, which gives 0 for anything that is no \<open>int\<close>.\<close>

definition show_int :: "int \<Rightarrow> string" where
  "show_int k = (if k < 0 then CHR ''-'' # show_nat (nat (- k)) else show_nat (nat k))"

definition to_int :: "string \<Rightarrow> int" where
  "to_int s =
     (let t = trim s;
          neg = (case t of c # r \<Rightarrow> c = CHR ''-'' | [] \<Rightarrow> False);
          ds = (case t of c # r \<Rightarrow> if c = CHR ''-'' \<or> c = CHR ''+'' then r else t | [] \<Rightarrow> t);
          v = (if neg then - int (decimal ds) else int (decimal ds))
      in if ds \<noteq> [] \<and> list_all is_digit ds \<and> is_int32 v then v else 0)"

lemma digits_not_special: "is_digit c \<Longrightarrow> \<not> is_space c \<and> c \<noteq> CHR ''-'' \<and> c \<noteq> CHR ''+''"
  by (auto simp: is_digit_def is_space_def char_between_def)

lemma trim_no_space: "list_all (\<lambda>c. \<not> is_space c) s \<Longrightarrow> trim s = s"
proof -
  assume s: "list_all (\<lambda>c. \<not> is_space c) s"
  have "dropWhile is_space t = t" if "list_all (\<lambda>c. \<not> is_space c) t" for t
    using that by (cases t) auto
  from this [of s] this [of "rev s"] s show ?thesis by (simp add: trim_def)
qed

lemma to_int_show_int [simp]: "0 \<le> k \<Longrightarrow> k \<le> int32_max \<Longrightarrow> to_int (show_int k) = k"
proof -
  assume k: "0 \<le> k" "k \<le> int32_max"
  obtain c r where s: "show_nat (nat k) = c # r"
    using show_nat_digits [of "nat k"] by (cases "show_nat (nat k)") auto
  have d: "list_all is_digit (c # r)" using show_nat_digits [of "nat k"] s by simp
  then have "trim (c # r) = c # r"
    by (intro trim_no_space) (auto simp: list_all_iff dest: digits_not_special)
  moreover have "decimal (c # r) = nat k" using decimal_show_nat [of "nat k"] s by simp
  moreover have "c \<noteq> CHR ''-''" "c \<noteq> CHR ''+''" using d digits_not_special [of c] by simp_all
  ultimately show ?thesis using k d s by (simp add: to_int_def show_int_def is_int32_def int32_min_def)
qed

section \<open>The deck list\<close>

record playmat_params =
  marginPctL :: real
  marginPctR :: real
  verticalOffset :: real
  zoom :: real

record playmat_info =
  playmat_card :: card_ref
  playmat_place :: playmat_params

record deck_metadata =
  deck_name :: string
  comments :: string
  gameFormat :: string
  bannerCard :: card_ref
  tags :: "string list"
  lastLoadedTimestamp :: string
  playmat :: playmat_info

record zone_move =
  moved_card :: string
  start_zone :: string
  target_zone :: string

record sideboard_plan =
  plan_name :: string
  move_list :: "zone_move list"

record deck_list =
  metadata :: deck_metadata
  sideboardPlans :: "(string, sideboard_plan) qmap"
  deck_tree_of :: deck_tree
  cachedDeckHash :: string

definition no_card :: card_ref where
  "no_card = \<lparr>ref_name = [], ref_provider = []\<rparr>"

definition card_ref_isEmpty :: "card_ref \<Rightarrow> bool" where
  "card_ref_isEmpty r \<longleftrightarrow> ref_name r = [] \<and> ref_provider r = []"

definition default_params :: playmat_params where
  "default_params = \<lparr>marginPctL = 7 / 100, marginPctR = 7 / 100, verticalOffset = 33 / 100, zoom = 1\<rparr>"

definition new_metadata :: deck_metadata where
  "new_metadata = \<lparr>deck_name = [], comments = [], gameFormat = [], bannerCard = no_card, tags = [],
                   lastLoadedTimestamp = [], playmat = \<lparr>playmat_card = no_card, playmat_place = default_params\<rparr>\<rparr>"

definition metadata_isEmpty :: "deck_metadata \<Rightarrow> bool" where
  "metadata_isEmpty m \<longleftrightarrow>
     deck_name m = [] \<and> comments m = [] \<and> card_ref_isEmpty (bannerCard m) \<and> tags m = []
     \<and> card_ref_isEmpty (playmat_card (playmat m))"

definition new_deck :: deck_list where
  "new_deck = \<lparr>metadata = new_metadata, sideboardPlans = [], deck_tree_of = new_tree, cachedDeckHash = []\<rparr>"

definition refreshDeckHash :: "deck_list \<Rightarrow> deck_list" where
  "refreshDeckHash d = d\<lparr>cachedDeckHash := []\<rparr>"

definition getDeckHash :: "(deck_tree \<Rightarrow> string) \<Rightarrow> deck_list \<Rightarrow> string \<times> deck_list" where
  "getDeckHash hash d =
     (if cachedDeckHash d \<noteq> [] then (cachedDeckHash d, d)
      else (hash (deck_tree_of d), d\<lparr>cachedDeckHash := hash (deck_tree_of d)\<rparr>))"

definition cleanList :: "bool \<Rightarrow> deck_list \<Rightarrow> deck_list" where
  "cleanList preserve d =
     refreshDeckHash
       (d\<lparr>deck_tree_of := clear_tree preserve (deck_tree_of d),
          metadata := if preserve then metadata d else new_metadata\<rparr>)"

definition addCards :: "deck_card \<Rightarrow> string \<Rightarrow> int \<Rightarrow> deck_list \<Rightarrow> nat option \<times> deck_list" where
  "addCards c zn pos d =
     (if copies c \<le> 0 then (None, d)
      else case tree_addCard c zn pos (deck_tree_of d) of
             (i, t) \<Rightarrow> (Some i, refreshDeckHash (d\<lparr>deck_tree_of := t\<rparr>)))"

definition setCommanders :: "card_ref list \<Rightarrow> deck_list \<Rightarrow> deck_list" where
  "setCommanders rs d =
     d\<lparr>deck_tree_of :=
         foldl (\<lambda>t r. snd (tree_addCard \<lparr>card_name = ref_name r, copies = 1, set_short_name = [],
                                        collector_number = [], provider_id = ref_provider r, format_legal = True\<rparr>
                                       zone_commander (- 1) t))
               (clearCommanders (deck_tree_of d)) rs\<rparr>"

definition getCommanders :: "deck_list \<Rightarrow> card_ref list" where
  "getCommanders d =
     concat (map (\<lambda>c. replicate (nat (copies c)) \<lparr>ref_name = card_name c, ref_provider = provider_id c\<rparr>)
                 (getCardNodes [zone_commander] (tree_root (deck_tree_of d))))"

definition getCurrentSideboardPlan :: "deck_list \<Rightarrow> zone_move list" where
  "getCurrentSideboardPlan d =
     (case map_of (sideboardPlans d) [] of None \<Rightarrow> [] | Some p \<Rightarrow> move_list p)"

definition setCurrentSideboardPlan :: "zone_move list \<Rightarrow> deck_list \<Rightarrow> deck_list" where
  "setCurrentSideboardPlan ms d =
     d\<lparr>sideboardPlans := qm_insert []
         (case map_of (sideboardPlans d) [] of
            None \<Rightarrow> \<lparr>plan_name = [], move_list = ms\<rparr>
          | Some p \<Rightarrow> p\<lparr>move_list := ms\<rparr>) (sideboardPlans d)\<rparr>"

definition getSideboardSize :: "deck_list \<Rightarrow> int" where
  "getSideboardSize d = sum_list (map copies (getCardNodes [zone_side] (tree_root (deck_tree_of d))))"

section \<open>Writing\<close>

definition characters :: "string \<Rightarrow> tokens" where
  "characters s = (if s = [] then [] else [Characters s])"

definition text_element :: "string \<Rightarrow> string \<Rightarrow> tokens" where
  "text_element n s = StartElement n [] # characters s @ [EndElement n]"

definition nonempty_attribute :: "string \<Rightarrow> string \<Rightarrow> attributes" where
  "nonempty_attribute n s = (if s = [] then [] else [(n, s)])"

definition card_attributes :: "deck_card \<Rightarrow> attributes" where
  "card_attributes c =
     [(''number'', show_int (copies c)), (''name'', card_name c)]
     @ nonempty_attribute ''setShortName'' (set_short_name c)
     @ nonempty_attribute ''collectorNumber'' (collector_number c)
     @ nonempty_attribute ''uuid'' (provider_id c)"

fun write_node :: "'a deck_node \<Rightarrow> tokens" where
  "write_node (CardNode i c) = [StartElement ''card'' (card_attributes c), EndElement ''card'']"
| "write_node (ZoneNode i n ns) =
     StartElement ''zone'' [(''name'', n)] # concat (map write_node ns) @ [EndElement ''zone'']"

definition commander_element :: "deck_card \<Rightarrow> tokens" where
  "commander_element c =
     StartElement ''commander''
       ((''providerId'', provider_id c)
        # nonempty_attribute ''setShortName'' (set_short_name c)
        @ nonempty_attribute ''collectorNumber'' (collector_number c))
     # characters (card_name c) @ [EndElement ''commander'']"

definition card_copies :: "deck_card list \<Rightarrow> deck_card list" where
  "card_copies cs = concat (map (\<lambda>c. replicate (nat (copies c)) c) cs)"

definition write_commanders :: "deck_card list \<Rightarrow> tokens" where
  "write_commanders cs =
     (if cs = [] then []
      else StartElement ''commanders'' [] # concat (map commander_element (card_copies cs)) @ [EndElement ''commanders''])"

definition write_tree :: "'a deck_node list \<Rightarrow> tokens" where
  "write_tree ns =
     concat (map write_node (filter (\<lambda>x. node_name x \<noteq> zone_commander) ns))
     @ write_commanders (getCardNodes [zone_commander] ns)"

definition write_playmat :: "(real \<Rightarrow> string) \<Rightarrow> playmat_info \<Rightarrow> tokens" where
  "write_playmat fmt p =
     (if card_ref_isEmpty (playmat_card p) then []
      else StartElement ''playmatCard''
             [(''providerId'', ref_provider (playmat_card p)),
              (''marginPctL'', fmt (marginPctL (playmat_place p))), (''marginPctR'', fmt (marginPctR (playmat_place p))),
              (''verticalOffset'', fmt (verticalOffset (playmat_place p))), (''zoom'', fmt (zoom (playmat_place p)))]
           # characters (ref_name (playmat_card p)) @ [EndElement ''playmatCard''])"

definition write_banner :: "card_ref \<Rightarrow> tokens" where
  "write_banner r =
     StartElement ''bannerCard'' [(''providerId'', ref_provider r)]
     # characters (ref_name r) @ [EndElement ''bannerCard'']"

definition write_tags :: "string list \<Rightarrow> tokens" where
  "write_tags xs = StartElement ''tags'' [] # concat (map (text_element ''tag'') xs) @ [EndElement ''tags'']"

definition write_metadata :: "(real \<Rightarrow> string) \<Rightarrow> deck_metadata \<Rightarrow> tokens" where
  "write_metadata fmt m =
     text_element ''lastLoadedTimestamp'' (lastLoadedTimestamp m)
     @ text_element ''deckname'' (deck_name m)
     @ text_element ''format'' (gameFormat m)
     @ write_banner (bannerCard m)
     @ write_playmat fmt (playmat m)
     @ text_element ''comments'' (comments m)
     @ write_tags (tags m)"

definition write_move :: "zone_move \<Rightarrow> tokens" where
  "write_move m =
     StartElement ''move_card_to_zone'' []
     # text_element ''card_name'' (moved_card m) @ text_element ''start_zone'' (start_zone m)
     @ text_element ''target_zone'' (target_zone m) @ [EndElement ''move_card_to_zone'']"

definition write_plan :: "sideboard_plan \<Rightarrow> tokens" where
  "write_plan p =
     StartElement ''sideboard_plan'' []
     # text_element ''name'' (plan_name p) @ concat (map write_move (move_list p)) @ [EndElement ''sideboard_plan'']"

definition write_deck :: "(real \<Rightarrow> string) \<Rightarrow> deck_list \<Rightarrow> tokens" where
  "write_deck fmt d =
     StartElement ''cockatrice_deck'' [(''version'', ''1'')]
     # write_metadata fmt (metadata d)
     @ write_tree (tree_root (deck_tree_of d))
     @ concat (map (write_plan \<circ> snd) (sideboardPlans d))
     @ [EndElement ''cockatrice_deck'']"

section \<open>Reading\<close>

subsection \<open>Zones and cards\<close>

definition card_of_attributes :: "attributes \<Rightarrow> int \<Rightarrow> deck_card" where
  "card_of_attributes as amount =
     \<lparr>card_name = attribute ''name'' as, copies = amount, set_short_name = attribute ''setShortName'' as,
      collector_number = attribute ''collectorNumber'' as, provider_id = attribute ''uuid'' as, format_legal = True\<rparr>"

text \<open>
  \<open>InnerDecklistNode::readElement\<close> appends to the children \<open>acc\<close> the zone has. It returns them with the
  number of cards read (\<open>tot\<close>), the next free address and the tokens behind the end of the zone.
\<close>

function (sequential) read_zone ::
  "int \<Rightarrow> int \<Rightarrow> nat \<Rightarrow> nat deck_node list \<Rightarrow> tokens \<Rightarrow> nat deck_node list \<times> int \<times> nat \<times> tokens" where
  "read_zone limit tot fr acc [] = (acc, tot, fr, [])"
| "read_zone limit tot fr acc (StartElement n as # ts) =
     (if n = ''zone'' then
        (case read_zone (limit - tot) 0 (Suc fr) [] ts of
           (ns, k, fr', ts') \<Rightarrow> read_zone limit (tot + k) fr' (acc @ [ZoneNode fr (attribute ''name'' as) ns]) ts')
      else if n = ''card'' then
        (let amount = min (to_int (attribute ''number'' as)) (limit - tot)
         in read_zone limit (tot + amount) (Suc fr) (acc @ [CardNode fr (card_of_attributes as amount)]) ts)
      else read_zone limit tot fr acc ts)"
| "read_zone limit tot fr acc (EndElement n # ts) =
     (if n = ''zone'' then (acc, tot, fr, ts) else read_zone limit tot fr acc ts)"
| "read_zone limit tot fr acc (Characters s # ts) = read_zone limit tot fr acc ts"
  by pat_completeness auto

lemma read_zone_length_dom:
  "read_zone_dom (limit, tot, fr, acc, ts) \<Longrightarrow> length (snd (snd (snd (read_zone limit tot fr acc ts)))) \<le> length ts"
proof (induction rule: read_zone.pinduct)
  case (2 limit tot fr acc n as ts)
  show ?case
  proof (cases "n = ''zone''")
    case True
    obtain ns k fr' ts' where r: "read_zone (limit - tot) 0 (Suc fr) [] ts = (ns, k, fr', ts')"
      by (cases "read_zone (limit - tot) 0 (Suc fr) [] ts") auto
    have "length (snd (snd (snd (read_zone limit (tot + k) fr' (acc @ [ZoneNode fr (attribute ''name'' as) ns]) ts')))) \<le> length ts'"
      using 2(3) [OF True r [symmetric] refl refl] by simp
    with 2(1,2) r True show ?thesis by (simp add: read_zone.psimps)
  next
    case False
    with 2(4) [OF False _ refl] 2(5) [OF False] 2(1) show ?thesis
      by (cases "n = ''card''") (simp_all add: read_zone.psimps Let_def le_SucI)
  qed
qed (auto simp: read_zone.psimps)

termination read_zone
proof (relation "measure (\<lambda>(limit, tot, fr, acc, ts). length ts)", goal_cases)
  case (3 limit tot fr acc n as ts x y xa ya xb yb)
  from 3(2-4) have "read_zone (limit - tot) 0 (Suc fr) [] ts = (x, xa, xb, yb)" by simp
  with read_zone_length_dom [OF 3(5)] show ?case by simp
qed simp_all

lemma read_zone_length: "length (snd (snd (snd (read_zone limit tot fr acc ts)))) \<le> length ts"
proof (induction limit tot fr acc ts rule: read_zone.induct)
  case (2 limit tot fr acc n as ts)
  obtain ns k fr' ts' where r: "read_zone (limit - tot) 0 (Suc fr) [] ts = (ns, k, fr', ts')"
    by (cases "read_zone (limit - tot) 0 (Suc fr) [] ts") auto
  show ?case
  proof (cases "n = ''zone''")
    case True
    from 2(2) [OF True r [symmetric] refl refl] 2(1) [OF True] r True show ?thesis by simp
  next
    case False
    with 2(3) [OF False _ refl] 2(4) [OF False] show ?thesis
      by (cases "n = ''card''") (simp_all add: Let_def le_SucI)
  qed
qed auto

text \<open>
  A negative number is not clamped: it makes room for more copies than the limit behind it.
\<close>

lemma negative_number_raises_limit:
  "map (\<lambda>x. recursiveCount True [x]) (fst (read_zone 100000 0 1 []
     [StartElement ''card'' [(''number'', ''-50000''), (''name'', ''A'')], EndElement ''card'',
      StartElement ''card'' [(''number'', ''150000''), (''name'', ''B'')], EndElement ''card'', EndElement ''zone'']))
   = [- 50000, 150000]"
  by code_simp

end
