(* ===== verification/DeckLoad.thy ===== *)
theory DeckLoad
  imports DeckXml
begin

text \<open>
  Loading a deck list from XML: the loops of \<open>deck_list.cpp\<close>, \<open>deck_list_node_tree.cpp\<close> and
  \<open>sideboard_plan.cpp\<close> over the reader of \<open>DeckXml\<close>.
\<close>

lemma next_start_less [termination_simp]: "(Some p, ts') = next_start ts \<Longrightarrow> length ts' < length ts"
  using next_start_Some_length [of ts p ts'] by simp

lemma read_text_less [termination_simp]: "(s, Some ts') = read_text acc ts \<Longrightarrow> length ts' < length ts"
  by (induction acc ts rule: read_text.induct) auto

lemma skip_less [termination_simp]: "length ts' < n \<Longrightarrow> length (skip_element d ts') < n"
  using skip_element_length [of d ts'] by simp

section \<open>The tree\<close>

text \<open>The children of the zone a pointer into the tree points to.\<close>

definition deref :: "'a \<Rightarrow> 'a deck_node list \<Rightarrow> 'a deck_node list" where
  "deref i ns =
     (case List.find (\<lambda>x. node_addr x = i) (ns @ concat (map children ns)) of
        Some x \<Rightarrow> children x
      | None \<Rightarrow> [])"

definition readZoneElement :: "attributes \<Rightarrow> deck_tree \<Rightarrow> tokens \<Rightarrow> deck_tree \<times> tokens" where
  "readZoneElement as t ts =
     (case getZoneObjFromName (attribute ''name'' as) t of
        (z, t) \<Rightarrow>
          (case read_zone (max_deck_size - totalCards t) 0 (next_addr t) (deref z (tree_root t)) ts of
             (ns, k, fr, ts') \<Rightarrow>
               ((edit_zone z (\<lambda>n. n) (\<lambda>_. ns) t)\<lparr>totalCards := totalCards t + k, next_addr := fr\<rparr>, ts')))"

text \<open>
  The reader does not ask for the names of the zones in the file: here a zone \<open>side\<close> becomes a custom
  zone of the main board, a name that \<open>addCustomZone\<close> refuses.
\<close>

lemma read_zone_takes_any_name:
  "map_deck_node (\<lambda>_. ()) ` set (tree_root (fst (readZoneElement [(''name'', zone_main)] new_tree
     [StartElement ''zone'' [(''name'', zone_side)], EndElement ''zone'', EndElement ''zone''])))
   = {ZoneNode () zone_main [ZoneNode () zone_side []]}"
  "fst (addCustomZone zone_main zone_side new_tree) = None"
  by code_simp+

fun edit_card :: "'a \<Rightarrow> (deck_card \<Rightarrow> deck_card) \<Rightarrow> 'a deck_node \<Rightarrow> 'a deck_node" where
  "edit_card i f (CardNode j c) = CardNode j (if i = j then f c else c)"
| "edit_card i f (ZoneNode j n ns) = ZoneNode j n (map (edit_card i f) ns)"

definition same_printing :: "deck_card \<Rightarrow> deck_card \<Rightarrow> bool" where
  "same_printing a b \<longleftrightarrow>
     card_name a = card_name b \<and> set_short_name a = set_short_name b
     \<and> collector_number a = collector_number b \<and> provider_id a = provider_id b"

definition add_copy :: "deck_card \<Rightarrow> deck_card" where
  "add_copy c = c\<lparr>copies := copies c + 1\<rparr>"

text \<open>One \<open>commander\<close> element; \<open>prev\<close> is the card node \<open>previous\<close> points to, with its content.\<close>

definition commander_step ::
  "(nat \<times> deck_card) option \<Rightarrow> deck_card \<Rightarrow> deck_tree \<Rightarrow> (nat \<times> deck_card) option \<times> deck_tree" where
  "commander_step prev c t =
     (case prev of
        Some (i, p) \<Rightarrow>
          if same_printing p c
          then (Some (i, add_copy p),
                t\<lparr>tree_root := map (edit_card i add_copy) (tree_root t), totalCards := totalCards t + 1\<rparr>)
          else (case tree_addCard c zone_commander (- 1) t of (i, t') \<Rightarrow> (Some (i, c), t'))
      | None \<Rightarrow> (case tree_addCard c zone_commander (- 1) t of (i, t') \<Rightarrow> (Some (i, c), t')))"

definition commander_of :: "string \<Rightarrow> attributes \<Rightarrow> deck_card" where
  "commander_of name as =
     \<lparr>card_name = name, copies = 1, set_short_name = attribute ''setShortName'' as,
      collector_number = attribute ''collectorNumber'' as, provider_id = attribute ''providerId'' as,
      format_legal = True\<rparr>"

function read_commanders :: "(nat \<times> deck_card) option \<Rightarrow> deck_tree \<Rightarrow> tokens \<Rightarrow> deck_tree \<times> reader" where
  "read_commanders prev t ts =
     (case next_start ts of
        (None, ts1) \<Rightarrow> (t, Some ts1)
      | (Some (n, as), ts1) \<Rightarrow>
          if n \<noteq> ''commander'' then read_commanders prev t (skip_element 0 ts1)
          else (case read_text [] ts1 of
                  (name, r) \<Rightarrow>
                    if max_deck_size \<le> totalCards t then (t, None)
                    else (case r of
                            None \<Rightarrow> (snd (commander_step prev (commander_of name as) t), None)
                          | Some ts2 \<Rightarrow>
                              read_commanders (fst (commander_step prev (commander_of name as) t))
                                (snd (commander_step prev (commander_of name as) t)) ts2)))"
  by pat_completeness auto
termination
  by (relation "measure (\<lambda>(prev, t, ts). length ts)") (auto simp: termination_simp dest!: next_start_less read_text_less)

declare read_commanders.simps [simp del]

definition readCommandersElement :: "deck_tree \<Rightarrow> tokens \<Rightarrow> deck_tree \<times> reader" where
  "readCommandersElement t ts = read_commanders None (clearCommanders t) ts"

lemma read_commanders_length: "rest_length (snd (read_commanders prev t ts)) \<le> length ts"
proof (induction prev t ts rule: read_commanders.induct)
  case (1 prev t ts)
  show ?case
  proof (cases "next_start ts")
    case (Pair p ts1)
    show ?thesis
    proof (cases p)
      case None
      with Pair next_start_length [of ts] show ?thesis by (subst read_commanders.simps) simp
    next
      case (Some q)
      obtain n as where q: "q = (n, as)" by (cases q)
      have less: "length ts1 < length ts" using Pair Some by (simp add: next_start_Some_length)
      obtain name r where r: "read_text [] ts1 = (name, r)" by (cases "read_text [] ts1")
      have ns: "next_start ts = (Some (n, as), ts1)" using Pair Some q by simp
      show ?thesis
      proof (cases "n = ''commander''")
        case False
        with 1(1) [OF ns [symmetric] refl refl] less skip_element_length [of 0 ts1] ns show ?thesis
          by (subst read_commanders.simps) simp
      next
        case True
        show ?thesis
        proof (cases "max_deck_size \<le> totalCards t \<or> r = None")
          case True
          with ns r \<open>n = ''commander''\<close> show ?thesis by (subst read_commanders.simps) auto
        next
          case False
          then obtain ts2 where "r = Some ts2" by auto
          with 1(2) [OF ns [symmetric] refl refl _ r [symmetric]] False ns r \<open>n = ''commander''\<close> less
            read_text_less [of name ts2 "[]" ts1]
          show ?thesis by (subst read_commanders.simps) simp
        qed
      qed
    qed
  qed
qed

section \<open>Metadata\<close>

definition parseClampedParam :: "(string \<Rightarrow> real option) \<Rightarrow> string \<Rightarrow> real \<Rightarrow> real \<Rightarrow> real \<Rightarrow> real" where
  "parseClampedParam to_double s fallback lo hi =
     (case to_double s of None \<Rightarrow> fallback | Some v \<Rightarrow> max lo (min hi v))"

definition readPlaymatParams :: "(string \<Rightarrow> real option) \<Rightarrow> attributes \<Rightarrow> playmat_params" where
  "readPlaymatParams to_double as =
     \<lparr>marginPctL = parseClampedParam to_double (attribute ''marginPctL'' as) (7 / 100) 0 (95 / 100),
      marginPctR = parseClampedParam to_double (attribute ''marginPctR'' as) (7 / 100) 0 (95 / 100),
      verticalOffset = parseClampedParam to_double (attribute ''verticalOffset'' as) (33 / 100) 0 1,
      zoom = parseClampedParam to_double (attribute ''zoom'' as) 1 (1 / 10) 4\<rparr>"

function read_tags :: "string list \<Rightarrow> tokens \<Rightarrow> string list \<times> reader" where
  "read_tags acc ts =
     (case next_start ts of
        (None, ts1) \<Rightarrow> (acc, Some ts1)
      | (Some (n, as), ts1) \<Rightarrow>
          if n = ''tag'' then
            (case read_text [] ts1 of
               (s, None) \<Rightarrow> (acc @ [s], None)
             | (s, Some ts2) \<Rightarrow> read_tags (acc @ [s]) ts2)
          else read_tags acc ts1)"
  by pat_completeness auto
termination
  by (relation "measure (\<lambda>(acc, ts). length ts)") (auto dest!: next_start_less read_text_less)

declare read_tags.simps [simp del]

lemma read_tags_length: "rest_length (snd (read_tags acc ts)) \<le> length ts"
proof (induction acc ts rule: read_tags.induct)
  case (1 acc ts)
  show ?case
  proof (cases "next_start ts")
    case (Pair p ts1)
    show ?thesis
    proof (cases p)
      case None
      with Pair next_start_length [of ts] show ?thesis by (subst read_tags.simps) simp
    next
      case (Some q)
      obtain n as where q: "q = (n, as)" by (cases q)
      have ns: "next_start ts = (Some (n, as), ts1)" using Pair Some q by simp
      have less: "length ts1 < length ts" using ns by (simp add: next_start_Some_length)
      obtain s r where r: "read_text [] ts1 = (s, r)" by (cases "read_text [] ts1")
      show ?thesis
      proof (cases "n = ''tag''")
        case False
        with 1(2) [OF ns [symmetric] refl refl] ns less show ?thesis by (subst read_tags.simps) simp
      next
        case True
        show ?thesis
        proof (cases r)
          case None
          with ns r True show ?thesis by (subst read_tags.simps) simp
        next
          case (Some ts2)
          with 1(1) [OF ns [symmetric] refl refl True r [symmetric] Some] ns r True less read_text_less [of s ts2 "[]" ts1]
          show ?thesis by (subst read_tags.simps) simp
        qed
      qed
    qed
  qed
qed

text \<open>\<open>Metadata::readElement\<close>; \<open>None\<close> is the result \<open>false\<close>, an element that is no metadata.\<close>

definition metadata_readElement ::
  "(string \<Rightarrow> real option) \<Rightarrow> string \<Rightarrow> attributes \<Rightarrow> deck_metadata \<Rightarrow> tokens \<Rightarrow> (deck_metadata \<times> reader) option" where
  "metadata_readElement to_double n as m ts =
     (let (text_read, after) = read_text [] ts
      in if n = ''lastLoadedTimestamp'' then Some (m\<lparr>lastLoadedTimestamp := text_read\<rparr>, after)
         else if n = ''deckname'' then Some (m\<lparr>deck_name := text_read\<rparr>, after)
         else if n = ''format'' then Some (m\<lparr>gameFormat := text_read\<rparr>, after)
         else if n = ''comments'' then Some (m\<lparr>comments := text_read\<rparr>, after)
         else if n = ''bannerCard'' then
           Some (m\<lparr>bannerCard := \<lparr>ref_name = text_read, ref_provider = attribute ''providerId'' as\<rparr>\<rparr>, after)
         else if n = ''playmatCard'' then
           Some (m\<lparr>playmat := \<lparr>playmat_card = \<lparr>ref_name = text_read, ref_provider = attribute ''providerId'' as\<rparr>,
                              playmat_place = readPlaymatParams to_double as\<rparr>\<rparr>, after)
         else if n = ''tags'' then (case read_tags [] ts of (xs, r) \<Rightarrow> Some (m\<lparr>tags := xs\<rparr>, r))
         else None)"

lemma metadata_readElement_length:
  "metadata_readElement to_double n as m ts = Some (m', r) \<Longrightarrow> rest_length r \<le> length ts"
  using read_text_length [of "[]" ts] read_tags_length [of "[]" ts]
  by (auto simp: metadata_readElement_def Let_def split: prod.splits if_splits)

section \<open>Sideboard plans\<close>

definition move_field :: "string \<Rightarrow> string \<Rightarrow> zone_move \<Rightarrow> zone_move" where
  "move_field n s m =
     (if n = ''card_name'' then m\<lparr>moved_card := s\<rparr>
      else if n = ''start_zone'' then m\<lparr>start_zone := s\<rparr>
      else if n = ''target_zone'' then m\<lparr>target_zone := s\<rparr>
      else m)"

text \<open>\<open>readMoveCardToZone\<close>: the move is appended only when its end element is reached.\<close>

function (sequential) read_move :: "zone_move \<Rightarrow> tokens \<Rightarrow> zone_move option \<times> reader" where
  "read_move m [] = (None, Some [])"
| "read_move m (StartElement n as # ts) =
     (if n \<in> {''card_name'', ''start_zone'', ''target_zone''} then
        (case read_text [] ts of
           (s, None) \<Rightarrow> (None, None)
         | (s, Some ts1) \<Rightarrow> read_move (move_field n s m) ts1)
      else read_move m ts)"
| "read_move m (EndElement n # ts) = (if n = ''move_card_to_zone'' then (Some m, Some ts) else read_move m ts)"
| "read_move m (Characters s # ts) = read_move m ts"
  by pat_completeness auto
termination
  by (relation "measure (\<lambda>(m, ts). length ts)") (auto dest!: read_text_less)

definition no_move :: zone_move where
  "no_move = \<lparr>moved_card = [], start_zone = [], target_zone = []\<rparr>"

lemma read_move_length: "rest_length (snd (read_move m ts)) \<le> length ts"
proof (induction m ts rule: read_move.induct)
  case (2 m n as ts)
  obtain s r where r: "read_text [] ts = (s, r)" by (cases "read_text [] ts")
  show ?case
  proof (cases "n \<in> {''card_name'', ''start_zone'', ''target_zone''}")
    case False
    with 2(2) show ?thesis by simp
  next
    case True
    show ?thesis
    proof (cases r)
      case None
      with True r show ?thesis by simp
    next
      case (Some ts1)
      then have "read_text [] ts = (s, Some ts1)" using r by simp
      with 2(1) [OF True this [symmetric] refl] True read_text_less [of s ts1 "[]" ts]
      show ?thesis by (auto intro: le_trans)
    qed
  qed
qed auto

lemma read_move_less [termination_simp]: "(x, Some ts') = read_move m ts \<Longrightarrow> length ts' \<le> length ts"
  using read_move_length [of m ts] by (metis rest_length_simps(2) snd_conv)

function (sequential) read_plan :: "sideboard_plan \<Rightarrow> tokens \<Rightarrow> (bool \<times> sideboard_plan) \<times> reader" where
  "read_plan p [] = ((False, p), Some [])"
| "read_plan p (StartElement n as # ts) =
     (if n = ''name'' then
        (case read_text [] ts of
           (s, None) \<Rightarrow> ((False, p\<lparr>plan_name := s\<rparr>), None)
         | (s, Some ts1) \<Rightarrow> read_plan (p\<lparr>plan_name := s\<rparr>) ts1)
      else if n = ''move_card_to_zone'' then
        (case read_move no_move ts of
           (m, None) \<Rightarrow> ((False, p), None)
         | (None, Some ts1) \<Rightarrow> read_plan p ts1
         | (Some m, Some ts1) \<Rightarrow> read_plan (p\<lparr>move_list := move_list p @ [m]\<rparr>) ts1)
      else read_plan p ts)"
| "read_plan p (EndElement n # ts) = (if n = ''sideboard_plan'' then ((True, p), Some ts) else read_plan p ts)"
| "read_plan p (Characters s # ts) = read_plan p ts"
  by pat_completeness auto
termination
  by (relation "measure (\<lambda>(p, ts). length ts)") (auto dest!: read_text_less read_move_less)

definition no_plan :: sideboard_plan where
  "no_plan = \<lparr>plan_name = [], move_list = []\<rparr>"

lemma read_plan_length: "rest_length (snd (read_plan p ts)) \<le> length ts"
proof (induction p ts rule: read_plan.induct)
  case (2 p n as ts)
  obtain s r where r: "read_text [] ts = (s, r)" by (cases "read_text [] ts")
  obtain m q where q: "read_move no_move ts = (m, q)" by (cases "read_move no_move ts")
  consider (name) "n = ''name''" | (move) "n \<noteq> ''name''" "n = ''move_card_to_zone''" | (other) "n \<noteq> ''name''" "n \<noteq> ''move_card_to_zone''"
    by blast
  then show ?case
  proof cases
    case name
    with 2(1) [OF name r [symmetric]] r read_text_less [of s _ "[]" ts] show ?thesis
      by (cases r) (auto intro: le_trans less_imp_le)
  next
    case move
    note iq = 2(2,3) [OF move q [symmetric]]
    show ?thesis using move q iq read_move_less [of m _ no_move ts]
      by (cases q; cases m) (auto intro: le_trans le_SucI)
  next
    case other
    with 2(4) [OF other] show ?thesis by simp
  qed
qed auto

section \<open>The whole document\<close>

text \<open>\<open>DeckList::readElement\<close> on a start element\<close>

definition deck_readElement ::
  "(string \<Rightarrow> real option) \<Rightarrow> string \<Rightarrow> attributes \<Rightarrow> deck_list \<Rightarrow> tokens \<Rightarrow> deck_list \<times> reader" where
  "deck_readElement to_double n as d ts =
     (case metadata_readElement to_double n as (metadata d) ts of
        Some (m, r) \<Rightarrow> (d\<lparr>metadata := m\<rparr>, r)
      | None \<Rightarrow>
          if n = ''zone'' then
            (case readZoneElement as (deck_tree_of d) ts of (t, ts1) \<Rightarrow> (d\<lparr>deck_tree_of := t\<rparr>, Some ts1))
          else if n = ''commanders'' then
            (case readCommandersElement (deck_tree_of d) ts of (t, r) \<Rightarrow> (d\<lparr>deck_tree_of := t\<rparr>, r))
          else if n = ''sideboard_plan'' then
            (case read_plan no_plan ts of
               ((ok, p), r) \<Rightarrow>
                 (if ok then d\<lparr>sideboardPlans := qm_insert (plan_name p) p (sideboardPlans d)\<rparr> else d, r))
          else (d, Some ts))"

lemma readZoneElement_length: "length (snd (readZoneElement as t ts)) \<le> length ts"
proof -
  obtain z t1 where g: "getZoneObjFromName (attribute ''name'' as) t = (z, t1)"
    by (cases "getZoneObjFromName (attribute ''name'' as) t")
  obtain ns k fr ts1 where
    r: "read_zone (max_deck_size - totalCards t1) 0 (next_addr t1) (deref z (tree_root t1)) ts = (ns, k, fr, ts1)"
    by (cases "read_zone (max_deck_size - totalCards t1) 0 (next_addr t1) (deref z (tree_root t1)) ts")
  with g read_zone_length [of "max_deck_size - totalCards t1" 0 "next_addr t1" "deref z (tree_root t1)" ts]
  show ?thesis by (simp add: readZoneElement_def)
qed

lemma deck_readElement_length: "rest_length (snd (deck_readElement to_double n as d ts)) \<le> length ts"
proof (cases "metadata_readElement to_double n as (metadata d) ts")
  case (Some q)
  then show ?thesis using metadata_readElement_length [of to_double n as "metadata d" ts]
    by (cases q) (simp add: deck_readElement_def)
next
  case None
  have "rest_length (snd (case read_plan no_plan ts of ((ok, p), r) \<Rightarrow> (f ok p, r))) \<le> length ts" for f :: "bool \<Rightarrow> sideboard_plan \<Rightarrow> deck_list"
    using read_plan_length [of no_plan ts] by (simp add: case_prod_beta)
  moreover have "rest_length (snd (case readCommandersElement t ts of (t, r) \<Rightarrow> (g t, r))) \<le> length ts" for t and g :: "deck_tree \<Rightarrow> deck_list"
    using read_commanders_length [of None "clearCommanders t" ts] by (simp add: case_prod_beta readCommandersElement_def)
  moreover have "rest_length (snd (case readZoneElement as t ts of (t, r) \<Rightarrow> (g t, Some r))) \<le> length ts" for t and g :: "deck_tree \<Rightarrow> deck_list"
    using readZoneElement_length [of as t ts] by (simp add: case_prod_beta)
  ultimately show ?thesis using None by (simp add: deck_readElement_def)
qed

lemma deck_readElement_less [termination_simp]:
  "(d', Some ts') = deck_readElement to_double n as d ts \<Longrightarrow> length ts' \<le> length ts"
  using deck_readElement_length [of to_double n as d ts] by (metis rest_length_simps(2) snd_conv)

function (sequential) readDeckBody :: "(string \<Rightarrow> real option) \<Rightarrow> deck_list \<Rightarrow> tokens \<Rightarrow> deck_list \<times> reader" where
  "readDeckBody to_double d [] = (d, Some [])"
| "readDeckBody to_double d (StartElement n as # ts) =
     (case deck_readElement to_double n as d ts of
        (d1, None) \<Rightarrow> (d1, None)
      | (d1, Some ts1) \<Rightarrow> readDeckBody to_double d1 ts1)"
| "readDeckBody to_double d (EndElement n # ts) =
     (if n = ''cockatrice_deck'' then (d, Some ts) else readDeckBody to_double d ts)"
| "readDeckBody to_double d (Characters s # ts) = readDeckBody to_double d ts"
  by pat_completeness auto
termination
  by (relation "measure (\<lambda>(to_double, d, ts). length ts)") (auto dest!: deck_readElement_less)

lemma readDeckBody_length: "rest_length (snd (readDeckBody to_double d ts)) \<le> length ts"
proof (induction to_double d ts rule: readDeckBody.induct)
  case (2 to_double d n as ts)
  obtain d1 r where r: "deck_readElement to_double n as d ts = (d1, r)" by (cases "deck_readElement to_double n as d ts")
  show ?case
  proof (cases r)
    case (Some ts1)
    then show ?thesis using 2 [OF r [symmetric] Some] r deck_readElement_less [of d1 ts1 to_double n as d ts] by simp
  qed (simp add: r)
qed auto

lemma readDeckBody_less [termination_simp]:
  "(d', Some ts') = readDeckBody to_double d ts \<Longrightarrow> length ts' \<le> length ts"
  using readDeckBody_length [of to_double d ts] by (metis rest_length_simps(2) snd_conv)

fun seekToNextElement :: "tokens \<Rightarrow> (string \<times> tokens) option" where
  "seekToNextElement [] = None"
| "seekToNextElement (StartElement n as # ts) = Some (n, ts)"
| "seekToNextElement (t # ts) = seekToNextElement ts"

lemma seek_less [termination_simp]: "seekToNextElement ts = Some (n, ts') \<Longrightarrow> length ts' < length ts"
  by (induction ts rule: seekToNextElement.induct) auto

function load_loop :: "(string \<Rightarrow> real option) \<Rightarrow> deck_list \<Rightarrow> tokens \<Rightarrow> bool \<times> deck_list" where
  "load_loop to_double d ts =
     (case seekToNextElement ts of
        None \<Rightarrow> (True, refreshDeckHash d)
      | Some (n, ts1) \<Rightarrow>
          if n \<noteq> ''cockatrice_deck'' then (False, d)
          else (case readDeckBody to_double d ts1 of
                  (d1, None) \<Rightarrow> (False, refreshDeckHash d1)
                | (d1, Some ts2) \<Rightarrow> load_loop to_double d1 ts2))"
  by pat_completeness auto
termination
  by (relation "measure (\<lambda>(to_double, d, ts). length ts)") (auto dest!: readDeckBody_less seek_less)

declare load_loop.simps [simp del]

definition loadFromXml :: "(string \<Rightarrow> real option) \<Rightarrow> tokens \<Rightarrow> deck_list \<Rightarrow> bool \<times> deck_list" where
  "loadFromXml to_double ts d = load_loop to_double (cleanList False d) ts"

end
