(* ===== verification/DeckRoundTrip.thy ===== *)
theory DeckRoundTrip
  imports DeckLoad
begin

text \<open>
  What a deck becomes when it is written and read back. Addresses are new, every card is marked legal,
  a zone tree keeps its shape, and the commanders move to the end as one flat zone in which equal
  neighbours are one entry.
\<close>

section \<open>The saved form of a tree\<close>

definition erase :: "'a deck_node list \<Rightarrow> unit deck_node list" where
  "erase ns = map (map_deck_node (\<lambda>_. ())) ns"

definition mark_legal :: "deck_card \<Rightarrow> deck_card" where
  "mark_legal c = c\<lparr>format_legal := True\<rparr>"

fun saved_node :: "'a deck_node \<Rightarrow> unit deck_node" where
  "saved_node (CardNode i c) = CardNode () (mark_legal c)"
| "saved_node (ZoneNode i n ns) = ZoneNode () n (map saved_node ns)"

definition put_copy :: "deck_card list \<Rightarrow> deck_card \<Rightarrow> deck_card list" where
  "put_copy acc c =
     (if acc \<noteq> [] \<and> same_printing (last acc) c then butlast acc @ [add_copy (last acc)]
      else acc @ [mark_legal (c\<lparr>copies := 1\<rparr>)])"

text \<open>The entries the reader makes of a sequence of single copies.\<close>

definition regroup :: "deck_card list \<Rightarrow> deck_card list" where
  "regroup cs = foldl put_copy [] cs"

definition commander_zone :: "deck_card list \<Rightarrow> unit deck_node list" where
  "commander_zone cs = (if cs = [] then [] else [ZoneNode () zone_commander (map (CardNode ()) cs)])"

definition saved_root :: "'a deck_node list \<Rightarrow> unit deck_node list" where
  "saved_root ns =
     map saved_node (filter (\<lambda>x. node_name x \<noteq> zone_commander) ns)
     @ commander_zone (regroup (card_copies (getCardNodes [zone_commander] ns)))"

section \<open>Attributes\<close>

lemma attribute_Cons [simp]: "attribute n ((m, v) # as) = (if n = m then v else attribute n as)"
  by (simp add: attribute_def)

lemma attribute_Nil [simp]: "attribute n [] = []"
  by (simp add: attribute_def)

lemma attribute_nonempty [simp]:
  "attribute n (nonempty_attribute m v @ as) = (if n = m \<and> v \<noteq> [] then v else attribute n as)"
  by (simp add: nonempty_attribute_def)

lemma attribute_nonempty_last [simp]: "attribute n (nonempty_attribute m v) = (if n = m then v else [])"
  by (simp add: nonempty_attribute_def)

lemma card_of_card_attributes [simp]:
  "attribute ''number'' (card_attributes c) = show_int (copies c)"
  "card_of_attributes (card_attributes c) k = mark_legal (c\<lparr>copies := k\<rparr>)"
  by (simp_all add: card_attributes_def card_of_attributes_def mark_legal_def)

lemma read_text_characters [simp]: "read_text acc (characters s @ EndElement n # ts) = (acc @ s, Some ts)"
  by (simp add: characters_def)

section \<open>Zones\<close>

text \<open>A card whose number survives printing and parsing.\<close>

definition card_ok :: "deck_card \<Rightarrow> bool" where
  "card_ok c \<longleftrightarrow> 0 \<le> copies c \<and> copies c \<le> int32_max"

definition reads_as ::
  "'a deck_node list \<Rightarrow> int \<Rightarrow> tokens \<Rightarrow> bool" where
  "reads_as ns k ws \<longleftrightarrow>
     (\<forall>limit tot fr acc ts. tot + k \<le> limit \<longrightarrow>
        (\<exists>ms fr'. read_zone limit tot fr acc (ws @ ts) = read_zone limit (tot + k) fr' (acc @ ms) ts
          \<and> erase ms = map saved_node ns \<and> fr \<le> fr' \<and> distinct (addrs ms)
          \<and> list_all (\<lambda>i. fr \<le> i \<and> i < fr') (addrs ms)))"

lemma erase_simps [simp]: "erase [] = []" "erase (x # xs) = map_deck_node (\<lambda>_. ()) x # erase xs"
  "erase (xs @ ys) = erase xs @ erase ys"
  by (simp_all add: erase_def)

lemma map_node_Zone [simp]: "map_deck_node (\<lambda>_. ()) (ZoneNode i n ns) = ZoneNode () n (erase ns)"
  by (simp add: erase_def)

declare deck_node.map(2) [simp del]

lemma list_all_widen:
  "list_all (\<lambda>i. a \<le> i \<and> i < b) xs \<Longrightarrow> a' \<le> a \<Longrightarrow> b \<le> b' \<Longrightarrow> list_all (\<lambda>i. a' \<le> i \<and> i < (b' :: nat)) xs"
  by (auto simp: list_all_iff)

lemma reads_as_Nil: "reads_as [] 0 []"
  unfolding reads_as_def by (intro allI impI exI [of _ "[]"]) auto

lemma reads_as_append:
  assumes "reads_as xs k us" and "reads_as ys m vs" and "0 \<le> m"
  shows "reads_as (xs @ ys) (k + m) (us @ vs)"
  unfolding reads_as_def
proof (intro allI impI)
  fix limit tot fr acc ts assume le: "tot + (k + m) \<le> limit"
  then have "tot + k \<le> limit" using assms(3) by simp
  then obtain as f1 where a: "read_zone limit tot fr acc (us @ vs @ ts) = read_zone limit (tot + k) f1 (acc @ as) (vs @ ts)"
    "erase as = map saved_node xs" "fr \<le> f1" "distinct (addrs as)" "list_all (\<lambda>i. fr \<le> i \<and> i < f1) (addrs as)"
    using assms(1) unfolding reads_as_def by blast
  have "tot + k + m \<le> limit" using le by simp
  then obtain bs f2 where b: "read_zone limit (tot + k) f1 (acc @ as) (vs @ ts) = read_zone limit (tot + k + m) f2 ((acc @ as) @ bs) ts"
    "erase bs = map saved_node ys" "f1 \<le> f2" "distinct (addrs bs)" "list_all (\<lambda>i. f1 \<le> i \<and> i < f2) (addrs bs)"
    using assms(2) unfolding reads_as_def by blast
  have "set (addrs as) \<inter> set (addrs bs) = {}" using a(5) b(5) by (fastforce simp: list_all_iff)
  then show "\<exists>ms fr'. read_zone limit tot fr acc ((us @ vs) @ ts) = read_zone limit (tot + (k + m)) fr' (acc @ ms) ts
      \<and> erase ms = map saved_node (xs @ ys) \<and> fr \<le> fr' \<and> distinct (addrs ms)
      \<and> list_all (\<lambda>i. fr \<le> i \<and> i < fr') (addrs ms)"
    using a b list_all_widen [OF a(5), of fr f2] list_all_widen [OF b(5), of fr f2]
    by (intro exI [of _ "as @ bs"] exI [of _ f2]) (simp add: add.assoc)
qed

lemma reads_as_card: "card_ok c \<Longrightarrow> reads_as [CardNode i c] (copies c) (write_node (CardNode i c))"
  unfolding reads_as_def
proof (intro allI impI)
  fix limit tot fr acc ts assume c: "card_ok c" and le: "tot + copies c \<le> limit"
  then have "min (to_int (show_int (copies c))) (limit - tot) = copies c" by (simp add: card_ok_def)
  then show "\<exists>ms fr'. read_zone limit tot fr acc (write_node (CardNode i c) @ ts) = read_zone limit (tot + copies c) fr' (acc @ ms) ts
      \<and> erase ms = map saved_node [CardNode i c] \<and> fr \<le> fr' \<and> distinct (addrs ms) \<and> list_all (\<lambda>i. fr \<le> i \<and> i < fr') (addrs ms)"
    by (intro exI [of _ "[CardNode fr (mark_legal c)]"] exI [of _ "Suc fr"]) (simp add: Let_def)
qed

lemma read_zone_to_end:
  assumes "reads_as ns k ws" and "k \<le> limit"
  obtains ms fr' where "read_zone limit 0 fr acc (ws @ EndElement ''zone'' # ts) = (acc @ ms, k, fr', ts)"
    and "erase ms = map saved_node ns" and "fr \<le> fr'" and "distinct (addrs ms)"
    and "list_all (\<lambda>i. fr \<le> i \<and> i < fr') (addrs ms)"
  using assms unfolding reads_as_def
  by (elim allE [of _ limit] allE [of _ 0] allE [of _ fr] allE [of _ acc] allE [of _ "EndElement ''zone'' # ts"]) auto

lemma reads_as_zone:
  assumes "reads_as ns k ws"
  shows "reads_as [ZoneNode i n ns] k (StartElement ''zone'' [(''name'', n)] # ws @ [EndElement ''zone''])"
  unfolding reads_as_def
proof (intro allI impI)
  fix limit tot fr acc ts assume "tot + k \<le> limit"
  then have "k \<le> limit - tot" by simp
  from read_zone_to_end [OF assms this, where fr = "Suc fr" and acc = "[]" and ts = ts]
  obtain ms f where m: "read_zone (limit - tot) 0 (Suc fr) [] (ws @ EndElement ''zone'' # ts) = (ms, k, f, ts)"
    "erase ms = map saved_node ns" "Suc fr \<le> f" "distinct (addrs ms)" "list_all (\<lambda>i. Suc fr \<le> i \<and> i < f) (addrs ms)"
    by auto
  have "fr \<notin> set (addrs ms)" using m(5) by (auto simp: list_all_iff)
  then show "\<exists>ms fr'. read_zone limit tot fr acc ((StartElement ''zone'' [(''name'', n)] # ws @ [EndElement ''zone'']) @ ts)
      = read_zone limit (tot + k) fr' (acc @ ms) ts
      \<and> erase ms = map saved_node [ZoneNode i n ns] \<and> fr \<le> fr' \<and> distinct (addrs ms) \<and> list_all (\<lambda>i. fr \<le> i \<and> i < fr') (addrs ms)"
    using m list_all_widen [OF m(5), of fr f]
    by (intro exI [of _ "[ZoneNode fr n ms]"] exI [of _ f]) simp
qed

lemma node_count_nonneg: "list_all card_ok (collect_node x) \<Longrightarrow> 0 \<le> node_count True x"
  by (auto simp: node_count_collect list_all_iff card_ok_def intro!: sum_list_nonneg)

lemma reads_as_list:
  assumes "\<And>x. x \<in> set ns \<Longrightarrow> list_all card_ok (collect_node x) \<Longrightarrow> reads_as [x] (node_count True x) (write_node x)"
    and "list_all card_ok (collectCardsRecursive ns)"
  shows "reads_as ns (sum_list (map (node_count True) ns)) (concat (map write_node ns))"
  using assms
proof (induction ns)
  case (Cons x ns)
  have "0 \<le> sum_list (map (node_count True) ns)"
  proof (rule sum_list_nonneg)
    fix k assume "k \<in> set (map (node_count True) ns)"
    then obtain y where y: "y \<in> set ns" "k = node_count True y" by auto
    then have "list_all card_ok (collect_node y)"
      using Cons.prems(2) by (auto simp: collectCardsRecursive_def list_all_iff)
    then show "0 \<le> k" using node_count_nonneg y by simp
  qed
  with Cons reads_as_append [of "[x]" "node_count True x" "write_node x" ns] show ?case by simp
qed (simp add: reads_as_Nil)

lemma reads_as_node: "list_all card_ok (collect_node x) \<Longrightarrow> reads_as [x] (node_count True x) (write_node x)"
proof (induction x)
  case (CardNode i c)
  then show ?case using reads_as_card [of c i] by simp
next
  case (ZoneNode i n ns)
  have "reads_as ns (sum_list (map (node_count True) ns)) (concat (map write_node ns))"
    using ZoneNode by (intro reads_as_list) simp_all
  from reads_as_zone [OF this, of i n] show ?case by simp
qed

section \<open>Boards\<close>

subsection \<open>What erasing and saving keep\<close>

lemma node_name_map [simp]: "node_name (map_deck_node f x) = node_name x"
  and is_zone_map [simp]: "is_zone (map_deck_node f x) = is_zone x"
  and collect_map [simp]: "collect_node (map_deck_node f x) = collect_node x"
  by (induction x) (simp_all add: deck_node.map(2) collectCardsRecursive_def comp_def cong: map_cong)

lemma children_map [simp]: "children (map_deck_node (\<lambda>_. ()) x) = erase (children x)"
  by (cases x) simp_all

lemma zone_names_erase [simp]: "zone_names_in (erase ns) = zone_names_in ns"
  by (simp add: zone_names_in_def erase_def filter_map comp_def)

lemma custom_names_erase [simp]: "custom_names (erase ns) = custom_names ns"
  by (induction ns) simp_all

lemma collect_erase [simp]: "collectCardsRecursive (erase ns) = collectCardsRecursive ns"
  by (induction ns) simp_all

lemma node_name_saved [simp]: "is_zone x \<Longrightarrow> node_name (saved_node x) = node_name x"
  and is_zone_saved [simp]: "is_zone (saved_node x) = is_zone x"
  and children_saved [simp]: "children (saved_node x) = map saved_node (children x)"
  by (cases x; simp)+

lemma zone_names_saved [simp]: "zone_names_in (map saved_node ns) = zone_names_in ns"
  by (induction ns) (auto simp: zone_names_in_def)

lemma custom_names_saved [simp]: "custom_names (map saved_node ns) = custom_names ns"
  by (induction ns) simp_all

lemma collect_saved [simp]: "collect_node (saved_node x) = map mark_legal (collect_node x)"
  by (induction x) (simp_all add: collectCardsRecursive_def map_concat comp_def cong: map_cong)

lemma copies_mark_legal [simp]: "copies (mark_legal c) = copies c"
  by (simp add: mark_legal_def)

lemma node_count_saved [simp]: "node_count True (saved_node x) = node_count True x"
  by (simp add: node_count_collect comp_def)

lemma recursiveCount_erase [simp]: "recursiveCount True (erase ns) = recursiveCount True ns"
  by (simp add: recursiveCount_collect)

lemma recursiveCount_append [simp]: "recursiveCount b (xs @ ys) = recursiveCount b xs + recursiveCount b ys"
  by (simp add: recursiveCount_def)

lemma recursiveCount_Cons [simp]: "recursiveCount b (x # xs) = node_count b x + recursiveCount b xs"
  by (simp add: recursiveCount_def)

lemma recursiveCount_Nil [simp]: "recursiveCount b [] = 0"
  by (simp add: recursiveCount_def)

lemma node_count_Zone [simp]: "node_count b (ZoneNode i n ns) = recursiveCount b ns"
  by (simp add: recursiveCount_def)

declare node_count.simps(2) [simp del]

lemma recursiveCount_saved [simp]: "recursiveCount True (map saved_node ns) = recursiveCount True ns"
  by (induction ns) (simp_all add: recursiveCount_def)

subsection \<open>Reading a board\<close>

definition loaded :: "deck_tree \<Rightarrow> unit deck_node list \<Rightarrow> bool" where
  "loaded t ns \<longleftrightarrow>
     erase (tree_root t) = ns \<and> distinct (addrs (tree_root t))
     \<and> list_all (\<lambda>i. 0 < i \<and> i < next_addr t) (addrs (tree_root t)) \<and> 0 < next_addr t
     \<and> totalCards t = recursiveCount True ns"

lemma loaded_names:
  assumes "loaded t ns"
  shows "zone_names_in (tree_root t) = zone_names_in ns" and "custom_names (tree_root t) = custom_names ns"
  using assms by (auto simp: loaded_def)

lemma find_address_None: "i \<notin> set (addrs ns) \<Longrightarrow> List.find (\<lambda>x. node_addr x = i) ns = None"
  by (auto simp: find_None_iff dest: node_addr_mem_addrs)

lemma find_append: "List.find P (xs @ ys) = (case List.find P xs of None \<Rightarrow> List.find P ys | Some x \<Rightarrow> Some x)"
  by (induction xs) auto

lemma readZoneElement_new:
  assumes l: "loaded t ns" and n: "n \<notin> set (zone_names_in ns)" "n \<notin> set (custom_names ns)"
    and r: "reads_as cs (recursiveCount True cs) ws" and le: "recursiveCount True ns + recursiveCount True cs \<le> max_deck_size"
  obtains t' where "readZoneElement [(''name'', n)] t (ws @ EndElement ''zone'' # ts) = (t', ts)"
    and "loaded t' (ns @ [ZoneNode () n (map saved_node cs)])"
proof -
  let ?z = "next_addr t"
  let ?t = "t\<lparr>tree_root := tree_root t @ [ZoneNode ?z n []], next_addr := ?z + 1\<rparr>"
  have z: "?z \<notin> set (addrs (tree_root t))" using l by (simp add: loaded_def fresh_addr)
  have g: "getZoneObjFromName n t = (?z, ?t)"
    using n loaded_names [OF l] find_zone_None [of n "tree_root t"] findCustomZoneByName_None [of n "tree_root t"]
    by (simp add: getZoneObjFromName_def new_board_def)
  have d: "deref ?z (tree_root ?t) = []"
    using find_address_None [OF z] by (simp add: deref_def find_append)
  have room: "recursiveCount True cs \<le> max_deck_size - totalCards ?t" using le l by (simp add: loaded_def)
  obtain ms fr' where m: "read_zone (max_deck_size - totalCards ?t) 0 (?z + 1) [] (ws @ EndElement ''zone'' # ts)
      = ([] @ ms, recursiveCount True cs, fr', ts)"
    "erase ms = map saved_node cs" "?z + 1 \<le> fr'" "distinct (addrs ms)" "list_all (\<lambda>i. ?z + 1 \<le> i \<and> i < fr') (addrs ms)"
    by (rule read_zone_to_end [OF r room])
  let ?t' = "t\<lparr>tree_root := tree_root t @ [ZoneNode ?z n ms], totalCards := totalCards t + recursiveCount True cs, next_addr := fr'\<rparr>"
  have e: "readZoneElement [(''name'', n)] t (ws @ EndElement ''zone'' # ts) = (?t', ts)"
    using m(1) d z by (simp add: readZoneElement_def g edit_zone_def)
  have "i < ?z" if "i \<in> set (addrs (tree_root t))" for i
    using that l by (simp add: loaded_def list_all_iff)
  moreover have "?z < i" if "i \<in> set (addrs ms)" for i
    using that m(5) by (auto simp: list_all_iff)
  ultimately have "set (addrs (tree_root t)) \<inter> set (addrs ms) = {}" "?z \<notin> set (addrs ms)"
    by (meson disjoint_iff order_less_asym, blast)
  moreover have "list_all (\<lambda>i. 0 < i \<and> i < fr') (addrs (tree_root t))" "list_all (\<lambda>i. 0 < i \<and> i < fr') (addrs ms)"
    using l m(3,5) by (auto simp: loaded_def list_all_iff)
  ultimately have "loaded ?t' (ns @ [ZoneNode () n (map saved_node cs)])"
    using l m(2-4) z by (auto simp: loaded_def)
  with e show thesis by (rule that)
qed

lemma metadata_other:
  "n \<in> {''zone'', ''commanders'', ''sideboard_plan''} \<Longrightarrow> metadata_readElement td n as m ts = None"
  by (auto simp: metadata_readElement_def split: prod.splits)

lemma readDeckBody_zone:
  assumes "loaded (deck_tree_of d) ns" and "n \<notin> set (zone_names_in ns)" "n \<notin> set (custom_names ns)"
    and "list_all card_ok (collectCardsRecursive cs)"
    and "recursiveCount True ns + recursiveCount True cs \<le> max_deck_size"
  obtains t' where "readDeckBody td d (write_node (ZoneNode i n cs) @ ts) = readDeckBody td (d\<lparr>deck_tree_of := t'\<rparr>) ts"
    and "loaded t' (ns @ [ZoneNode () n (map saved_node cs)])"
proof -
  have r: "reads_as cs (recursiveCount True cs) (concat (map write_node cs))"
    unfolding recursiveCount_def using assms(4) by (intro reads_as_list reads_as_node)
  obtain t' where t': "readZoneElement [(''name'', n)] (deck_tree_of d) (concat (map write_node cs) @ EndElement ''zone'' # ts) = (t', ts)"
    "loaded t' (ns @ [ZoneNode () n (map saved_node cs)])"
    by (rule readZoneElement_new [OF assms(1-3) r assms(5)])
  have "readDeckBody td d (write_node (ZoneNode i n cs) @ ts) = readDeckBody td (d\<lparr>deck_tree_of := t'\<rparr>) ts"
    using t'(1) by (simp add: deck_readElement_def metadata_other)
  with t'(2) show thesis by (intro that)
qed

lemma readDeckBody_zones:
  assumes "loaded (deck_tree_of d) ns" and "list_all is_zone bs"
    and "distinct (zone_names_in bs)" and "set (zone_names_in bs) \<inter> set (zone_names_in ns) = {}"
    and "set (zone_names_in bs) \<inter> set (custom_names bs) = {}" "set (zone_names_in bs) \<inter> set (custom_names ns) = {}"
    and "list_all card_ok (collectCardsRecursive bs)"
    and "recursiveCount True ns + recursiveCount True bs \<le> max_deck_size"
  shows "\<exists>t'. readDeckBody td d (concat (map write_node bs) @ ts) = readDeckBody td (d\<lparr>deck_tree_of := t'\<rparr>) ts
    \<and> loaded t' (ns @ map saved_node bs)"
  using assms
proof (induction bs arbitrary: d ns)
  case Nil
  then show ?case by (intro exI [of _ "deck_tree_of d"]) simp
next
  case (Cons b bs)
  obtain i n cs where b: "b = ZoneNode i n cs" using Cons.prems(2) is_zoneE [of b] by auto
  have pos: "0 \<le> recursiveCount True bs"
    using Cons.prems(7) by (auto simp: recursiveCount_collect list_all_iff card_ok_def intro!: sum_list_nonneg)
  have "recursiveCount True ns + recursiveCount True cs \<le> max_deck_size"
    using Cons.prems(8) pos by (simp add: b recursiveCount_def)
  then obtain t1 where t1: "readDeckBody td d (write_node b @ concat (map write_node bs) @ ts)
      = readDeckBody td (d\<lparr>deck_tree_of := t1\<rparr>) (concat (map write_node bs) @ ts)"
    "loaded t1 (ns @ [saved_node b])"
    using readDeckBody_zone [OF Cons.prems(1), of n cs td i "concat (map write_node bs) @ ts"] Cons.prems(4-7)
    by (auto simp: b)
  have "\<exists>t'. readDeckBody td (d\<lparr>deck_tree_of := t1\<rparr>) (concat (map write_node bs) @ ts)
      = readDeckBody td ((d\<lparr>deck_tree_of := t1\<rparr>)\<lparr>deck_tree_of := t'\<rparr>) ts \<and> loaded t' ((ns @ [saved_node b]) @ map saved_node bs)"
    by (rule Cons.IH) (use Cons.prems t1(2) in \<open>auto simp: b\<close>)
  with t1(1) show ?case by simp
qed

section \<open>Commanders\<close>

definition single :: "deck_card \<Rightarrow> deck_card" where
  "single c = mark_legal (c\<lparr>copies := 1\<rparr>)"

lemma single_simps [simp]:
  "copies (single c) = 1" "card_name (single c) = card_name c" "set_short_name (single c) = set_short_name c"
  "collector_number (single c) = collector_number c" "provider_id (single c) = provider_id c"
  by (simp_all add: single_def mark_legal_def)

lemma same_printing_single [simp]: "same_printing p (single c) = same_printing p c"
  by (simp add: same_printing_def)

lemma put_copy_alt:
  "put_copy acc c = (if acc \<noteq> [] \<and> same_printing (last acc) c then butlast acc @ [add_copy (last acc)] else acc @ [single c])"
  by (simp add: put_copy_def single_def)

lemma edit_card_other [simp]: "i \<notin> set (node_addrs x) \<Longrightarrow> edit_card i f x = x"
  by (induction x) (auto simp: addrs_def map_idI)

lemma edit_card_others [simp]: "i \<notin> set (addrs ns) \<Longrightarrow> map (edit_card i f) ns = ns"
  by (induction ns) simp_all

lemma addrs_cards [simp]: "addrs [CardNode i c] = [i]"
  by simp

text \<open>The tree while commanders are read: the entries so far stand last, and \<open>prev\<close> points to the last one.\<close>

definition commanders_read ::
  "(nat \<times> deck_card) option \<Rightarrow> deck_tree \<Rightarrow> unit deck_node list \<Rightarrow> deck_card list \<Rightarrow> bool" where
  "commanders_read prev t base acc \<longleftrightarrow>
     loaded t (base @ commander_zone acc)
     \<and> zone_commander \<notin> set (zone_names_in base) \<and> zone_commander \<notin> set (custom_names base)
     \<and> (if acc = [] then prev = None
        else \<exists>bs z cs i. tree_root t = bs @ [ZoneNode z zone_commander (cs @ [CardNode i (last acc)])]
               \<and> erase bs = base \<and> erase cs = map (CardNode ()) (butlast acc) \<and> prev = Some (i, last acc))"

lemma commander_zone_snoc: "commander_zone (xs @ [x]) = [ZoneNode () zone_commander (map (CardNode ()) xs @ [CardNode () x])]"
  by (simp add: commander_zone_def)

lemma zone_names_commander: "zone_names_in (commander_zone xs) = (if xs = [] then [] else [zone_commander])"
  by (simp add: commander_zone_def)

lemma zone_names_card_nodes [simp]: "zone_names_in (map (CardNode ()) xs) = []"
  by (induction xs) simp_all

lemma count_card_nodes [simp]: "recursiveCount True (map (CardNode ()) xs) = sum_list (map copies xs)"
  by (induction xs) simp_all

lemma commander_step_first:
  assumes r: "commanders_read prev t base []" and le: "totalCards t < max_deck_size"
  shows "commanders_read (fst (commander_step prev (single c) t)) (snd (commander_step prev (single c) t)) base [single c]"
proof -
  have l: "loaded t base" and none: "zone_commander \<notin> set (zone_names_in base)" "zone_commander \<notin> set (custom_names base)"
    and prev: "prev = None" using r by (auto simp: commanders_read_def commander_zone_def)
  let ?z = "next_addr t"
  let ?t = "t\<lparr>totalCards := totalCards t + 1\<rparr>"
  let ?t' = "t\<lparr>tree_root := tree_root t @ [ZoneNode ?z zone_commander [CardNode (?z + 1) (single c)]],
              totalCards := totalCards t + 1, next_addr := ?z + 2\<rparr>"
  have z: "?z \<notin> set (addrs (tree_root t))" using l by (simp add: loaded_def fresh_addr)
  have z1: "?z + 1 \<notin> set (addrs (tree_root t))" using l by (auto simp: loaded_def list_all_iff)
  have g: "getZoneObjFromName zone_commander ?t = new_board zone_commander ?t"
    using none loaded_names [OF l] find_zone_None [of zone_commander "tree_root t"] findCustomZoneByName_None [of zone_commander "tree_root t"]
    by (simp add: getZoneObjFromName_def)
  have one: "min 1 (max_deck_size - totalCards t) = (1 :: int)" using le by simp
  have copy1: "(single c)\<lparr>copies := 1\<rparr> = single c" by (simp add: single_def mark_legal_def)
  have "commander_step prev (single c) t = (Some (?z + 1, single c), ?t')"
    using z z1 by (simp add: prev commander_step_def tree_addCard_def one g new_board_def edit_zone_def insert_node_def copy1)
  moreover have "loaded ?t' (base @ commander_zone [single c])"
    using l z z1 by (auto simp: loaded_def commander_zone_def list_all_iff)
  moreover have "erase (tree_root t) = base" using l by (simp add: loaded_def)
  ultimately show ?thesis using none by (simp add: commanders_read_def)
qed

lemma commander_step_same:
  assumes r: "commanders_read prev t base (acc @ [p])" and same: "same_printing p c"
  shows "commanders_read (fst (commander_step prev (single c) t)) (snd (commander_step prev (single c) t)) base (acc @ [add_copy p])"
proof -
  obtain bs z cs i where root: "tree_root t = bs @ [ZoneNode z zone_commander (cs @ [CardNode i p])]"
    and e: "erase bs = base" "erase cs = map (CardNode ()) acc" and prev: "prev = Some (i, p)"
    and l: "loaded t (base @ commander_zone (acc @ [p]))"
    using r by (auto simp: commanders_read_def)
  let ?t' = "t\<lparr>tree_root := bs @ [ZoneNode z zone_commander (cs @ [CardNode i (add_copy p)])], totalCards := totalCards t + 1\<rparr>"
  have i: "i \<notin> set (addrs bs)" "i \<notin> set (addrs cs)" using l by (auto simp: loaded_def root)
  have "commander_step prev (single c) t = (Some (i, add_copy p), ?t')"
    using i same by (simp add: prev commander_step_def root)
  moreover have "loaded ?t' (base @ commander_zone (acc @ [add_copy p]))"
    using l e by (auto simp: loaded_def root commander_zone_snoc add_copy_def)
  ultimately show ?thesis using r e by (simp add: commanders_read_def)
qed

lemma commander_step_next:
  assumes r: "commanders_read prev t base (acc @ [p])" and ne: "\<not> same_printing p c" and le: "totalCards t < max_deck_size"
  shows "commanders_read (fst (commander_step prev (single c) t)) (snd (commander_step prev (single c) t)) base (acc @ [p, single c])"
proof -
  obtain bs z cs i where root: "tree_root t = bs @ [ZoneNode z zone_commander (cs @ [CardNode i p])]"
    and e: "erase bs = base" "erase cs = map (CardNode ()) acc" and prev: "prev = Some (i, p)"
    and l: "loaded t (base @ commander_zone (acc @ [p]))"
    and none: "zone_commander \<notin> set (zone_names_in base)"
    using r by (auto simp: commanders_read_def)
  let ?k = "next_addr t"
  let ?t = "t\<lparr>totalCards := totalCards t + 1\<rparr>"
  let ?t' = "t\<lparr>tree_root := bs @ [ZoneNode z zone_commander (cs @ [CardNode i p, CardNode ?k (single c)])],
              totalCards := totalCards t + 1, next_addr := ?k + 1\<rparr>"
  have z: "z \<notin> set (addrs bs)" using l by (auto simp: loaded_def root)
  have k: "?k \<notin> set (addrs (tree_root t))" using l by (simp add: loaded_def fresh_addr)
  have "List.find (\<lambda>x. is_zone x \<and> node_name x = zone_commander) bs = None"
    using none e(1) zone_names_erase [of bs] by (simp add: find_zone_None)
  then have g: "getZoneObjFromName zone_commander ?t = (z, ?t)"
    by (simp add: getZoneObjFromName_def root find_append)
  have one: "min 1 (max_deck_size - totalCards t) = (1 :: int)" using le by simp
  have copy1: "(single c)\<lparr>copies := 1\<rparr> = single c" by (simp add: single_def mark_legal_def)
  have "commander_step prev (single c) t = (Some (?k, single c), ?t')"
    using z ne by (simp add: prev commander_step_def tree_addCard_def one g edit_zone_def root insert_node_def copy1)
  moreover have "loaded ?t' (base @ commander_zone (acc @ [p, single c]))"
    using l e k commander_zone_snoc [of "acc @ [p]" "single c"]
    by (auto simp: loaded_def root commander_zone_snoc fresh_addr)
  ultimately show ?thesis using r e by (auto simp: commanders_read_def butlast_append)
qed

lemma commander_step_put:
  assumes r: "commanders_read prev t base acc" and le: "totalCards t < max_deck_size"
  shows "commanders_read (fst (commander_step prev (single c) t)) (snd (commander_step prev (single c) t)) base (put_copy acc c)"
proof (cases acc rule: rev_exhaust)
  case Nil
  then show ?thesis using commander_step_first [of prev t base c] r le by (simp add: put_copy_alt)
next
  case (snoc qs p)
  then show ?thesis
    using commander_step_same [of prev t base qs p c] commander_step_next [of prev t base qs p c] r le
    by (simp add: put_copy_alt)
qed

lemma commanders_read_total:
  "commanders_read prev t base acc \<Longrightarrow> totalCards t = recursiveCount True base + sum_list (map copies acc)"
  by (auto simp: commanders_read_def loaded_def commander_zone_def)

lemma sum_put_copy: "sum_list (map copies (put_copy acc c)) = sum_list (map copies acc) + 1"
  by (cases acc rule: rev_exhaust) (auto simp: put_copy_alt add_copy_def)

lemma commander_of_attributes:
  "commander_of (card_name c)
     ((''providerId'', provider_id c) # nonempty_attribute ''setShortName'' (set_short_name c)
      @ nonempty_attribute ''collectorNumber'' (collector_number c)) = single c"
  by (simp add: commander_of_def single_def mark_legal_def)

lemma read_commanders_copies:
  assumes "commanders_read prev t base acc"
    and "recursiveCount True base + sum_list (map copies acc) + int (length cs) \<le> max_deck_size"
  shows "\<exists>prev' t'. read_commanders prev t (concat (map commander_element cs) @ ts) = read_commanders prev' t' ts
    \<and> commanders_read prev' t' base (foldl put_copy acc cs)"
  using assms
proof (induction cs arbitrary: prev t acc)
  case (Cons c cs)
  have less: "totalCards t < max_deck_size"
    using Cons.prems commanders_read_total [OF Cons.prems(1)] by simp
  let ?s = "commander_step prev (single c) t"
  have "read_commanders prev t (concat (map commander_element (c # cs)) @ ts)
      = read_commanders (fst ?s) (snd ?s) (concat (map commander_element cs) @ ts)"
    using less by (subst read_commanders.simps) (simp add: commander_element_def commander_of_attributes)
  moreover have "\<exists>prev' t'. read_commanders (fst ?s) (snd ?s) (concat (map commander_element cs) @ ts) = read_commanders prev' t' ts
    \<and> commanders_read prev' t' base (foldl put_copy (put_copy acc c) cs)"
    by (rule Cons.IH [OF commander_step_put [OF Cons.prems(1) less]]) (use Cons.prems(2) in \<open>simp add: sum_put_copy\<close>)
  ultimately show ?case by simp
qed auto

lemma length_card_copies: "list_all card_ok cs \<Longrightarrow> int (length (card_copies cs)) = sum_list (map copies cs)"
  by (induction cs) (auto simp: card_copies_def card_ok_def)

lemma clearCommanders_none:
  assumes "loaded t ns" and "zone_commander \<notin> set (zone_names_in ns)" and "list_all is_zone ns"
  shows "clearCommanders t = t"
proof -
  have "list_all is_zone (tree_root t)" using assms by (auto simp: loaded_def erase_def list_all_iff)
  then have "findBoardZone zone_commander (tree_root t) = None"
    using assms loaded_names [OF assms(1)] by (simp add: findBoardZone_None)
  then show ?thesis by (simp add: clearCommanders_def)
qed

lemma readDeckBody_commanders:
  assumes l: "loaded (deck_tree_of d) ns" and z: "list_all is_zone ns"
    and none: "zone_commander \<notin> set (zone_names_in ns)" "zone_commander \<notin> set (custom_names ns)"
    and ok: "list_all card_ok cs" and le: "recursiveCount True ns + sum_list (map copies cs) \<le> max_deck_size"
  shows "\<exists>t'. readDeckBody td d (write_commanders cs @ ts) = readDeckBody td (d\<lparr>deck_tree_of := t'\<rparr>) ts
    \<and> loaded t' (ns @ commander_zone (regroup (card_copies cs)))"
proof (cases "cs = []")
  case True
  then show ?thesis using l
    by (intro exI [of _ "deck_tree_of d"]) (simp add: write_commanders_def card_copies_def regroup_def commander_zone_def)
next
  case False
  have start: "commanders_read None (deck_tree_of d) ns []"
    using l none by (simp add: commanders_read_def commander_zone_def)
  from read_commanders_copies [OF start, of "card_copies cs" "EndElement ''commanders'' # ts"] length_card_copies [OF ok] le
  obtain prev' t' where r: "read_commanders None (deck_tree_of d) (concat (map commander_element (card_copies cs)) @ EndElement ''commanders'' # ts)
      = read_commanders prev' t' (EndElement ''commanders'' # ts)"
    and c: "commanders_read prev' t' ns (foldl put_copy [] (card_copies cs))"
    by auto
  have "read_commanders prev' t' (EndElement ''commanders'' # ts) = (t', Some ts)"
    by (subst read_commanders.simps) simp
  then have "readDeckBody td d (write_commanders cs @ ts) = readDeckBody td (d\<lparr>deck_tree_of := t'\<rparr>) ts"
    using False r clearCommanders_none [OF l none(1) z]
    by (simp add: write_commanders_def deck_readElement_def metadata_other readCommandersElement_def)
  with c show ?thesis by (auto simp: commanders_read_def regroup_def)
qed

section \<open>Metadata\<close>

definition printable_params ::
  "(real \<Rightarrow> string) \<Rightarrow> (string \<Rightarrow> real option) \<Rightarrow> playmat_params \<Rightarrow> bool" where
  "printable_params fmt td p \<longleftrightarrow>
     td (fmt (marginPctL p)) = Some (marginPctL p) \<and> 0 \<le> marginPctL p \<and> marginPctL p \<le> 95 / 100
     \<and> td (fmt (marginPctR p)) = Some (marginPctR p) \<and> 0 \<le> marginPctR p \<and> marginPctR p \<le> 95 / 100
     \<and> td (fmt (verticalOffset p)) = Some (verticalOffset p) \<and> 0 \<le> verticalOffset p \<and> verticalOffset p \<le> 1
     \<and> td (fmt (zoom p)) = Some (zoom p) \<and> 1 / 10 \<le> zoom p \<and> zoom p \<le> 4"

definition metadata_ok :: "(real \<Rightarrow> string) \<Rightarrow> (string \<Rightarrow> real option) \<Rightarrow> deck_metadata \<Rightarrow> bool" where
  "metadata_ok fmt td m \<longleftrightarrow>
     card_ref_isEmpty (playmat_card (playmat m)) \<or> printable_params fmt td (playmat_place (playmat m))"

text \<open>The placement of a playmat without a card is not written.\<close>

definition saved_metadata :: "deck_metadata \<Rightarrow> deck_metadata" where
  "saved_metadata m =
     (if card_ref_isEmpty (playmat_card (playmat m))
      then m\<lparr>playmat := \<lparr>playmat_card = no_card, playmat_place = default_params\<rparr>\<rparr> else m)"

lemma parseClampedParam_exact: "td s = Some v \<Longrightarrow> lo \<le> v \<Longrightarrow> v \<le> hi \<Longrightarrow> parseClampedParam td s f lo hi = v"
  by (simp add: parseClampedParam_def)

lemma readDeckBody_text:
  assumes "\<And>m ts. metadata_readElement td n [] m (characters s @ EndElement n # ts) = Some (f m, Some ts)"
  shows "readDeckBody td d (text_element n s @ ts) = readDeckBody td (d\<lparr>metadata := f (metadata d)\<rparr>) ts"
  using assms by (simp add: text_element_def deck_readElement_def)

lemma readDeckBody_timestamp [simp]: "readDeckBody td d (text_element ''lastLoadedTimestamp'' s @ ts)
    = readDeckBody td (d\<lparr>metadata := (metadata d)\<lparr>lastLoadedTimestamp := s\<rparr>\<rparr>) ts"
  by (rule readDeckBody_text) (simp add: metadata_readElement_def)

lemma readDeckBody_deckname [simp]: "readDeckBody td d (text_element ''deckname'' s @ ts)
    = readDeckBody td (d\<lparr>metadata := (metadata d)\<lparr>deck_name := s\<rparr>\<rparr>) ts"
  by (rule readDeckBody_text) (simp add: metadata_readElement_def)

lemma readDeckBody_format [simp]: "readDeckBody td d (text_element ''format'' s @ ts)
    = readDeckBody td (d\<lparr>metadata := (metadata d)\<lparr>gameFormat := s\<rparr>\<rparr>) ts"
  by (rule readDeckBody_text) (simp add: metadata_readElement_def)

lemma readDeckBody_comments [simp]: "readDeckBody td d (text_element ''comments'' s @ ts)
    = readDeckBody td (d\<lparr>metadata := (metadata d)\<lparr>comments := s\<rparr>\<rparr>) ts"
  by (rule readDeckBody_text) (simp add: metadata_readElement_def)

lemma readDeckBody_banner [simp]:
  "readDeckBody td d (write_banner r @ ts) = readDeckBody td (d\<lparr>metadata := (metadata d)\<lparr>bannerCard := r\<rparr>\<rparr>) ts"
  by (cases r) (simp add: write_banner_def deck_readElement_def metadata_readElement_def)

lemma read_tags_all:
  "read_tags acc (concat (map (text_element ''tag'') xs) @ EndElement n # ts) = (acc @ xs, Some ts)"
proof (induction xs arbitrary: acc)
  case Nil
  then show ?case by (subst read_tags.simps) simp
next
  case (Cons x xs)
  from Cons [of "acc @ [x]"] show ?case by (subst read_tags.simps) (simp add: text_element_def [of _ x])
qed

lemma readDeckBody_tags [simp]:
  "readDeckBody td d (write_tags xs @ ts) = readDeckBody td (d\<lparr>metadata := (metadata d)\<lparr>tags := xs\<rparr>\<rparr>) ts"
  by (simp add: write_tags_def deck_readElement_def metadata_readElement_def read_tags_all case_prod_beta)

lemma readPlaymatParams_exact:
  assumes "printable_params fmt td p"
  shows "readPlaymatParams td [(''providerId'', q), (''marginPctL'', fmt (marginPctL p)), (''marginPctR'', fmt (marginPctR p)),
    (''verticalOffset'', fmt (verticalOffset p)), (''zoom'', fmt (zoom p))] = p"
proof -
  have "parseClampedParam td (fmt (marginPctL p)) (7 / 100) 0 (95 / 100) = marginPctL p"
    "parseClampedParam td (fmt (marginPctR p)) (7 / 100) 0 (95 / 100) = marginPctR p"
    "parseClampedParam td (fmt (verticalOffset p)) (33 / 100) 0 1 = verticalOffset p"
    "parseClampedParam td (fmt (zoom p)) 1 (1 / 10) 4 = zoom p"
    using assms unfolding printable_params_def by (blast intro: parseClampedParam_exact)+
  then show ?thesis unfolding readPlaymatParams_def by simp
qed

lemma readDeckBody_playmat:
  assumes "card_ref_isEmpty (playmat_card p) \<or> printable_params fmt td (playmat_place p)"
  shows "readDeckBody td d (write_playmat fmt p @ ts)
    = readDeckBody td (if card_ref_isEmpty (playmat_card p) then d else d\<lparr>metadata := (metadata d)\<lparr>playmat := p\<rparr>\<rparr>) ts"
  using assms
  by (cases p; cases "playmat_card p")
    (auto simp: write_playmat_def deck_readElement_def metadata_readElement_def readPlaymatParams_exact)

lemma readDeckBody_metadata:
  assumes "metadata_ok fmt td m" and "metadata d = new_metadata"
  shows "readDeckBody td d (write_metadata fmt m @ ts) = readDeckBody td (d\<lparr>metadata := saved_metadata m\<rparr>) ts"
  using readDeckBody_playmat [of "playmat m" fmt td] assms
  by (cases m) (simp add: write_metadata_def metadata_ok_def saved_metadata_def new_metadata_def)

section \<open>Sideboard plans\<close>

lemma read_move_write: "read_move no_move (text_element ''card_name'' (moved_card m) @ text_element ''start_zone'' (start_zone m)
    @ text_element ''target_zone'' (target_zone m) @ EndElement ''move_card_to_zone'' # ts) = (Some m, Some ts)"
  by (simp add: text_element_def move_field_def no_move_def)

lemma read_plan_moves:
  "read_plan p (concat (map write_move ms) @ EndElement ''sideboard_plan'' # ts)
    = ((True, p\<lparr>move_list := move_list p @ ms\<rparr>), Some ts)"
proof (induction ms arbitrary: p)
  case (Cons m ms)
  then show ?case using read_move_write [of m] by (simp add: write_move_def)
qed simp

lemma readDeckBody_plan:
  "readDeckBody td d (write_plan p @ ts) = readDeckBody td (d\<lparr>sideboardPlans := qm_insert (plan_name p) p (sideboardPlans d)\<rparr>) ts"
proof -
  have "read_plan no_plan (text_element ''name'' (plan_name p) @ concat (map write_move (move_list p)) @ EndElement ''sideboard_plan'' # ts)
      = ((True, p), Some ts)"
    by (simp add: text_element_def no_plan_def read_plan_moves)
  then show ?thesis by (simp add: write_plan_def deck_readElement_def metadata_other)
qed

definition merge_plans :: "sideboard_plan list \<Rightarrow> (string, sideboard_plan) qmap \<Rightarrow> (string, sideboard_plan) qmap" where
  "merge_plans ps m = foldl (\<lambda>m p. qm_insert (plan_name p) p m) m ps"

lemma readDeckBody_plans:
  "readDeckBody td d (concat (map write_plan ps) @ ts) = readDeckBody td (d\<lparr>sideboardPlans := merge_plans ps (sideboardPlans d)\<rparr>) ts"
  by (induction ps arbitrary: d) (simp_all add: merge_plans_def readDeckBody_plan)

section \<open>The whole deck\<close>

definition deck_saveable :: "(real \<Rightarrow> string) \<Rightarrow> (string \<Rightarrow> real option) \<Rightarrow> deck_list \<Rightarrow> bool" where
  "deck_saveable fmt td d \<longleftrightarrow>
     deck_wf (deck_tree_of d)
     \<and> list_all card_ok (collectCardsRecursive (tree_root (deck_tree_of d)))
     \<and> list_all (\<lambda>c. 0 < copies c) (getCardNodes [zone_commander] (tree_root (deck_tree_of d)))
     \<and> recursiveCount True (tree_root (deck_tree_of d)) \<le> max_deck_size
     \<and> metadata_ok fmt td (metadata d)
     \<and> qm_ok (sideboardPlans d) \<and> list_all (\<lambda>(k, p). plan_name p = k) (sideboardPlans d)"

abbreviation root_of :: "deck_list \<Rightarrow> nat deck_node list" where
  "root_of d \<equiv> tree_root (deck_tree_of d)"

abbreviation plain_boards :: "'a deck_node list \<Rightarrow> 'a deck_node list" where
  "plain_boards ns \<equiv> filter (\<lambda>x. node_name x \<noteq> zone_commander) ns"

lemma getCardNodes_Cons:
  "getCardNodes zs (x # ns) = (if is_zone x \<and> (zs = [] \<or> node_name x \<in> set zs) then collect_node x else []) @ getCardNodes zs ns"
  by (auto simp: getCardNodes_def getZoneNodes_def)

lemma getCardNodes_Nil [simp]: "getCardNodes zs [] = []"
  by (simp add: getCardNodes_def getZoneNodes_def)

lemma collect_card_nodes [simp]: "collectCardsRecursive (map (CardNode ()) cs) = cs"
  by (induction cs) simp_all

lemma commander_zone_cards [simp]:
  "recursiveCount True (commander_zone cs) = sum_list (map copies cs)"
  "collectCardsRecursive (commander_zone cs) = cs"
  by (cases cs; simp add: commander_zone_def)+

lemma count_split:
  "list_all is_zone ns \<Longrightarrow>
   recursiveCount True (plain_boards ns) + sum_list (map copies (getCardNodes [zone_commander] ns)) = recursiveCount True ns"
  by (induction ns) (auto simp: getCardNodes_Cons node_count_collect)

lemma collect_split:
  "list_all P (collectCardsRecursive ns) \<Longrightarrow>
   list_all P (collectCardsRecursive (plain_boards ns)) \<and> list_all P (getCardNodes [zone_commander] ns)"
  by (induction ns) (auto simp: getCardNodes_Cons)

lemma zone_names_plain: "list_all is_zone ns \<Longrightarrow> zone_names_in (plain_boards ns) = filter (\<lambda>n. n \<noteq> zone_commander) (zone_names_in ns)"
  by (induction ns) (auto simp: zone_names_in_def)

lemma custom_names_plain: "set (custom_names (plain_boards ns)) \<subseteq> set (custom_names ns)"
  by (induction ns) auto

lemma load_write:
  assumes ok: "deck_saveable fmt td d" and wf0: "deck_wf (deck_tree_of d0)"
  obtains t where "loadFromXml td (write_deck fmt d) d0
      = (True, \<lparr>metadata = saved_metadata (metadata d),
                sideboardPlans = merge_plans (map snd (sideboardPlans d)) (sideboardPlans d0),
                deck_tree_of = t, cachedDeckHash = []\<rparr>)"
    and "loaded t (saved_root (root_of d))"
proof -
  let ?ns = "root_of d" and ?cs = "getCardNodes [zone_commander] (root_of d)"
  let ?d1 = "(cleanList False d0)\<lparr>metadata := saved_metadata (metadata d)\<rparr>"
  let ?plans = "concat (map write_plan (map snd (sideboardPlans d))) @ [EndElement ''cockatrice_deck'']"
  have wf: "deck_wf (deck_tree_of d)" using ok by (simp add: deck_saveable_def)
  then have zs: "list_all is_zone ?ns" and names: "distinct (zone_names_in ?ns)" "set (zone_names_in ?ns) \<inter> set (custom_names ?ns) = {}"
    and com: "zone_commander \<notin> set (custom_names ?ns)"
    by (auto simp: deck_wf_def reserved_names_def list_all_iff)
  have ok_cards: "list_all card_ok (collectCardsRecursive (plain_boards ?ns))" "list_all card_ok ?cs"
    using collect_split [of card_ok ?ns] ok by (simp_all add: deck_saveable_def)
  have total: "recursiveCount True (plain_boards ?ns) + sum_list (map copies ?cs) \<le> max_deck_size"
    using count_split [OF zs] ok by (simp add: deck_saveable_def)
  have pos: "0 \<le> sum_list (map copies ?cs)"
    using ok_cards(2) by (auto simp: list_all_iff card_ok_def intro!: sum_list_nonneg)
  have l0: "loaded (deck_tree_of ?d1) []"
    using wf0 by (simp add: loaded_def cleanList_def refreshDeckHash_def clear_tree_def deck_wf_def)
  have "\<exists>t'. readDeckBody td ?d1 (concat (map write_node (plain_boards ?ns)) @ write_commanders ?cs @ ?plans)
      = readDeckBody td (?d1\<lparr>deck_tree_of := t'\<rparr>) (write_commanders ?cs @ ?plans)
    \<and> loaded t' ([] @ map saved_node (plain_boards ?ns))"
    by (rule readDeckBody_zones [OF l0])
      (use zs names zone_names_plain [OF zs] custom_names_plain [of ?ns] ok_cards total pos in \<open>auto simp: list_all_iff\<close>)
  then obtain t1 where t1: "readDeckBody td ?d1 (concat (map write_node (plain_boards ?ns)) @ write_commanders ?cs @ ?plans)
      = readDeckBody td (?d1\<lparr>deck_tree_of := t1\<rparr>) (write_commanders ?cs @ ?plans)"
    "loaded t1 (map saved_node (plain_boards ?ns))" by auto
  let ?d2 = "?d1\<lparr>deck_tree_of := t1\<rparr>"
  have "\<exists>t'. readDeckBody td ?d2 (write_commanders ?cs @ ?plans) = readDeckBody td (?d2\<lparr>deck_tree_of := t'\<rparr>) ?plans
    \<and> loaded t' (map saved_node (plain_boards ?ns) @ commander_zone (regroup (card_copies ?cs)))"
    by (rule readDeckBody_commanders)
      (use t1(2) zs com zone_names_plain [OF zs] custom_names_plain [of ?ns] ok_cards total in \<open>auto simp: list_all_iff\<close>)
  then obtain t where t: "readDeckBody td ?d2 (write_commanders ?cs @ ?plans) = readDeckBody td (?d2\<lparr>deck_tree_of := t\<rparr>) ?plans"
    "loaded t (saved_root ?ns)" by (auto simp: saved_root_def)
  have md: "metadata_ok fmt td (metadata d)" using ok by (simp add: deck_saveable_def)
  have new: "metadata (cleanList False d0) = new_metadata" by (simp add: cleanList_def refreshDeckHash_def)
  let ?d3 = "?d1\<lparr>deck_tree_of := t, sideboardPlans := merge_plans (map snd (sideboardPlans d)) (sideboardPlans d0)\<rparr>"
  have plans0: "sideboardPlans ?d1 = sideboardPlans d0" by (simp add: cleanList_def refreshDeckHash_def)
  have body: "readDeckBody td (cleanList False d0) (write_metadata fmt (metadata d) @ write_tree ?ns @ ?plans) = (?d3, Some [])"
    using readDeckBody_metadata [OF md new] t1(1) t(1) readDeckBody_plans [of td "?d1\<lparr>deck_tree_of := t\<rparr>" "map snd (sideboardPlans d)"] plans0
    by (simp add: write_tree_def)
  have "write_deck fmt d = StartElement ''cockatrice_deck'' [(''version'', ''1'')] # write_metadata fmt (metadata d) @ write_tree ?ns @ ?plans"
    by (simp add: write_deck_def comp_def)
  then have "loadFromXml td (write_deck fmt d) d0 = load_loop td ?d3 []"
    unfolding loadFromXml_def using body by (subst load_loop.simps) simp
  also have "\<dots> = (True, refreshDeckHash ?d3)" by (subst load_loop.simps) simp
  finally have "loadFromXml td (write_deck fmt d) d0 = (True, refreshDeckHash ?d3)" .
  moreover have "refreshDeckHash ?d3 = \<lparr>metadata = saved_metadata (metadata d),
      sideboardPlans = merge_plans (map snd (sideboardPlans d)) (sideboardPlans d0), deck_tree_of = t, cachedDeckHash = []\<rparr>"
    by (simp add: refreshDeckHash_def cleanList_def)
  ultimately show thesis using t(2) that by simp
qed

subsection \<open>Writing what was read\<close>

lemma card_attributes_legal [simp]: "card_attributes (mark_legal c) = card_attributes c"
  by (simp add: card_attributes_def mark_legal_def)

lemma write_node_map [simp]: "write_node (map_deck_node f x) = write_node x"
  by (induction x) (simp_all add: deck_node.map(2) comp_def cong: map_cong)

lemma write_node_saved [simp]: "write_node (saved_node x) = write_node x"
  by (induction x) (simp_all add: comp_def cong: map_cong)

lemma plain_boards_erase: "plain_boards (erase ns) = erase (plain_boards ns)"
  by (simp add: erase_def filter_map comp_def)

lemma getCardNodes_erase [simp]: "getCardNodes zs (erase ns) = getCardNodes zs ns"
  by (induction ns) (auto simp: getCardNodes_Cons)

lemma write_tree_erase: "write_tree (erase ns) = write_tree ns"
  by (simp add: write_tree_def plain_boards_erase) (simp add: erase_def comp_def)

lemma getCardNodes_append: "getCardNodes zs (xs @ ys) = getCardNodes zs xs @ getCardNodes zs ys"
  by (simp add: getCardNodes_def getZoneNodes_def)

lemma getCardNodes_commander_zone [simp]: "getCardNodes [zone_commander] (commander_zone cs) = cs"
  by (simp add: commander_zone_def getCardNodes_Cons)

lemma getCardNodes_plain: "list_all is_zone ns \<Longrightarrow> getCardNodes [zone_commander] (map saved_node (plain_boards ns)) = []"
  by (induction ns) (auto simp: getCardNodes_Cons)

text \<open>Writing the regrouped entries repeats the same elements.\<close>

lemma commander_element_simps [simp]:
  "commander_element (add_copy c) = commander_element c" "commander_element (single c) = commander_element c"
  by (simp_all add: commander_element_def add_copy_def)

lemma commander_element_same: "same_printing a b \<Longrightarrow> commander_element a = commander_element b"
  by (simp add: commander_element_def same_printing_def)

lemma card_copies_append [simp]: "card_copies (xs @ ys) = card_copies xs @ card_copies ys"
  by (simp add: card_copies_def)

lemma card_copies_one: "map commander_element (card_copies [c]) = replicate (nat (copies c)) (commander_element c)"
  by (simp add: card_copies_def)

lemma put_copy_elements:
  assumes "list_all (\<lambda>c. 0 < copies c) acc"
  shows "map commander_element (card_copies (put_copy acc c)) = map commander_element (card_copies acc) @ [commander_element c]"
    and "list_all (\<lambda>c. 0 < copies c) (put_copy acc c)"
proof -
  have "map commander_element (card_copies (put_copy acc c)) = map commander_element (card_copies acc) @ [commander_element c]
    \<and> list_all (\<lambda>c. 0 < copies c) (put_copy acc c)"
  proof (cases acc rule: rev_exhaust)
    case Nil
    then show ?thesis by (simp add: put_copy_alt card_copies_def)
  next
    case (snoc qs p)
    show ?thesis
    proof (cases "same_printing p c")
      case True
      have "nat (copies p + 1) = Suc (nat (copies p))" using assms snoc by (simp add: nat_add_distrib)
      then have "map commander_element (card_copies [add_copy p]) = map commander_element (card_copies [p]) @ [commander_element c]"
        unfolding card_copies_one using commander_element_same [OF True]
        by (simp add: add_copy_def replicate_append_same) (simp add: commander_element_def)
      moreover have "put_copy acc c = qs @ [add_copy p]" using snoc True by (simp add: put_copy_alt)
      ultimately show ?thesis using assms snoc by (simp add: add_copy_def)
    next
      case False
      then show ?thesis using assms snoc by (simp add: put_copy_alt card_copies_one [of "single c"] del: map_append)
          (simp add: card_copies_def)
    qed
  qed
  then show "map commander_element (card_copies (put_copy acc c)) = map commander_element (card_copies acc) @ [commander_element c]"
    and "list_all (\<lambda>c. 0 < copies c) (put_copy acc c)" by simp_all
qed

lemma regroup_elements:
  "list_all (\<lambda>c. 0 < copies c) acc \<Longrightarrow>
   map commander_element (card_copies (foldl put_copy acc cs)) = map commander_element (card_copies acc @ cs)
   \<and> list_all (\<lambda>c. 0 < copies c) (foldl put_copy acc cs)"
  by (induction cs arbitrary: acc) (simp_all add: put_copy_elements)

lemma put_copy_not_Nil: "put_copy acc c \<noteq> []"
  by (simp add: put_copy_def)

lemma regroup_Nil_iff: "regroup cs = [] \<longleftrightarrow> cs = []"
  by (cases cs rule: rev_exhaust) (simp_all add: regroup_def put_copy_not_Nil)

lemma write_commanders_regroup:
  assumes "list_all (\<lambda>c. 0 < copies c) cs"
  shows "write_commanders (regroup (card_copies cs)) = write_commanders cs"
proof -
  have "card_copies cs = [] \<longleftrightarrow> cs = []" using assms by (cases cs) (auto simp: card_copies_def)
  moreover have "map commander_element (card_copies (regroup (card_copies cs))) = map commander_element (card_copies cs)"
    using regroup_elements [of "[]" "card_copies cs"] by (simp add: regroup_def card_copies_def)
  ultimately show ?thesis by (simp add: write_commanders_def regroup_Nil_iff)
qed

lemma write_tree_saved:
  assumes "list_all is_zone ns" and "list_all (\<lambda>c. 0 < copies c) (getCardNodes [zone_commander] ns)"
  shows "write_tree (saved_root ns) = write_tree ns"
proof -
  have "plain_boards (map saved_node (plain_boards ns)) = map saved_node (plain_boards ns)"
    using assms(1) by (induction ns) auto
  moreover have "plain_boards (commander_zone cs) = []" for cs by (simp add: commander_zone_def)
  ultimately have "plain_boards (saved_root ns) = map saved_node (plain_boards ns)"
    by (simp add: saved_root_def)
  moreover have "getCardNodes [zone_commander] (saved_root ns) = regroup (card_copies (getCardNodes [zone_commander] ns))"
    by (simp add: saved_root_def getCardNodes_append getCardNodes_plain [OF assms(1)])
  ultimately show ?thesis
    by (simp add: write_tree_def write_commanders_regroup [OF assms(2)] comp_def)
qed

lemma write_metadata_saved: "write_metadata fmt (saved_metadata m) = write_metadata fmt m"
  by (simp add: saved_metadata_def write_metadata_def write_playmat_def card_ref_isEmpty_def no_card_def)

subsection \<open>Plans\<close>

lemma qm_eqI:
  assumes "qm_ok m" and "qm_ok m'" and "map_of m = map_of m'"
  shows "m = (m' :: ('k::linorder, 'v) qmap)"
  using assms
proof (induction m arbitrary: m')
  case Nil
  then show ?case by (cases m') (auto simp: fun_eq_iff split: if_splits)
next
  case (Cons p m)
  obtain a b where p: "p = (a, b)" by (cases p)
  have mem: "x \<in> set (p # m) \<longleftrightarrow> x \<in> set m'" for x
    using map_of_qm_mem [OF Cons.prems(1)] map_of_qm_mem [OF Cons.prems(2)] Cons.prems(3) by (cases x) metis
  obtain c e n where m': "m' = (c, e) # n" using mem [of p] by (cases m') auto
  have "\<forall>k \<in> fst ` set m. a < k" "\<forall>k \<in> fst ` set n. c < k"
    using Cons.prems(1,2) by (simp_all add: p m' qm_ok_Cons)
  moreover have "c \<in> fst ` set (p # m)" using mem [of "(c, e)"] m' by force
  moreover have "a \<in> fst ` set m'" using mem [of p] p by force
  ultimately have ac: "a = c" using p m' by fastforce
  have be: "b = e" using fun_cong [OF Cons.prems(3), of a] ac by (simp add: p m')
  have ok: "qm_ok m" "qm_ok n" using Cons.prems(1,2) by (simp_all add: p m' qm_ok_Cons)
  have "map_of m a = None" "map_of n a = None"
    using Cons.prems(1,2) ac by (auto simp: p m' qm_ok_Cons intro: map_of_above)
  then have "map_of m = map_of n"
    using Cons.prems(3) ac be by (auto simp: p m' fun_eq_iff split: if_splits) metis
  then have "m = n" by (rule Cons.IH [OF ok])
  with p m' ac be show ?case by simp
qed

lemma merge_plans_ok: "qm_ok m \<Longrightarrow> qm_ok (merge_plans ps m)"
  by (induction ps arbitrary: m) (simp_all add: merge_plans_def)

lemma map_of_merge_plans:
  "list_all (\<lambda>(k, p). plan_name p = k) kps \<Longrightarrow> distinct (map fst kps) \<Longrightarrow>
   map_of (merge_plans (map snd kps) m) = map_of m ++ map_of kps"
proof (induction kps arbitrary: m)
  case (Cons kp kps)
  obtain k p where kp: "kp = (k, p)" by (cases kp)
  have "map_of (merge_plans (map snd kps) (qm_insert k p m)) = (map_of m)(k \<mapsto> p) ++ map_of kps"
    using Cons by (simp add: kp)
  moreover have "map_of kps k = None" using Cons.prems(2) by (simp add: kp map_of_eq_None_iff)
  ultimately show ?case
    using Cons.prems(1) by (auto simp: kp merge_plans_def fun_eq_iff map_add_def split: option.splits)
qed (simp add: merge_plans_def)

lemma qm_ok_distinct: "qm_ok m \<Longrightarrow> distinct (map fst m)"
  by (simp add: qm_ok_def strict_sorted_iff)

text \<open>Loading leaves the plans of the target where they are; only if it has none under another name are
  the plans afterwards those of the document.\<close>

lemma merge_plans_id:
  assumes "qm_ok kps" "list_all (\<lambda>(k, p). plan_name p = k) kps" and "qm_ok m" "fst ` set m \<subseteq> fst ` set kps"
  shows "merge_plans (map snd kps) m = kps"
proof (rule qm_eqI [OF merge_plans_ok [OF assms(3)] assms(1)])
  have "dom (map_of m) \<subseteq> dom (map_of kps)" using assms(4) by (simp add: dom_map_of_conv_image_fst)
  then show "map_of (merge_plans (map snd kps) m) = map_of kps"
    unfolding map_of_merge_plans [OF assms(2) qm_ok_distinct [OF assms(1)]]
    by (auto simp: fun_eq_iff map_add_def dom_def split: option.splits)
qed

subsection \<open>The tree that was read\<close>

lemma within_map [simp]: "nested_within d (map_deck_node f x) = nested_within d x"
  by (induction d x rule: nested_within.induct) (auto simp: deck_node.map(2) list_all_iff)

lemma within_saved [simp]: "nested_within d (saved_node x) = nested_within d x"
  by (induction d x rule: nested_within.induct) (auto simp: list_all_iff)

lemma deck_wf_loaded:
  assumes wf: "deck_wf t" and l: "loaded t' (saved_root (tree_root t))"
  shows "deck_wf t'"
proof -
  let ?ns = "tree_root t"
  have zs: "list_all is_zone ?ns" using wf by (simp add: deck_wf_def)
  have e: "erase (tree_root t') = saved_root ?ns" using l by (simp add: loaded_def)
  have "zone_names_in (tree_root t') = zone_names_in (saved_root ?ns)" "custom_names (tree_root t') = custom_names (saved_root ?ns)"
    using loaded_names [OF l] by simp_all
  moreover have "custom_names (commander_zone cs) = []" for cs
    by (simp add: commander_zone_def)
  ultimately have names: "set (zone_names_in (tree_root t')) \<subseteq> set (zone_names_in ?ns) \<union> {zone_commander}"
      "distinct (zone_names_in (tree_root t'))" "custom_names (tree_root t') = custom_names (plain_boards ?ns)"
    using wf zone_names_plain [OF zs] by (auto simp: saved_root_def zone_names_commander deck_wf_def split: if_splits)
  have "distinct (custom_names (plain_boards ns))" if "distinct (custom_names ns)" for ns :: "nat deck_node list"
    using that custom_names_plain by (induction ns) (auto dest: subsetD)
  then have "distinct (custom_names (tree_root t'))" using wf names(3) by (simp add: deck_wf_def)
  moreover have "set (zone_names_in (tree_root t')) \<inter> set (custom_names (tree_root t')) = {}"
  proof -
    have "zone_commander \<notin> set (custom_names ?ns)" "set (zone_names_in ?ns) \<inter> set (custom_names ?ns) = {}"
      using wf by (auto simp: deck_wf_def reserved_names_def list_all_iff)
    then show ?thesis unfolding names(3) using names(1) custom_names_plain [of ?ns] by blast
  qed
  moreover have "list_all (\<lambda>n. n \<notin> set reserved_names) (custom_names (tree_root t'))"
    using wf names(3) custom_names_plain [of ?ns] by (auto simp: deck_wf_def list_all_iff)
  moreover have "list_all is_zone (erase (tree_root t'))" "list_all (nested_within 2) (erase (tree_root t'))"
    unfolding e using wf by (auto simp: saved_root_def commander_zone_def list_all_iff deck_wf_def numeral_2_eq_2)
  then have "list_all is_zone (tree_root t')" "list_all (nested_within 2) (tree_root t')"
    by (auto simp: erase_def list_all_iff)
  ultimately show ?thesis using l names(2) by (simp add: deck_wf_def loaded_def)
qed

lemma saveable_loaded:
  assumes ok: "deck_saveable fmt td d" and l: "loaded (deck_tree_of d') (saved_root (root_of d))"
    and m: "metadata d' = saved_metadata (metadata d)" and p: "sideboardPlans d' = sideboardPlans d"
  shows "deck_saveable fmt td d'" and "write_deck fmt d' = write_deck fmt d"
proof -
  let ?ns = "root_of d"
  have wf: "deck_wf (deck_tree_of d)" and zs: "list_all is_zone ?ns"
    and com: "list_all (\<lambda>c. 0 < copies c) (getCardNodes [zone_commander] ?ns)"
    using ok by (auto simp: deck_saveable_def deck_wf_def)
  have e: "erase (root_of d') = saved_root ?ns" using l by (simp add: loaded_def)
  let ?r = "regroup (card_copies (getCardNodes [zone_commander] ?ns))"
  have pos: "list_all (\<lambda>c. 0 < copies c) ?r"
    using regroup_elements [of "[]"] by (simp add: regroup_def)
  have sum: "sum_list (map copies (foldl put_copy acc cs)) = sum_list (map copies acc) + int (length cs)" for acc cs
    by (induction cs arbitrary: acc) (simp_all add: sum_put_copy)
  have cards_ok: "list_all card_ok (collectCardsRecursive (plain_boards ?ns))" "list_all card_ok (getCardNodes [zone_commander] ?ns)"
    using collect_split [of card_ok ?ns] ok by (simp_all add: deck_saveable_def)
  have total: "sum_list (map copies ?r) = sum_list (map copies (getCardNodes [zone_commander] ?ns))"
    using sum [of "[]"] length_card_copies [OF cards_ok(2)] by (simp add: regroup_def)
  have plain: "0 \<le> recursiveCount True (plain_boards ?ns)"
    using cards_ok(1) by (auto simp: recursiveCount_collect list_all_iff card_ok_def intro!: sum_list_nonneg)
  have count: "recursiveCount True (root_of d') = recursiveCount True ?ns"
    using arg_cong [OF e, of "recursiveCount True"] count_split [OF zs] total by (simp add: saved_root_def)
  have "copies c \<le> sum_list (map copies ?r)" if "c \<in> set ?r" for c
    using pos that by (intro member_le_sum_list) (auto simp: list_all_iff)
  then have r_ok: "list_all card_ok ?r"
    using pos total count_split [OF zs] plain ok
    by (fastforce simp: list_all_iff card_ok_def deck_saveable_def max_deck_size_def int32_max_def)
  have coll: "collectCardsRecursive (root_of d') = map mark_legal (collectCardsRecursive (plain_boards ?ns)) @ ?r"
  proof -
    have "collectCardsRecursive (map saved_node xs) = map mark_legal (collectCardsRecursive xs)" for xs :: "nat deck_node list"
      by (induction xs) simp_all
    then show ?thesis using arg_cong [OF e, of collectCardsRecursive] by (simp add: saved_root_def)
  qed
  have commanders: "getCardNodes [zone_commander] (root_of d') = ?r"
    using arg_cong [OF e, of "getCardNodes [zone_commander]"]
    by (simp add: saved_root_def getCardNodes_append getCardNodes_plain [OF zs])
  have "metadata_ok fmt td (saved_metadata (metadata d))"
    using ok by (auto simp: deck_saveable_def metadata_ok_def saved_metadata_def card_ref_isEmpty_def no_card_def)
  then show "deck_saveable fmt td d'"
    using ok deck_wf_loaded [OF wf l] coll commanders cards_ok(1) r_ok pos count m p
    by (auto simp: deck_saveable_def list_all_iff card_ok_def)
  have "write_tree (root_of d') = write_tree ?ns"
    using write_tree_erase [of "root_of d'"] write_tree_saved [OF zs com] e by simp
  then show "write_deck fmt d' = write_deck fmt d"
    by (simp add: write_deck_def m p write_metadata_saved)
qed

subsection \<open>The round trip\<close>

lemma saved_root_count:
  assumes "list_all is_zone ns" and "list_all card_ok (collectCardsRecursive ns)"
  shows "recursiveCount True (saved_root ns) = recursiveCount True ns"
proof -
  have sum: "sum_list (map copies (foldl put_copy acc cs)) = sum_list (map copies acc) + int (length cs)" for acc cs
    by (induction cs arbitrary: acc) (simp_all add: sum_put_copy)
  have "sum_list (map copies (regroup (card_copies (getCardNodes [zone_commander] ns))))
      = sum_list (map copies (getCardNodes [zone_commander] ns))"
    using sum [of "[]"] length_card_copies [of "getCardNodes [zone_commander] ns"] collect_split [OF assms(2)]
    by (simp add: regroup_def)
  then show ?thesis using count_split [OF assms(1)] by (simp add: saved_root_def)
qed

lemma load_write_saved:
  assumes ok: "deck_saveable fmt td d" and wf0: "deck_wf (deck_tree_of d0)"
    and plans: "qm_ok (sideboardPlans d0)" "fst ` set (sideboardPlans d0) \<subseteq> fst ` set (sideboardPlans d)"
  shows "deck_saveable fmt td (snd (loadFromXml td (write_deck fmt d) d0))"
    and "write_deck fmt (snd (loadFromXml td (write_deck fmt d) d0)) = write_deck fmt d"
    and "sideboardPlans (snd (loadFromXml td (write_deck fmt d) d0)) = sideboardPlans d"
proof -
  obtain t where t: "loadFromXml td (write_deck fmt d) d0
      = (True, \<lparr>metadata = saved_metadata (metadata d),
                sideboardPlans = merge_plans (map snd (sideboardPlans d)) (sideboardPlans d0),
                deck_tree_of = t, cachedDeckHash = []\<rparr>)" and l: "loaded t (saved_root (root_of d))"
    by (rule load_write [OF ok wf0])
  have m: "merge_plans (map snd (sideboardPlans d)) (sideboardPlans d0) = sideboardPlans d"
    using ok plans by (intro merge_plans_id) (simp_all add: deck_saveable_def)
  show "deck_saveable fmt td (snd (loadFromXml td (write_deck fmt d) d0))"
    and "write_deck fmt (snd (loadFromXml td (write_deck fmt d) d0)) = write_deck fmt d"
    and "sideboardPlans (snd (loadFromXml td (write_deck fmt d) d0)) = sideboardPlans d"
    using saveable_loaded [OF ok, of "snd (loadFromXml td (write_deck fmt d) d0)"] l by (simp_all add: t m)
qed

text \<open>C5: Saving and loading a deck. Loading the document written for a deck succeeds, into whatever
  deck list it is loaded, and gives back the metadata (the placement of a playmat only with its card),
  every zone with its name, nested zones and cards in order, the commanders as one flat zone at the
  end in which neighbouring copies of a printing are counted together, and a running total that is the
  number of copies; the plans of the document are added to those the target had. If the target had no
  plan under another name, the loaded deck is written as the very same document again. (The deck has
  copy numbers between 0 and the limit, commanders at least one, unique zone names, and a playmat
  placement in range that the four printed decimals determine.)\<close>

theorem deck_xml_roundtrip:
  assumes "deck_saveable fmt td d" and "deck_wf (deck_tree_of d0)"
  shows "\<exists>d'. loadFromXml td (write_deck fmt d) d0 = (True, d')
    \<and> metadata d' = saved_metadata (metadata d)
    \<and> erase (root_of d') = saved_root (root_of d)
    \<and> totalCards (deck_tree_of d') = recursiveCount True (root_of d)
    \<and> sideboardPlans d' = merge_plans (map snd (sideboardPlans d)) (sideboardPlans d0)
    \<and> (qm_ok (sideboardPlans d0) \<and> fst ` set (sideboardPlans d0) \<subseteq> fst ` set (sideboardPlans d)
        \<longrightarrow> write_deck fmt d' = write_deck fmt d)"
proof -
  obtain t where t: "loadFromXml td (write_deck fmt d) d0
      = (True, \<lparr>metadata = saved_metadata (metadata d),
                sideboardPlans = merge_plans (map snd (sideboardPlans d)) (sideboardPlans d0),
                deck_tree_of = t, cachedDeckHash = []\<rparr>)" and l: "loaded t (saved_root (root_of d))"
    by (rule load_write [OF assms])
  have "totalCards t = recursiveCount True (root_of d)"
    using l assms(1) by (simp add: loaded_def saved_root_count deck_saveable_def deck_wf_def)
  then show ?thesis using t l load_write_saved(2) [OF assms] by (auto simp: loaded_def)
qed

definition some_deck :: deck_list where
  "some_deck = new_deck\<lparr>
     metadata := new_metadata\<lparr>deck_name := ''Burn'', tags := [''red'', ''aggro''],
                              playmat := \<lparr>playmat_card = \<lparr>ref_name = ''Island'', ref_provider = []\<rparr>, playmat_place = default_params\<rparr>\<rparr>,
     sideboardPlans := [([], \<lparr>plan_name = [], move_list = [\<lparr>moved_card = ''Opt'', start_zone = ''side'', target_zone = ''main''\<rparr>]\<rparr>)],
     deck_tree_of := deck_run
       [AddCard (some_card 1 ''Krark'') zone_commander (- 1), AddCard (some_card 4 ''Shock'') zone_main (- 1),
        AddZone zone_side ''maybe'', AddCard (some_card 2 ''Opt'') ''maybe'' (- 1)] new_tree\<rparr>"

definition fmt_example :: "real \<Rightarrow> string" where
  "fmt_example x = (if x = 1 then ''1.0000'' else if x = 33 / 100 then ''0.3300'' else ''0.0700'')"

definition td_example :: "string \<Rightarrow> real option" where
  "td_example s = (if s = ''1.0000'' then Some 1 else if s = ''0.3300'' then Some (33 / 100)
                   else if s = ''0.0700'' then Some (7 / 100) else None)"

lemma some_deck_saveable: "deck_saveable fmt_example td_example some_deck"
proof -
  have "printable_params fmt_example td_example default_params"
    by (simp add: printable_params_def fmt_example_def td_example_def default_params_def)
  then have m: "metadata_ok fmt_example td_example (metadata some_deck)"
    by (simp add: metadata_ok_def some_deck_def new_deck_def new_metadata_def)
  have wf: "deck_wf (deck_tree_of some_deck)"
    by (simp add: some_deck_def deck_run_wf deck_wf_new del: deck_run_Cons)
  have c: "list_all card_ok (collectCardsRecursive (root_of some_deck))" by code_simp
  have z: "list_all (\<lambda>c. 0 < copies c) (getCardNodes [zone_commander] (root_of some_deck))" by code_simp
  have n: "recursiveCount True (root_of some_deck) \<le> max_deck_size" by code_simp
  show ?thesis using m wf c z n by (simp add: deck_saveable_def) (simp add: some_deck_def new_deck_def qm_ok_def)
qed

theorem deck_xml_roundtrip_witness:
  "\<exists>d'. loadFromXml td_example (write_deck fmt_example some_deck) new_deck = (True, d')
    \<and> erase (root_of d') = saved_root (root_of some_deck) \<and> totalCards (deck_tree_of d') = 7
    \<and> write_deck fmt_example d' = write_deck fmt_example some_deck"
proof -
  have "deck_wf (deck_tree_of new_deck)" by (simp add: new_deck_def deck_wf_new)
  moreover have "recursiveCount True (root_of some_deck) = 7" by code_simp
  moreover have "sideboardPlans new_deck = []" by (simp add: new_deck_def)
  ultimately show ?thesis using deck_xml_roundtrip [OF some_deck_saveable, of new_deck] by auto
qed

end
