(* ===== verification/DeckHistory.thy ===== *)
theory DeckHistory
  imports DeckRoundTrip
begin

text \<open>
  Undo and redo of the deck editor: \<open>deck_list_history_manager.cpp\<close> with the loops of
  \<open>DeckStateManager::undo\<close>, \<open>redo\<close>, \<open>modifyDeck\<close> and \<open>requestHistorySave\<close>. A stack has its top at the
  head of the list. The manager sees the deck through \<open>createMemento\<close> and \<open>restoreMemento\<close> only.
\<close>

section \<open>Definitions\<close>

record 'm memento =
  content :: 'm
  reason :: string

record 'm history =
  undoStack :: "'m memento list"
  redoStack :: "'m memento list"

definition new_history :: "'m history" where
  "new_history = \<lparr>undoStack = [], redoStack = []\<rparr>"

definition history_save :: "'m memento \<Rightarrow> 'm history \<Rightarrow> 'm history" where
  "history_save m h = \<lparr>undoStack = m # undoStack h, redoStack = []\<rparr>"

definition history_clear :: "'m history \<Rightarrow> 'm history" where
  "history_clear h = \<lparr>undoStack = [], redoStack = []\<rparr>"

text \<open>
  \<open>restoreAndSwap(source, target, deck)\<close>, for decks whose memento content is made by \<open>create\<close> and put
  back by \<open>restore\<close>.
\<close>

definition restoreAndSwap ::
  "('d \<Rightarrow> 'm) \<Rightarrow> ('m \<Rightarrow> 'd \<Rightarrow> 'd) \<Rightarrow> 'm memento list \<Rightarrow> 'm memento list \<Rightarrow> 'd
     \<Rightarrow> 'm memento list \<times> 'm memento list \<times> 'd" where
  "restoreAndSwap create restore source target deck =
     (case source of
        [] \<Rightarrow> (source, target, deck)
      | m # rest \<Rightarrow> (rest, \<lparr>content = create deck, reason = reason m\<rparr> # target, restore (content m) deck))"

definition history_undo :: "('d \<Rightarrow> 'm) \<Rightarrow> ('m \<Rightarrow> 'd \<Rightarrow> 'd) \<Rightarrow> 'm history \<times> 'd \<Rightarrow> 'm history \<times> 'd" where
  "history_undo create restore s =
     (case restoreAndSwap create restore (undoStack (fst s)) (redoStack (fst s)) (snd s) of
        (u, r, d) \<Rightarrow> (\<lparr>undoStack = u, redoStack = r\<rparr>, d))"

definition history_redo :: "('d \<Rightarrow> 'm) \<Rightarrow> ('m \<Rightarrow> 'd \<Rightarrow> 'd) \<Rightarrow> 'm history \<times> 'd \<Rightarrow> 'm history \<times> 'd" where
  "history_redo create restore s =
     (case restoreAndSwap create restore (redoStack (fst s)) (undoStack (fst s)) (snd s) of
        (r, u, d) \<Rightarrow> (\<lparr>undoStack = u, redoStack = r\<rparr>, d))"

text \<open>The loops over a number of steps skip the steps for which the stack is empty.\<close>

definition undo_steps :: "('d \<Rightarrow> 'm) \<Rightarrow> ('m \<Rightarrow> 'd \<Rightarrow> 'd) \<Rightarrow> nat \<Rightarrow> 'm history \<times> 'd \<Rightarrow> 'm history \<times> 'd" where
  "undo_steps create restore n =
     (\<lambda>s. if undoStack (fst s) = [] then s
           else ((\<lambda>s. if undoStack (fst s) = [] then s else history_undo create restore s) ^^ n) s)"

definition redo_steps :: "('d \<Rightarrow> 'm) \<Rightarrow> ('m \<Rightarrow> 'd \<Rightarrow> 'd) \<Rightarrow> nat \<Rightarrow> 'm history \<times> 'd \<Rightarrow> 'm history \<times> 'd" where
  "redo_steps create restore n =
     (\<lambda>s. if redoStack (fst s) = [] then s
           else ((\<lambda>s. if redoStack (fst s) = [] then s else history_redo create restore s) ^^ n) s)"

text \<open>\<open>modifyDeck\<close>: the memento is made before the operation and kept only if that succeeded.\<close>

definition modifyDeck ::
  "('d \<Rightarrow> 'm) \<Rightarrow> string \<Rightarrow> ('d \<Rightarrow> bool \<times> 'd) \<Rightarrow> 'm history \<times> 'd \<Rightarrow> bool \<times> 'm history \<times> 'd" where
  "modifyDeck create why operation s =
     (let m = \<lparr>content = create (snd s), reason = why\<rparr>
      in case operation (snd s) of
           (ok, d) \<Rightarrow> (ok, if ok then history_save m (fst s) else fst s, d))"

definition requestHistorySave :: "('d \<Rightarrow> 'm) \<Rightarrow> string \<Rightarrow> 'm history \<times> 'd \<Rightarrow> 'm history \<times> 'd" where
  "requestHistorySave create why s = (history_save \<lparr>content = create (snd s), reason = why\<rparr> (fst s), snd s)"

definition deck_memento :: "(real \<Rightarrow> string) \<Rightarrow> deck_list \<Rightarrow> tokens" where
  "deck_memento fmt d = write_deck fmt d"

definition deck_restore :: "(string \<Rightarrow> real option) \<Rightarrow> tokens \<Rightarrow> deck_list \<Rightarrow> deck_list" where
  "deck_restore td ts d = snd (loadFromXml td ts (cleanList False d))"

section \<open>The interface of mementos\<close>

text \<open>
  What the history needs of \<open>createMemento\<close> and \<open>restoreMemento\<close>: a deck put back is again one that
  can be saved, and it is saved as the same content.
\<close>

locale memento_store =
  fixes create :: "'d \<Rightarrow> 'm"
    and restore :: "'m \<Rightarrow> 'd \<Rightarrow> 'd"
    and good :: "'d \<Rightarrow> bool"
  assumes restore_good: "good d \<Longrightarrow> good e \<Longrightarrow> good (restore (create d) e)"
    and create_restore: "good d \<Longrightarrow> good e \<Longrightarrow> create (restore (create d) e) = create d"
begin

definition stored :: "'m memento \<Rightarrow> bool" where
  "stored m \<longleftrightarrow> (\<exists>d. good d \<and> content m = create d)"

definition ok :: "'m history \<times> 'd \<Rightarrow> bool" where
  "ok s \<longleftrightarrow> good (snd s) \<and> list_all stored (undoStack (fst s)) \<and> list_all stored (redoStack (fst s))"

text \<open>All states, the oldest first; the deck itself stands between the two stacks.\<close>

definition timeline :: "'m history \<times> 'd \<Rightarrow> 'm list" where
  "timeline s = rev (map content (undoStack (fst s))) @ create (snd s) # map content (redoStack (fst s))"

text \<open>What led from each state to the next.\<close>

definition reasons :: "'m history \<times> 'd \<Rightarrow> string list" where
  "reasons s = rev (map reason (undoStack (fst s))) @ map reason (redoStack (fst s))"

lemma undo_one:
  assumes "ok s" and "undoStack (fst s) \<noteq> []"
  shows "ok (history_undo create restore s)" and "timeline (history_undo create restore s) = timeline s"
    and "reasons (history_undo create restore s) = reasons s"
    and "length (undoStack (fst (history_undo create restore s))) = length (undoStack (fst s)) - 1"
    and "length (redoStack (fst (history_undo create restore s))) = length (redoStack (fst s)) + 1"
proof -
  obtain m rest where u: "undoStack (fst s) = m # rest" using assms(2) by (cases "undoStack (fst s)") auto
  obtain d where d: "good d" "content m = create d" using assms(1) u by (auto simp: ok_def stored_def)
  show "ok (history_undo create restore s)" "timeline (history_undo create restore s) = timeline s"
    "reasons (history_undo create restore s) = reasons s"
    "length (undoStack (fst (history_undo create restore s))) = length (undoStack (fst s)) - 1"
    "length (redoStack (fst (history_undo create restore s))) = length (redoStack (fst s)) + 1"
    using assms(1) d
    by (auto simp: history_undo_def restoreAndSwap_def u ok_def timeline_def reasons_def stored_def restore_good create_restore)
qed

lemma redo_one:
  assumes "ok s" and "redoStack (fst s) \<noteq> []"
  shows "ok (history_redo create restore s)" and "timeline (history_redo create restore s) = timeline s"
    and "reasons (history_redo create restore s) = reasons s"
    and "length (redoStack (fst (history_redo create restore s))) = length (redoStack (fst s)) - 1"
    and "length (undoStack (fst (history_redo create restore s))) = length (undoStack (fst s)) + 1"
proof -
  obtain m rest where u: "redoStack (fst s) = m # rest" using assms(2) by (cases "redoStack (fst s)") auto
  obtain d where d: "good d" "content m = create d" using assms(1) u by (auto simp: ok_def stored_def)
  show "ok (history_redo create restore s)" "timeline (history_redo create restore s) = timeline s"
    "reasons (history_redo create restore s) = reasons s"
    "length (redoStack (fst (history_redo create restore s))) = length (redoStack (fst s)) - 1"
    "length (undoStack (fst (history_redo create restore s))) = length (undoStack (fst s)) + 1"
    using assms(1) d
    by (auto simp: history_redo_def restoreAndSwap_def u ok_def timeline_def reasons_def stored_def restore_good create_restore)
qed

lemma undo_loop:
  defines "step \<equiv> \<lambda>s. if undoStack (fst s) = [] then s else history_undo create restore s"
  assumes "ok s"
  shows "ok ((step ^^ n) s) \<and> timeline ((step ^^ n) s) = timeline s \<and> reasons ((step ^^ n) s) = reasons s
    \<and> length (undoStack (fst ((step ^^ n) s))) = length (undoStack (fst s)) - n"
proof (induction n)
  case (Suc n)
  then show ?case using undo_one [of "(step ^^ n) s"] by (cases "undoStack (fst ((step ^^ n) s)) = []") (simp_all add: step_def)
qed (simp add: assms)

lemma redo_loop:
  defines "step \<equiv> \<lambda>s. if redoStack (fst s) = [] then s else history_redo create restore s"
  assumes "ok s"
  shows "ok ((step ^^ n) s) \<and> timeline ((step ^^ n) s) = timeline s \<and> reasons ((step ^^ n) s) = reasons s
    \<and> length (redoStack (fst ((step ^^ n) s))) = length (redoStack (fst s)) - n"
proof (induction n)
  case (Suc n)
  then show ?case using redo_one [of "(step ^^ n) s"] by (cases "redoStack (fst ((step ^^ n) s)) = []") (simp_all add: step_def)
qed (simp add: assms)

lemma undo_steps_timeline:
  "ok s \<Longrightarrow> ok (undo_steps create restore n s) \<and> timeline (undo_steps create restore n s) = timeline s
    \<and> reasons (undo_steps create restore n s) = reasons s
    \<and> length (undoStack (fst (undo_steps create restore n s))) = length (undoStack (fst s)) - n"
  using undo_loop [of s n] by (simp add: undo_steps_def)

lemma redo_steps_timeline:
  "ok s \<Longrightarrow> ok (redo_steps create restore n s) \<and> timeline (redo_steps create restore n s) = timeline s
    \<and> reasons (redo_steps create restore n s) = reasons s
    \<and> length (redoStack (fst (redo_steps create restore n s))) = length (redoStack (fst s)) - n"
  using redo_loop [of s n] by (simp add: redo_steps_def)

text \<open>The position in the timeline is the number of states that can be undone.\<close>

lemma length_timeline: "length (timeline s) = length (undoStack (fst s)) + 1 + length (redoStack (fst s))"
  by (simp add: timeline_def)

lemma present: "create (snd s) = timeline s ! length (undoStack (fst s))"
  by (simp add: timeline_def nth_append)

lemma undo_redo_back:
  assumes s: "ok s" and n: "n \<le> length (undoStack (fst s))"
  shows "create (snd (redo_steps create restore n (undo_steps create restore n s))) = create (snd s)"
proof -
  let ?u = "undo_steps create restore n s"
  let ?r = "redo_steps create restore n ?u"
  note u = undo_steps_timeline [OF s, of n]
  then have r: "timeline ?r = timeline s" "length (redoStack (fst ?r)) = length (redoStack (fst ?u)) - n"
    using redo_steps_timeline [of ?u n] by simp_all
  have "length (undoStack (fst ?r)) = length (undoStack (fst s))"
    using length_timeline [of s] length_timeline [of ?u] length_timeline [of ?r] u r n by simp
  then show ?thesis using present [of ?r] present [of s] r(1) by simp
qed

lemma modify_timeline:
  assumes "ok s" and "operation (snd s) = (True, d)" and "good d"
  shows "ok (snd (modifyDeck create why operation s))"
    and "timeline (snd (modifyDeck create why operation s))
         = take (length (undoStack (fst s)) + 1) (timeline s) @ [create d]"
  using assms by (auto simp: modifyDeck_def Let_def ok_def timeline_def history_save_def stored_def)

end

section \<open>Deck lists as mementos\<close>

text \<open>A deck that can be saved and whose plans have the names \<open>ks\<close>.\<close>

definition deck_good :: "(real \<Rightarrow> string) \<Rightarrow> (string \<Rightarrow> real option) \<Rightarrow> string list \<Rightarrow> deck_list \<Rightarrow> bool" where
  "deck_good fmt td ks d \<longleftrightarrow> deck_saveable fmt td d \<and> map fst (sideboardPlans d) = ks"

lemma deck_restore_good:
  assumes "deck_good fmt td ks d" and "deck_good fmt td ks e"
  shows "deck_good fmt td ks (deck_restore td (deck_memento fmt d) e)"
    and "deck_memento fmt (deck_restore td (deck_memento fmt d) e) = deck_memento fmt d"
proof -
  let ?e = "cleanList False e"
  have d: "deck_saveable fmt td d" using assms(1) by (simp add: deck_good_def)
  have plans: "sideboardPlans ?e = sideboardPlans e" by (simp add: cleanList_def refreshDeckHash_def)
  have e: "deck_wf (deck_tree_of ?e)" "qm_ok (sideboardPlans ?e)"
    using assms(2) by (auto simp: plans deck_good_def deck_saveable_def)
      (simp add: cleanList_def refreshDeckHash_def slim_ops_wf(2))
  have "fst ` set (sideboardPlans ?e) \<subseteq> fst ` set (sideboardPlans d)"
    using assms by (simp add: plans deck_good_def) (metis list.set_map order_refl)
  note saved = load_write_saved [OF d e this]
  show "deck_good fmt td ks (deck_restore td (deck_memento fmt d) e)"
    using saved assms(1) by (simp add: deck_good_def deck_restore_def deck_memento_def)
  show "deck_memento fmt (deck_restore td (deck_memento fmt d) e) = deck_memento fmt d"
    using saved by (simp add: deck_restore_def deck_memento_def)
qed

interpretation deck: memento_store "deck_memento fmt" "deck_restore td" "deck_good fmt td ks" for fmt td ks
  by unfold_locales (rule deck_restore_good; assumption)+

definition history_ok ::
  "(real \<Rightarrow> string) \<Rightarrow> (string \<Rightarrow> real option) \<Rightarrow> string list \<Rightarrow> tokens history \<times> deck_list \<Rightarrow> bool" where
  "history_ok fmt td ks s \<longleftrightarrow>
     deck_good fmt td ks (snd s)
     \<and> (\<forall>m \<in> set (undoStack (fst s) @ redoStack (fst s)). \<exists>d. deck_good fmt td ks d \<and> content m = write_deck fmt d)"

definition deck_timeline :: "(real \<Rightarrow> string) \<Rightarrow> tokens history \<times> deck_list \<Rightarrow> tokens list" where
  "deck_timeline fmt s =
     rev (map content (undoStack (fst s))) @ write_deck fmt (snd s) # map content (redoStack (fst s))"

text \<open>The reason of each change, from the oldest to the last.\<close>

definition history_reasons :: "'m history \<times> 'd \<Rightarrow> string list" where
  "history_reasons s = rev (map reason (undoStack (fst s))) @ map reason (redoStack (fst s))"

lemma history_ok_iff: "history_ok fmt td ks s \<longleftrightarrow> deck.ok fmt td ks s"
  by (auto simp: history_ok_def deck.ok_def deck.stored_def deck_memento_def list_all_iff)

lemma deck_timeline_eq: "deck_timeline fmt s = deck.timeline fmt s"
  by (simp add: deck_timeline_def deck.timeline_def deck_memento_def)

lemma history_reasons_eq: "history_reasons s = deck.reasons s"
  by (simp add: history_reasons_def deck.reasons_def)

text \<open>C9: Let the deck and all stored states be decks that can be saved, with sideboard plans of the
  same names. Then undo and redo walk along one timeline. The saved forms of all states, from the
  oldest that can be undone to the last that can be redone with the deck itself between them, and
  the reasons of the changes between them are not changed by undoing or redoing any number of
  steps: undoing moves the deck that many places back and redoing forward, stopping at the ends; and
  undoing some steps and redoing them gives a deck that is saved exactly as before.\<close>

theorem undo_redo_timeline:
  assumes "history_ok fmt td ks s"
  shows "deck_timeline fmt (undo_steps (deck_memento fmt) (deck_restore td) n s) = deck_timeline fmt s
    \<and> history_reasons (undo_steps (deck_memento fmt) (deck_restore td) n s) = history_reasons s
    \<and> length (undoStack (fst (undo_steps (deck_memento fmt) (deck_restore td) n s))) = length (undoStack (fst s)) - n
    \<and> history_reasons (redo_steps (deck_memento fmt) (deck_restore td) n s) = history_reasons s
    \<and> deck_timeline fmt (redo_steps (deck_memento fmt) (deck_restore td) n s) = deck_timeline fmt s
    \<and> length (redoStack (fst (redo_steps (deck_memento fmt) (deck_restore td) n s))) = length (redoStack (fst s)) - n
    \<and> (n \<le> length (undoStack (fst s)) \<longrightarrow>
        write_deck fmt (snd (redo_steps (deck_memento fmt) (deck_restore td) n
          (undo_steps (deck_memento fmt) (deck_restore td) n s))) = write_deck fmt (snd s))"
  using deck.undo_steps_timeline [of fmt td ks s n] deck.redo_steps_timeline [of fmt td ks s n]
    deck.undo_redo_back [of fmt td ks s n] assms
  by (simp add: history_ok_iff deck_timeline_eq history_reasons_eq deck_memento_def)

definition empty_some_deck :: deck_list where
  "empty_some_deck = some_deck\<lparr>deck_tree_of := new_tree\<rparr>"

lemma empty_some_deck_saveable: "deck_saveable fmt_example td_example empty_some_deck"
  using some_deck_saveable
  by (simp add: deck_saveable_def empty_some_deck_def deck_wf_new) (simp add: new_tree_def max_deck_size_def)

definition some_history :: "tokens history \<times> deck_list" where
  "some_history = (\<lparr>undoStack = [\<lparr>content = write_deck fmt_example empty_some_deck, reason = ''Added cards''\<rparr>],
                    redoStack = []\<rparr>, some_deck)"

theorem undo_redo_timeline_witness:
  "deck_timeline fmt_example (undo_steps (deck_memento fmt_example) (deck_restore td_example) 1 some_history)
     = [write_deck fmt_example empty_some_deck, write_deck fmt_example some_deck]
   \<and> length (undoStack (fst (undo_steps (deck_memento fmt_example) (deck_restore td_example) 1 some_history))) = 0
   \<and> write_deck fmt_example (snd (redo_steps (deck_memento fmt_example) (deck_restore td_example) 1
       (undo_steps (deck_memento fmt_example) (deck_restore td_example) 1 some_history))) = write_deck fmt_example some_deck"
proof -
  have "map fst (sideboardPlans empty_some_deck) = [[]]" "map fst (sideboardPlans some_deck) = [[]]"
    by (simp_all add: empty_some_deck_def some_deck_def)
  then have good: "deck_good fmt_example td_example [[]] some_deck" "deck_good fmt_example td_example [[]] empty_some_deck"
    using some_deck_saveable empty_some_deck_saveable by (simp_all add: deck_good_def)
  then have "history_ok fmt_example td_example [[]] some_history"
    by (auto simp: history_ok_def some_history_def)
  moreover have "deck_timeline fmt_example some_history = [write_deck fmt_example empty_some_deck, write_deck fmt_example some_deck]"
    "length (undoStack (fst some_history)) = 1" "snd some_history = some_deck"
    by (simp_all add: deck_timeline_def some_history_def)
  ultimately show ?thesis using undo_redo_timeline [of fmt_example td_example "[[]]" some_history 1] by simp
qed

text \<open>
  Where the plan names differ, undoing is not exact: restoring a memento clears the cards and the
  metadata but not the plans, so a plan made after the memento survives.
\<close>

lemma restore_keeps_newer_plan:
  assumes "deck_saveable fmt td d" and "deck_wf (deck_tree_of e)" and "qm_ok (sideboardPlans e)"
    and "map_of (sideboardPlans d) k = None" and "map_of (sideboardPlans e) k = Some p"
  shows "map_of (sideboardPlans (deck_restore td (deck_memento fmt d) e)) k = Some p"
proof -
  have e: "deck_wf (deck_tree_of (cleanList False e))" "sideboardPlans (cleanList False e) = sideboardPlans e"
    using slim_ops_wf(2) [OF assms(2), of False] by (simp_all add: cleanList_def refreshDeckHash_def)
  obtain t where "loadFromXml td (write_deck fmt d) (cleanList False e)
      = (True, \<lparr>metadata = saved_metadata (metadata d),
                sideboardPlans = merge_plans (map snd (sideboardPlans d)) (sideboardPlans e),
                deck_tree_of = t, cachedDeckHash = []\<rparr>)"
    using load_write [OF assms(1) e(1)] unfolding e(2) by metis
  moreover have "list_all (\<lambda>(k, p). plan_name p = k) (sideboardPlans d)" "distinct (map fst (sideboardPlans d))"
    using assms(1) by (simp_all add: deck_saveable_def qm_ok_distinct)
  ultimately show ?thesis
    using assms(4,5) by (simp add: deck_restore_def deck_memento_def map_of_merge_plans map_add_def)
qed

end
