(* ===== verification/Candidates.thy ===== *)
theory Candidates
  imports Demand "HOL-Library.Sublist"
begin

text \<open>
  Bounded enumeration of payment proposals, the first part of
  \<open>tricerules-core/src/engine/payment/candidates.rs\<close>: \<open>combinations\<close>, \<open>product\<close> and
  \<open>phyrexian_choices\<close>. All three push into an output vector and stop as soon as it holds
  \<open>PROPOSAL_LIMIT\<close> entries. The lemmas show that this early stop is exactly truncation: the first
  256 entries of the complete enumeration, in its order. From that follow soundness at every size
  and completeness up to the limit; for Phyrexian symbols both are stated against the validator
  that the announcement itself runs.
\<close>

section \<open>Enumerations that stop at a limit\<close>

definition proposal_limit :: nat where
  "proposal_limit = 256"

text \<open>
  \<open>chunk\<close> is one step of such an enumeration: what is produced next, cut at the limit.
\<close>

definition chunk :: "'a list \<Rightarrow> 'a list \<Rightarrow> 'a list" where
  "chunk out xs = take proposal_limit (out @ xs)"

lemma proposal_limit_pos [simp]: "0 < proposal_limit"
  by (simp add: proposal_limit_def)

lemma chunk_length [simp]: "length (chunk out xs) \<le> proposal_limit"
  by (simp add: chunk_def)

lemma chunk_chunk [simp]: "chunk (chunk out xs) ys = chunk out (xs @ ys)"
proof -
  have "take n (take n (out @ xs) @ ys) = take n (out @ xs @ ys)" for n
    by (cases "n \<le> length (out @ xs)") (simp_all add: min_def)
  then show ?thesis by (simp add: chunk_def)
qed

lemma chunk_Nil: "length out \<le> proposal_limit \<Longrightarrow> chunk out [] = out"
  by (simp add: chunk_def)

lemma chunk_full: "length out = proposal_limit \<Longrightarrow> chunk out xs = out"
  by (simp add: chunk_def)

lemma chunk_full': "proposal_limit \<le> length (chunk out xs) \<Longrightarrow> chunk out (xs @ ys) = chunk out xs"
  by (simp add: chunk_def)

lemma chunk_snoc: "length out < proposal_limit \<Longrightarrow> chunk out [x] = out @ [x]"
  by (simp add: chunk_def)

lemma chunk_from_Nil: "chunk [] xs = take proposal_limit xs"
  by (simp add: chunk_def)

section \<open>Combinations\<close>

text \<open>
  \<open>visit\<close> and its loop. A \<open>for\<close> loop over \<open>start..items.len()\<close> is the recursion of
  \<open>visit_loop\<close> on the index; \<open>chosen.push\<close> before and \<open>chosen.pop\<close> after the recursive call make
  \<open>chosen\<close> an argument.
\<close>

function (sequential) visit :: "'a list \<Rightarrow> nat \<Rightarrow> nat \<Rightarrow> nat \<Rightarrow> 'a list \<Rightarrow> 'a list list \<Rightarrow> 'a list list"
  and visit_loop :: "'a list \<Rightarrow> nat \<Rightarrow> nat \<Rightarrow> nat \<Rightarrow> 'a list \<Rightarrow> 'a list list \<Rightarrow> 'a list list" where
  "visit items start lo hi chosen out =
     (if proposal_limit \<le> length out then out
      else let out = (if lo \<le> length chosen then out @ [chosen] else out)
           in if length chosen = hi then out
              else visit_loop items start lo hi chosen out)"
| "visit_loop items index lo hi chosen out =
     (if length items \<le> index then out
      else if length chosen + length items - index < lo then out
      else let out = visit items (Suc index) lo hi (chosen @ [items ! index]) out
           in if proposal_limit \<le> length out then out
              else visit_loop items (Suc index) lo hi chosen out)"
  by pat_completeness auto
termination
  by (relation "measure (\<lambda>v. case v of
        Inl (items, start, _) \<Rightarrow> Suc (2 * (length items - start))
      | Inr (items, index, _) \<Rightarrow> 2 * (length items - index))") auto

declare visit.simps [simp del] visit_loop.simps [simp del]

definition combinations :: "'a list \<Rightarrow> nat \<Rightarrow> nat \<Rightarrow> 'a list list" where
  "combinations items lo hi =
     (if lo \<le> hi then visit items 0 lo (min hi (length items)) [] [] else [])"

text \<open>
  The reference enumeration: all subsequences, each before its extensions, smaller indices first.
\<close>

fun lex_subs :: "'a list \<Rightarrow> 'a list list" where
  "lex_subs [] = [[]]"
| "lex_subs (x # xs) = [] # map ((#) x) (lex_subs xs) @ tl (lex_subs xs)"

lemma lex_subs_head: "lex_subs xs = [] # tl (lex_subs xs)"
  by (cases xs) simp_all

lemma set_lex_subs: "set (lex_subs xs) = {ys. subseq ys xs}"
proof (induction xs)
  case (Cons x xs)
  have "set (lex_subs (x # xs)) = insert [] ((#) x ` set (lex_subs xs) \<union> set (tl (lex_subs xs)))"
    by simp
  also have "\<dots> = (#) x ` set (lex_subs xs) \<union> insert [] (set (tl (lex_subs xs)))"
    by blast
  also have "insert [] (set (tl (lex_subs xs))) = set (lex_subs xs)"
    by (subst (2) lex_subs_head) (simp only: list.set)
  also have "(#) x ` set (lex_subs xs) \<union> set (lex_subs xs) = {ys. subseq ys (x # xs)}"
  proof -
    have "subseq ys (x # xs) \<longleftrightarrow> ys \<in> (#) x ` {ys. subseq ys xs} \<union> {ys. subseq ys xs}" for ys
      by (cases ys) (auto intro: subseq_Cons' subseq_order.trans)
    then show ?thesis using Cons.IH by blast
  qed
  finally show ?case .
qed auto

lemma lex_subs_length: "ys \<in> set (lex_subs xs) \<Longrightarrow> length ys \<le> length xs"
  by (simp add: set_lex_subs list_emb_length)

lemma length_lex_subs: "length (lex_subs xs) = 2 ^ length xs"
proof (induction xs)
  case (Cons x xs)
  have "length (lex_subs xs) \<noteq> 0" by (subst lex_subs_head) simp
  then show ?case using Cons by simp
qed simp

lemma distinct_lex_subs: "distinct xs \<Longrightarrow> distinct (lex_subs xs)"
proof (induction xs)
  case (Cons x xs)
  have d: "distinct ([] # tl (lex_subs xs))" using Cons lex_subs_head [of xs] by simp
  have "x # ys \<notin> set (lex_subs xs)" for ys
    using Cons.prems by (auto simp: set_lex_subs dest: list_emb_set)
  moreover have "set (tl (lex_subs xs)) \<subseteq> set (lex_subs xs)"
    by (metis lex_subs_head set_subset_Cons)
  ultimately show ?case
    using d Cons by (auto simp: distinct_map)
qed simp

text \<open>The entries a call adds, on the rest of the items.\<close>

definition between :: "nat \<Rightarrow> nat \<Rightarrow> 'a list list \<Rightarrow> 'a list list" where
  "between lo hi = filter (\<lambda>s. lo \<le> length s \<and> length s \<le> hi)"

lemma between_simps [simp]:
  "between lo hi [] = []"
  "between lo hi (s # ss) = (if lo \<le> length s \<and> length s \<le> hi then s # between lo hi ss else between lo hi ss)"
  "between lo hi (ss @ ts) = between lo hi ss @ between lo hi ts"
  by (simp_all add: between_def)

lemma between_none: "(\<And>s. s \<in> set ss \<Longrightarrow> length s < lo \<or> hi < length s) \<Longrightarrow> between lo hi ss = []"
  by (auto simp: between_def filter_empty_conv not_le)

definition rest_of :: "'a list \<Rightarrow> 'a list \<Rightarrow> 'a list list" where
  "rest_of chosen items = map ((@) chosen) (tl (lex_subs items))"

lemma append_Nil_fun: "(@) [] = (\<lambda>xs. xs)"
  by (rule ext) simp

lemma rest_of_Nil [simp]: "rest_of chosen [] = []"
  by (simp add: rest_of_def)

lemma rest_of_Cons: "rest_of chosen (x # xs) = (chosen @ [x]) # rest_of (chosen @ [x]) xs @ rest_of chosen xs"
proof -
  have "map ((@) chosen \<circ> (#) x) (lex_subs xs) = (chosen @ [x]) # map ((@) (chosen @ [x])) (tl (lex_subs xs))"
    by (subst lex_subs_head) simp
  then show ?thesis by (simp add: rest_of_def)
qed

lemma rest_of_length:
  assumes "s \<in> set (rest_of chosen items)"
  shows "length chosen < length s \<and> length s \<le> length chosen + length items"
proof -
  obtain t where t: "s = chosen @ t" "t \<in> set (tl (lex_subs items))"
    using assms by (auto simp: rest_of_def)
  have "t \<in> set (lex_subs items)" using t(2) lex_subs_head [of items] by (metis list.set_intros(2))
  then have len: "length t \<le> length items" by (rule lex_subs_length)
  have "t \<noteq> []"
  proof -
    have "[] \<notin> set (tl (lex_subs xs))" for xs :: "'a list"
      by (induction xs) auto
    then show ?thesis using t(2) by blast
  qed
  then show ?thesis using t(1) len by simp
qed

lemma visit_eq:
  shows "length chosen \<le> hi \<Longrightarrow> length out \<le> proposal_limit \<Longrightarrow>
      visit items start lo hi chosen out =
        chunk out (between lo hi (chosen # rest_of chosen (drop start items)))"
    and "length chosen < hi \<Longrightarrow> length out \<le> proposal_limit \<Longrightarrow>
      visit_loop items start lo hi chosen out = chunk out (between lo hi (rest_of chosen (drop start items)))"
proof (induction items start lo hi chosen out and items start lo hi chosen out
    rule: visit_visit_loop.induct)
  case (1 items start lo hi chosen out)
  show ?case
  proof (cases "proposal_limit \<le> length out")
    case True
    then have "length out = proposal_limit" using "1.prems" by simp
    then show ?thesis by (simp add: visit.simps chunk_full)
  next
    case False
    define out' where "out' = (if lo \<le> length chosen then out @ [chosen] else out)"
    have out': "out' = chunk out (between lo hi [chosen])"
      using False "1.prems" by (simp add: out'_def chunk_snoc chunk_Nil)
    show ?thesis
    proof (cases "length chosen = hi")
      case True
      have "between lo hi (rest_of chosen (drop start items)) = []"
        by (rule between_none) (use rest_of_length True in fastforce)
      then show ?thesis using False True out' by (simp add: visit.simps out'_def)
    next
      case less: False
      then have "visit_loop items start lo hi chosen out' =
          chunk out' (between lo hi (rest_of chosen (drop start items)))"
        using "1.IH" [OF False refl less] "1.prems" out' by (simp add: out'_def)
      then show ?thesis using False less out' by (simp add: visit.simps out'_def)
    qed
  qed
next
  case (2 items index lo hi chosen out)
  show ?case
  proof (cases "length items \<le> index")
    case True
    then show ?thesis using "2.prems" by (simp add: visit_loop.simps chunk_Nil)
  next
    case False
    then have d: "drop index items = items ! index # drop (Suc index) items"
      by (simp add: Cons_nth_drop_Suc)
    show ?thesis
    proof (cases "length chosen + length items - index < lo")
      case True
      have "between lo hi (rest_of chosen (drop index items)) = []"
        by (rule between_none) (use rest_of_length [of _ chosen "drop index items"] True False in fastforce)
      then show ?thesis using True False "2.prems" by (simp add: visit_loop.simps chunk_Nil)
    next
      case enough: False
      let ?c = "chosen @ [items ! index]"
      define out' where "out' = visit items (Suc index) lo hi ?c out"
      have out': "out' = chunk out (between lo hi (?c # rest_of ?c (drop (Suc index) items)))"
        unfolding out'_def using "2.IH"(1) False enough "2.prems" by simp
      show ?thesis
      proof (cases "proposal_limit \<le> length out'")
        case True
        have "visit_loop items index lo hi chosen out = out'"
          using True False enough by (simp add: visit_loop.simps out'_def)
        also have "\<dots> = chunk out (between lo hi (?c # rest_of ?c (drop (Suc index) items)) @
            between lo hi (rest_of chosen (drop (Suc index) items)))"
          using chunk_full' True out' by metis
        finally show ?thesis by (simp add: d rest_of_Cons)
      next
        case room: False
        have "visit_loop items index lo hi chosen out = visit_loop items (Suc index) lo hi chosen out'"
          using room False enough by (simp add: visit_loop.simps [of items index] out'_def Let_def)
        also have "\<dots> = chunk out' (between lo hi (rest_of chosen (drop (Suc index) items)))"
          using "2.IH"(2) [OF False enough out'_def room] "2.prems" out' by simp
        finally show ?thesis by (simp add: d rest_of_Cons out')
      qed
    qed
  qed
qed

lemma combinations_eq:
  "combinations items lo hi =
     take proposal_limit (filter (\<lambda>s. lo \<le> length s \<and> length s \<le> hi) (lex_subs items))"
proof (cases "lo \<le> hi")
  case True
  let ?hi = "min hi (length items)"
  have "combinations items lo hi = chunk [] (between lo ?hi ([] # rest_of [] items))"
    using True visit_eq(1) [of "[]" ?hi "[]" items 0 lo] by (simp add: combinations_def)
  also have "[] # rest_of [] items = lex_subs items"
    unfolding rest_of_def append_Nil_fun list.map_ident by (rule lex_subs_head [symmetric])
  also have "between lo ?hi (lex_subs items) = between lo hi (lex_subs items)"
    unfolding between_def by (rule filter_cong) (auto dest: lex_subs_length)
  finally show ?thesis by (simp add: chunk_from_Nil between_def)
next
  case False
  then show ?thesis by (auto simp: combinations_def)
qed

section \<open>Products\<close>

text \<open>
  One row is appended per value of the group; \<open>True\<close> says that the loops were left by
  \<open>break 'outer\<close>.
\<close>

fun extend_row :: "'a list \<Rightarrow> 'a list \<Rightarrow> 'a list list \<Rightarrow> 'a list list \<times> bool" where
  "extend_row prefx [] next_rows = (next_rows, False)"
| "extend_row prefx (v # vs) next_rows =
     (let next_rows = next_rows @ [prefx @ [v]]
      in if length next_rows = proposal_limit then (next_rows, True)
         else extend_row prefx vs next_rows)"

fun extend_rows :: "'a list \<Rightarrow> 'a list list \<Rightarrow> 'a list list \<Rightarrow> 'a list list" where
  "extend_rows grp [] next_rows = next_rows"
| "extend_rows grp (p # ps) next_rows =
     (case extend_row p grp next_rows of
        (next_rows, True) \<Rightarrow> next_rows
      | (next_rows, False) \<Rightarrow> extend_rows grp ps next_rows)"

fun product_loop :: "'a list list \<Rightarrow> 'a list list \<Rightarrow> 'a list list" where
  "product_loop [] result = result"
| "product_loop (grp # groups) result = product_loop groups (extend_rows grp result [])"

definition product_rows :: "'a list list \<Rightarrow> 'a list list" where
  "product_rows groups = product_loop groups [[]]"

lemma extend_row_eq:
  "length out < proposal_limit \<Longrightarrow>
   extend_row p vs out = (chunk out (map (\<lambda>v. p @ [v]) vs), proposal_limit \<le> length out + length vs)"
proof (induction p vs out rule: extend_row.induct)
  case (1 p out)
  then show ?case by (simp add: chunk_Nil)
next
  case (2 p v vs out)
  have c: "chunk out (map (\<lambda>v. p @ [v]) (v # vs)) = chunk (out @ [p @ [v]]) (map (\<lambda>v. p @ [v]) vs)"
    by (simp add: chunk_def)
  show ?case
  proof (cases "length (out @ [p @ [v]]) = proposal_limit")
    case True
    then have "proposal_limit \<le> length out + length (v # vs)" by simp
    then show ?thesis using True unfolding c by (simp add: chunk_full)
  next
    case False
    then show ?thesis using 2 unfolding c by (simp add: Let_def)
  qed
qed

lemma extend_rows_eq:
  "length out < proposal_limit \<Longrightarrow>
   extend_rows g ps out = chunk out (concat (map (\<lambda>p. map (\<lambda>v. p @ [v]) g) ps))"
proof (induction g ps out rule: extend_rows.induct)
  case (1 g out)
  then show ?case by (simp add: chunk_Nil)
next
  case (2 g p ps out)
  let ?new = "map (\<lambda>v. p @ [v]) g"
  show ?case
  proof (cases "proposal_limit \<le> length out + length g")
    case True
    then have "proposal_limit \<le> length (chunk out ?new)" by (simp add: chunk_def)
    then show ?thesis using True "2.prems" by (simp add: extend_row_eq chunk_full')
  next
    case False
    then have e: "extend_row p g out = (chunk out ?new, False)"
      using "2.prems" by (simp add: extend_row_eq)
    have "length (chunk out ?new) < proposal_limit" using False by (simp add: chunk_def)
    then show ?thesis using "2.IH" [OF e [symmetric] refl] e by simp
  qed
qed

text \<open>Cutting the prefixes at the limit loses none of the first 256 rows.\<close>

lemma take_concat_map_take:
  "(\<And>x. x \<in> set xs \<Longrightarrow> f x \<noteq> []) \<Longrightarrow> take n (concat (map f (take n xs))) = take n (concat (map f xs))"
proof (induction xs arbitrary: n)
  case (Cons x xs)
  show ?case
  proof (cases n)
    case (Suc m)
    let ?k = "Suc m - length (f x)"
    have k: "?k \<le> m" using Cons.prems [of x] by (cases "f x") auto
    have cut: "take ?k zs = take ?k (take m zs)" for zs :: "'b list"
      using k by (simp add: min_def)
    have "take m (concat (map f (take m xs))) = take m (concat (map f xs))"
      by (rule Cons.IH) (use Cons.prems in auto)
    then have "take ?k (concat (map f (take m xs))) = take ?k (concat (map f xs))"
      using cut by metis
    then show ?thesis using Suc by simp
  qed simp
qed simp

lemma product_lists_append_group:
  "product_lists (gs @ [g]) = concat (map (\<lambda>p. map (\<lambda>v. p @ [v]) g) (product_lists gs))"
proof (induction gs)
  case Nil
  show ?case by (induction g) auto
next
  case (Cons h gs)
  have "concat (map (\<lambda>x. map ((#) x) (concat (map (\<lambda>p. map (\<lambda>v. p @ [v]) g) ps))) h) =
      concat (map (\<lambda>p. map (\<lambda>v. p @ [v]) g) (concat (map (\<lambda>x. map ((#) x) ps) h)))" for ps :: "'a list list"
    by (induction h) (simp_all add: map_concat comp_def)
  then show ?case using Cons by simp
qed

lemma product_loop_eq:
  "product_loop gs (take proposal_limit (product_lists done_gs)) =
     take proposal_limit (product_lists (done_gs @ gs))"
proof (induction gs arbitrary: done_gs)
  case (Cons g gs)
  let ?rows = "\<lambda>ps. concat (map (\<lambda>p. map (\<lambda>v. p @ [v]) g) ps)"
  have "extend_rows g (take proposal_limit (product_lists done_gs)) [] =
      take proposal_limit (?rows (take proposal_limit (product_lists done_gs)))"
    by (simp add: extend_rows_eq chunk_from_Nil)
  also have "\<dots> = take proposal_limit (?rows (product_lists done_gs))"
  proof (cases "g = []")
    case True
    then have "?rows ps = []" for ps by (induction ps) auto
    then show ?thesis by metis
  next
    case False
    then show ?thesis by (intro take_concat_map_take) simp
  qed
  also have "\<dots> = take proposal_limit (product_lists (done_gs @ [g]))"
    by (simp add: product_lists_append_group)
  finally show ?case using Cons [of "done_gs @ [g]"] by simp
qed simp

lemma product_rows_eq: "product_rows groups = take proposal_limit (product_lists groups)"
  using product_loop_eq [of groups "[]"] by (simp add: product_rows_def proposal_limit_def)

lemma set_product_lists_iff: "row \<in> set (product_lists groups) \<longleftrightarrow> list_all2 (\<lambda>v g. v \<in> set g) row groups"
  by (induction groups arbitrary: row) (auto simp: list_all2_Cons2)

lemma length_product_lists: "length (product_lists groups) = prod_list (map length groups)"
  by (induction groups) (simp_all add: length_concat comp_def sum_list_triv)

lemma product_rows_sound: "row \<in> set (product_rows groups) \<Longrightarrow> list_all2 (\<lambda>v g. v \<in> set g) row groups"
  unfolding product_rows_eq set_product_lists_iff [symmetric] by (rule in_set_takeD)

lemma product_rows_complete:
  "prod_list (map length groups) \<le> proposal_limit \<Longrightarrow> product_rows groups = product_lists groups"
  by (simp add: product_rows_eq length_product_lists)

section \<open>Phyrexian symbols\<close>

text \<open>
  For every Phyrexian symbol the variants of paying it: mana first, life last. The declared colour
  is 0 for a plain symbol and one more than the pool index for a hybrid one.
\<close>

fun pip_colors :: "mana_symbol \<Rightarrow> int list option" where
  "pip_colors (Phyrexian _) = Some [0]"
| "pip_colors (HybridPhyrexian a b) = Some [int (color_index a) + 1, int (color_index b) + 1]"
| "pip_colors _ = None"

definition pip_variants :: "nat \<times> mana_symbol \<Rightarrow> flex_pip_payment list option" where
  "pip_variants = (\<lambda>(index, pip).
     (case pip_colors pip of
        None \<Rightarrow> None
      | Some cs \<Rightarrow>
          Some (map (\<lambda>c. \<lparr>pip_index = index, pay_life = False, mana_color = c\<rparr>) cs
            @ [\<lparr>pip_index = index, pay_life = True, mana_color = 0\<rparr>])))"

definition phyrexian_choices :: "mana_cost \<Rightarrow> flex_pip_payment list list" where
  "phyrexian_choices cost = product_rows (List.map_filter pip_variants (List.enumerate 0 cost))"

lemma pip_of_color_index [simp]: "pip_of_mana_color (int (color_index c) + 1) = Some c"
  by (cases c) (simp_all add: pip_of_mana_color_def)

lemma pip_variants_branches:
  assumes "pip_variants (i, pip) = Some vs"
  shows "select_branch pip ` set vs = Inr ` {b. branch_ok pip (Some b)}"
    and "v \<in> set vs \<Longrightarrow> pip_index v = i"
proof -
  show "select_branch pip ` set vs = Inr ` {b. branch_ok pip (Some b)}"
    using assms by (cases pip) (auto simp: pip_variants_def select_branch_def branch_ok_def image_iff)
  show "v \<in> set vs \<Longrightarrow> pip_index v = i"
    using assms by (auto simp: pip_variants_def split: option.splits)
qed

lemma pip_variants_None: "pip_variants (i, pip) = None \<Longrightarrow> branch_ok pip b \<longleftrightarrow> b = None"
  by (cases pip) (auto simp: pip_variants_def branch_ok_def)

lemma pip_variants_Some: "pip_variants (i, pip) = Some vs \<Longrightarrow> \<not> branch_ok pip None"
  by (cases pip) (auto simp: pip_variants_def branch_ok_def)

lemma select_step:
  assumes "pip_variants (length pre, pip) = Some vs" "v \<in> set vs" "select_branch pip v = Inr b"
    and "length presel = length pre"
  shows "select_loop (pre @ pip # pips) (v # row) (presel @ None # rest) =
    select_loop (pre @ pip # pips) row (presel @ Some b # rest)"
proof -
  have "pip_index v = length pre" using pip_variants_branches(2) [OF assms(1,2)] .
  then show ?thesis using assms(3,4) by (simp add: nth_append list_update_append)
qed

lemma list_all2_Cons_image:
  "(\<lambda>bs. Inr (presel @ bs)) ` {bs. list_all2 P (x # xs) bs} =
   (\<Union>b \<in> {b. P x b}. (\<lambda>bs. Inr ((presel @ [b]) @ bs)) ` {bs. list_all2 P xs bs})"
  by (auto simp: list_all2_Cons1 image_iff)

text \<open>The variants of one symbol lead the loop through exactly its admissible branches.\<close>

lemma select_variants:
  assumes vs: "pip_variants (length pre, pip) = Some vs" and len: "length presel = length pre"
  shows "(\<Union>v \<in> set vs. (\<lambda>row. select_loop (pre @ pip # pips) (v # row) (presel @ None # rest)) ` rows) =
    (\<Union>b \<in> {b. branch_ok pip b}. (\<lambda>row. select_loop (pre @ pip # pips) row (presel @ b # rest)) ` rows)"
    (is "(\<Union>v \<in> set vs. ?first v) = (\<Union>b \<in> _. ?next b)")
proof -
  have first: "?first v = ?next (Some b)" if "v \<in> set vs" "select_branch pip v = Inr b" for v b
    using select_step [OF vs that len] by simp
  have branches: "select_branch pip ` set vs = Inr ` {b. branch_ok pip (Some b)}"
    using pip_variants_branches(1) [OF vs] .
  show ?thesis
  proof (intro equalityI UN_least)
    fix v assume v: "v \<in> set vs"
    then obtain b where b: "select_branch pip v = Inr b" "branch_ok pip (Some b)"
      using branches by blast
    show "?first v \<subseteq> (\<Union>b \<in> {b. branch_ok pip b}. ?next b)"
      unfolding first [OF v b(1)] by (rule UN_upper) (simp add: b(2))
  next
    fix s assume s: "s \<in> {b. branch_ok pip b}"
    then obtain b where b: "s = Some b" using pip_variants_Some [OF vs] by (cases s) auto
    then have "Inr b \<in> select_branch pip ` set vs" using s branches by blast
    then obtain v where v: "v \<in> set vs" "select_branch pip v = Inr b" by (metis imageE)
    show "?next s \<subseteq> (\<Union>v \<in> set vs. ?first v)"
      unfolding b first [OF v, symmetric] by (rule UN_upper [OF v(1)])
  qed
qed

lemma select_loop_proposals:
  "length presel = length pre \<Longrightarrow>
   (\<lambda>row. select_loop (pre @ pips) row (presel @ replicate (length pips) None)) `
       set (product_lists (List.map_filter pip_variants (List.enumerate (length pre) pips))) =
   (\<lambda>bs. Inr (presel @ bs)) ` {bs. list_all2 branch_ok pips bs}"
proof (induction pips arbitrary: pre presel)
  case (Cons pip pips)
  let ?gs = "List.map_filter pip_variants (List.enumerate (Suc (length pre)) pips)"
  let ?none = "replicate (length pips) None"
  have IH: "(\<lambda>row. select_loop (pre @ pip # pips) row (presel @ b # ?none)) ` set (product_lists ?gs) =
      (\<lambda>bs. Inr ((presel @ [b]) @ bs)) ` {bs. list_all2 branch_ok pips bs}" for b
    using Cons.IH [of "presel @ [b]" "pre @ [pip]"] Cons.prems by simp
  show ?case
  proof (cases "pip_variants (length pre, pip)")
    case None
    then have "{b. branch_ok pip b} = {None}" using pip_variants_None by auto
    then show ?thesis
      using IH [of None] None unfolding list_all2_Cons_image by (simp add: map_filter_simps)
  next
    case (Some vs)
    have "(\<lambda>row. select_loop (pre @ pip # pips) row (presel @ None # ?none)) ` set (product_lists (vs # ?gs)) =
        (\<Union>v \<in> set vs. (\<lambda>row. select_loop (pre @ pip # pips) (v # row) (presel @ None # ?none)) `
          set (product_lists ?gs))"
      by (simp add: image_UN image_image)
    also note select_variants [OF Some Cons.prems]
    finally show ?thesis
      unfolding list_all2_Cons_image IH by (simp add: map_filter_simps Some)
  qed
qed (auto simp: map_filter_simps)

lemma default_loop_complete: "list_all2 branch_ok pips bs \<Longrightarrow> default_loop pips bs = Inr bs"
  by (induction pips bs rule: list_all2_induct)
    (auto simp: branch_ok_def split: mana_symbol.splits option.splits)

lemma validated_proposals:
  "validated_phyrexian_choices cost ` set (product_lists (List.map_filter pip_variants (List.enumerate 0 cost))) =
   Inr ` {bs. list_all2 branch_ok cost bs}"
proof -
  define next_sel where "next_sel = (\<lambda>r. case r of Inl e \<Rightarrow> Inl e | Inr sel \<Rightarrow> default_loop cost sel)"
  have eq: "validated_phyrexian_choices cost = next_sel \<circ> (\<lambda>row. select_loop cost row (replicate (length cost) None))"
    by (simp add: fun_eq_iff validated_phyrexian_choices_def next_sel_def)
  have "validated_phyrexian_choices cost ` set (product_lists (List.map_filter pip_variants (List.enumerate 0 cost))) =
      next_sel ` (\<lambda>bs. Inr bs) ` {bs. list_all2 branch_ok cost bs}"
    unfolding eq image_comp [symmetric] using select_loop_proposals [of "[]" "[]" cost] by simp
  also have "\<dots> = Inr ` {bs. list_all2 branch_ok cost bs}"
    by (simp add: image_image next_sel_def default_loop_complete)
  finally show ?thesis .
qed

section \<open>Properties\<close>

text \<open>C34: The bounded enumerations stop exactly at the limit and lose nothing before it:
  \<open>combinations\<close> returns the first 256 of all subsequences of an admissible length, in the order
  that lists every selection before its extensions, and \<open>product\<close> returns the first 256 rows of
  the complete product, although it cuts the prefixes at every group.\<close>

theorem bounded_enumeration:
  "combinations items lo hi =
     take proposal_limit (filter (\<lambda>s. lo \<le> length s \<and> length s \<le> hi) (lex_subs items))
   \<and> set (lex_subs items) = {s. subseq s items}
   \<and> product_rows groups = take proposal_limit (product_lists groups)
   \<and> set (product_lists groups) = {row. list_all2 (\<lambda>v grp. v \<in> set grp) row groups}"
  using combinations_eq set_lex_subs product_rows_eq set_product_lists_iff by blast

text \<open>The number of ways to pay the Phyrexian symbols of a cost.\<close>

definition ways_to_pay :: "mana_cost \<Rightarrow> nat" where
  "ways_to_pay cost = prod_list (map (\<lambda>pip. case pip of
     Phyrexian _ \<Rightarrow> 2 | HybridPhyrexian _ _ \<Rightarrow> 3 | _ \<Rightarrow> 1) cost)"

lemma length_variants:
  "prod_list (map length (List.map_filter pip_variants (List.enumerate n cost))) = ways_to_pay cost"
proof (induction cost arbitrary: n)
  case (Cons pip cost)
  then show ?case
    by (cases pip) (simp_all add: map_filter_simps pip_variants_def ways_to_pay_def)
qed (simp add: map_filter_simps ways_to_pay_def)

text \<open>C35: Every proposal of \<open>phyrexian_choices\<close> passes the validation of the announcement and
  settles every Phyrexian symbol of the cost; there are at most 256 of them, and when the cost has
  no more than 256 ways of being paid, the proposals lead to exactly all of them, so the search for
  an affordable announcement overlooks none.\<close>

theorem phyrexian_choices_announce:
  "validated_phyrexian_choices cost ` set (phyrexian_choices cost) \<subseteq>
     Inr ` {phs. list_all2 branch_ok cost phs}
   \<and> length (phyrexian_choices cost) \<le> 256
   \<and> (ways_to_pay cost \<le> 256 \<longrightarrow>
       validated_phyrexian_choices cost ` set (phyrexian_choices cost) =
       Inr ` {phs. list_all2 branch_ok cost phs})"
proof (intro conjI impI)
  let ?gs = "List.map_filter pip_variants (List.enumerate 0 cost)"
  have "set (phyrexian_choices cost) \<subseteq> set (product_lists ?gs)"
    by (auto simp: phyrexian_choices_def product_rows_eq dest: in_set_takeD)
  then show "validated_phyrexian_choices cost ` set (phyrexian_choices cost) \<subseteq>
      Inr ` {phs. list_all2 branch_ok cost phs}"
    using validated_proposals [of cost] by blast
  show "length (phyrexian_choices cost) \<le> 256"
    by (simp add: phyrexian_choices_def product_rows_eq proposal_limit_def)
  show "validated_phyrexian_choices cost ` set (phyrexian_choices cost) =
      Inr ` {phs. list_all2 branch_ok cost phs}" if "ways_to_pay cost \<le> 256"
    using that validated_proposals [of cost]
    by (simp add: phyrexian_choices_def product_rows_complete length_variants proposal_limit_def)
qed

theorem phyrexian_choices_announce_witness:
  "ways_to_pay [Phyrexian PipB, Generic 1, HybridPhyrexian PipG PipW] = 6 \<and>
   Inr [Some PayLife, None, Some (PayMana PipW)] \<in>
     validated_phyrexian_choices [Phyrexian PipB, Generic 1, HybridPhyrexian PipG PipW] `
       set (phyrexian_choices [Phyrexian PipB, Generic 1, HybridPhyrexian PipG PipW])"
proof -
  have w: "ways_to_pay [Phyrexian PipB, Generic 1, HybridPhyrexian PipG PipW] = 6"
    by (simp add: ways_to_pay_def)
  have "list_all2 branch_ok [Phyrexian PipB, Generic 1, HybridPhyrexian PipG PipW]
      [Some PayLife, None, Some (PayMana PipW)]"
    by (simp add: branch_ok_def)
  then show ?thesis
    using w phyrexian_choices_announce [of "[Phyrexian PipB, Generic 1, HybridPhyrexian PipG PipW]"]
    by simp
qed

end
