(* ===== verification/CostChoices.thy ===== *)
theory CostChoices
  imports Candidates
begin

text \<open>
  Proposals for the additional costs of a spell or ability, the second part of
  \<open>tricerules-core/src/engine/payment/candidates.rs\<close>: \<open>cost_selections\<close> with its nested
  \<open>distribute\<close>. The records are the fields of the protocol messages that the function reads;
  32-bit and 64-bit fields are natural numbers here because they are only compared, copied and
  subtracted below their value. \<open>legal_selection\<close> states declaratively what one choice allows;
  the theorem says that every proposal is legal for every choice, that there are at most 256, and
  that none is missing when the raw enumerations fit the limit.
\<close>

section \<open>Messages\<close>

record cost_object_ref =
  object_id :: nat
  zone_change_generation :: nat

record cost_object_candidate =
  cand_object :: "cost_object_ref option"
  cand_contribution :: int

record counter_removal_option =
  option_id :: nat
  available_count :: nat

record counter_removal_choices =
  removal_source :: "cost_object_ref option"
  removal_count :: nat
  removal_options :: "counter_removal_option list"

record group_candidate =
  grp_object :: "cost_object_ref option"
  grp_options :: "counter_removal_option list"

record group_choices =
  required_count :: nat
  grp_candidates :: "group_candidate list"

record legal_cost_choice =
  cost_index :: nat
  cost_zone :: int
  candidate_ids :: "nat list"
  choice_min :: nat
  choice_max :: nat
  cost_kind :: int
  candidate_objects :: "cost_object_candidate list"
  counter_removal :: "counter_removal_choices option"
  aggregate_minimum :: "nat option"
  counter_removal_group :: "group_choices option"

text \<open>The values of the enumerations that the code compares with.\<close>

definition zone_hand :: int where "zone_hand = 1"
definition zone_graveyard :: int where "zone_graveyard = 3"
definition kind_sacrifice :: int where "kind_sacrifice = 2"
definition kind_blight :: int where "kind_blight = 5"

record removal_contribution =
  contr_object :: "cost_object_ref option"
  contr_option :: nat
  contr_count :: nat

datatype selection =
    HandIndex nat
  | PermanentId nat
  | GraveyardObjects "cost_object_ref list"
  | BattlefieldObjects "cost_object_ref list"
  | CounterRemoval cost_object_ref nat
  | CounterRemovalGroup "removal_contribution list"

record cost_selection =
  sel_cost_index :: nat
  sel_selection :: selection

section \<open>Counters taken from several objects\<close>

text \<open>A \<open>for\<close> loop whose body extends the output and which returns once the output is full.\<close>

fun until_full :: "('c \<Rightarrow> 'o list \<Rightarrow> 'o list) \<Rightarrow> 'c list \<Rightarrow> 'o list \<Rightarrow> 'o list \<times> bool" where
  "until_full body [] out = (out, False)"
| "until_full body (c # cs) out =
     (let out = body c out
      in if proposal_limit \<le> length out then (out, True) else until_full body cs out)"

type_synonym counter_row = "cost_object_ref option \<times> nat \<times> nat"

definition contribute :: "counter_row \<Rightarrow> nat \<Rightarrow> removal_contribution" where
  "contribute row c = \<lparr>contr_object = fst row, contr_option = fst (snd row), contr_count = c\<rparr>"

text \<open>The index into the rows is the part of the list that is left.\<close>

fun distribute ::
  "counter_row list \<Rightarrow> nat \<Rightarrow> removal_contribution list \<Rightarrow> selection list \<Rightarrow> selection list" where
  "distribute rows remaining selected out =
     (if proposal_limit \<le> length out then out
      else if remaining = 0 then out @ [CounterRemovalGroup selected]
      else (case rows of
              [] \<Rightarrow> out
            | row # rest \<Rightarrow>
                (case until_full
                        (\<lambda>c out. distribute rest (remaining - c) (selected @ [contribute row c]) out)
                        (rev [1..<Suc (min (snd (snd row)) remaining)]) out of
                   (out, True) \<Rightarrow> out
                 | (out, False) \<Rightarrow> distribute rest remaining selected out)))"

declare distribute.simps [simp del]

text \<open>All distributions, in the order in which they are found.\<close>

fun distributions :: "counter_row list \<Rightarrow> nat \<Rightarrow> removal_contribution list list" where
  "distributions rows 0 = [[]]"
| "distributions [] (Suc r) = []"
| "distributions (row # rest) (Suc r) =
     concat (map (\<lambda>c. map ((#) (contribute row c)) (distributions rest (Suc r - c)))
       (rev [1..<Suc (min (snd (snd row)) (Suc r))]))
     @ distributions rest (Suc r)"

lemma until_full_eq:
  assumes "\<And>c out. c \<in> set cs \<Longrightarrow> length out \<le> proposal_limit \<Longrightarrow> body c out = chunk out (new c)"
    and "length out < proposal_limit"
  shows "until_full body cs out =
    (chunk out (concat (map new cs)), cs \<noteq> [] \<and> proposal_limit \<le> length (chunk out (concat (map new cs))))"
  using assms
proof (induction cs arbitrary: out)
  case (Cons c cs)
  have b: "body c out = chunk out (new c)" using Cons.prems by simp
  show ?case
  proof (cases "proposal_limit \<le> length (chunk out (new c))")
    case True
    then show ?thesis by (simp add: b chunk_full')
  next
    case False
    have "until_full body cs (chunk out (new c)) =
        (chunk (chunk out (new c)) (concat (map new cs)),
         cs \<noteq> [] \<and> proposal_limit \<le> length (chunk (chunk out (new c)) (concat (map new cs))))"
      by (rule Cons.IH) (use Cons.prems False in auto)
    then show ?thesis using False by (cases cs) (simp_all add: b)
  qed
qed (simp add: chunk_Nil)

lemma distribute_Cons:
  assumes "length out < proposal_limit" "remaining \<noteq> 0"
    and "until_full (\<lambda>c out. distribute rest (remaining - c) (selected @ [contribute row c]) out)
      (rev [1..<Suc (min (snd (snd row)) remaining)]) out = (out', full)"
  shows "distribute (row # rest) remaining selected out =
    (if full then out' else distribute rest remaining selected out')"
  using assms by (subst distribute.simps) (simp del: upt_Suc)

lemma distribute_eq:
  "length out \<le> proposal_limit \<Longrightarrow>
   distribute rows remaining selected out =
     chunk out (map (\<lambda>t. CounterRemovalGroup (selected @ t)) (distributions rows remaining))"
proof (induction rows arbitrary: remaining selected out)
  case Nil
  then show ?case
    by (cases remaining) (auto simp: distribute.simps chunk_full chunk_Nil chunk_snoc)
next
  case (Cons row rest)
  show ?case
  proof (cases "proposal_limit \<le> length out")
    case True
    then show ?thesis using Cons.prems by (simp add: distribute.simps chunk_full)
  next
    case False
    show ?thesis
    proof (cases remaining)
      case 0
      then show ?thesis using False by (simp add: distribute.simps chunk_snoc)
    next
      case (Suc r)
      let ?cs = "rev [1..<Suc (min (snd (snd row)) remaining)]"
      let ?new = "\<lambda>c. map (\<lambda>t. CounterRemovalGroup (selected @ t))
          (map ((#) (contribute row c)) (distributions rest (remaining - c)))"
      let ?body = "\<lambda>c out. distribute rest (remaining - c) (selected @ [contribute row c]) out"
      have b: "?body c out = chunk out (?new c)" if "length out \<le> proposal_limit" for c out
        using Cons.IH [OF that] by (simp add: comp_def)
      define out' where "out' = chunk out (concat (map ?new ?cs))"
      define full where "full \<longleftrightarrow> ?cs \<noteq> [] \<and> proposal_limit \<le> length out'"
      have u: "until_full ?body ?cs out = (out', full)"
        unfolding out'_def full_def by (rule until_full_eq) (use b False in auto)
      have all: "map (\<lambda>t. CounterRemovalGroup (selected @ t)) (distributions (row # rest) remaining) =
          concat (map ?new ?cs) @ map (\<lambda>t. CounterRemovalGroup (selected @ t)) (distributions rest remaining)"
        by (simp add: Suc map_concat comp_def del: upt_Suc)
      have step: "distribute (row # rest) remaining selected out =
          (if full then out' else distribute rest remaining selected out')"
        by (rule distribute_Cons [OF _ _ u]) (use False Suc in auto)
      show ?thesis
      proof (cases full)
        case True
        then have "proposal_limit \<le> length out'" by (simp add: full_def)
        then show ?thesis unfolding all step out'_def using True by (simp add: chunk_full' del: upt_Suc)
      next
        case go: False
        have "distribute rest remaining selected out' =
            chunk out' (map (\<lambda>t. CounterRemovalGroup (selected @ t)) (distributions rest remaining))"
          by (rule Cons.IH) (simp add: out'_def)
        then show ?thesis unfolding all step using go by (simp add: out'_def del: upt_Suc)
      qed
    qed
  qed
qed

text \<open>A distribution gives every row an amount up to what it has, and together they make up what
  is required; rows that give nothing do not appear.\<close>

definition contributions :: "nat list \<Rightarrow> counter_row list \<Rightarrow> removal_contribution list" where
  "contributions taken rows =
     concat (map2 (\<lambda>c row. if c = 0 then [] else [contribute row c]) taken rows)"

definition admissible :: "nat list \<Rightarrow> counter_row list \<Rightarrow> nat \<Rightarrow> bool" where
  "admissible taken rows r \<longleftrightarrow>
     list_all2 (\<lambda>c row. c \<le> snd (snd row)) taken rows \<and> sum_list taken = r"

lemma contributions_Cons [simp]:
  "contributions (c # cs) (row # rows) = (if c = 0 then [] else [contribute row c]) @ contributions cs rows"
  by (simp add: contributions_def)

lemma contributions_zero: "sum_list taken = 0 \<Longrightarrow> contributions taken rows = []"
  by (induction taken rows rule: list_induct2') (auto simp: contributions_def)

lemma admissible_zero: "admissible (replicate (length rows) 0) rows 0"
  by (induction rows) (auto simp: admissible_def)

lemma admissible_Cons:
  "admissible (c # cs) (row # rows) r \<longleftrightarrow> c \<le> snd (snd row) \<and> c \<le> r \<and> admissible cs rows (r - c)"
  by (auto simp: admissible_def)

lemma set_distributions:
  "set (distributions rows r) = {contributions taken rows | taken. admissible taken rows r}"
proof (induction rows r rule: distributions.induct)
  case (1 rows)
  have "contributions taken rows = []" if "admissible taken rows 0" for taken
    using that by (simp add: admissible_def contributions_zero)
  then show ?case using admissible_zero [of rows] by force
next
  case (2 r)
  then show ?case by (auto simp: admissible_def)
next
  case (3 row rest r)
  let ?cs = "rev [1..<Suc (min (snd (snd row)) (Suc r))]"
  define A where "A c = {contributions cs rest | cs. admissible cs rest (Suc r - c)}" for c
  define B where "B c = {contributions (c # cs) (row # rest) | cs. admissible cs rest (Suc r - c)}" for c
  have "{contributions taken (row # rest) | taken. admissible taken (row # rest) (Suc r)} =
      (\<Union>c \<in> {c. c \<le> snd (snd row) \<and> c \<le> Suc r}. B c)"
  proof (intro set_eqI iffI)
    fix t assume "t \<in> {contributions taken (row # rest) | taken. admissible taken (row # rest) (Suc r)}"
    then obtain taken where t: "t = contributions taken (row # rest)" "admissible taken (row # rest) (Suc r)"
      by (elim CollectE exE conjE)
    then obtain c cs where "taken = c # cs" by (cases taken) (auto simp: admissible_def)
    then show "t \<in> (\<Union>c \<in> {c. c \<le> snd (snd row) \<and> c \<le> Suc r}. B c)"
      unfolding B_def using t admissible_Cons by (intro UN_I [of c]) (simp, metis (mono_tags, lifting) mem_Collect_eq)
  next
    fix t assume "t \<in> (\<Union>c \<in> {c. c \<le> snd (snd row) \<and> c \<le> Suc r}. B c)"
    then obtain c cs where "c \<le> snd (snd row)" "c \<le> Suc r" "t = contributions (c # cs) (row # rest)"
        "admissible cs rest (Suc r - c)"
      unfolding B_def by (elim UN_E CollectE exE conjE) (rule that, assumption+)
    then show "t \<in> {contributions taken (row # rest) | taken. admissible taken (row # rest) (Suc r)}"
      by (intro CollectI exI [of _ "c # cs"] conjI) (simp_all add: admissible_Cons)
  qed
  also have "{c. c \<le> snd (snd row) \<and> c \<le> Suc r} = insert 0 (set ?cs)"
    by auto
  also have "(\<Union>c \<in> insert 0 (set ?cs). B c) = A 0 \<union> (\<Union>c \<in> set ?cs. B c)"
    by (simp only: UN_insert) (simp add: A_def B_def)
  also have "(\<Union>c \<in> set ?cs. B c) = (\<Union>c \<in> set ?cs. (#) (contribute row c) ` A c)"
  proof (rule SUP_cong [OF refl])
    fix c assume "c \<in> set ?cs"
    then have "c \<noteq> 0" by auto
    then show "B c = (#) (contribute row c) ` A c" by (auto simp: A_def B_def)
  qed
  finally have all: "{contributions taken (row # rest) | taken. admissible taken (row # rest) (Suc r)} =
      A 0 \<union> (\<Union>c \<in> set ?cs. (#) (contribute row c) ` A c)" .
  have IH: "set (distributions rest (Suc r - c)) = A c" if "c \<in> set ?cs" for c
    using "3.IH"(1) [OF that] by (simp only: A_def)
  have IH0: "set (distributions rest (Suc r)) = A 0"
    using "3.IH"(2) by (simp only: A_def diff_zero)
  have "set (distributions (row # rest) (Suc r)) =
      (\<Union>c \<in> set ?cs. (#) (contribute row c) ` set (distributions rest (Suc r - c))) \<union> set (distributions rest (Suc r))"
    by (simp only: distributions.simps set_append set_concat set_map image_image)
  also have "(\<Union>c \<in> set ?cs. (#) (contribute row c) ` set (distributions rest (Suc r - c))) =
      (\<Union>c \<in> set ?cs. (#) (contribute row c) ` A c)"
    by (rule SUP_cong [OF refl]) (simp only: IH)
  also have "\<dots> \<union> set (distributions rest (Suc r)) =
      {contributions taken (row # rest) | taken. admissible taken (row # rest) (Suc r)}"
    unfolding all IH0 by (rule Un_commute)
  finally show ?case .
qed

section \<open>The proposals of one choice\<close>

definition counter_rows :: "group_choices \<Rightarrow> counter_row list" where
  "counter_rows g = concat (map (\<lambda>candidate.
     map (\<lambda>opt. (grp_object candidate, option_id opt, available_count opt)) (grp_options candidate))
     (grp_candidates g))"

definition removal_sources :: "legal_cost_choice \<Rightarrow> counter_removal_choices \<Rightarrow> cost_object_ref list" where
  "removal_sources choice counter =
     (case removal_source counter of
        None \<Rightarrow> List.map_filter cand_object (candidate_objects choice)
      | Some src \<Rightarrow> [src])"

definition removal_values :: "legal_cost_choice \<Rightarrow> counter_removal_choices \<Rightarrow> selection list" where
  "removal_values choice counter =
     concat (map (\<lambda>src.
       map (\<lambda>opt. CounterRemoval src (option_id opt))
         (filter (\<lambda>opt. removal_count counter \<le> available_count opt) (removal_options counter)))
       (removal_sources choice counter))"

definition below_minimum :: "legal_cost_choice \<Rightarrow> cost_object_candidate list \<Rightarrow> bool" where
  "below_minimum choice selected =
     (case aggregate_minimum choice of
        None \<Rightarrow> False
      | Some m \<Rightarrow> sum_list (map cand_contribution selected) < int m)"

definition chosen_objects :: "legal_cost_choice \<Rightarrow> cost_object_candidate list \<Rightarrow> selection" where
  "chosen_objects choice selected =
     (let objects = List.map_filter cand_object selected
      in if cost_zone choice = zone_graveyard then GraveyardObjects objects else BattlefieldObjects objects)"

definition choice_values :: "legal_cost_choice \<Rightarrow> selection list" where
  "choice_values choice =
     (case counter_removal choice of
        Some counter \<Rightarrow> removal_values choice counter
      | None \<Rightarrow>
          (case counter_removal_group choice of
             Some g \<Rightarrow> distribute (counter_rows g) (required_count g) [] []
           | None \<Rightarrow>
               if cost_zone choice = zone_hand then map HandIndex (candidate_ids choice)
               else if cost_kind choice = kind_blight
                 \<or> (cost_kind choice = kind_sacrifice \<and> choice_max choice = 1)
               then map PermanentId (candidate_ids choice)
               else map (chosen_objects choice)
                 (filter (\<lambda>selected. \<not> below_minimum choice selected)
                   (combinations (candidate_objects choice) (choice_min choice) (choice_max choice)))))"

definition cost_selections :: "legal_cost_choice list \<Rightarrow> cost_selection list list" where
  "cost_selections choices =
     product_rows (map (\<lambda>choice.
       map (\<lambda>s. \<lparr>sel_cost_index = cost_index choice, sel_selection = s\<rparr>) (choice_values choice)) choices)"

section \<open>What a choice allows\<close>

definition legal_selection :: "legal_cost_choice \<Rightarrow> selection \<Rightarrow> bool" where
  "legal_selection choice s \<longleftrightarrow>
     (case counter_removal choice of
        Some counter \<Rightarrow>
          (\<exists>src opt. s = CounterRemoval src (option_id opt) \<and> opt \<in> set (removal_options counter)
             \<and> removal_count counter \<le> available_count opt
             \<and> (removal_source counter = Some src
                \<or> removal_source counter = None \<and> Some src \<in> cand_object ` set (candidate_objects choice)))
      | None \<Rightarrow>
          (case counter_removal_group choice of
             Some g \<Rightarrow>
               (\<exists>taken. admissible taken (counter_rows g) (required_count g)
                  \<and> s = CounterRemovalGroup (contributions taken (counter_rows g)))
           | None \<Rightarrow>
               if cost_zone choice = zone_hand then s \<in> HandIndex ` set (candidate_ids choice)
               else if cost_kind choice = kind_blight
                 \<or> (cost_kind choice = kind_sacrifice \<and> choice_max choice = 1)
               then s \<in> PermanentId ` set (candidate_ids choice)
               else (\<exists>selected. subseq selected (candidate_objects choice)
                  \<and> choice_min choice \<le> length selected \<and> length selected \<le> choice_max choice
                  \<and> \<not> below_minimum choice selected
                  \<and> s = chosen_objects choice selected)))"

text \<open>How many raw proposals the two bounded enumerations of a choice would produce.\<close>

definition raw_proposals :: "legal_cost_choice \<Rightarrow> nat" where
  "raw_proposals choice =
     (case counter_removal_group choice of
        Some g \<Rightarrow> length (distributions (counter_rows g) (required_count g))
      | None \<Rightarrow> length (filter (\<lambda>s. choice_min choice \<le> length s \<and> length s \<le> choice_max choice)
          (lex_subs (candidate_objects choice))))"

lemma set_map_filter_iff: "y \<in> set (List.map_filter f xs) \<longleftrightarrow> Some y \<in> f ` set xs"
  by (induction xs) (auto simp: map_filter_simps split: option.splits)

lemma set_removal_sources:
  "src \<in> set (removal_sources choice counter) \<longleftrightarrow>
     removal_source counter = Some src
     \<or> removal_source counter = None \<and> Some src \<in> cand_object ` set (candidate_objects choice)"
  by (auto simp: removal_sources_def set_map_filter_iff split: option.splits)

lemma removal_values_legal:
  "counter_removal choice = Some counter \<Longrightarrow>
   s \<in> set (removal_values choice counter) \<longleftrightarrow> legal_selection choice s"
  by (auto simp: legal_selection_def removal_values_def set_removal_sources)

lemma group_values_legal:
  assumes "counter_removal choice = None" "counter_removal_group choice = Some g"
  shows "legal_selection choice s \<longleftrightarrow>
    s \<in> CounterRemovalGroup ` set (distributions (counter_rows g) (required_count g))"
  unfolding set_distributions using assms by (auto simp: legal_selection_def)

lemma combination_values_legal:
  assumes "counter_removal choice = None" "counter_removal_group choice = None"
    and "cost_zone choice \<noteq> zone_hand"
    and "\<not> (cost_kind choice = kind_blight \<or> (cost_kind choice = kind_sacrifice \<and> choice_max choice = 1))"
  shows "legal_selection choice s \<longleftrightarrow>
    s \<in> chosen_objects choice ` {selected. \<not> below_minimum choice selected
      \<and> selected \<in> set (filter (\<lambda>s. choice_min choice \<le> length s \<and> length s \<le> choice_max choice)
          (lex_subs (candidate_objects choice)))}"
  using assms by (auto simp: legal_selection_def set_lex_subs)

lemma choice_values_group:
  "counter_removal choice = None \<Longrightarrow> counter_removal_group choice = Some g \<Longrightarrow>
   choice_values choice =
     map CounterRemovalGroup (take proposal_limit (distributions (counter_rows g) (required_count g)))"
  using distribute_eq [of "[]" "counter_rows g" "required_count g" "[]"]
  by (simp add: choice_values_def chunk_from_Nil take_map)

lemma choice_values_sound: "s \<in> set (choice_values choice) \<Longrightarrow> legal_selection choice s"
proof (cases "counter_removal choice")
  case (Some counter)
  then show "s \<in> set (choice_values choice) \<Longrightarrow> ?thesis"
    by (simp add: choice_values_def removal_values_legal)
next
  case none: None
  assume s: "s \<in> set (choice_values choice)"
  show ?thesis
  proof (cases "counter_removal_group choice")
    case (Some g)
    then show ?thesis
      using s unfolding choice_values_group [OF none Some] group_values_legal [OF none Some]
      by (auto dest: in_set_takeD)
  next
    case None
    note none = none None
    consider "cost_zone choice = zone_hand \<or> cost_kind choice = kind_blight
        \<or> (cost_kind choice = kind_sacrifice \<and> choice_max choice = 1)"
      | "cost_zone choice \<noteq> zone_hand"
        "\<not> (cost_kind choice = kind_blight \<or> (cost_kind choice = kind_sacrifice \<and> choice_max choice = 1))"
      by blast
    then show ?thesis
    proof cases
      case 1
      then show ?thesis using s none by (auto simp: choice_values_def legal_selection_def split: if_splits)
    next
      case 2
      show ?thesis
      proof -
        obtain x where "s = chosen_objects choice x" "\<not> below_minimum choice x"
            "x \<in> set (combinations (candidate_objects choice) (choice_min choice) (choice_max choice))"
          using s none 2 by (auto simp: choice_values_def)
        then show ?thesis
          unfolding combination_values_legal [OF none 2] combinations_eq by (blast dest: in_set_takeD)
      qed
    qed
  qed
qed

lemma choice_values_complete:
  assumes few: "raw_proposals choice \<le> proposal_limit" and legal: "legal_selection choice s"
  shows "s \<in> set (choice_values choice)"
proof (cases "counter_removal choice")
  case (Some counter)
  then show ?thesis using legal by (simp add: choice_values_def removal_values_legal)
next
  case none: None
  show ?thesis
  proof (cases "counter_removal_group choice")
    case (Some g)
    then show ?thesis
      using legal few unfolding choice_values_group [OF none Some] group_values_legal [OF none Some]
      by (simp add: raw_proposals_def)
  next
    case None
    note none = none None
    consider "cost_zone choice = zone_hand \<or> cost_kind choice = kind_blight
        \<or> (cost_kind choice = kind_sacrifice \<and> choice_max choice = 1)"
      | "cost_zone choice \<noteq> zone_hand"
        "\<not> (cost_kind choice = kind_blight \<or> (cost_kind choice = kind_sacrifice \<and> choice_max choice = 1))"
      by blast
    then show ?thesis
    proof cases
      case 1
      then show ?thesis using legal none by (auto simp: choice_values_def legal_selection_def split: if_splits)
    next
      case 2
      show ?thesis
        using legal few none 2 unfolding combination_values_legal [OF none 2]
        by (auto simp: choice_values_def combinations_eq raw_proposals_def)
    qed
  qed
qed

section \<open>Properties\<close>

lemma cost_selections_rows:
  "list_all2 (\<lambda>v grp. v \<in> set grp) row
     (map (\<lambda>choice. map (\<lambda>s. \<lparr>sel_cost_index = cost_index choice, sel_selection = s\<rparr>)
       (choice_values choice)) choices) \<longleftrightarrow>
   list_all2 (\<lambda>sel choice. sel_cost_index sel = cost_index choice
     \<and> sel_selection sel \<in> set (choice_values choice)) row choices"
proof -
  have "sel \<in> set (map (\<lambda>s. \<lparr>sel_cost_index = i, sel_selection = s\<rparr>) vs) \<longleftrightarrow>
      sel_cost_index sel = i \<and> sel_selection sel \<in> set vs" for sel i vs
    by (cases sel) auto
  then show ?thesis by (simp only: list_all2_map2)
qed

text \<open>C14: Every proposal for the additional costs names every cost once, in order, with a
  selection that its choice allows, and there are at most 256 proposals. When neither the raw
  enumeration of any choice nor the number of all combinations exceeds the limit, the proposals are
  exactly the legal announcements, so none is overlooked.\<close>

theorem cost_selections_exact:
  "(\<forall>row \<in> set (cost_selections choices).
      list_all2 (\<lambda>sel choice. sel_cost_index sel = cost_index choice
        \<and> legal_selection choice (sel_selection sel)) row choices)
   \<and> length (cost_selections choices) \<le> 256
   \<and> ((\<forall>choice \<in> set choices. raw_proposals choice \<le> 256)
      \<and> prod_list (map (\<lambda>choice. length (choice_values choice)) choices) \<le> 256 \<longrightarrow>
        set (cost_selections choices) =
        {row. list_all2 (\<lambda>sel choice. sel_cost_index sel = cost_index choice
          \<and> legal_selection choice (sel_selection sel)) row choices})"
proof (intro conjI impI ballI)
  fix row assume "row \<in> set (cost_selections choices)"
  then have "list_all2 (\<lambda>sel choice. sel_cost_index sel = cost_index choice
      \<and> sel_selection sel \<in> set (choice_values choice)) row choices"
    unfolding cost_selections_def by (drule_tac product_rows_sound) (simp only: cost_selections_rows)
  then show "list_all2 (\<lambda>sel choice. sel_cost_index sel = cost_index choice
      \<and> legal_selection choice (sel_selection sel)) row choices"
    by (rule list_all2_mono) (simp add: choice_values_sound)
next
  show "length (cost_selections choices) \<le> 256"
    by (simp add: cost_selections_def product_rows_eq proposal_limit_def)
next
  assume few: "(\<forall>choice \<in> set choices. raw_proposals choice \<le> 256)
    \<and> prod_list (map (\<lambda>choice. length (choice_values choice)) choices) \<le> 256"
  have "set (cost_selections choices) =
      {row. list_all2 (\<lambda>sel choice. sel_cost_index sel = cost_index choice
        \<and> sel_selection sel \<in> set (choice_values choice)) row choices}"
    using few unfolding cost_selections_def
    by (subst product_rows_complete)
      (simp_all add: proposal_limit_def comp_def set_eq_iff set_product_lists_iff cost_selections_rows)
  also have "\<dots> = {row. list_all2 (\<lambda>sel choice. sel_cost_index sel = cost_index choice
      \<and> legal_selection choice (sel_selection sel)) row choices}"
  proof -
    have "s \<in> set (choice_values choice) \<longleftrightarrow> legal_selection choice s" if "choice \<in> set choices" for choice s
      using that few choice_values_sound choice_values_complete
      by (auto simp: proposal_limit_def)
    then show ?thesis by (auto intro: list.rel_mono_strong)
  qed
  finally show "set (cost_selections choices) =
      {row. list_all2 (\<lambda>sel choice. sel_cost_index sel = cost_index choice
        \<and> legal_selection choice (sel_selection sel)) row choices}" .
qed

definition no_choice :: legal_cost_choice where
  "no_choice = \<lparr>cost_index = 0, cost_zone = 2, candidate_ids = [], choice_min = 0, choice_max = 0, cost_kind = 0,
     candidate_objects = [], counter_removal = None, aggregate_minimum = None, counter_removal_group = None\<rparr>"

text \<open>Two counters from two objects that hold three and two, together with one discarded card.\<close>

definition sample_choices :: "legal_cost_choice list" where
  "sample_choices =
     [no_choice\<lparr>cost_index := 4, counter_removal_group := Some
        \<lparr>required_count = 2, grp_candidates =
          [\<lparr>grp_object = None, grp_options = [\<lparr>option_id = 7, available_count = 3\<rparr>, \<lparr>option_id = 8, available_count = 2\<rparr>]\<rparr>]\<rparr>\<rparr>,
      no_choice\<lparr>cost_index := 5, cost_zone := 1, candidate_ids := [10, 11]\<rparr>]"

lemma sample_distributions: "length (distributions [(None, 7, 3), (None, 8, 2)] 2) = 3"
  by (simp add: eval_nat_numeral)

lemma sample_few:
  "\<forall>choice \<in> set sample_choices. raw_proposals choice \<le> 256"
  "prod_list (map (\<lambda>choice. length (choice_values choice)) sample_choices) \<le> 256"
  by (simp_all add: sample_choices_def raw_proposals_def choice_values_group counter_rows_def
      sample_distributions proposal_limit_def no_choice_def)
    (simp_all add: choice_values_def zone_hand_def)

theorem cost_selections_exact_witness:
  "[\<lparr>sel_cost_index = 4, sel_selection = CounterRemovalGroup
       [\<lparr>contr_object = None, contr_option = 7, contr_count = 1\<rparr>, \<lparr>contr_object = None, contr_option = 8, contr_count = 1\<rparr>]\<rparr>,
    \<lparr>sel_cost_index = 5, sel_selection = HandIndex 11\<rparr>] \<in> set (cost_selections sample_choices)"
proof -
  have rows: "counter_rows \<lparr>required_count = 2, grp_candidates =
      [\<lparr>grp_object = None, grp_options = [\<lparr>option_id = 7, available_count = 3\<rparr>, \<lparr>option_id = 8, available_count = 2\<rparr>]\<rparr>]\<rparr>
      = [(None, 7, 3), (None, 8, 2)]" by (simp add: counter_rows_def)
  have "admissible [1, 1] [(None, 7, 3), (None, 8, 2)] 2" by (simp add: admissible_def)
  then have "list_all2 (\<lambda>sel choice. sel_cost_index sel = cost_index choice
      \<and> legal_selection choice (sel_selection sel))
    [\<lparr>sel_cost_index = 4, sel_selection = CounterRemovalGroup
       [\<lparr>contr_object = None, contr_option = 7, contr_count = 1\<rparr>, \<lparr>contr_object = None, contr_option = 8, contr_count = 1\<rparr>]\<rparr>,
     \<lparr>sel_cost_index = 5, sel_selection = HandIndex 11\<rparr>] sample_choices"
    by (auto simp: sample_choices_def no_choice_def legal_selection_def rows zone_hand_def contribute_def
        contributions_def intro!: exI [of _ "[Suc 0, Suc 0]"])
  then show ?thesis using cost_selections_exact [of sample_choices] sample_few by blast
qed

end
