(* ===== verification/LazyBlob.thy ===== *)
theory LazyBlob
  imports Prelude "HOL-Library.Word"
begin

text \<open>
  The serialized form of a card's properties and the reader that queries it in place, from
  \<open>libcockatrice_card/libcockatrice/card/lazy_properties_hash.cpp\<close>. A blob is a list of bytes; a
  \<open>QString\<close> is null or a list of UTF-16 code units, and null compares equal to the empty string;
  a \<open>QHash\<close> is the list of its entries in iteration order, which nothing below depends on. The
  format written by \<open>QDataStream\<close> is the one the source documents: a 32-bit count, then every key
  and value as a 32-bit byte length (all ones for a null string) and big-endian code units.
  Positions are natural numbers: the reader starts at 4 and only moves forward.

  The lemmas show that the reader never leaves the blob, whatever bytes it holds, and that on a
  serialized map it answers exactly what the map would.
\<close>

section \<open>Strings and the byte format\<close>

unbundle bit_operations_syntax

type_synonym byte = "8 word"
type_synonym bytes = "byte list"
type_synonym code_unit = "16 word"

datatype qstring = QNull | QText "code_unit list"

fun units :: "qstring \<Rightarrow> code_unit list" where
  "units QNull = []"
| "units (QText us) = us"

definition u32_be :: "32 word \<Rightarrow> bytes" where
  "u32_be w = [ucast (drop_bit 24 w), ucast (drop_bit 16 w), ucast (drop_bit 8 w), ucast w]"

definition u16_be :: "code_unit \<Rightarrow> bytes" where
  "u16_be w = [ucast (drop_bit 8 w), ucast w]"

definition read_u32 :: "bytes \<Rightarrow> nat \<Rightarrow> 32 word" where
  "read_u32 b p = push_bit 24 (ucast (b ! p)) OR push_bit 16 (ucast (b ! (p + 1)))
     OR push_bit 8 (ucast (b ! (p + 2))) OR ucast (b ! (p + 3))"

definition read_u16 :: "bytes \<Rightarrow> nat \<Rightarrow> code_unit" where
  "read_u16 b p = push_bit 8 (ucast (b ! p)) OR ucast (b ! (p + 1))"

definition null_string_length :: "32 word" where
  "null_string_length = 0xFFFFFFFF"

fun write_string :: "qstring \<Rightarrow> bytes" where
  "write_string QNull = u32_be null_string_length"
| "write_string (QText us) = u32_be (of_nat (2 * length us)) @ concat (map u16_be us)"

type_synonym property_list = "(qstring \<times> qstring) list"

definition write_entries :: "property_list \<Rightarrow> bytes" where
  "write_entries es = concat (map (\<lambda>(k, v). write_string k @ write_string v) es)"

definition serialize :: "property_list \<Rightarrow> bytes" where
  "serialize m = u32_be (of_nat (length m)) @ write_entries m"

lemma length_u32_be [simp]: "length (u32_be w) = 4"
  by (simp add: u32_be_def)

lemma length_u16_be [simp]: "length (u16_be w) = 2"
  by (simp add: u16_be_def)

lemma length_utf16 [simp]: "length (concat (map u16_be us)) = 2 * length us"
  by (induction us) simp_all

lemma length_write_string [simp]: "length (write_string s) = 4 + 2 * length (units s)"
  by (cases s) simp_all

lemma read_u32_be [simp]: "read_u32 (pre @ u32_be w @ post) (length pre) = w"
proof (rule bit_word_eqI)
  fix n assume "n < LENGTH(32)"
  then show "bit (read_u32 (pre @ u32_be w @ post) (length pre)) n = bit w n"
    by (cases "n < 8"; cases "n < 16"; cases "n < 24")
      (auto simp: read_u32_def u32_be_def nth_append bit_simps)
qed

lemma read_u16_be: "read_u16 (pre @ u16_be w @ post) (length pre) = w"
  by (rule bit_word_eqI) (auto simp: read_u16_def u16_be_def nth_append bit_simps)

lemma read_utf16:
  "i < length us \<Longrightarrow> read_u16 (pre @ concat (map u16_be us) @ post) (length pre + 2 * i) = us ! i"
proof (induction us arbitrary: pre i)
  case (Cons u us)
  show ?case
  proof (cases i)
    case 0
    then show ?thesis using read_u16_be [of pre u "concat (map u16_be us) @ post"] by simp
  next
    case (Suc j)
    then show ?thesis using Cons.IH [of j "pre @ u16_be u"] Cons.prems by simp
  qed
qed simp

section \<open>Reading a blob in place\<close>

text \<open>Success, the advanced position and the length; the length is set even when it is refused.\<close>

definition read_blob_length :: "bytes \<Rightarrow> nat \<Rightarrow> bool \<times> nat \<times> nat" where
  "read_blob_length blob p =
     (if length blob < p + 4 then (False, p, 0)
      else let len = read_u32 blob p; p = p + 4
           in if len = null_string_length then (True, p, 0)
              else if of_nat (length blob - p) < len then (False, p, unat len)
              else (True, p, unat len))"

definition blob_key_equals :: "bytes \<Rightarrow> nat \<Rightarrow> nat \<Rightarrow> qstring \<Rightarrow> bool" where
  "blob_key_equals blob p len key \<longleftrightarrow>
     len = unat (of_nat (2 * length (units key)) :: 32 word) \<and>
     list_all (\<lambda>i. units key ! i = read_u16 blob (p + 2 * i)) [0..<length (units key)]"

definition blob_string :: "bytes \<Rightarrow> nat \<Rightarrow> nat \<Rightarrow> qstring" where
  "blob_string blob p len = QText (map (\<lambda>i. read_u16 blob (p + 2 * i)) [0..<len div 2])"

record blob_reader =
  rd_pos :: nat
  rd_remaining :: nat
  rd_valid :: bool

definition new_reader :: "bytes \<Rightarrow> blob_reader" where
  "new_reader blob =
     (if length blob < 4 then \<lparr>rd_pos = 4, rd_remaining = 0, rd_valid = False\<rparr>
      else \<lparr>rd_pos = 4, rd_remaining = unat (read_u32 blob 0), rd_valid = True\<rparr>)"

text \<open>The offsets of the next pair, if there is one: key position and length, value position and
  length.\<close>

type_synonym offsets = "nat \<times> nat \<times> nat \<times> nat"

definition reader_next :: "bytes \<Rightarrow> blob_reader \<Rightarrow> offsets option \<times> blob_reader" where
  "reader_next blob r =
     (if \<not> rd_valid r \<or> rd_remaining r = 0 then (None, r)
      else (case read_blob_length blob (rd_pos r) of
              (False, p, _) \<Rightarrow> (None, r\<lparr>rd_pos := p, rd_valid := False\<rparr>)
            | (True, key_pos, key_len) \<Rightarrow>
                (case read_blob_length blob (key_pos + key_len) of
                   (False, p, _) \<Rightarrow> (None, r\<lparr>rd_pos := p, rd_valid := False\<rparr>)
                 | (True, value_pos, value_len) \<Rightarrow>
                     (Some (key_pos, key_len, value_pos, value_len),
                      r\<lparr>rd_pos := value_pos + value_len, rd_remaining := rd_remaining r - 1\<rparr>))))"

definition entry_count :: "blob_reader \<Rightarrow> nat" where
  "entry_count r = (if rd_valid r then rd_remaining r else 0)"

lemma reader_next_remaining:
  "reader_next blob r = (Some x, r') \<Longrightarrow> rd_remaining r' < rd_remaining r"
  by (auto simp: reader_next_def split: if_splits prod.splits bool.splits)

function blob_value_loop :: "bytes \<Rightarrow> qstring \<Rightarrow> blob_reader \<Rightarrow> qstring" where
  "blob_value_loop blob key r =
     (case reader_next blob r of
        (None, _) \<Rightarrow> QNull
      | (Some (kp, kl, vp, vl), r') \<Rightarrow>
          if blob_key_equals blob kp kl key then blob_string blob vp vl
          else blob_value_loop blob key r')"
  by pat_completeness auto
termination
  by (relation "measure (\<lambda>(_, _, r). rd_remaining r)") (auto dest!: reader_next_remaining [OF sym])

function blob_contains_loop :: "bytes \<Rightarrow> qstring \<Rightarrow> blob_reader \<Rightarrow> bool" where
  "blob_contains_loop blob key r =
     (case reader_next blob r of
        (None, _) \<Rightarrow> False
      | (Some (kp, kl, vp, vl), r') \<Rightarrow>
          if blob_key_equals blob kp kl key then True
          else blob_contains_loop blob key r')"
  by pat_completeness auto
termination
  by (relation "measure (\<lambda>(_, _, r). rd_remaining r)") (auto dest!: reader_next_remaining [OF sym])

function blob_keys_loop :: "bytes \<Rightarrow> blob_reader \<Rightarrow> qstring list \<Rightarrow> qstring list" where
  "blob_keys_loop blob r result =
     (case reader_next blob r of
        (None, _) \<Rightarrow> result
      | (Some (kp, kl, vp, vl), r') \<Rightarrow> blob_keys_loop blob r' (result @ [blob_string blob kp kl]))"
  by pat_completeness auto
termination
  by (relation "measure (\<lambda>(_, r, _). rd_remaining r)") (auto dest!: reader_next_remaining [OF sym])

declare blob_value_loop.simps [simp del] blob_contains_loop.simps [simp del] blob_keys_loop.simps [simp del]

definition blob_value :: "bytes \<Rightarrow> qstring \<Rightarrow> qstring" where
  "blob_value blob key = blob_value_loop blob key (new_reader blob)"

definition blob_contains :: "bytes \<Rightarrow> qstring \<Rightarrow> bool" where
  "blob_contains blob key = blob_contains_loop blob key (new_reader blob)"

definition blob_keys :: "bytes \<Rightarrow> qstring list" where
  "blob_keys blob = blob_keys_loop blob (new_reader blob) []"

section \<open>The reader stays inside the blob\<close>

lemma read_blob_length_inside:
  assumes "read_blob_length blob p = (True, p', len)" and "length blob < 2 ^ 31"
  shows "p' = p + 4 \<and> p' + len \<le> length blob"
proof -
  have p: "\<not> length blob < p + 4" using assms(1) by (auto simp: read_blob_length_def split: if_splits)
  have fits: "unat w \<le> n" if "\<not> of_nat n < w" "n < 2 ^ 32" for n and w :: "32 word"
    using that by (simp add: word_less_nat_alt unat_of_nat not_less)
  define n where "n = length blob - (p + 4)"
  have "p' = p + 4 \<and> len \<le> n"
    using assms p fits [of n "read_u32 blob p"]
    unfolding read_blob_length_def Let_def n_def [symmetric] by (auto simp: n_def split: if_splits)
  then show ?thesis using p unfolding n_def by linarith
qed

lemma reader_next_inside:
  assumes "reader_next blob r = (Some (kp, kl, vp, vl), r')" and "length blob < 2 ^ 31"
  shows "rd_pos r < kp \<and> kp + kl < vp \<and> vp + vl \<le> length blob \<and> rd_pos r' = vp + vl"
proof -
  obtain p1 l1 p2 l2 where "read_blob_length blob (rd_pos r) = (True, p1, l1)"
      "read_blob_length blob (p1 + l1) = (True, p2, l2)" "kp = p1" "kl = l1" "vp = p2" "vl = l2"
      "rd_pos r' = p2 + l2"
    using assms(1) by (auto simp: reader_next_def split: if_splits prod.splits bool.splits)
  then show ?thesis using read_blob_length_inside [OF _ assms(2)] by fastforce
qed

section \<open>The reader on a serialized map\<close>

text \<open>Small strings: the length of a key in bytes does not wrap at 32 bits.\<close>

definition short_key :: "qstring \<Rightarrow> bool" where
  "short_key key \<longleftrightarrow> length (units key) < 2 ^ 31"

definition find_entry :: "property_list \<Rightarrow> qstring \<Rightarrow> (qstring \<times> qstring) option" where
  "find_entry es key = List.find (\<lambda>e. units (fst e) = units key) es"

lemma find_entry_Cons [simp]:
  "find_entry (e # es) key = (if units (fst e) = units key then Some e else find_entry es key)"
  by (simp add: find_entry_def)

lemma find_entry_Nil [simp]: "find_entry [] key = None"
  by (simp add: find_entry_def)

lemma find_entry_None: "find_entry es key = None \<longleftrightarrow> units key \<notin> (units \<circ> fst) ` set es"
  by (induction es) auto

lemma of_nat_less_32: "a < 2 ^ 32 \<Longrightarrow> b < 2 ^ 32 \<Longrightarrow> (of_nat a :: 32 word) < of_nat b \<longleftrightarrow> a < b"
  by (simp add: word_less_nat_alt unat_of_nat)

lemma read_written_length:
  assumes "length (pre @ write_string s @ post) < 2 ^ 31"
  shows "read_blob_length (pre @ write_string s @ post) (length pre) =
    (True, length pre + 4, 2 * length (units s))"
proof (cases s)
  case QNull
  then show ?thesis by (simp add: read_blob_length_def)
next
  case (QText us)
  let ?n = "2 * length us"
  have n: "?n < 2 ^ 31" using assms QText by simp
  then have u: "unat (of_nat ?n :: 32 word) = ?n" by (subst unat_of_nat) simp
  have "of_nat ?n \<noteq> null_string_length"
  proof
    assume "of_nat ?n = null_string_length"
    then have "unat (of_nat ?n :: 32 word) = unat null_string_length" by (rule arg_cong)
    then have "?n = 4294967295" unfolding u by (simp add: null_string_length_def)
    then show False using n by simp
  qed
  moreover have "\<not> (of_nat (?n + length post) :: 32 word) < of_nat ?n"
    using assms QText of_nat_less_32 [of "?n + length post" ?n] by (simp del: of_nat_mult of_nat_add)
  ultimately show ?thesis
    using u by (simp add: read_blob_length_def QText Let_def del: of_nat_mult of_nat_add)
qed

lemma blob_string_written:
  "blob_string (pre @ write_string s @ post) (length pre + 4) (2 * length (units s)) = QText (units s)"
proof (cases s)
  case (QText us)
  have "map (\<lambda>i. read_u16 ((pre @ u32_be w) @ concat (map u16_be us) @ post) (length (pre @ u32_be w) + 2 * i))
      [0..<length us] = us" for w
    by (rule nth_equalityI) (simp_all only: length_map length_upt nth_map nth_upt read_utf16, simp_all add: read_utf16 [of _ us "pre @ u32_be w" post, simplified])
  then show ?thesis by (simp add: blob_string_def QText)
qed (simp add: blob_string_def)

lemma nth_eq_iff: "length xs = length ys \<Longrightarrow> xs = ys \<longleftrightarrow> (\<forall>i < length ys. ys ! i = xs ! i)"
  by (metis nth_equalityI)

lemma blob_key_equals_written:
  assumes "short_key key"
  shows "blob_key_equals (pre @ write_string s @ post) (length pre + 4) (2 * length (units s)) key \<longleftrightarrow>
    units s = units key"
proof -
  have k: "unat (of_nat (2 * length (units key)) :: 32 word) = 2 * length (units key)"
    using assms by (subst unat_of_nat) (simp add: short_key_def)
  show ?thesis
  proof (cases "length (units s) = length (units key)")
    case True
    have chars: "map (\<lambda>i. read_u16 (pre @ write_string s @ post) (length pre + 4 + 2 * i))
        [0..<length (units key)] = units s"
      using blob_string_written [of pre s post] True by (simp add: blob_string_def)
    have "read_u16 (pre @ write_string s @ post) (length pre + 4 + 2 * i) = units s ! i"
      if "i < length (units key)" for i
      using arg_cong [OF chars, of "\<lambda>l. l ! i"] that by simp
    then have "list_all (\<lambda>i. units key ! i = read_u16 (pre @ write_string s @ post) (length pre + 4 + 2 * i))
        [0..<length (units key)] \<longleftrightarrow> (\<forall>i < length (units key). units key ! i = units s ! i)"
      by (simp only: list_all_iff set_upt atLeastLessThan_iff le0 simp_thms Ball_def cong: imp_cong)
    then show ?thesis
      unfolding blob_key_equals_def k nth_eq_iff [OF True] by (simp only: True simp_thms)
  next
    case False
    then show ?thesis unfolding blob_key_equals_def k by auto
  qed
qed

lemma reader_next_written:
  assumes "length (pre @ write_string k @ write_string v @ post) < 2 ^ 31"
    and "rd_pos r = length pre" "rd_remaining r = Suc n" "rd_valid r"
  shows "reader_next (pre @ write_string k @ write_string v @ post) r =
    (Some (length pre + 4, 2 * length (units k),
           length (pre @ write_string k) + 4, 2 * length (units v)),
     r\<lparr>rd_pos := length (pre @ write_string k @ write_string v), rd_remaining := n\<rparr>)"
proof -
  let ?b = "pre @ write_string k @ write_string v @ post"
  have "read_blob_length ?b (length pre) = (True, length pre + 4, 2 * length (units k))"
    by (rule read_written_length) (use assms in simp)
  moreover have "read_blob_length ?b (length pre + 4 + 2 * length (units k)) =
      (True, length (pre @ write_string k) + 4, 2 * length (units v))"
    using read_written_length [of "pre @ write_string k" v post] assms(1) by (simp add: add.assoc)
  ultimately show ?thesis using assms by (simp add: reader_next_def)
qed

lemma write_entries_Cons: "write_entries ((k, v) # es) = write_string k @ write_string v @ write_entries es"
  by (simp add: write_entries_def)

text \<open>A reader that stands before the entries \<open>es\<close> of a blob.\<close>

definition reads_from :: "bytes \<Rightarrow> bytes \<Rightarrow> property_list \<Rightarrow> blob_reader \<Rightarrow> bool" where
  "reads_from blob pre es r \<longleftrightarrow> blob = pre @ write_entries es \<and> length blob < 2 ^ 31
     \<and> rd_pos r = length pre \<and> rd_remaining r = length es \<and> rd_valid r"

lemma reads_from_Nil: "reads_from blob pre [] r \<Longrightarrow> reader_next blob r = (None, r)"
  by (simp add: reads_from_def reader_next_def)

lemma reads_from_Cons:
  assumes "reads_from blob pre ((k, v) # es) r"
  obtains kp vp r' where
    "reader_next blob r = (Some (kp, 2 * length (units k), vp, 2 * length (units v)), r')"
    "reads_from blob (pre @ write_string k @ write_string v) es r'"
    "blob_string blob kp (2 * length (units k)) = QText (units k)"
    "blob_string blob vp (2 * length (units v)) = QText (units v)"
    "\<And>key. short_key key \<Longrightarrow> blob_key_equals blob kp (2 * length (units k)) key \<longleftrightarrow> units k = units key"
proof -
  let ?post = "write_entries es"
  have b: "blob = pre @ write_string k @ write_string v @ ?post"
    and r: "rd_pos r = length pre" "rd_remaining r = Suc (length es)" "rd_valid r" "length blob < 2 ^ 31"
    using assms unfolding reads_from_def write_entries_Cons by - (elim conjE, simp only: list.size)+
  have len: "length (pre @ write_string k @ write_string v @ ?post) < 2 ^ 31" using r(4) unfolding b .
  let ?r = "r\<lparr>rd_pos := length (pre @ write_string k @ write_string v), rd_remaining := length es\<rparr>"
  show thesis
  proof (rule that)
    show "reader_next blob r = (Some (length pre + 4, 2 * length (units k),
        length (pre @ write_string k) + 4, 2 * length (units v)), ?r)"
      unfolding b by (rule reader_next_written [OF len r(1-3)])
    show "reads_from blob (pre @ write_string k @ write_string v) es ?r"
      using r(3) len by (simp add: reads_from_def b)
    show "blob_string blob (length pre + 4) (2 * length (units k)) = QText (units k)"
      unfolding b by (rule blob_string_written)
    show "blob_string blob (length (pre @ write_string k) + 4) (2 * length (units v)) = QText (units v)"
      unfolding b using blob_string_written [of "pre @ write_string k" v ?post] by simp
    show "blob_key_equals blob (length pre + 4) (2 * length (units k)) key \<longleftrightarrow> units k = units key"
      if "short_key key" for key
      unfolding b by (rule blob_key_equals_written [OF that])
  qed
qed

lemma blob_value_loop_eq:
  assumes "reads_from blob pre es r" "short_key key"
  shows "blob_value_loop blob key r =
    (case find_entry es key of None \<Rightarrow> QNull | Some e \<Rightarrow> QText (units (snd e)))"
  using assms(1)
proof (induction es arbitrary: pre r)
  case Nil
  then show ?case by (simp add: blob_value_loop.simps reads_from_Nil)
next
  case (Cons e es)
  obtain k v where e: "e = (k, v)" by (cases e)
  show ?case
    by (rule reads_from_Cons [OF Cons.prems [unfolded e]])
      (use Cons.IH assms(2) in \<open>simp add: blob_value_loop.simps [of blob key r] e\<close>)
qed

lemma blob_contains_loop_eq:
  assumes "reads_from blob pre es r" "short_key key"
  shows "blob_contains_loop blob key r \<longleftrightarrow> find_entry es key \<noteq> None"
  using assms(1)
proof (induction es arbitrary: pre r)
  case Nil
  then show ?case by (simp add: blob_contains_loop.simps reads_from_Nil)
next
  case (Cons e es)
  obtain k v where e: "e = (k, v)" by (cases e)
  show ?case
    by (rule reads_from_Cons [OF Cons.prems [unfolded e]])
      (use Cons.IH assms(2) in \<open>simp add: blob_contains_loop.simps [of blob key r] e\<close>)
qed

lemma blob_keys_loop_eq:
  assumes "reads_from blob pre es r"
  shows "blob_keys_loop blob r result = result @ map (QText \<circ> units \<circ> fst) es"
  using assms
proof (induction es arbitrary: pre r result)
  case Nil
  then show ?case by (simp add: blob_keys_loop.simps reads_from_Nil)
next
  case (Cons e es)
  obtain k v where e: "e = (k, v)" by (cases e)
  show ?case
    by (rule reads_from_Cons [OF Cons.prems [unfolded e]])
      (use Cons.IH in \<open>simp add: blob_keys_loop.simps [of blob r] e\<close>)
qed

lemma entries_length: "8 * length m \<le> length (write_entries m)"
  by (induction m) (auto simp: write_entries_def)

lemma new_reader_serialized:
  assumes "length (serialize m) < 2 ^ 31"
  shows "reads_from (serialize m) (u32_be (of_nat (length m))) m (new_reader (serialize m))"
proof -
  have "length m < 2 ^ 32" using entries_length [of m] assms by (simp add: serialize_def)
  then have "unat (read_u32 (serialize m) 0) = length m"
    using read_u32_be [of "[]" "of_nat (length m)" "write_entries m"]
    by (simp add: serialize_def unat_of_nat)
  then show ?thesis using assms by (simp add: reads_from_def new_reader_def serialize_def)
qed

lemma blob_value_serialized:
  "length (serialize m) < 2 ^ 31 \<Longrightarrow> short_key key \<Longrightarrow>
   blob_value (serialize m) key = (case find_entry m key of None \<Rightarrow> QNull | Some e \<Rightarrow> QText (units (snd e)))"
  unfolding blob_value_def by (rule blob_value_loop_eq [OF new_reader_serialized])

lemma blob_contains_serialized:
  "length (serialize m) < 2 ^ 31 \<Longrightarrow> short_key key \<Longrightarrow>
   blob_contains (serialize m) key \<longleftrightarrow> find_entry m key \<noteq> None"
  unfolding blob_contains_def by (rule blob_contains_loop_eq [OF new_reader_serialized])

lemma blob_keys_serialized:
  "length (serialize m) < 2 ^ 31 \<Longrightarrow> blob_keys (serialize m) = map (QText \<circ> units \<circ> fst) m"
  unfolding blob_keys_def using blob_keys_loop_eq [OF new_reader_serialized] by simp

lemma entry_count_serialized:
  "length (serialize m) < 2 ^ 31 \<Longrightarrow> entry_count (new_reader (serialize m)) = length m"
  using new_reader_serialized by (simp add: reads_from_def entry_count_def)

section \<open>Every walk stays inside\<close>

text \<open>The offsets that a loop over the reader of a blob has seen so far.\<close>

inductive walk :: "bytes \<Rightarrow> offsets list \<Rightarrow> blob_reader \<Rightarrow> bool" for blob where
  walk_start: "walk blob [] (new_reader blob)"
| walk_step: "walk blob os r \<Longrightarrow> reader_next blob r = (Some p, r') \<Longrightarrow> walk blob (os @ [p]) r'"

inductive_cases walk_snocE: "walk blob (os @ [p]) r"

definition inside :: "bytes \<Rightarrow> offsets \<Rightarrow> bool" where
  "inside blob = (\<lambda>(kp, kl, vp, vl). 4 < kp \<and> kp + kl < vp \<and> vp + vl \<le> length blob)"

lemma walk_inside:
  "walk blob os r \<Longrightarrow> length blob < 2 ^ 31 \<Longrightarrow>
   list_all (inside blob) os \<and> 4 \<le> rd_pos r \<and> (os \<noteq> [] \<longrightarrow> rd_pos r \<le> length blob)
   \<and> 4 + 8 * length os \<le> rd_pos r"
proof (induction rule: walk.induct)
  case walk_start
  then show ?case by (simp add: new_reader_def)
next
  case (walk_step os r p r')
  obtain kp kl vp vl where p: "p = (kp, kl, vp, vl)" by (cases p)
  have "rd_pos r + 4 \<le> kp \<and> kp + kl + 4 \<le> vp"
    using walk_step.hyps(2) walk_step.prems read_blob_length_inside
    unfolding p by (fastforce simp: reader_next_def split: if_splits prod.splits bool.splits)
  moreover have "vp + vl \<le> length blob \<and> rd_pos r' = vp + vl"
    using reader_next_inside [OF walk_step.hyps(2) [unfolded p] walk_step.prems] by simp
  ultimately show ?case using walk_step.IH walk_step.prems by (auto simp: inside_def p)
qed

text \<open>C36: Whatever bytes a blob holds, as long as it is shorter than 2 GiB, every key and value
  that the reader hands out lies inside the blob, keys before their values, and a walk sees at most
  one pair for every eight bytes: a corrupted cache entry cannot make the reader leave the buffer
  or loop for the announced 32-bit count.\<close>

theorem blob_walk_inside:
  assumes "walk blob os r" and "length blob < 2 ^ 31"
  shows "(\<forall>(kp, kl, vp, vl) \<in> set os. 4 < kp \<and> kp + kl < vp \<and> vp + vl \<le> length blob)
    \<and> 8 * length os \<le> length blob"
  using walk_inside [OF assms]
  by (cases "os = []") (auto simp: list_all_iff inside_def split: prod.splits)

text \<open>A blob that announces two pairs and holds one, and a refused second key.\<close>

definition truncated_blob :: bytes where
  "truncated_blob = [0, 0, 0, 2] @ [0, 0, 0, 2, 0, 107] @ [0, 0, 0, 2, 0, 118] @ [0, 0, 0, 8, 0]"

lemma truncated_steps:
  "reader_next truncated_blob (new_reader truncated_blob) =
     (Some (8, 2, 14, 2), \<lparr>rd_pos = 16, rd_remaining = 1, rd_valid = True\<rparr>)"
  "reader_next truncated_blob \<lparr>rd_pos = 16, rd_remaining = 1, rd_valid = True\<rparr> =
     (None, \<lparr>rd_pos = 20, rd_remaining = 1, rd_valid = False\<rparr>)"
  by (simp_all add: truncated_blob_def reader_next_def new_reader_def read_blob_length_def read_u32_def
      null_string_length_def Let_def)

theorem blob_walk_inside_witness:
  "walk truncated_blob [(8, 2, 14, 2)] \<lparr>rd_pos = 16, rd_remaining = 1, rd_valid = True\<rparr>
   \<and> 14 + 2 \<le> length truncated_blob"
proof -
  have w: "walk truncated_blob ([] @ [(8, 2, 14, 2)]) \<lparr>rd_pos = 16, rd_remaining = 1, rd_valid = True\<rparr>"
    by (rule walk_step [OF walk_start truncated_steps(1)])
  have "length truncated_blob < 2 ^ 31" by (simp add: truncated_blob_def)
  from blob_walk_inside [OF w this] w show ?thesis by auto
qed

end
