(* ===== verification/LazyProperties.thy ===== *)
theory LazyProperties
  imports LazyBlob
begin

text \<open>
  The lazily deserialized property map of a card, \<open>LazyPropertiesHash\<close> in
  \<open>libcockatrice_card/libcockatrice/card/lazy_properties_hash.cpp\<close>. An object holds either the
  serialized blob or the materialized hash; queries read the blob in place, the first insertion or
  \<open>getProperties\<close> materializes once and for all. The refinement theorem says that no sequence of
  operations can tell such an object from the plain hash it stands for. The second part models the
  two halves of copying that another thread can get between: the copy constructor always yields an
  object for the map of the source, the assignment operator can lose it.
\<close>

section \<open>The plain hash\<close>

text \<open>A key is found by its text. The position of a new entry is unspecified for a \<open>QHash\<close>; here it
  is the last, and no outcome below shows the order.\<close>

definition hash_value :: "property_list \<Rightarrow> qstring \<Rightarrow> qstring" where
  "hash_value m key = (case find_entry m key of None \<Rightarrow> QNull | Some e \<Rightarrow> snd e)"

definition hash_contains :: "property_list \<Rightarrow> qstring \<Rightarrow> bool" where
  "hash_contains m key \<longleftrightarrow> find_entry m key \<noteq> None"

definition hash_insert :: "property_list \<Rightarrow> qstring \<Rightarrow> qstring \<Rightarrow> property_list" where
  "hash_insert m key v =
     (if hash_contains m key
      then map (\<lambda>e. if units (fst e) = units key then (fst e, v) else e) m
      else m @ [(key, v)])"

definition hash_ok :: "property_list \<Rightarrow> bool" where
  "hash_ok m \<longleftrightarrow> distinct (map (units \<circ> fst) m)"

lemma hash_ok_insert [simp]: "hash_ok m \<Longrightarrow> hash_ok (hash_insert m key v)"
proof -
  have "map (units \<circ> fst) (map (\<lambda>e. if units (fst e) = units key then (fst e, v) else e) m) = map (units \<circ> fst) m"
    by (induction m) auto
  moreover assume "hash_ok m"
  ultimately show ?thesis
    by (auto simp: hash_ok_def hash_insert_def hash_contains_def find_entry_None image_comp simp del: map_map)
qed

lemma hash_value_insert: "hash_value (hash_insert m key v) k = (if units k = units key then v else hash_value m k)"
proof -
  have "find_entry (map (\<lambda>e. if units (fst e) = units key then (fst e, v) else e) m) k =
      map_option (\<lambda>e. if units (fst e) = units key then (fst e, v) else e) (find_entry m k)"
    by (induction m) auto
  moreover have "find_entry (m @ [(key, v)]) k =
      (case find_entry m k of None \<Rightarrow> if units key = units k then Some (key, v) else None | Some e \<Rightarrow> Some e)"
    by (induction m) auto
  moreover have "find_entry m k = find_entry m key" if "units k = units key"
    using that by (simp add: find_entry_def)
  moreover have "units (fst e) = units k" if "find_entry m k = Some e" for e
    using that by (auto simp: find_entry_def find_Some_iff)
  ultimately show ?thesis
    by (auto simp: hash_value_def hash_insert_def hash_contains_def split: option.splits)
qed

section \<open>Deserialization\<close>

text \<open>\<open>QDataStream\<close> reads as many pairs as announced; on an error the hash ends up empty.\<close>

definition stream_string :: "bytes \<Rightarrow> (qstring \<times> bytes) option" where
  "stream_string b =
     (if length b < 4 then None
      else let len = read_u32 b 0; b = drop 4 b
           in if len = null_string_length then Some (QNull, b)
              else if odd (unat len) \<or> length b < unat len then None
              else Some (QText (map (\<lambda>i. read_u16 b (2 * i)) [0..<unat len div 2]), drop (unat len) b))"

fun stream_pairs :: "nat \<Rightarrow> bytes \<Rightarrow> property_list \<Rightarrow> property_list" where
  "stream_pairs n b m =
     (if n = 0 then m
      else (case stream_string b of
              None \<Rightarrow> []
            | Some (k, b) \<Rightarrow>
                (case stream_string b of
                   None \<Rightarrow> []
                 | Some (v, b) \<Rightarrow> stream_pairs (n - 1) b (hash_insert m k v))))"

declare stream_pairs.simps [simp del]

definition deserialize :: "bytes \<Rightarrow> property_list" where
  "deserialize b = (if length b < 4 then [] else stream_pairs (unat (read_u32 b 0)) (drop 4 b) [])"

lemma stream_string_written:
  assumes "length (write_string s @ post) < 2 ^ 31"
  shows "stream_string (write_string s @ post) = Some (s, post)"
proof (cases s)
  case QNull
  then show ?thesis
    using read_u32_be [of "[]" null_string_length post] by (simp add: stream_string_def)
next
  case (QText us)
  let ?n = "2 * length us"
  have n: "?n < 2 ^ 31" using assms QText by simp
  then have u: "unat (of_nat ?n :: 32 word) = ?n" by (subst unat_of_nat) simp
  have "of_nat ?n \<noteq> null_string_length"
  proof
    assume "of_nat ?n = null_string_length"
    then have "unat (of_nat ?n :: 32 word) = unat null_string_length" by (rule arg_cong)
    then show False unfolding u using n by (simp add: null_string_length_def)
  qed
  moreover have "map (\<lambda>i. read_u16 (concat (map u16_be us) @ post) (2 * i)) [0..<length us] = us"
    using read_utf16 [of _ us "[]" post] by (intro nth_equalityI) auto
  ultimately show ?thesis
    using u read_u32_be [of "[]" "of_nat ?n" "concat (map u16_be us) @ post"]
    by (simp add: stream_string_def QText Let_def del: of_nat_mult)
qed

lemma stream_pairs_written:
  "hash_ok (m @ es) \<Longrightarrow> length (write_entries es) < 2 ^ 31 \<Longrightarrow>
   stream_pairs (length es) (write_entries es) m = m @ es"
proof (induction es arbitrary: m)
  case Nil
  then show ?case by (simp add: stream_pairs.simps)
next
  case (Cons e es)
  obtain k v where e: "e = (k, v)" by (cases e)
  have "\<not> hash_contains m k"
    using Cons.prems(1) by (auto simp: hash_ok_def e hash_contains_def find_entry_None)
  then have i: "hash_insert m k v = m @ [(k, v)]" by (simp add: hash_insert_def)
  have "stream_pairs (length es) (write_entries es) (m @ [(k, v)]) = m @ e # es"
    using Cons.IH [of "m @ [(k, v)]"] Cons.prems by (simp add: e write_entries_def)
  moreover have "length (write_string k @ write_string v @ write_entries es) < 2 ^ 31"
    using Cons.prems(2) by (simp add: e write_entries_def)
  ultimately show ?case
    by (simp add: stream_pairs.simps [of "Suc (length es)"] e write_entries_Cons stream_string_written i)
qed

lemma deserialize_serialize:
  assumes "hash_ok m" "length (serialize m) < 2 ^ 31"
  shows "deserialize (serialize m) = m"
proof -
  have "length m < 2 ^ 32" using entries_length [of m] assms(2) by (simp add: serialize_def)
  then have "unat (read_u32 (serialize m) 0) = length m"
    using read_u32_be [of "[]" "of_nat (length m)" "write_entries m"]
    by (simp add: serialize_def unat_of_nat)
  moreover have "stream_pairs (length m) (write_entries m) [] = m"
    using stream_pairs_written [of "[]" m] assms by (simp add: serialize_def)
  ultimately show ?thesis by (simp add: deserialize_def) (simp add: serialize_def)
qed

section \<open>The object\<close>

record lazy_hash =
  lz_blob :: bytes
  lz_properties :: property_list
  lz_materialized :: bool

definition lazy_empty :: lazy_hash where
  "lazy_empty = \<lparr>lz_blob = [], lz_properties = [], lz_materialized = True\<rparr>"

definition lazy_of_blob :: "bytes \<Rightarrow> lazy_hash" where
  "lazy_of_blob b = \<lparr>lz_blob = b, lz_properties = [], lz_materialized = False\<rparr>"

definition lazy_of_hash :: "property_list \<Rightarrow> lazy_hash" where
  "lazy_of_hash m = \<lparr>lz_blob = [], lz_properties = m, lz_materialized = True\<rparr>"

definition serialized_from :: "property_list \<Rightarrow> lazy_hash" where
  "serialized_from m = lazy_of_blob (serialize m)"

definition ensure_materialized :: "lazy_hash \<Rightarrow> lazy_hash" where
  "ensure_materialized z =
     (if lz_materialized z then z
      else z\<lparr>lz_properties := if lz_blob z = [] then lz_properties z else deserialize (lz_blob z),
             lz_blob := [], lz_materialized := True\<rparr>)"

definition lazy_read :: "(property_list \<Rightarrow> 'a) \<Rightarrow> (bytes \<Rightarrow> 'a) \<Rightarrow> lazy_hash \<Rightarrow> 'a" where
  "lazy_read on_materialized on_blob z =
     (if lz_materialized z then on_materialized (lz_properties z) else on_blob (lz_blob z))"

definition lazy_value :: "lazy_hash \<Rightarrow> qstring \<Rightarrow> qstring" where
  "lazy_value z key = lazy_read (\<lambda>m. hash_value m key) (\<lambda>b. blob_value b key) z"

definition lazy_contains :: "lazy_hash \<Rightarrow> qstring \<Rightarrow> bool" where
  "lazy_contains z key = lazy_read (\<lambda>m. hash_contains m key) (\<lambda>b. blob_contains b key) z"

definition lazy_size :: "lazy_hash \<Rightarrow> int" where
  "lazy_size z = lazy_read (\<lambda>m. int (length m))
     (\<lambda>b. sint (of_nat (entry_count (new_reader b)) :: 32 word)) z"

definition lazy_is_empty :: "lazy_hash \<Rightarrow> bool" where
  "lazy_is_empty z \<longleftrightarrow> lazy_size z = 0"

definition lazy_keys :: "lazy_hash \<Rightarrow> qstring list" where
  "lazy_keys z = lazy_read (map fst) blob_keys z"

definition lazy_serialized :: "lazy_hash \<Rightarrow> bytes" where
  "lazy_serialized z = lazy_read serialize (\<lambda>b. if b = [] then serialize [] else b) z"

definition lazy_insert :: "lazy_hash \<Rightarrow> qstring \<Rightarrow> qstring \<Rightarrow> bool \<times> lazy_hash" where
  "lazy_insert z key v =
     (let z = ensure_materialized z
      in if units v = units (hash_value (lz_properties z) key) then (False, z)
         else (True, z\<lparr>lz_properties := hash_insert (lz_properties z) key v\<rparr>))"

definition lazy_get_properties :: "lazy_hash \<Rightarrow> property_list \<times> lazy_hash" where
  "lazy_get_properties z = (let z = ensure_materialized z in (lz_properties z, z))"

text \<open>Copying loads the flag of the source first and takes the lock only when it was not set;
  \<open>checked\<close> is the source at the load, \<open>locked\<close> the source when the lock is held.\<close>

definition copy_construct :: "lazy_hash \<Rightarrow> lazy_hash \<Rightarrow> lazy_hash" where
  "copy_construct checked locked =
     (if lz_materialized checked
      then \<lparr>lz_blob = lz_blob checked, lz_properties = lz_properties checked, lz_materialized = True\<rparr>
      else \<lparr>lz_blob = lz_blob locked, lz_properties = lz_properties locked,
            lz_materialized = lz_materialized locked\<rparr>)"

definition copy_assign :: "lazy_hash \<Rightarrow> lazy_hash \<Rightarrow> lazy_hash" where
  "copy_assign checked locked =
     (if lz_materialized checked
      then \<lparr>lz_blob = lz_blob checked, lz_properties = lz_properties checked, lz_materialized = True\<rparr>
      else \<lparr>lz_blob = lz_blob locked, lz_properties = lz_properties locked, lz_materialized = False\<rparr>)"

section \<open>Refinement of the plain hash\<close>

definition represents :: "lazy_hash \<Rightarrow> property_list \<Rightarrow> bool" where
  "represents z m \<longleftrightarrow> hash_ok m \<and>
     (if lz_materialized z then lz_properties z = m \<and> lz_blob z = []
      else lz_properties z = [] \<and> (lz_blob z = serialize m \<or> lz_blob z = [] \<and> m = []))"

lemma represents_constructors:
  "represents lazy_empty []" "represents (lazy_of_blob []) []"
  "hash_ok m \<Longrightarrow> represents (lazy_of_hash m) m" "hash_ok m \<Longrightarrow> represents (serialized_from m) m"
  by (simp_all add: represents_def lazy_empty_def lazy_of_blob_def lazy_of_hash_def serialized_from_def hash_ok_def)

datatype lazy_op =
    OpValue qstring | OpContains qstring | OpSize | OpIsEmpty | OpKeys | OpSerialized
  | OpInsert qstring qstring | OpGetProperties | OpCopyConstruct | OpCopyAssign

text \<open>What a caller sees: texts, and collections without their order.\<close>

datatype outcome =
    Text "code_unit list" | Flag bool | Number int | Keys "code_unit list set"
  | Pairs "(code_unit list \<times> code_unit list) set" | Copied

definition text_pairs :: "property_list \<Rightarrow> (code_unit list \<times> code_unit list) set" where
  "text_pairs m = (\<lambda>(k, v). (units k, units v)) ` set m"

fun lazy_step :: "lazy_op \<Rightarrow> lazy_hash \<Rightarrow> outcome \<times> lazy_hash" where
  "lazy_step (OpValue k) z = (Text (units (lazy_value z k)), z)"
| "lazy_step (OpContains k) z = (Flag (lazy_contains z k), z)"
| "lazy_step OpSize z = (Number (lazy_size z), z)"
| "lazy_step OpIsEmpty z = (Flag (lazy_is_empty z), z)"
| "lazy_step OpKeys z = (Keys (units ` set (lazy_keys z)), z)"
| "lazy_step OpSerialized z = (Pairs (text_pairs (deserialize (lazy_serialized z))), z)"
| "lazy_step (OpInsert k v) z = (case lazy_insert z k v of (b, z) \<Rightarrow> (Flag b, z))"
| "lazy_step OpGetProperties z = (case lazy_get_properties z of (m, z) \<Rightarrow> (Pairs (text_pairs m), z))"
| "lazy_step OpCopyConstruct z = (Copied, copy_construct z z)"
| "lazy_step OpCopyAssign z = (Copied, copy_assign z z)"

fun plain_step :: "lazy_op \<Rightarrow> property_list \<Rightarrow> outcome \<times> property_list" where
  "plain_step (OpValue k) m = (Text (units (hash_value m k)), m)"
| "plain_step (OpContains k) m = (Flag (hash_contains m k), m)"
| "plain_step OpSize m = (Number (int (length m)), m)"
| "plain_step OpIsEmpty m = (Flag (m = []), m)"
| "plain_step OpKeys m = (Keys ((units \<circ> fst) ` set m), m)"
| "plain_step OpSerialized m = (Pairs (text_pairs m), m)"
| "plain_step (OpInsert k v) m =
     (if units v = units (hash_value m k) then (Flag False, m) else (Flag True, hash_insert m k v))"
| "plain_step OpGetProperties m = (Pairs (text_pairs m), m)"
| "plain_step OpCopyConstruct m = (Copied, m)"
| "plain_step OpCopyAssign m = (Copied, m)"

text \<open>The serialized properties and the key asked for stay below 2 GiB together.\<close>

fun op_bytes :: "lazy_op \<Rightarrow> nat" where
  "op_bytes (OpValue k) = 2 * length (units k)"
| "op_bytes (OpContains k) = 2 * length (units k)"
| "op_bytes (OpInsert k v) = 8 + 2 * length (units k) + 2 * length (units v)"
| "op_bytes _ = 0"

definition op_allowed :: "lazy_op \<Rightarrow> property_list \<Rightarrow> bool" where
  "op_allowed op m \<longleftrightarrow> length (serialize m) + op_bytes op < 2 ^ 31"

lemma empty_blob [simp]:
  "blob_value [] k = QNull" "\<not> blob_contains [] k" "blob_keys [] = []" "entry_count (new_reader []) = 0"
  by (simp_all add: blob_value_def blob_contains_def blob_keys_def new_reader_def entry_count_def
      blob_value_loop.simps blob_contains_loop.simps blob_keys_loop.simps reader_next_def)

lemma represents_materialize:
  assumes "represents z m" "length (serialize m) < 2 ^ 31"
  shows "lz_properties (ensure_materialized z) = m \<and> represents (ensure_materialized z) m"
proof -
  have "serialize m \<noteq> []" by (simp add: serialize_def u32_be_def)
  then show ?thesis
    using assms by (auto simp: represents_def ensure_materialized_def deserialize_serialize split: if_splits)
qed

lemma represents_cases:
  assumes "represents z m"
  obtains "lz_materialized z" "lz_properties z = m"
  | "\<not> lz_materialized z" "lz_blob z = serialize m"
  | "\<not> lz_materialized z" "lz_blob z = []" "m = []"
  using assms by (auto simp: represents_def split: if_splits)

lemma sint_small: "n < 2 ^ 31 \<Longrightarrow> sint (of_nat n :: 32 word) = int n"
  by (simp add: signed_of_nat signed_take_bit_int_eq_self)

lemma lazy_queries:
  assumes r: "represents z m" and len: "length (serialize m) < 2 ^ 31"
  shows "short_key k \<Longrightarrow> units (lazy_value z k) = units (hash_value m k)"
    and "short_key k \<Longrightarrow> lazy_contains z k \<longleftrightarrow> hash_contains m k"
    and "lazy_size z = int (length m)"
    and "units ` set (lazy_keys z) = (units \<circ> fst) ` set m"
    and "deserialize (lazy_serialized z) = m"
proof -
  have ok: "hash_ok m" using r by (simp add: represents_def)
  have count: "length m < 2 ^ 31" using entries_length [of m] len by (simp add: serialize_def)
  have ne: "serialize m \<noteq> []" by (simp add: serialize_def u32_be_def)
  show "short_key k \<Longrightarrow> units (lazy_value z k) = units (hash_value m k)"
    by (rule represents_cases [OF r])
      (auto simp: lazy_value_def lazy_read_def hash_value_def blob_value_serialized [OF len] split: option.splits)
  show "short_key k \<Longrightarrow> lazy_contains z k \<longleftrightarrow> hash_contains m k"
    by (rule represents_cases [OF r])
      (auto simp: lazy_contains_def lazy_read_def hash_contains_def blob_contains_serialized [OF len])
  show "lazy_size z = int (length m)"
    by (rule represents_cases [OF r])
      (simp_all add: lazy_size_def lazy_read_def entry_count_serialized [OF len] sint_small [OF count])
  show "units ` set (lazy_keys z) = (units \<circ> fst) ` set m"
    by (rule represents_cases [OF r])
      (simp_all add: lazy_keys_def lazy_read_def blob_keys_serialized [OF len] image_comp comp_def)
  show "deserialize (lazy_serialized z) = m"
    by (rule represents_cases [OF r])
      (use ok len ne in \<open>auto simp: lazy_serialized_def lazy_read_def deserialize_serialize\<close>)
qed

lemma represents_copy:
  "represents z m \<Longrightarrow> represents (copy_construct z z) m \<and> represents (copy_assign z z) m"
  by (auto simp: represents_def copy_construct_def copy_assign_def split: if_splits)

lemma lazy_simulates:
  assumes r: "represents z m" and a: "op_allowed op m"
  shows "fst (lazy_step op z) = fst (plain_step op m) \<and> represents (snd (lazy_step op z)) (snd (plain_step op m))"
proof -
  have len: "length (serialize m) < 2 ^ 31" using a by (simp add: op_allowed_def)
  note q = lazy_queries [OF r len]
  show ?thesis
  proof (cases op)
    case (OpInsert k v)
    define z' where "z' = ensure_materialized z"
    have z': "lz_properties z' = m" "lz_materialized z'" "lz_blob z' = []" "hash_ok m"
      using represents_materialize [OF r len] r
      by (auto simp: z'_def ensure_materialized_def represents_def)
    then show ?thesis
      by (simp add: OpInsert lazy_insert_def z'_def [symmetric] represents_def)
  next
    case OpGetProperties
    then show ?thesis using represents_materialize [OF r len] by (simp add: lazy_get_properties_def Let_def)
  next
    case (OpValue k)
    then show ?thesis using a r q(1) [of k] by (simp add: op_allowed_def short_key_def)
  next
    case (OpContains k)
    then show ?thesis using a r q(2) [of k] by (simp add: op_allowed_def short_key_def)
  qed (use r q(3-5) represents_copy [OF r] in \<open>simp_all add: lazy_is_empty_def\<close>)
qed

interpretation lazy: simulation represents lazy_step plain_step op_allowed
  by unfold_locales (use lazy_simulates in blast)

section \<open>Properties\<close>

text \<open>C13: A lazy property map cannot be told from the plain hash it stands for: over every sequence
  of queries, insertions, materializations and copies, in blob form or not, each call returns what
  the plain hash would return, as long as the properties serialize to less than 2 GiB.\<close>

theorem lazy_refines_hash:
  assumes "represents z m" and "ops_allowed op_allowed plain_step ops m"
  shows "fst (run_ops lazy_step ops z) = fst (run_ops plain_step ops m)
    \<and> represents (snd (run_ops lazy_step ops z)) (snd (run_ops plain_step ops m))"
  using assms by (rule lazy.run)

definition sample_key :: qstring where "sample_key = QText [99]"
definition sample_map :: property_list where "sample_map = [(sample_key, QText [120, 121]), (QText [109], QNull)]"

theorem lazy_refines_hash_witness:
  "fst (run_ops lazy_step
      [OpValue sample_key, OpSize, OpInsert (QText [109]) (QText []), OpInsert sample_key (QText [122]),
       OpCopyAssign, OpValue sample_key, OpContains QNull, OpSize] (serialized_from sample_map)) =
   [Text [120, 121], Number 2, Flag False, Flag True, Copied, Text [122], Flag False, Number 2]"
  (is "fst (run_ops _ ?ops _) = _")
proof -
  have r: "represents (serialized_from sample_map) sample_map"
    by (rule represents_constructors) (simp add: hash_ok_def sample_map_def sample_key_def)
  note ev = hash_value_def hash_contains_def hash_insert_def sample_map_def sample_key_def
  have "ops_allowed op_allowed plain_step ?ops sample_map"
    by (simp add: op_allowed_def serialize_def write_entries_def ev)
  from lazy_refines_hash [OF r this] show ?thesis by (simp add: ev)
qed

lemma lost_queries:
  "lz_blob z = [] \<Longrightarrow> \<not> lz_materialized z \<Longrightarrow>
   lazy_size z = 0 \<and> lazy_keys z = [] \<and> lazy_value z k = QNull \<and> \<not> lazy_contains z k"
  by (simp add: lazy_size_def lazy_keys_def lazy_value_def lazy_contains_def lazy_read_def)

text \<open>C15: Copying while another thread works on the source. Whatever operations happen between the
  first look at the flag and the lock, the copy constructor yields an object for the properties of
  the source at that moment. The assignment operator does so too unless one of them materialized
  the source: then the target answers every query as if there were no properties.\<close>

theorem copying_under_interleaving:
  assumes r: "represents z m" and a: "ops_allowed op_allowed plain_step ops m"
    and "\<not> lz_materialized z"
  defines "locked \<equiv> snd (run_ops lazy_step ops z)" and "m' \<equiv> snd (run_ops plain_step ops m)"
  shows "represents (copy_construct z locked) m'
    \<and> (if lz_materialized locked
       then lazy_size (copy_assign z locked) = 0 \<and> lazy_keys (copy_assign z locked) = []
         \<and> (\<forall>k. lazy_value (copy_assign z locked) k = QNull \<and> \<not> lazy_contains (copy_assign z locked) k)
       else represents (copy_assign z locked) m')"
proof -
  have "represents locked m'"
    using lazy.run [OF r a] by (simp add: locked_def m'_def)
  then show ?thesis
    using assms(3) lost_queries [of "copy_assign z locked"]
    by (auto simp: represents_def copy_construct_def copy_assign_def)
qed

theorem copying_under_interleaving_witness:
  "let locked = snd (run_ops lazy_step [OpGetProperties] (serialized_from sample_map))
   in lz_materialized locked \<and> represents locked sample_map
    \<and> represents (copy_construct (serialized_from sample_map) locked) sample_map
    \<and> lazy_size (copy_assign (serialized_from sample_map) locked) = 0"
proof -
  have r: "represents (serialized_from sample_map) sample_map"
    by (rule represents_constructors) (simp add: hash_ok_def sample_map_def sample_key_def)
  have a: "ops_allowed op_allowed plain_step [OpGetProperties] sample_map"
    by (simp add: op_allowed_def serialize_def write_entries_def sample_map_def sample_key_def)
  have m: "\<not> lz_materialized (serialized_from sample_map)"
    by (simp add: serialized_from_def lazy_of_blob_def)
  have "lz_materialized (snd (run_ops lazy_step [OpGetProperties] (serialized_from sample_map)))"
    by (simp add: lazy_get_properties_def ensure_materialized_def serialized_from_def lazy_of_blob_def Let_def)
  then show ?thesis
    using copying_under_interleaving [OF r a m] lazy.run [OF r a] by (simp add: Let_def)
qed

text \<open>On a truncated blob the forms disagree: the size is the announced count, the keys are those
  that can be read, and after materialization there are no properties at all.\<close>

lemma truncated_blob_disagrees:
  "lazy_size (lazy_of_blob truncated_blob) = 2"
  "lazy_keys (lazy_of_blob truncated_blob) = [QText [107]]"
  "lazy_size (ensure_materialized (lazy_of_blob truncated_blob)) = 0"
proof -
  show "lazy_size (lazy_of_blob truncated_blob) = 2"
    by (simp add: lazy_size_def lazy_read_def lazy_of_blob_def new_reader_def entry_count_def
        truncated_blob_def read_u32_def)
  show "lazy_keys (lazy_of_blob truncated_blob) = [QText [107]]"
  proof -
    have "blob_keys truncated_blob = [blob_string truncated_blob 8 2]"
      by (simp add: blob_keys_def truncated_steps truncated_steps(2) [unfolded One_nat_def] blob_keys_loop.simps)
    then show ?thesis
      by (simp add: lazy_keys_def lazy_read_def lazy_of_blob_def blob_string_def truncated_blob_def read_u16_def)
  qed
  show "lazy_size (ensure_materialized (lazy_of_blob truncated_blob)) = 0"
    by (simp add: lazy_size_def lazy_read_def lazy_of_blob_def ensure_materialized_def deserialize_def
        truncated_blob_def read_u32_def read_u16_def stream_pairs.simps stream_string_def
        null_string_length_def Let_def hash_insert_def hash_contains_def)
qed

end
