(* ===== verification/LatencyTracker.thy ===== *)
theory LatencyTracker
  imports Prelude "HOL-Library.Multiset"
begin

text \<open>
  The rolling window of round-trip times of the client, \<open>LatencyTracker\<close> in
  \<open>libcockatrice_network/libcockatrice/network/client/abstract/latency_tracker.cpp\<close>: a ring of 64
  samples with the index of the next write and the number of valid entries. A sample is an
  integer; the sum of the two middle samples is assumed not to leave 64 bits, as times in
  milliseconds do not. The theorems say that the ring is the last 64 samples of the whole history,
  that its statistics are those of that window, and that the percentile, which the code computes
  in double precision, is the exact nearest-rank percentile at every possible window size.
\<close>

section \<open>The ring\<close>

definition window_size :: nat where
  "window_size = 64"

record latency_stats =
  lastMs :: int
  medianMs :: int
  p95Ms :: int
  maxMs :: int
  sampleCount :: nat

record latency_tracker =
  samples :: "int list"
  next_index :: nat
  valid_count :: nat

definition new_tracker :: latency_tracker where
  "new_tracker = \<lparr>samples = replicate window_size 0, next_index = 0, valid_count = 0\<rparr>"

definition addSample :: "int \<Rightarrow> latency_tracker \<Rightarrow> latency_tracker" where
  "addSample ms t =
     t\<lparr>samples := (samples t)[next_index t := ms],
       next_index := (next_index t + 1) mod window_size,
       valid_count := (if valid_count t < window_size then valid_count t + 1 else valid_count t)\<rparr>"

text \<open>The loop over \<open>i\<close> from the number of valid entries down to 1.\<close>

fun recent_loop :: "latency_tracker \<Rightarrow> nat \<Rightarrow> int list \<Rightarrow> int list" where
  "recent_loop t i result =
     (if i = 0 then result
      else recent_loop t (i - 1)
        (result @ [samples t ! ((next_index t + window_size - i) mod window_size)]))"

declare recent_loop.simps [simp del]

definition recentSamples :: "latency_tracker \<Rightarrow> int list" where
  "recentSamples t = recent_loop t (valid_count t) []"

section \<open>The percentile index in double precision\<close>

text \<open>
  The literal 0.95 is the double \<open>8556839292003942 / 2 ^ 53\<close>. Its product with an integer is
  rounded to 53 significant bits, half to even; \<open>excess_bits\<close> is how many bits are dropped. The
  result is a fraction with denominator \<open>2 ^ 53\<close>, whose ceiling is taken.
\<close>

definition double_095 :: nat where
  "double_095 = 8556839292003942"

fun excess_bits :: "nat \<Rightarrow> nat" where
  "excess_bits p = (if p < 2 ^ 53 then 0 else Suc (excess_bits (p div 2)))"

declare excess_bits.simps [simp del]

definition round_half_even :: "nat \<Rightarrow> nat \<Rightarrow> nat" where
  "round_half_even p s =
     (let q = p div 2 ^ s; r = p mod 2 ^ s
      in (if 2 * r < 2 ^ s \<or> (2 * r = 2 ^ s \<and> even q) then q else q + 1) * 2 ^ s)"

definition qCeil_095 :: "nat \<Rightarrow> nat" where
  "qCeil_095 n =
     (let p = double_095 * n in (round_half_even p (excess_bits p) + (2 ^ 53 - 1)) div 2 ^ 53)"

definition p95_index :: "nat \<Rightarrow> nat" where
  "p95_index n = nat (max 0 (int (qCeil_095 n) - 1))"

definition tracker_stats :: "latency_tracker \<Rightarrow> latency_stats" where
  "tracker_stats t =
     (if valid_count t = 0 then \<lparr>lastMs = 0, medianMs = 0, p95Ms = 0, maxMs = 0, sampleCount = 0\<rparr>
      else let sorted_list = sort (take (valid_count t) (samples t)); n = valid_count t
           in \<lparr>lastMs = samples t ! ((next_index t + window_size - 1) mod window_size),
               medianMs = (if n mod 2 = 1 then sorted_list ! (n div 2)
                           else c_div (sorted_list ! (n div 2 - 1) + sorted_list ! (n div 2)) 2),
               p95Ms = sorted_list ! p95_index n,
               maxMs = last sorted_list,
               sampleCount = n\<rparr>)"

definition clear_tracker :: "latency_tracker \<Rightarrow> latency_tracker" where
  "clear_tracker t = t\<lparr>samples := replicate (length (samples t)) 0, next_index := 0, valid_count := 0\<rparr>"

section \<open>The ring is the end of the history\<close>

definition window :: "int list \<Rightarrow> int list" where
  "window hs = drop (length hs - window_size) hs"

definition tracks :: "latency_tracker \<Rightarrow> int list \<Rightarrow> bool" where
  "tracks t hs \<longleftrightarrow> length (samples t) = window_size
     \<and> next_index t = length hs mod window_size
     \<and> valid_count t = min window_size (length hs)
     \<and> (\<forall>k. length hs - window_size \<le> k \<and> k < length hs \<longrightarrow> samples t ! (k mod window_size) = hs ! k)"

lemma window_size_pos [simp]: "0 < window_size" "window_size \<noteq> 0"
  by (simp_all add: window_size_def)

lemma tracks_new: "tracks new_tracker []"
  by (simp add: tracks_def new_tracker_def)

lemma tracks_clear: "tracks t hs \<Longrightarrow> tracks (clear_tracker t) []"
  by (simp add: tracks_def clear_tracker_def)

lemma tracks_nth:
  "tracks t hs \<Longrightarrow> length hs - window_size \<le> k \<Longrightarrow> k < length hs \<Longrightarrow>
   samples t ! (k mod window_size) = hs ! k"
  unfolding tracks_def by blast

lemma mod_distinct:
  assumes "k < n" "n < k + w" "0 < w"
  shows "k mod w \<noteq> n mod (w :: nat)"
proof
  assume "k mod w = n mod w"
  then have "w dvd n - k" using assms(1) by (metis less_imp_le mod_eq_dvd_iff_nat)
  then show False using assms by (auto dest: dvd_imp_le)
qed

lemma tracks_add:
  assumes "tracks t hs"
  shows "tracks (addSample ms t) (hs @ [ms])"
proof -
  let ?n = "length hs"
  have "(samples t)[?n mod window_size := ms] ! (k mod window_size) = (hs @ [ms]) ! k"
    if "Suc ?n - window_size \<le> k" "k < Suc ?n" for k
  proof (cases "k = ?n")
    case True
    then show ?thesis using assms by (simp add: tracks_def)
  next
    case False
    then have "k mod window_size \<noteq> ?n mod window_size" using that by (intro mod_distinct) auto
    then show ?thesis using assms that False by (simp add: tracks_def nth_append)
  qed
  then show ?thesis using assms by (auto simp: tracks_def addSample_def mod_Suc_eq)
qed

lemma recent_loop_eq:
  "recent_loop t i result =
     result @ map (\<lambda>j. samples t ! ((next_index t + window_size - j) mod window_size)) (rev [1..<Suc i])"
proof (induction i arbitrary: result)
  case 0
  then show ?case by (simp add: recent_loop.simps)
next
  case (Suc i)
  then show ?case by (subst recent_loop.simps) simp
qed

lemma ring_index:
  assumes "i \<le> n" "i \<le> w" "0 < w"
  shows "(n mod w + w - i) mod w = (n - i) mod (w :: nat)"
proof -
  have "(n mod w + w - i) mod w = (n mod w + (w - i)) mod w" using assms by simp
  also have "\<dots> = (n + (w - i)) mod w" by (simp add: mod_add_left_eq)
  also have "n + (w - i) = (n - i) + w" using assms by simp
  finally show ?thesis by simp
qed

lemma recent_window:
  assumes "tracks t hs"
  shows "recentSamples t = window hs"
proof -
  let ?c = "valid_count t" and ?n = "length hs"
  have c: "?c = min window_size ?n" using assms by (simp add: tracks_def)
  have "recentSamples t = map (\<lambda>j. samples t ! ((next_index t + window_size - j) mod window_size)) (rev [1..<Suc ?c])"
    by (simp add: recentSamples_def recent_loop_eq)
  also have "\<dots> = map (\<lambda>j. hs ! (?n - j)) (rev [1..<Suc ?c])"
  proof (rule map_cong [OF refl])
    fix j assume "j \<in> set (rev [1..<Suc ?c])"
    then have j: "1 \<le> j" "j \<le> window_size" "j \<le> ?n" using c by auto
    then have "(next_index t + window_size - j) mod window_size = (?n - j) mod window_size"
      using assms ring_index [of j ?n window_size] by (simp add: tracks_def)
    moreover have "samples t ! ((?n - j) mod window_size) = hs ! (?n - j)"
      by (rule tracks_nth [OF assms]) (use j in auto)
    ultimately show "samples t ! ((next_index t + window_size - j) mod window_size) = hs ! (?n - j)"
      by simp
  qed
  also have "\<dots> = window hs"
    by (rule nth_equalityI) (auto simp: window_def c rev_nth min_def nth_drop simp del: upt_Suc)
  finally show ?thesis .
qed

lemma tracks_full:
  assumes "tracks t hs" "window_size \<le> length hs"
  shows "window hs = rotate (length hs) (samples t)"
proof (rule nth_equalityI)
  show len: "length (window hs) = length (rotate (length hs) (samples t))"
    using assms by (simp add: window_def tracks_def)
  fix i assume "i < length (window hs)"
  then have i: "i < window_size" using len assms(1) by (simp add: tracks_def)
  have "window hs ! i = hs ! (length hs - window_size + i)"
    using assms(2) i by (simp add: window_def)
  also have "\<dots> = samples t ! ((length hs - window_size + i) mod window_size)"
    by (rule tracks_nth [OF assms(1), symmetric]) (use assms(2) i in auto)
  also have "(length hs - window_size + i) mod window_size = (length hs + i) mod window_size"
    using assms(2) le_mod_geq [of window_size "length hs + i"] by simp
  finally show "window hs ! i = rotate (length hs) (samples t) ! i"
    using assms(1) i by (simp add: nth_rotate tracks_def)
qed

lemma tracks_short:
  assumes "tracks t hs" "length hs < window_size"
  shows "take (valid_count t) (samples t) = hs"
  using assms by (intro nth_equalityI) (auto simp: tracks_def)

lemma mset_rotate_list: "mset (rotate n xs) = mset xs"
proof -
  have "mset (drop k xs @ take k xs) = mset (take k xs @ drop k xs)" for k
    by (simp only: mset_append add.commute)
  then show ?thesis by (simp add: rotate_drop_take)
qed

lemma mset_valid:
  assumes "tracks t hs"
  shows "mset (take (valid_count t) (samples t)) = mset (window hs)"
proof (cases "window_size \<le> length hs")
  case True
  then show ?thesis using assms tracks_full [OF assms True] by (simp add: tracks_def mset_rotate_list)
next
  case False
  then show ?thesis using tracks_short [OF assms] by (simp add: window_def)
qed

section \<open>The statistics of a window\<close>

definition window_stats :: "int list \<Rightarrow> latency_stats" where
  "window_stats w =
     (if w = [] then \<lparr>lastMs = 0, medianMs = 0, p95Ms = 0, maxMs = 0, sampleCount = 0\<rparr>
      else let s = sort w; n = length w
           in \<lparr>lastMs = last w,
               medianMs = (if odd n then s ! (n div 2) else c_div (s ! (n div 2 - 1) + s ! (n div 2)) 2),
               p95Ms = s ! p95_index n, maxMs = Max (set w), sampleCount = n\<rparr>)"

lemma last_sort: "xs \<noteq> [] \<Longrightarrow> last (sort xs) = Max (set (xs :: int list))"
proof -
  assume "xs \<noteq> []"
  then have "length (sort xs) \<noteq> 0" by simp
  then have ne: "sort xs \<noteq> []" by (simp only: length_0_conv simp_thms)
  have "last (sort xs) \<in> set xs" using last_in_set [OF ne] by simp
  moreover have "x \<le> last (sort xs)" if "x \<in> set xs" for x
  proof -
    have "x \<in> set (sort xs)" using that by simp
    then obtain i where "i < length (sort xs)" and i: "sort xs ! i = x"
      unfolding in_set_conv_nth by blast
    then have "i < length xs" by simp
    then have "sort xs ! i \<le> sort xs ! (length xs - 1)"
      by (intro sorted_nth_mono) auto
    then show ?thesis using i last_conv_nth [OF ne] by simp
  qed
  ultimately show ?thesis by (intro Max_eqI [symmetric]) auto
qed

lemma stats_of_window:
  assumes "tracks t hs"
  shows "tracker_stats t = window_stats (window hs)"
proof (cases "hs = []")
  case True
  then show ?thesis using assms by (simp add: tracks_def tracker_stats_def window_stats_def window_def)
next
  case False
  let ?n = "length hs"
  have c: "valid_count t = min window_size ?n" using assms by (simp add: tracks_def)
  have len: "length (window hs) = valid_count t" by (auto simp: window_def c)
  have ne: "window hs \<noteq> []" 
  proof -
    have "length (window hs) \<noteq> 0" using False unfolding len c by (simp add: window_size_def)
    then show ?thesis by simp
  qed
  have pos: "valid_count t \<noteq> 0" using ne len by (metis length_0_conv)
  have sorted: "sort (take (valid_count t) (samples t)) = sort (window hs)"
    using mset_valid [OF assms] by (metis sorted_list_of_multiset_mset)
  have "(next_index t + window_size - 1) mod window_size = (?n - 1) mod window_size"
    using assms ring_index [of 1 ?n window_size] False by (simp add: tracks_def Suc_le_eq window_size_def)
  then have "samples t ! ((next_index t + window_size - 1) mod window_size) = hs ! (?n - 1)"
    using assms False by (simp add: tracks_def window_size_def)
  also have "\<dots> = last (window hs)"
    using False by (simp add: last_conv_nth window_def)
  finally show ?thesis
    using False ne pos unfolding tracker_stats_def window_stats_def sorted len
    by (simp add: last_sort Let_def odd_iff_mod_2_eq_one)
qed

section \<open>The percentile\<close>

lemma excess_bits_step: "excess_bits p = (if p < 9007199254740992 then 0 else Suc (excess_bits (p div 2)))"
  by (subst excess_bits.simps) simp

lemma excess_bits_less: "p < 9007199254740992 \<Longrightarrow> excess_bits p = 0"
  by (subst excess_bits_step) simp

lemma excess_bits_half: "9007199254740992 \<le> p \<Longrightarrow> excess_bits p = Suc (excess_bits (p div 2))"
  by (subst excess_bits_step) simp

lemma excess_bits_range:
  "2 ^ (52 + k) \<le> p \<Longrightarrow> p < 2 ^ (53 + k) \<Longrightarrow> excess_bits p = k"
proof (induction k arbitrary: p)
  case 0
  then show ?case by (simp add: excess_bits_less)
next
  case (Suc k)
  have "(2::nat) ^ 53 \<le> 2 ^ (52 + Suc k)" by (rule power_increasing) simp_all
  then have "9007199254740992 \<le> p" using Suc.prems(1) by simp
  moreover have "2 ^ (52 + k) \<le> p div 2" "p div 2 < 2 ^ (53 + k)"
    using Suc.prems by (simp_all add: power_add)
  ultimately show ?case using Suc.IH [of "p div 2"] by (simp add: excess_bits_half)
qed

lemmas excess_bits_at =
  excess_bits_less
  excess_bits_range [of 1, simplified] excess_bits_range [of 2, simplified] excess_bits_range [of 3, simplified]
  excess_bits_range [of 4, simplified] excess_bits_range [of 5, simplified] excess_bits_range [of 6, simplified]

text \<open>Over all window sizes the rounded product has the ceiling of the exact one.\<close>

lemma qCeil_exact_0:
  "list_all (\<lambda>n. qCeil_095 n = (19 * n + 19) div 20) [1, 2, 3, 4, 5, 6, 7, 8]"
  by (simp add: qCeil_095_def double_095_def round_half_even_def excess_bits_at)

lemma qCeil_exact_1:
  "list_all (\<lambda>n. qCeil_095 n = (19 * n + 19) div 20) [9, 10, 11, 12, 13, 14, 15, 16]"
  by (simp add: qCeil_095_def double_095_def round_half_even_def excess_bits_at)

lemma qCeil_exact_2:
  "list_all (\<lambda>n. qCeil_095 n = (19 * n + 19) div 20) [17, 18, 19, 20, 21, 22, 23, 24]"
  by (simp add: qCeil_095_def double_095_def round_half_even_def excess_bits_at)

lemma qCeil_exact_3:
  "list_all (\<lambda>n. qCeil_095 n = (19 * n + 19) div 20) [25, 26, 27, 28, 29, 30, 31, 32]"
  by (simp add: qCeil_095_def double_095_def round_half_even_def excess_bits_at)

lemma qCeil_exact_4:
  "list_all (\<lambda>n. qCeil_095 n = (19 * n + 19) div 20) [33, 34, 35, 36, 37, 38, 39, 40]"
  by (simp add: qCeil_095_def double_095_def round_half_even_def excess_bits_at)

lemma qCeil_exact_5:
  "list_all (\<lambda>n. qCeil_095 n = (19 * n + 19) div 20) [41, 42, 43, 44, 45, 46, 47, 48]"
  by (simp add: qCeil_095_def double_095_def round_half_even_def excess_bits_at)

lemma qCeil_exact_6:
  "list_all (\<lambda>n. qCeil_095 n = (19 * n + 19) div 20) [49, 50, 51, 52, 53, 54, 55, 56]"
  by (simp add: qCeil_095_def double_095_def round_half_even_def excess_bits_at)

lemma qCeil_exact_7:
  "list_all (\<lambda>n. qCeil_095 n = (19 * n + 19) div 20) [57, 58, 59, 60, 61, 62, 63, 64]"
  by (simp add: qCeil_095_def double_095_def round_half_even_def excess_bits_at)

lemmas qCeil_exact_all = qCeil_exact_0 qCeil_exact_1 qCeil_exact_2 qCeil_exact_3 qCeil_exact_4 qCeil_exact_5 qCeil_exact_6 qCeil_exact_7

lemma upto_64: "1 \<le> n \<Longrightarrow> n \<le> 64 \<Longrightarrow>
    n \<in> set ([1, 2, 3, 4, 5, 6, 7, 8] @
      [9, 10, 11, 12, 13, 14, 15, 16] @
      [17, 18, 19, 20, 21, 22, 23, 24] @
      [25, 26, 27, 28, 29, 30, 31, 32] @
      [33, 34, 35, 36, 37, 38, 39, 40] @
      [41, 42, 43, 44, 45, 46, 47, 48] @
      [49, 50, 51, 52, 53, 54, 55, 56] @
      [57, 58, 59, 60, 61, 62, 63, 64])"
  for n :: nat
  by (simp, presburger)

lemma qCeil_exact: "1 \<le> n \<Longrightarrow> n \<le> 64 \<Longrightarrow> qCeil_095 n = (19 * n + 19) div 20"
  using qCeil_exact_all upto_64 [of n] by (simp only: list_all_iff set_append) blast

lemma p95_index_eq: "1 \<le> n \<Longrightarrow> n \<le> 64 \<Longrightarrow> p95_index n = (19 * n + 19) div 20 - 1"
  by (simp add: p95_index_def qCeil_exact)

lemma p95_index_bounds:
  assumes "1 \<le> n" "n \<le> 64"
  shows "p95_index n < n \<and> 95 * n \<le> 100 * (p95_index n + 1) \<and> 100 * p95_index n < 95 * n"
proof -
  define q where "q = (19 * n + 19) div 20"
  have "20 * q \<le> 19 * n + 19" "19 * n + 19 < 20 * q + 20" by (simp_all add: q_def)
  then have q: "1 \<le> q" "20 * q \<le> 19 * n + 19" "19 * n < 20 * q + 1" using assms by linarith+
  obtain r where r: "q = Suc r" using q(1) by (cases q) auto
  then have "p95_index n = r" using assms by (simp add: p95_index_eq q_def [symmetric])
  then show ?thesis using q assms by (simp add: r)
qed

lemma sorted_below:
  fixes s :: "int list"
  assumes "sorted s" "i < length s"
  shows "Suc i \<le> length (filter (\<lambda>x. x \<le> s ! i) s)"
    and "u < s ! i \<Longrightarrow> length (filter (\<lambda>x. x \<le> u) s) \<le> i"
proof -
  have split: "filter P s = filter P (take i s) @ filter P (drop i s)" for P
    by (metis append_take_drop_id filter_append)
  have t: "x \<le> s ! i" if "x \<in> set (take (Suc i) s)" for x
    using that assms by (auto simp: in_set_conv_nth less_Suc_eq_le intro: sorted_nth_mono)
  have d: "s ! i \<le> x" if "x \<in> set (drop i s)" for x
    using that assms by (auto simp: in_set_conv_nth intro: sorted_nth_mono)
  have "filter (\<lambda>x. x \<le> s ! i) (take (Suc i) s) = take (Suc i) s"
    using t by (simp add: filter_id_conv)
  moreover have "filter P s = filter P (take (Suc i) s) @ filter P (drop (Suc i) s)" for P
    by (metis append_take_drop_id filter_append)
  ultimately show "Suc i \<le> length (filter (\<lambda>x. x \<le> s ! i) s)"
    using assms(2) by simp
  show "length (filter (\<lambda>x. x \<le> u) s) \<le> i" if "u < s ! i"
  proof -
    have "filter (\<lambda>x. x \<le> u) (drop i s) = []"
      using d that by (fastforce simp: filter_empty_conv)
    then have "filter (\<lambda>x. x \<le> u) s = filter (\<lambda>x. x \<le> u) (take i s)"
      using split by simp
    then show ?thesis using length_filter_le [of "\<lambda>x. x \<le> u" "take i s"] by simp
  qed
qed

lemma length_filter_sort: "length (filter P (sort xs)) = length (filter P (xs :: int list))"
  by (metis mset_filter mset_sort size_mset)

section \<open>Properties\<close>

text \<open>The operations of a tracker and those of the plain history since the last clearing.\<close>

datatype tracker_op = Add int | Recent | Stats | Clear

datatype tracker_out = Done | Samples "int list" | Statistics latency_stats

fun tracker_step :: "tracker_op \<Rightarrow> latency_tracker \<Rightarrow> tracker_out \<times> latency_tracker" where
  "tracker_step (Add ms) t = (Done, addSample ms t)"
| "tracker_step Recent t = (Samples (recentSamples t), t)"
| "tracker_step Stats t = (Statistics (tracker_stats t), t)"
| "tracker_step Clear t = (Done, clear_tracker t)"

fun history_step :: "tracker_op \<Rightarrow> int list \<Rightarrow> tracker_out \<times> int list" where
  "history_step (Add ms) hs = (Done, hs @ [ms])"
| "history_step Recent hs = (Samples (window hs), hs)"
| "history_step Stats hs = (Statistics (window_stats (window hs)), hs)"
| "history_step Clear hs = (Done, [])"

interpretation tracker: simulation tracks tracker_step history_step "\<lambda>_ _. True"
proof
  fix t hs op
  assume "tracks t hs"
  then show "fst (tracker_step op t) = fst (history_step op hs)
      \<and> tracks (snd (tracker_step op t)) (snd (history_step op hs))"
    by (cases op) (simp_all add: tracks_add tracks_clear recent_window stats_of_window)
qed

lemma always_allowed: "ops_allowed (\<lambda>_ _. True) step ops s"
  by (induction ops arbitrary: s) simp_all

text \<open>C37: The ring buffer is the rolling window: over every sequence of samples, queries and clears,
  the snapshot is the last 64 samples since the last clear, oldest first, and the statistics are
  those of exactly these samples.\<close>

theorem tracker_refines_history:
  "fst (run_ops tracker_step ops new_tracker) = fst (run_ops history_step ops [])"
  using tracker.run [OF tracks_new always_allowed] by blast

text \<open>C38: The reported 95th percentile is the exact nearest-rank percentile, although the index is
  computed in double precision: the smallest sample of the window such that at least 95 percent of
  the samples are not above it.\<close>

theorem p95_nearest_rank:
  assumes "w \<noteq> []" and "length w \<le> 64"
  shows "p95Ms (window_stats w) \<in> set w
    \<and> 95 * length w \<le> 100 * length (filter (\<lambda>x. x \<le> p95Ms (window_stats w)) w)
    \<and> (\<forall>u < p95Ms (window_stats w). 100 * length (filter (\<lambda>x. x \<le> u) w) < 95 * length w)"
proof -
  let ?i = "p95_index (length w)" and ?s = "sort w"
  have n: "1 \<le> length w" using assms(1) by (cases w) auto
  have i: "?i < length ?s" "95 * length w \<le> 100 * (?i + 1)" "100 * ?i < 95 * length w"
    using p95_index_bounds [OF n assms(2)] by simp_all
  have v: "p95Ms (window_stats w) = ?s ! ?i" using assms(1) by (simp add: window_stats_def Let_def)
  have "?s ! ?i \<in> set ?s" by (rule nth_mem [OF i(1)])
  moreover have "Suc ?i \<le> length (filter (\<lambda>x. x \<le> ?s ! ?i) w)"
    using sorted_below(1) [OF sorted_sort i(1)] by (simp only: length_filter_sort)
  moreover have "length (filter (\<lambda>x. x \<le> u) w) \<le> ?i" if "u < ?s ! ?i" for u
    using sorted_below(2) [OF sorted_sort i(1) that] by (simp only: length_filter_sort)
  ultimately show ?thesis using i(2,3) unfolding v set_sort by fastforce
qed

theorem p95_nearest_rank_witness:
  "p95Ms (window_stats [30, 10, 20]) = 30
   \<and> 100 * length (filter (\<lambda>x. x \<le> 29) [30, 10, 20 :: int]) < 95 * length [30, 10, 20 :: int]"
proof -
  have v: "p95Ms (window_stats [30, 10, 20]) = 30"
    by (simp add: window_stats_def p95_index_eq Let_def)
  have ok: "[30, 10, 20 :: int] \<noteq> []" "length [30, 10, 20 :: int] \<le> 64" by simp_all
  have "(29 :: int) < p95Ms (window_stats [30, 10, 20])" by (simp add: v)
  then have "100 * length (filter (\<lambda>x. x \<le> 29) [30, 10, 20 :: int]) < 95 * length [30, 10, 20 :: int]"
    using p95_nearest_rank [OF ok] by blast
  then show ?thesis using v by blast
qed

end
