(* ===== verification/FeatureNegotiation.thy ===== *)
theory FeatureNegotiation
  imports Prelude
begin

text \<open>
  Negotiation of client features at login: \<open>FeatureSet\<close> in
  \<open>libcockatrice_protocol/libcockatrice/protocol/featureset.cpp\<close>, the server's settings in
  \<open>Servatrice::setRequiredFeatures\<close> and \<open>getAuthenticationStrictness\<close>, the list the client sends, and
  the beginning of \<open>cmdLogin\<close> in \<open>server_protocolhandler.cpp\<close>, up to where the rate limiter and the
  database take over. A feature list is a \<open>QMap\<close> from names to whether the feature is required. The
  conversion from UTF-8 is Qt's and a parameter. The theorems give the exact condition of every
  refusal and what it reports, and show that a client of the server's own version is refused for a
  missing feature only by a strict server that it sends no challenge response to.
\<close>

section \<open>Feature lists\<close>

type_synonym feature_list = "(string, bool) qmap"

definition default_features :: "string list" where
  "default_features =
     [''client_id'', ''client_ver'', ''feature_set'', ''user_ban_history'', ''room_chat_history'',
      ''client_warnings'', ''mod_log_lookup'', ''idle_client'', ''forgot_password'', ''websocket'',
      ''hashed_password_login'', ''challenge_response_auth'', ''2.7.0_min_version'', ''2.8.0_min_version'']"

definition initalizeFeatureList :: "feature_list \<Rightarrow> feature_list" where
  "initalizeFeatureList m = fold (\<lambda>name. qm_insert name False) default_features m"

definition enableRequiredFeature :: "string \<Rightarrow> feature_list \<Rightarrow> feature_list" where
  "enableRequiredFeature name m = (if qm_contains m name then qm_insert name True m else m)"

definition disableRequiredFeature :: "string \<Rightarrow> feature_list \<Rightarrow> feature_list" where
  "disableRequiredFeature name m = (if qm_contains m name then qm_insert name False m else m)"

definition addFeature :: "string \<Rightarrow> bool \<Rightarrow> feature_list \<Rightarrow> feature_list" where
  "addFeature name required m = qm_insert name required m"

fun missing_loop :: "feature_list \<Rightarrow> feature_list \<Rightarrow> feature_list \<Rightarrow> feature_list" where
  "missing_loop supplied [] missing = missing"
| "missing_loop supplied ((k, v) # required) missing =
     missing_loop supplied required (if qm_contains supplied k then missing else qm_insert k v missing)"

definition identifyMissingFeatures :: "feature_list \<Rightarrow> feature_list \<Rightarrow> feature_list" where
  "identifyMissingFeatures supplied required = missing_loop supplied required []"

fun isRequiredFeaturesMissing :: "feature_list \<Rightarrow> feature_list \<Rightarrow> bool" where
  "isRequiredFeaturesMissing supplied [] \<longleftrightarrow> False"
| "isRequiredFeaturesMissing supplied ((k, v) # required) \<longleftrightarrow>
     (if v \<and> qm_contains supplied k then True else isRequiredFeaturesMissing supplied required)"

section \<open>The server's setting and the check at login\<close>

text \<open>\<open>split(",", Qt::SkipEmptyParts)\<close>; the parts are not trimmed.\<close>

fun split_commas :: "string \<Rightarrow> string \<Rightarrow> string list" where
  "split_commas part [] = (if part = [] then [] else [part])"
| "split_commas part (c # cs) =
     (if c = CHR '','' then (if part = [] then [] else [part]) @ split_commas [] cs
      else split_commas (part @ [c]) cs)"

definition setRequiredFeatures :: "string \<Rightarrow> feature_list" where
  "setRequiredFeatures setting =
     fold enableRequiredFeature (split_commas [] setting) (initalizeFeatureList [])"

definition max_name_length :: nat where
  "max_name_length = 255"

text \<open>A name is cut at 255 bytes, converted, trimmed, and its inner white space collapsed.\<close>

fun collapse :: "string \<Rightarrow> string" where
  "collapse (c # d # cs) =
     (if is_space c \<and> is_space d then collapse (d # cs)
      else (if is_space c then CHR '' '' else c) # collapse (d # cs))"
| "collapse [c] = [if is_space c then CHR '' '' else c]"
| "collapse [] = []"

definition feature_name :: "(string \<Rightarrow> string) \<Rightarrow> string \<Rightarrow> string" where
  "feature_name fromUtf8 s = collapse (trim (fromUtf8 (take max_name_length s)))"

definition received_features :: "(string \<Rightarrow> string) \<Rightarrow> string list \<Rightarrow> feature_list" where
  "received_features fromUtf8 names =
     fold (\<lambda>name. qm_insert (feature_name fromUtf8 name) False) (take max_name_length names) []"

text \<open>The features reported with a refusal, or \<open>None\<close> when the login goes on.\<close>

definition feature_refusal :: "(string \<Rightarrow> string) \<Rightarrow> string list \<Rightarrow> feature_list \<Rightarrow> string list option" where
  "feature_refusal fromUtf8 names required =
     (let missing = identifyMissingFeatures (received_features fromUtf8 names) required
      in if missing \<noteq> [] \<and> isRequiredFeaturesMissing missing required then Some (map fst missing) else None)"

datatype authentication_strictness = AuthenticationLegacy | AuthenticationMixed | AuthenticationStrict

definition getAuthenticationStrictness :: "string \<Rightarrow> authentication_strictness" where
  "getAuthenticationStrictness setting =
     (if setting = ''strict'' then AuthenticationStrict
      else if setting = ''legacy'' then AuthenticationLegacy
      else AuthenticationMixed)"

definition requiresChallengeResponseAuth :: "string \<Rightarrow> bool" where
  "requiresChallengeResponseAuth setting \<longleftrightarrow> getAuthenticationStrictness setting = AuthenticationStrict"

text \<open>The fields of \<open>Command_Login\<close> that are read; a field that is not set reads as empty.\<close>

record login_command =
  lc_password :: "string option"
  lc_hashed_password :: "string option"
  lc_clientfeatures :: "string list"

definition too_long :: "string option \<Rightarrow> bool" where
  "too_long s \<longleftrightarrow> length (case s of None \<Rightarrow> [] | Some t \<Rightarrow> t) > max_name_length"

text \<open>A strict server demands a response to its challenge from a registered account.\<close>

definition lacks_challenge_response :: "string \<Rightarrow> bool \<Rightarrow> login_command \<Rightarrow> bool" where
  "lacks_challenge_response strictness registered cmd \<longleftrightarrow>
     requiresChallengeResponseAuth strictness \<and> registered \<and>
     (case lc_hashed_password cmd of None \<Rightarrow> True | Some h \<Rightarrow> \<not> starts_with ''$challenge$'' h)"

text \<open>
  The first part of \<open>cmdLogin\<close>: a refusal, or \<open>LoginContinues\<close>. \<open>logged_in\<close> is whether the session
  already has a user, \<open>registered\<close> the answer of the database about the user name.
\<close>

datatype login_check = LoginWrongPassword | LoginContextError | LoginUpdateRequired "string list" | LoginContinues

definition login_refusal ::
  "(string \<Rightarrow> string) \<Rightarrow> string \<Rightarrow> feature_list \<Rightarrow> bool \<Rightarrow> bool \<Rightarrow> login_command \<Rightarrow> login_check"
where
  "login_refusal fromUtf8 strictness required logged_in registered cmd =
     (if lc_password cmd \<noteq> None \<and> too_long (lc_password cmd) then LoginWrongPassword
      else if lc_password cmd = None \<and> too_long (lc_hashed_password cmd) then LoginContextError
      else if logged_in then LoginContextError
      else if lacks_challenge_response strictness registered cmd
      then LoginUpdateRequired [''challenge_response_auth'']
      else (case feature_refusal fromUtf8 (lc_clientfeatures cmd) required of
              Some reported \<Rightarrow> LoginUpdateRequired reported
            | None \<Rightarrow> LoginContinues))"

text \<open>What a client sends: the names of its own default list, in map order.\<close>

definition sent_features :: "string list" where
  "sent_features = map fst (initalizeFeatureList [])"

section \<open>Lemmas\<close>

lemma qm_contains_keys: "qm_contains m k \<longleftrightarrow> k \<in> fst ` set m"
  by (simp add: qm_contains_def map_of_eq_None_iff)

lemma keys_fold_insert:
  "fst ` set (fold (\<lambda>x. qm_insert (f x) v) xs m) = f ` set xs \<union> fst ` set m"
  by (induction xs arbitrary: m) (auto simp: fst_qm_insert)

lemma ok_fold_insert: "qm_ok m \<Longrightarrow> qm_ok (fold (\<lambda>x. qm_insert (f x) v) xs m)"
  by (induction xs arbitrary: m) simp_all

lemma initial_keys: "fst ` set (initalizeFeatureList []) = set default_features"
  using keys_fold_insert [of "\<lambda>name :: string. name" False default_features "[]"] by (simp add: initalizeFeatureList_def)

lemma initial_ok: "qm_ok (initalizeFeatureList [])"
  using ok_fold_insert [of "[]" "\<lambda>name :: string. name"] by (simp add: initalizeFeatureList_def)

lemma enable_keys: "fst ` set (enableRequiredFeature name m) = fst ` set m"
  by (auto simp: enableRequiredFeature_def fst_qm_insert qm_contains_keys)

lemma enable_ok: "qm_ok m \<Longrightarrow> qm_ok (enableRequiredFeature name m)"
  by (simp add: enableRequiredFeature_def)

lemma enable_all:
  "fst ` set (fold enableRequiredFeature names m) = fst ` set m"
  "qm_ok m \<Longrightarrow> qm_ok (fold enableRequiredFeature names m)"
  by (induction names arbitrary: m) (simp_all add: enable_keys enable_ok)

lemma enable_all_lookup:
  "map_of (fold enableRequiredFeature names m) k =
     (if k \<in> set names \<and> qm_contains m k then Some True else map_of m k)"
  by (induction names arbitrary: m) (auto simp: enableRequiredFeature_def qm_contains_def)

lemma initial_lookup: "map_of (initalizeFeatureList []) k = (if k \<in> set default_features then Some False else None)"
proof -
  have "map_of (fold (\<lambda>name. qm_insert name False) names m) k =
      (if k \<in> set names then Some False else map_of m k)" for names and m :: feature_list
    by (induction names arbitrary: m) auto
  then show ?thesis by (simp add: initalizeFeatureList_def)
qed

lemma setting_lookup:
  "map_of (setRequiredFeatures setting) k =
     (if k \<in> set default_features then Some (k \<in> set (split_commas [] setting)) else None)"
  by (auto simp: setRequiredFeatures_def enable_all_lookup initial_lookup qm_contains_def)

lemma setting_ok: "qm_ok (setRequiredFeatures setting)"
  by (simp add: setRequiredFeatures_def enable_all initial_ok)

lemma missing_loop_keys:
  "fst ` set (missing_loop supplied required missing) =
     {k \<in> fst ` set required. \<not> qm_contains supplied k} \<union> fst ` set missing"
  by (induction supplied required missing rule: missing_loop.induct) (auto simp: fst_qm_insert)

lemma missing_keys:
  "fst ` set (identifyMissingFeatures supplied required) = {k \<in> fst ` set required. \<not> qm_contains supplied k}"
  by (simp add: identifyMissingFeatures_def missing_loop_keys)

lemma isRequired_iff:
  "isRequiredFeaturesMissing supplied required \<longleftrightarrow> (\<exists>k. (k, True) \<in> set required \<and> qm_contains supplied k)"
  by (induction supplied required rule: isRequiredFeaturesMissing.induct) auto

lemma received_keys:
  "qm_contains (received_features fromUtf8 names) k \<longleftrightarrow>
     k \<in> feature_name fromUtf8 ` set (take max_name_length names)"
  unfolding qm_contains_keys received_features_def keys_fold_insert by simp

lemma feature_refusal_spec:
  "(feature_refusal fromUtf8 names (setRequiredFeatures setting) \<noteq> None \<longleftrightarrow>
      (\<exists>k \<in> set default_features \<inter> set (split_commas [] setting).
         k \<notin> feature_name fromUtf8 ` set (take 255 names)))
   \<and> (\<forall>reported. feature_refusal fromUtf8 names (setRequiredFeatures setting) = Some reported \<longrightarrow>
        set reported = set default_features - feature_name fromUtf8 ` set (take 255 names))"
proof -
  let ?req = "setRequiredFeatures setting"
  let ?sent = "feature_name fromUtf8 ` set (take 255 names)"
  let ?missing = "identifyMissingFeatures (received_features fromUtf8 names) ?req"
  have keys: "fst ` set ?req = set default_features"
    by (simp add: setRequiredFeatures_def enable_all initial_keys)
  have missing: "fst ` set ?missing = set default_features - ?sent"
    unfolding missing_keys keys received_keys max_name_length_def by auto
  have "(k, True) \<in> set ?req \<longleftrightarrow> k \<in> set default_features \<inter> set (split_commas [] setting)" for k
    unfolding map_of_qm_mem [OF setting_ok] setting_lookup by auto
  then have "isRequiredFeaturesMissing ?missing ?req \<longleftrightarrow>
      (\<exists>k \<in> set default_features \<inter> set (split_commas [] setting). k \<notin> ?sent)"
    unfolding isRequired_iff qm_contains_keys missing by blast
  moreover have "?missing \<noteq> []" if "isRequiredFeaturesMissing ?missing ?req"
    using that by (auto simp: isRequired_iff qm_contains_keys)
  moreover have "set (map fst ?missing) = set default_features - ?sent"
    using missing by simp
  ultimately show ?thesis
    unfolding feature_refusal_def Let_def by (auto split: if_splits)
qed

lemma not_subset_iff: "\<not> A \<subseteq> B \<longleftrightarrow> (\<exists>k \<in> A. k \<notin> B)"
  by blast

section \<open>Properties\<close>

text \<open>The names the client is taken to support, and the ones the setting enforces.\<close>

definition supported :: "(string \<Rightarrow> string) \<Rightarrow> login_command \<Rightarrow> string set" where
  "supported fromUtf8 cmd = feature_name fromUtf8 ` set (take 255 (lc_clientfeatures cmd))"

definition enforced :: "string \<Rightarrow> string set" where
  "enforced setting = set default_features \<inter> set (split_commas [] setting)"

lemma feature_refusal_cases:
  "case feature_refusal fromUtf8 (lc_clientfeatures cmd) (setRequiredFeatures setting) of
     None \<Rightarrow> enforced setting \<subseteq> supported fromUtf8 cmd
   | Some reported \<Rightarrow> \<not> enforced setting \<subseteq> supported fromUtf8 cmd \<and> set reported = set default_features - supported fromUtf8 cmd"
  using feature_refusal_spec [of fromUtf8 "lc_clientfeatures cmd" setting] unfolding not_subset_iff [symmetric]
  by (auto simp: supported_def enforced_def split: option.split)

text \<open>C39: What becomes of a login before the rate limiter and the database are asked. It is refused
  for missing features in exactly two cases: a strict server finds no challenge response for a
  registered account, and reports just that; or a feature that the server's setting lists, and that
  the server knows, is not among the first 255 names the client sent, and the reply names every known
  feature the client lacks. Names in the setting that are unknown, or carry a space after the comma,
  are never enforced. The other refusals are those of an overlong credential and of a session that is
  logged in.\<close>

theorem login_refusal_exact:
  "case login_refusal fromUtf8 strictness (setRequiredFeatures setting) logged_in registered cmd of
     LoginWrongPassword \<Rightarrow> lc_password cmd \<noteq> None \<and> too_long (lc_password cmd)
   | LoginContextError \<Rightarrow>
       (if lc_password cmd = None then too_long (lc_hashed_password cmd) \<or> logged_in
        else \<not> too_long (lc_password cmd) \<and> logged_in)
   | LoginUpdateRequired reported \<Rightarrow>
       \<not> logged_in \<and> \<not> too_long (if lc_password cmd = None then lc_hashed_password cmd else lc_password cmd) \<and>
       (if lacks_challenge_response strictness registered cmd
        then reported = [''challenge_response_auth'']
        else \<not> enforced setting \<subseteq> supported fromUtf8 cmd \<and>
             set reported = set default_features - supported fromUtf8 cmd)
   | LoginContinues \<Rightarrow>
       \<not> logged_in \<and> \<not> too_long (if lc_password cmd = None then lc_hashed_password cmd else lc_password cmd) \<and>
       \<not> lacks_challenge_response strictness registered cmd \<and> enforced setting \<subseteq> supported fromUtf8 cmd"
  using feature_refusal_cases [of setting fromUtf8 cmd]
  by (auto simp: login_refusal_def split: option.splits)

lemma plain_names: "list_all (\<lambda>name. length name \<le> 255 \<and> collapse (trim name) = name) default_features"
  by (simp add: default_features_def trim_def is_space_def char_between_def)

lemma feature_name_default:
  "fromUtf8 name = name \<Longrightarrow> name \<in> set default_features \<Longrightarrow> feature_name fromUtf8 name = name"
  using plain_names by (auto simp: feature_name_def list_all_iff max_name_length_def)

lemma sent_few: "length sent_features \<le> 255"
proof -
  have "length (fold (\<lambda>name. qm_insert name False) names m) \<le> length m + length names"
    for names and m :: feature_list
  proof (induction names arbitrary: m)
    case (Cons n names)
    have "length (qm_insert n False m) \<le> Suc (length m)"
      by (induction n False m rule: qm_insert.induct) auto
    then show ?case using Cons [of "qm_insert n False m"] by simp
  qed simp
  from this [of default_features "[]"] show ?thesis
    by (simp add: sent_features_def initalizeFeatureList_def) (simp add: default_features_def)
qed

text \<open>C40: A client of the server's own version is never refused for a missing feature, whatever the
  administrator writes into the list of required features, unless a strict server finds no challenge
  response for a registered account: the client sends every name the server knows, and none of them
  is changed by the truncation, trimming and conversion on the way.\<close>

theorem same_version_accepted:
  assumes "\<forall>name \<in> set default_features. fromUtf8 name = name" and "lc_clientfeatures cmd = sent_features"
    and "\<not> lacks_challenge_response strictness registered cmd"
  shows "login_refusal fromUtf8 strictness (setRequiredFeatures setting) logged_in registered cmd \<noteq> LoginUpdateRequired reported"
proof -
  have "feature_name fromUtf8 ` set sent_features = set default_features"
    using assms(1) feature_name_default initial_keys by (auto simp: sent_features_def image_image)
  moreover have "take 255 sent_features = sent_features" using sent_few by simp
  ultimately have "enforced setting \<subseteq> supported fromUtf8 cmd" by (auto simp: enforced_def supported_def assms(2))
  then have "feature_refusal fromUtf8 (lc_clientfeatures cmd) (setRequiredFeatures setting) = None"
    using feature_refusal_cases [of setting fromUtf8 cmd] by (auto split: option.splits)
  then show ?thesis by (simp add: login_refusal_def assms(3))
qed

definition ex_login :: "string option \<Rightarrow> string list \<Rightarrow> login_command" where
  "ex_login h fs = \<lparr>lc_password = None, lc_hashed_password = h, lc_clientfeatures = fs\<rparr>"

text \<open>The same login without a credential, or with one feature only, is refused.\<close>

theorem same_version_accepted_witness:
  "login_refusal (\<lambda>s. s) ''strict'' (setRequiredFeatures ''websocket,warp'') False True
       (ex_login (Some ''$challenge$x$y'') sent_features) \<noteq> LoginUpdateRequired [''challenge_response_auth''] \<and>
   login_refusal (\<lambda>s. s) ''strict'' (setRequiredFeatures ''websocket,warp'') False True (ex_login None sent_features)
     = LoginUpdateRequired [''challenge_response_auth'']"
proof
  have "\<not> lacks_challenge_response ''strict'' True (ex_login (Some ''$challenge$x$y'') sent_features)"
    by (simp add: lacks_challenge_response_def ex_login_def)
  then show "login_refusal (\<lambda>s. s) ''strict'' (setRequiredFeatures ''websocket,warp'') False True
       (ex_login (Some ''$challenge$x$y'') sent_features) \<noteq> LoginUpdateRequired [''challenge_response_auth'']"
    by (intro same_version_accepted) (simp_all add: ex_login_def)
  show "login_refusal (\<lambda>s. s) ''strict'' (setRequiredFeatures ''websocket,warp'') False True (ex_login None sent_features)
     = LoginUpdateRequired [''challenge_response_auth'']"
    by (simp add: login_refusal_def ex_login_def too_long_def lacks_challenge_response_def
        requiresChallengeResponseAuth_def getAuthenticationStrictness_def)
qed

text \<open>A setting refuses a client that sends one name only.\<close>

lemma one_feature_refused:
  "login_refusal (\<lambda>s. s) ''mixed'' (setRequiredFeatures ''websocket,warp'') False True (ex_login None [''client_id'']) \<noteq> LoginContinues"
proof -
  have "''websocket'' \<in> enforced ''websocket,warp''" by (simp add: enforced_def default_features_def)
  moreover have "''websocket'' \<notin> supported (\<lambda>s. s) (ex_login None [''client_id''])"
    by (simp add: supported_def ex_login_def feature_name_def trim_def is_space_def char_between_def max_name_length_def)
  ultimately show ?thesis
    using feature_refusal_cases [of "''websocket,warp''" "\<lambda>s. s" "ex_login None [''client_id'']"]
    by (auto simp: login_refusal_def split: option.splits)
qed

text \<open>A space after the comma switches the requirement off without a message.\<close>

lemma spaced_name_not_enforced:
  "setRequiredFeatures ''client_id, websocket'' = setRequiredFeatures ''client_id''"
proof -
  have "split_commas [] ''client_id, websocket'' = [''client_id'', '' websocket'']"
    "split_commas [] ''client_id'' = [''client_id'']" by simp_all
  moreover have "enableRequiredFeature '' websocket'' m = m"
    if "fst ` set m = set default_features" for m
    using that by (simp add: enableRequiredFeature_def qm_contains_keys) (simp add: default_features_def)
  ultimately show ?thesis
    by (simp add: setRequiredFeatures_def enable_keys initial_keys)
qed

end
