(* ===== verification/CardMove.thy ===== *)
theory CardMove
  imports MoveEvents
begin

text \<open>
  Moving cards between the zones of a game: \<open>moveCard\<close>, \<open>processMoveCard\<close> and what they call in
  \<open>server_abstract_player.cpp\<close>, with \<open>moveCardInRow\<close> and \<open>fixFreeSpaces\<close> of \<open>server_cardzone.cpp\<close> and
  the events put into a \<open>GameEventStorage\<close>. A game holds the card store, the zones under their
  pointers (the name of the zone and the id of its player), the players and the events collected so
  far. \<open>None\<close> is a null pointer the code would dereference.

  The code is recursive: moving a card away unattaches the cards attached to it, which moves them
  within their own zone, and a zone with coordinates closes its gaps by moves within a row. These
  inner moves never unattach and the innermost never close gaps, so the operations are built in
  layers; \<open>CardMoveSafe\<close> shows that each layer is \<open>moveCard\<close> itself.
\<close>

section \<open>The game\<close>

datatype arrow_target = CardItem addr | ParticipantItem int

record server_arrow =
  arrow_start :: addr
  arrow_target :: arrow_target

record server_player =
  nextCardId :: int
  is_judge :: bool
  user_name :: string
  has_conceded :: bool
  arrows :: "(int, server_arrow) qmap"
  lastDrawList :: "int list"

record create_token_event =
  ct_zone_name :: string
  ct_card_id :: int
  ct_face_down :: bool
  ct_card_name :: string
  ct_provider_id :: string
  ct_keywords :: "string list"
  ct_texts :: "string list"
  ct_mana :: "(string \<times> int) option"
  ct_color :: string
  ct_pt :: string
  ct_annotation :: string
  ct_destroy :: bool
  ct_x :: int
  ct_y :: int

datatype game_event =
    EvMoveCard move_event
  | EvDestroyCard string int
  | EvCreateToken create_token_event
  | EvAttachCard string int "(int \<times> string \<times> int) option"
  | EvDeleteArrow int
  | EvSetCardAttr string "int option" card_attribute string
  | EvRevealCards string "nat option" server_info_card
  | EvDumpZone int string nat

record queued_event =
  q_event :: game_event
  q_player :: int
  q_private :: bool
  q_others :: bool

datatype move_context = ContextMoveCard | ContextUndoDraw

text \<open>
  \<open>card_db\<close> answers the query of \<open>setAttribute\<close> to the card database, and \<open>hash_order\<close> is the order
  in which a \<open>QSet\<close> is iterated; no operation changes either.
\<close>

record card_game =
  cards_at :: card_store
  zones_at :: "zone_ref \<Rightarrow> cardzone option"
  players_at :: "(int, server_player) qmap"
  ruled_game :: bool
  game_started :: bool
  card_db :: "card_ref \<Rightarrow> bool \<Rightarrow> bool"
  hash_order :: "(int \<times> int) list \<Rightarrow> (int \<times> int) list"
  event_list :: "queued_event list"
  private_player :: int
  event_context :: "move_context option"
  deleted_later :: "addr list"

abbreviation card_of :: "card_game \<Rightarrow> addr \<Rightarrow> server_card" where
  "card_of g c \<equiv> cards_at g c"

definition zone_at :: "card_game \<Rightarrow> zone_ref \<Rightarrow> cardzone" where
  "zone_at g r = the (zones_at g r)"

definition set_zone :: "zone_ref \<Rightarrow> cardzone \<Rightarrow> card_game \<Rightarrow> card_game" where
  "set_zone r z g = g\<lparr>zones_at := (zones_at g)(r := Some z)\<rparr>"

definition set_cards :: "card_store \<Rightarrow> card_game \<Rightarrow> card_game" where
  "set_cards h g = g\<lparr>cards_at := h\<rparr>"

definition upd_card :: "addr \<Rightarrow> (server_card \<Rightarrow> server_card) \<Rightarrow> card_game \<Rightarrow> card_game" where
  "upd_card c f g = set_cards ((cards_at g)(c := f (cards_at g c))) g"

definition player_at :: "card_game \<Rightarrow> int \<Rightarrow> server_player" where
  "player_at g i = the (map_of (players_at g) i)"

definition upd_player :: "int \<Rightarrow> (server_player \<Rightarrow> server_player) \<Rightarrow> card_game \<Rightarrow> card_game" where
  "upd_player i f g = g\<lparr>players_at := map (\<lambda>(j, p). (j, if j = i then f p else p)) (players_at g)\<rparr>"

definition newCardId :: "int \<Rightarrow> card_game \<Rightarrow> int \<times> card_game" where
  "newCardId i g = (nextCardId (player_at g i), upd_player i (\<lambda>p. p\<lparr>nextCardId := nextCardId p + 1\<rparr>) g)"

text \<open>\<open>enqueueGameEvent\<close> to everybody, to the private player and to the others.\<close>

definition enqueue :: "game_event \<Rightarrow> int \<Rightarrow> card_game \<Rightarrow> card_game" where
  "enqueue e i g = g\<lparr>event_list := event_list g @ [\<lparr>q_event = e, q_player = i, q_private = True, q_others = True\<rparr>]\<rparr>"

definition enqueue_private :: "game_event \<Rightarrow> int \<Rightarrow> int \<Rightarrow> card_game \<Rightarrow> card_game" where
  "enqueue_private e i priv g =
     (let g1 = g\<lparr>event_list := event_list g @ [\<lparr>q_event = e, q_player = i, q_private = True, q_others = False\<rparr>]\<rparr>
      in if priv \<noteq> - 1 then g1\<lparr>private_player := priv\<rparr> else g1)"

definition enqueue_others :: "game_event \<Rightarrow> int \<Rightarrow> card_game \<Rightarrow> card_game" where
  "enqueue_others e i g =
     g\<lparr>event_list := event_list g @ [\<lparr>q_event = e, q_player = i, q_private = False, q_others = True\<rparr>]\<rparr>"

definition makeCreateTokenEvent :: "string \<Rightarrow> server_card \<Rightarrow> int \<Rightarrow> int \<Rightarrow> bool \<Rightarrow> create_token_event" where
  "makeCreateTokenEvent zn c x y revealFacedownInfo =
     (let shown = \<not> facedown c \<or> revealFacedownInfo in
      \<lparr>ct_zone_name = zn, ct_card_id = cid c, ct_face_down = facedown c,
       ct_card_name = (if shown then ref_name (cardRef c) else []),
       ct_provider_id = (if shown then ref_provider (cardRef c) else []),
       ct_keywords = (if shown then tokenAbilityKeywords c else []),
       ct_texts = (if shown then tokenAbilityTexts c else []),
       ct_mana = (if shown \<and> destroyOnZoneChange c then Some (tokenBaseManaCost c, tokenBaseManaValue c) else None),
       ct_color = color c, ct_pt = ptString c, ct_annotation = annotation c,
       ct_destroy = destroyOnZoneChange c, ct_x = x, ct_y = y\<rparr>)"

section \<open>Changing an attribute of a card in a zone\<close>

fun set_all_cards :: "(card_ref \<Rightarrow> bool \<Rightarrow> bool) \<Rightarrow> card_attribute \<Rightarrow> string \<Rightarrow> addr list \<Rightarrow> string \<Rightarrow> card_store \<Rightarrow> string \<times> card_store"
where
  "set_all_cards db attr v [] r h = (r, h)"
| "set_all_cards db attr v (c # cs) r h =
     (case setAttributeAll db attr v True (h c) of (r', k) \<Rightarrow> set_all_cards db attr v cs r' (h(c := k)))"

text \<open>
  \<open>me\<close> is the player whose method is called; the zone is looked up among the zones of that player.
  The result of \<open>setAttribute\<close> is never null for a value that is not.
\<close>

definition setCardAttrHelper ::
  "int \<Rightarrow> int \<Rightarrow> string \<Rightarrow> int \<Rightarrow> card_attribute \<Rightarrow> string \<Rightarrow> addr option \<Rightarrow> card_game \<Rightarrow> response \<times> card_game"
where
  "setCardAttrHelper me targetPlayer zoneName cardId attr v unzoned g =
     (case zones_at g (zoneName, me) of
        None \<Rightarrow> (RespNameNotFound, g)
      | Some z \<Rightarrow>
          if \<not> has_coords z then (RespContextError, g)
          else if cardId = - 1 then
            (case set_all_cards (card_db g) attr v (zcards z) [] (cards_at g) of
               (r, h) \<Rightarrow> (RespOk, enqueue (EvSetCardAttr (zone_name z) None attr r) targetPlayer (set_cards h g)))
          else
            (case (case unzoned of
                     Some c \<Rightarrow> Some c
                   | None \<Rightarrow> map_option snd (fst (getCard cardId False (cards_at g) z))) of
               None \<Rightarrow> (RespNameNotFound, g)
             | Some c \<Rightarrow>
                 (case setAttributeAll (card_db g) attr v False (card_of g c) of
                    (r, k) \<Rightarrow> (RespOk, enqueue (EvSetCardAttr (zone_name z) (Some cardId) attr r) targetPlayer
                                         (upd_card c (\<lambda>_. k) g)))))"

section \<open>The steps of moving one card\<close>

text \<open>\<open>attachedCard->getZone()->getPlayer()->unattachCard(\<dots>)\<close> for every attached card.\<close>

fun unattach_all :: "(int \<Rightarrow> addr \<Rightarrow> card_game \<Rightarrow> card_game option) \<Rightarrow> addr list \<Rightarrow> card_game \<Rightarrow> card_game option" where
  "unattach_all unattach [] g = Some g"
| "unattach_all unattach (a # as) g =
     (case zone (card_of g a) of
        None \<Rightarrow> None
      | Some r \<Rightarrow> (case unattach (snd r) a g of None \<Rightarrow> None | Some g' \<Rightarrow> unattach_all unattach as g'))"

definition drop_links ::
  "(int \<Rightarrow> addr \<Rightarrow> card_game \<Rightarrow> card_game option) \<Rightarrow> zone_ref \<Rightarrow> zone_ref \<Rightarrow> addr \<Rightarrow> card_game \<Rightarrow> card_game option"
where
  "drop_links unattach s t c g =
     (if fst s \<noteq> fst t then
        let g1 = (if parentCard (card_of g c) \<noteq> None then set_cards (setParentCard c None (cards_at g)) g else g)
        in unattach_all unattach (attachedCards (card_of g1 c)) g1
      else Some g)"

definition delete_arrow :: "int \<Rightarrow> int \<Rightarrow> card_game \<Rightarrow> card_game" where
  "delete_arrow i j g = upd_player i (\<lambda>p. p\<lparr>arrows := qm_remove j (arrows p)\<rparr>) (enqueue (EvDeleteArrow j) i g)"

definition arrows_touching :: "addr \<Rightarrow> server_player \<Rightarrow> int list" where
  "arrows_touching c p =
     map fst (filter (\<lambda>(j, a). arrow_start a = c \<or> arrow_target a = CardItem c) (arrows p))"

definition delete_arrows :: "addr \<Rightarrow> card_game \<Rightarrow> card_game" where
  "delete_arrows c g =
     fold (\<lambda>i g. fold (delete_arrow i) (arrows_touching c (player_at g i)) g) (map fst (players_at g)) g"

text \<open>The card that goes on, if any: the moved one, the one stashed in a destroyed token, or none.\<close>

definition destroy_moved :: "int \<Rightarrow> zone_ref \<Rightarrow> zone_ref \<Rightarrow> addr \<Rightarrow> card_game \<Rightarrow> addr option \<times> card_game" where
  "destroy_moved me s t c g =
     (if shouldDestroyOnMove (card_of g c) (fst s) (fst t) then
        let g1 = enqueue (EvDestroyCard (fst s) (cid (card_of g c) mod 2 ^ 32)) me g in
        (case takeStashedCard c (cards_at g1) of
           (Some d, h) \<Rightarrow>
             (case newCardId me (set_cards h g1) of
                (i, g2) \<Rightarrow>
                  let g3 = upd_card d (\<lambda>k. k\<lparr>cid := i\<rparr>) g2;
                      e = makeCreateTokenEvent (fst s) (card_of g3 d) (coord_x (card_of g3 c)) (coord_y (card_of g3 c)) False
                  in (Some d, (enqueue (EvCreateToken e) me g3)\<lparr>deleted_later := deleted_later g3 @ [c]\<rparr>))
         | (None, h) \<Rightarrow> (None, (set_cards h g1)\<lparr>deleted_later := deleted_later g1 @ [c]\<rparr>))
      else (Some c, g))"

text \<open>The column the card gets in the target zone, and the game with the card in it.\<close>

definition place_card ::
  "zone_ref \<Rightarrow> int \<Rightarrow> int \<Rightarrow> bool \<Rightarrow> bool \<Rightarrow> int \<Rightarrow> addr \<Rightarrow> card_game \<Rightarrow> (int \<times> card_game) option"
where
  "place_card t x y isReversed faceDown xIndex c g =
     (let tz = zone_at g t;
          newX = (if isReversed then int (length (zcards tz)) - x + xIndex else x + xIndex);
          (newX, g1) =
            (if has_coords tz
             then (getFreeGridColumn (cards_at g) tz newX y (getName (cards_at g) c) (faceDown \<or> y \<noteq> 2), g)
             else (newX, upd_card c (resetState (fst t = ''stack'')) g))
      in case insertCard c newX y (cards_at g1) tz of
           None \<Rightarrow> None
         | Some (h, z) \<Rightarrow> Some (newX, set_zone t z (set_cards h g1)))"

definition extend_looked_at :: "zone_ref \<Rightarrow> bool \<Rightarrow> int \<Rightarrow> card_game \<Rightarrow> card_game" where
  "extend_looked_at t known newX g =
     (let tz = zone_at g t; n = cardsBeingLookedAt tz in
      if ztype tz = HiddenZone \<and> n \<ge> newX
      then set_zone t (setCardsBeingLookedAt (if known then n + 1 else newX) tz) g
      else g)"

definition renumber :: "zone_ref \<Rightarrow> zone_ref \<Rightarrow> bool \<Rightarrow> addr \<Rightarrow> card_game \<Rightarrow> card_game" where
  "renumber s t faceDown c g =
     (if (faceDown \<and> s \<noteq> t) \<or> snd t \<noteq> snd s
      then (case newCardId (snd t) g of (i, g') \<Rightarrow> upd_card c (\<lambda>k. k\<lparr>cid := i\<rparr>) g')
      else g)"

text \<open>\<open>Server_Player::onCardBeingMoved\<close> after the one of \<open>Server_AbstractPlayer\<close>.\<close>

fun lastIndexOf :: "'a \<Rightarrow> 'a list \<Rightarrow> nat option" where
  "lastIndexOf x [] = None"
| "lastIndexOf x (y # ys) =
     (case lastIndexOf x ys of Some i \<Rightarrow> Some (Suc i) | None \<Rightarrow> if x = y then Some 0 else None)"

definition forget_draws :: "int \<Rightarrow> zone_ref \<Rightarrow> zone_ref \<Rightarrow> bool \<Rightarrow> int \<Rightarrow> card_game \<Rightarrow> card_game" where
  "forget_draws me s t undoingDraw cardId g =
     (if fst s = ''hand'' \<and> fst t \<noteq> ''hand'' \<and> \<not> undoingDraw then
        (case lastIndexOf cardId (lastDrawList (player_at g me)) of
           None \<Rightarrow> g
         | Some i \<Rightarrow> upd_player me (\<lambda>p. p\<lparr>lastDrawList := drop i (lastDrawList p)\<rparr>) g)
      else g)"

definition onCardBeingMoved ::
  "int \<Rightarrow> move_card_struct \<Rightarrow> zone_ref \<Rightarrow> zone_ref \<Rightarrow> bool \<Rightarrow> card_game \<Rightarrow> card_game"
where
  "onCardBeingMoved me m s t undoingDraw g =
     (let c = moved_card m;
          g1 = (if cm_tapped (moved_request m)
                then snd (setCardAttrHelper me (snd t) (fst t) (cid (card_of g c)) AttrTapped ''1'' None g) else g);
          g2 = (if cm_pt (moved_request m) \<noteq> []
                then snd (setCardAttrHelper me (snd t) (fst t) (cid (card_of g1 c)) AttrPT (cm_pt (moved_request m)) None g1)
                else g1);
          prior = annotation (card_of g2 c);
          g3 = (if snd s \<noteq> snd t \<and> \<not> contains_sub ''Owner:'' prior \<and> \<not> ruled_game g2
                then
                  let owner = ''Owner: '' @ user_name (player_at g2 (snd s));
                      new = (if prior = [] then owner else owner @ [CHR 0x0A, CHR 0x0A] @ prior)
                  in snd (setCardAttrHelper me (snd t) (fst t) (cid (card_of g2 c)) AttrAnnotation new (Some c) g2)
                else g2)
      in forget_draws me s t undoingDraw (cid (card_of g3 c)) g3)"


section \<open>Moving one card\<close>

definition announce_move ::
  "int \<Rightarrow> zone_ref \<Rightarrow> zone_ref \<Rightarrow> move_facts \<Rightarrow> card_game \<Rightarrow> card_game"
where
  "announce_move me s t f g =
     (case move_events f of
        (private, others) \<Rightarrow> enqueue_others (EvMoveCard others) me (enqueue_private (EvMoveCard private) me me g))"

text \<open>
  From the card in its new column to the end of the step: \<open>m\<close> is the request, \<open>c\<close> the card that
  moved, which is not \<open>moved_card m\<close> when a token was replaced by its stashed card.
\<close>

definition finish_move ::
  "int \<Rightarrow> zone_ref \<Rightarrow> zone_ref \<Rightarrow> int \<Rightarrow> bool \<Rightarrow> bool \<Rightarrow> move_card_struct \<Rightarrow> int \<Rightarrow> bool \<Rightarrow> bool \<Rightarrow> int \<Rightarrow> addr \<Rightarrow>
   card_game \<Rightarrow> card_game"
where
  "finish_move me s t y isReversed undoingDraw m position lookedAt faceDown newX c g =
     (let known = isReversed \<or> (lookedAt \<and> \<not> facedown (card_of g c));
          g1 = extend_looked_at t known newX g;
          wasFaceDown = facedown (card_of g1 c);
          oldId = cid (card_of g1 c);
          g2 = renumber s t faceDown c g1;
          g3 = upd_card c (\<lambda>k. k\<lparr>facedown := faceDown\<rparr>) g2;
          f = \<lparr>fact_ruled = ruled_game g3, fact_start = zone_at g3 s, fact_target = zone_at g3 t, fact_y = y,
               fact_x = newX, fact_position = position, fact_looked_at = lookedAt, fact_known = known,
               fact_was_face_down = wasFaceDown, fact_face_down = faceDown, fact_old_id = oldId,
               fact_new_id = cid (card_of g3 c), fact_name = getName (cards_at g3) c,
               fact_provider = ref_provider (cardRef (card_of g3 c))\<rparr>
      in onCardBeingMoved me m s t undoingDraw (announce_move me s t f g3))"

text \<open>What the loop over the cards carries besides the game.\<close>

record move_progress =
  x_index :: int
  reveal_start :: bool
  reveal_target :: bool

definition take_out :: "zone_ref \<Rightarrow> addr \<Rightarrow> card_game \<Rightarrow> (int \<times> bool \<times> card_game) option" where
  "take_out s c g =
     (if c \<in> set (zcards (zone_at g s)) then
        (case removeCard c (cards_at g) (zone_at g s) of
           (position, lookedAt, h, z) \<Rightarrow> Some (position, lookedAt, set_zone s z (set_cards h g)))
      else None)"

definition processMoveCard ::
  "(int \<Rightarrow> addr \<Rightarrow> card_game \<Rightarrow> card_game option) \<Rightarrow> int \<Rightarrow> zone_ref \<Rightarrow> zone_ref \<Rightarrow> int \<Rightarrow> int \<Rightarrow> bool \<Rightarrow> bool \<Rightarrow>
   move_card_struct \<Rightarrow> move_progress \<times> card_game \<Rightarrow> (move_progress \<times> card_game) option"
where
  "processMoveCard unattach me s t x y isReversed undoingDraw m = (\<lambda>(p, g).
     (case take_out s (moved_card m) g of
        None \<Rightarrow> None
      | Some (position, lookedAt, g1) \<Rightarrow>
          (case drop_links unattach s t (moved_card m) g1 of
             None \<Rightarrow> None
           | Some g2 \<Rightarrow>
               let g3 = (if s \<noteq> t then delete_arrows (moved_card m) g2 else g2) in
               (case destroy_moved me s t (moved_card m) g3 of
                  (None, g4) \<Rightarrow> Some (p, g4)
                | (Some c, g4) \<Rightarrow>
                    let xIndex = x_index p + 1;
                        faceDown = shouldBeFaceDown (moved_request m) (card_of g4 (moved_card m)) (zone_at g4 s) (zone_at g4 t)
                    in (case place_card t x y isReversed faceDown xIndex c g4 of
                          None \<Rightarrow> None
                        | Some (newX, g5) \<Rightarrow>
                            Some (p\<lparr>x_index := xIndex,
                                    reveal_start := reveal_start p \<or> moved_position m = 0,
                                    reveal_target := reveal_target p \<or> newX = 0\<rparr>,
                                  finish_move me s t y isReversed undoingDraw m position lookedAt faceDown newX c g5))))))"

fun process_all :: "('m \<Rightarrow> 'p \<Rightarrow> 'p option) \<Rightarrow> 'm list \<Rightarrow> 'p \<Rightarrow> 'p option" where
  "process_all step [] p = Some p"
| "process_all step (m # ms) p = (case step m p of None \<Rightarrow> None | Some p' \<Rightarrow> process_all step ms p')"

section \<open>Moving cards\<close>

text \<open>The loop that checks the requests: \<open>seen\<close> are the ids so far, \<open>acc\<close> the set of accepted moves.\<close>

fun collect_moves ::
  "card_game \<Rightarrow> zone_ref \<Rightarrow> zone_ref \<Rightarrow> int \<Rightarrow> int \<Rightarrow> int list \<Rightarrow> move_card_struct list \<Rightarrow> card_to_move list \<Rightarrow>
   response + move_card_struct list"
where
  "collect_moves g s t x y seen acc [] = Inr acc"
| "collect_moves g s t x y seen acc (m # ms) =
     (if cm_card_id m \<in> set seen then collect_moves g s t x y seen acc ms
      else
        let seen1 = cm_card_id m # seen in
        (case fst (getCard (cm_card_id m) False (cards_at g) (zone_at g s)) of
           None \<Rightarrow> Inl RespNameNotFound
         | Some (position, c) \<Rightarrow>
             if parentCard (card_of g c) \<noteq> None \<and> fst t = ''table''
             then collect_moves g s t x y seen1 acc ms
             else if attachedCards (card_of g c) \<noteq> [] \<and> \<not> isColumnEmpty (zone_at g t) x y
             then collect_moves g s t x y seen1 acc ms
             else collect_moves g s t x y seen1 (set_insert (move_struct (cards_at g) c position m) acc) ms))"

text \<open>Reading the top card dereferences the zone pointer of the card it is attached to.\<close>

definition revealTopCardIfNeeded :: "int \<Rightarrow> zone_ref \<Rightarrow> card_game \<Rightarrow> card_game option" where
  "revealTopCardIfNeeded me r g =
     (let z = zone_at g r in
      case zcards z of
        [] \<Rightarrow> Some g
      | c # _ \<Rightarrow>
          if alwaysRevealTopCard z
          then map_option (\<lambda>i. enqueue (EvRevealCards (zone_name z) None i) me g) (getInfo (cards_at g) (card_of g c))
          else if alwaysLookAtTopCard z
          then map_option (\<lambda>i. enqueue_private (EvRevealCards (zone_name z) (Some 1) i) me me
                                (enqueue_others (EvDumpZone me (zone_name z) 1) me g))
                 (getInfo (cards_at g) (card_of g c))
          else Some g)"

definition start_allowed :: "int \<Rightarrow> zone_ref \<Rightarrow> zone_ref \<Rightarrow> card_game \<Rightarrow> bool" where
  "start_allowed me s t g \<longleftrightarrow>
     \<not> ((ztype (zone_at g t) \<noteq> PublicZone \<or> \<not> has_coords (zone_at g t)) \<and> snd s \<noteq> snd t \<and>
        \<not> is_judge (player_at g me) \<and> \<not> ruledAllowsCrossPlayerMove (ruled_game g) s t)"

text \<open>The coordinates after the target zone has been looked at.\<close>

definition target_coords :: "cardzone \<Rightarrow> int \<Rightarrow> int \<Rightarrow> int \<times> int" where
  "target_coords tz x y =
     (if \<not> has_coords tz then (if x \<le> - 1 then int (length (zcards tz)) else x, 0) else (x, y))"

text \<open>What follows the loop over the accepted moves, up to the closing of gaps.\<close>

definition show_tops :: "int \<Rightarrow> zone_ref \<Rightarrow> zone_ref \<Rightarrow> bool \<Rightarrow> move_progress \<Rightarrow> card_game \<Rightarrow> card_game option" where
  "show_tops me s t undoingDraw p g =
     (case (if reveal_start p then revealTopCardIfNeeded me s g else Some g) of
        None \<Rightarrow> None
      | Some g1 \<Rightarrow>
          (case (if t \<noteq> s \<and> reveal_target p then revealTopCardIfNeeded me t g1 else Some g1) of
             None \<Rightarrow> None
           | Some g2 \<Rightarrow> Some (g2\<lparr>event_context := Some (if undoingDraw then ContextUndoDraw else ContextMoveCard)\<rparr>)))"

text \<open>From the accepted moves to the end.\<close>

definition perform_moves ::
  "(int \<Rightarrow> addr \<Rightarrow> card_game \<Rightarrow> card_game option) \<Rightarrow> (zone_ref \<Rightarrow> card_game \<Rightarrow> card_game option) \<Rightarrow>
   int \<Rightarrow> zone_ref \<Rightarrow> zone_ref \<Rightarrow> int \<Rightarrow> int \<Rightarrow> bool \<Rightarrow> bool \<Rightarrow> bool \<Rightarrow> move_card_struct list \<Rightarrow> card_game \<Rightarrow> card_game option"
where
  "perform_moves unattach fixer me s t x y fixSpaces undoingDraw isReversed moves g =
     (let ordered = (if shouldBeFromTheBottom (zone_at g s) moves then rev moves else moves) in
      case process_all (processMoveCard unattach me s t x y isReversed undoingDraw) ordered
             (\<lparr>x_index = - 1, reveal_start = False, reveal_target = False\<rparr>, g) of
        None \<Rightarrow> None
      | Some (p, g1) \<Rightarrow>
          (case show_tops me s t undoingDraw p g1 of
             None \<Rightarrow> None
           | Some g2 \<Rightarrow> if has_coords (zone_at g2 s) \<and> fixSpaces then fixer s g2 else Some g2))"

definition move_card_with ::
  "(int \<Rightarrow> addr \<Rightarrow> card_game \<Rightarrow> card_game option) \<Rightarrow> (zone_ref \<Rightarrow> card_game \<Rightarrow> card_game option) \<Rightarrow>
   int \<Rightarrow> zone_ref \<Rightarrow> card_to_move list \<Rightarrow> zone_ref \<Rightarrow> int \<Rightarrow> int \<Rightarrow> bool \<Rightarrow> bool \<Rightarrow> bool \<Rightarrow> card_game \<Rightarrow>
   (response \<times> card_game) option"
where
  "move_card_with unattach fixer me s cmds t x y fixSpaces undoingDraw isReversed g =
     (if \<not> start_allowed me s t g then Some (RespContextError, g)
      else
        (case target_coords (zone_at g t) x y of
           (x, y) \<Rightarrow>
             (case collect_moves g s t x y [] [] cmds of
                Inl r \<Rightarrow> Some (r, g)
              | Inr [] \<Rightarrow> Some (RespContextError, g)
              | Inr moves \<Rightarrow>
                  map_option (Pair RespOk)
                    (perform_moves unattach fixer me s t x y fixSpaces undoingDraw isReversed moves g))))"

definition plain_move :: "int \<Rightarrow> card_to_move" where
  "plain_move i = \<lparr>cm_card_id = i, cm_face_down = None, cm_pt = [], cm_tapped = False\<rparr>"

definition moveCardInRow :: "zone_ref \<Rightarrow> addr \<Rightarrow> int \<Rightarrow> int \<Rightarrow> card_game \<Rightarrow> card_game option" where
  "moveCardInRow r c x y g =
     map_option snd (move_card_with (\<lambda>_ _ _. None) (\<lambda>_ _. None) (snd r) r [plain_move (cid (card_of g c))] r x y
                       False False False g)"

definition fill_gap :: "zone_ref \<Rightarrow> int \<Rightarrow> int \<Rightarrow> int \<Rightarrow> card_game \<Rightarrow> card_game option" where
  "fill_gap r fromX toX y g = moveCardInRow r (the (card_at (zone_at g r) y fromX)) toX y g"

text \<open>One round of the loop over the piles.\<close>

definition fix_place :: "zone_ref \<Rightarrow> int \<times> int \<Rightarrow> card_game \<Rightarrow> card_game option" where
  "fix_place r place g =
     (case place of (baseX, y) \<Rightarrow>
        let fill_top = (\<lambda>g. if \<not> col (zone_at g r) y (baseX + 1) \<and> col (zone_at g r) y (baseX + 2)
                            then fill_gap r (baseX + 2) (baseX + 1) y g else Some g)
        in if \<not> col (zone_at g r) y baseX then
             if col (zone_at g r) y (baseX + 1) then
               (case fill_gap r (baseX + 1) baseX y g of None \<Rightarrow> None | Some g' \<Rightarrow> fill_top g')
             else if col (zone_at g r) y (baseX + 2) then fill_gap r (baseX + 2) baseX y g
             else Some g
           else fill_top g)"

definition places_to_look :: "card_game \<Rightarrow> zone_ref \<Rightarrow> (int \<times> int) list" where
  "places_to_look g r =
     hash_order g (remdups (map (\<lambda>c. (pile_base (coord_x (card_of g c)), coord_y (card_of g c))) (zcards (zone_at g r))))"

definition fixFreeSpaces :: "zone_ref \<Rightarrow> card_game \<Rightarrow> card_game option" where
  "fixFreeSpaces r g =
     (if \<not> has_coords (zone_at g r) then Some g else process_all (fix_place r) (places_to_look g r) g)"

text \<open>The argument after the coordinates is \<open>fixFreeSpaces\<close> of \<open>moveCard\<close>.\<close>

definition unattachCard :: "int \<Rightarrow> addr \<Rightarrow> card_game \<Rightarrow> card_game option" where
  "unattachCard me c g =
     (case zone (card_of g c) of
        None \<Rightarrow> None
      | Some r \<Rightarrow>
          let parent = parentCard (card_of g c);
              g1 = set_cards (setParentCard c None (cards_at g)) g;
              g2 = enqueue (EvAttachCard (fst r) (cid (card_of g1 c)) None) me g1
          in (case move_card_with (\<lambda>_ _ _. None) fixFreeSpaces me r [plain_move (cid (card_of g2 c))] r (- 1)
                     (coord_y (card_of g2 c)) (facedown (card_of g2 c)) False False g2 of
                None \<Rightarrow> None
              | Some (_, g3) \<Rightarrow>
                  (case parent of
                     None \<Rightarrow> None
                   | Some p \<Rightarrow>
                       (case zone (card_of g3 p) of
                          None \<Rightarrow> Some g3
                        | Some pr \<Rightarrow>
                            map_option (\<lambda>z. set_zone pr z g3)
                              (updateCardCoordinates p (coord_x (card_of g3 p)) (coord_y (card_of g3 p))
                                 (cards_at g3) (zone_at g3 pr))))))"

definition moveCard ::
  "int \<Rightarrow> zone_ref \<Rightarrow> card_to_move list \<Rightarrow> zone_ref \<Rightarrow> int \<Rightarrow> int \<Rightarrow> bool \<Rightarrow> bool \<Rightarrow> bool \<Rightarrow> card_game \<Rightarrow>
   (response \<times> card_game) option"
where
  "moveCard = move_card_with unattachCard fixFreeSpaces"


section \<open>Commands\<close>

record command_move_card =
  mc_start_player :: "int option"
  mc_start_zone :: string
  mc_cards :: "card_to_move list"
  mc_target_player :: int
  mc_target_zone :: string
  mc_x :: int
  mc_y :: int
  mc_reversed :: bool

definition cmdMoveCard :: "int \<Rightarrow> command_move_card \<Rightarrow> card_game \<Rightarrow> (response \<times> card_game) option" where
  "cmdMoveCard me cmd g =
     (if \<not> game_started g then Some (RespGameNotStarted, g)
      else if has_conceded (player_at g me) then Some (RespContextError, g)
      else
        let startPlayer = (case mc_start_player cmd of Some i \<Rightarrow> i | None \<Rightarrow> me) in
        if \<not> qm_contains (players_at g) startPlayer then Some (RespNameNotFound, g)
        else
          (case zones_at g (mc_start_zone cmd, startPlayer) of
             None \<Rightarrow> Some (RespNameNotFound, g)
           | Some startZone \<Rightarrow>
               if startPlayer \<noteq> me \<and> me \<notin> playersWithWritePermission startZone \<and> \<not> is_judge (player_at g me)
               then Some (RespContextError, g)
               else if \<not> qm_contains (players_at g) (mc_target_player cmd) then Some (RespNameNotFound, g)
               else
                 (case zones_at g (mc_target_zone cmd, mc_target_player cmd) of
                    None \<Rightarrow> Some (RespNameNotFound, g)
                  | Some targetZone \<Rightarrow>
                      if startPlayer \<noteq> me \<and> mc_target_player cmd \<noteq> me \<and> \<not> is_judge (player_at g me)
                      then Some (RespContextError, g)
                      else moveCard me (mc_start_zone cmd, startPlayer) (mc_cards cmd)
                             (mc_target_zone cmd, mc_target_player cmd) (mc_x cmd) (mc_y cmd) True False
                             (mc_reversed cmd) g)))"

record command_attach_card =
  ac_start_zone :: string
  ac_card_id :: int
  ac_target_player :: "int option"
  ac_target_zone :: string
  ac_target_card :: "int option"

definition find_in_zone :: "card_game \<Rightarrow> zone_ref \<Rightarrow> int \<Rightarrow> addr option" where
  "find_in_zone g r i = map_option snd (fst (getCard i False (cards_at g) (zone_at g r)))"

text \<open>
  The checks of \<open>cmdAttachCard\<close>: a refusal, or the card with the zone and the card it is to be
  attached to, if any.
\<close>

definition attach_request ::
  "int \<Rightarrow> command_attach_card \<Rightarrow> card_game \<Rightarrow> response + addr \<times> (zone_ref \<times> addr) option"
where
  "attach_request me cmd g =
     (if \<not> game_started g then Inl RespGameNotStarted
      else if has_conceded (player_at g me) then Inl RespContextError
      else if zones_at g (ac_start_zone cmd, me) = None then Inl RespNameNotFound
      else
        (case find_in_zone g (ac_start_zone cmd, me) (ac_card_id cmd) of
           None \<Rightarrow> Inl RespNameNotFound
         | Some c \<Rightarrow>
             let finish = (\<lambda>target. if \<not> has_coords (zone_at g (ac_start_zone cmd, me)) then Inl RespContextError
                                    else Inr (c, target))
             in case ac_target_player cmd of
                  None \<Rightarrow> if parentCard (card_of g c) = None then Inl RespContextError else finish None
                | Some tp \<Rightarrow>
                    if \<not> qm_contains (players_at g) tp then Inl RespNameNotFound
                    else if zones_at g (ac_target_zone cmd, tp) = None then finish None
                    else if \<not> has_coords (zone_at g (ac_target_zone cmd, tp)) then Inl RespContextError
                    else (case (case ac_target_card cmd of None \<Rightarrow> None
                                | Some i \<Rightarrow> find_in_zone g (ac_target_zone cmd, tp) i) of
                            None \<Rightarrow> Inl RespNameNotFound
                          | Some d \<Rightarrow> if parentCard (card_of g d) \<noteq> None then Inl RespContextError
                                      else finish (Some ((ac_target_zone cmd, tp), d)))))"

text \<open>A target card in a stacked column moves to a column of its own.\<close>

definition unstack_target :: "zone_ref \<Rightarrow> addr \<Rightarrow> card_game \<Rightarrow> card_game option" where
  "unstack_target t d g =
     (let x = coord_x (card_of g d); y = coord_y (card_of g d); tz = zone_at g t in
      if isColumnStacked tz x y
      then map_option snd
             (moveCard (snd t) t [plain_move (cid (card_of g d))] t
                (getFreeGridColumn (cards_at g) tz (- 2) y (getName (cards_at g) d) False) y
                (facedown (card_of g d)) False False g)
      else Some g)"

definition attachCard :: "int \<Rightarrow> zone_ref \<Rightarrow> addr \<Rightarrow> zone_ref \<Rightarrow> addr \<Rightarrow> card_game \<Rightarrow> card_game option" where
  "attachCard me s c t d g =
     (case unattach_all unattachCard (attachedCards (card_of g c)) g of
        None \<Rightarrow> None
      | Some g1 \<Rightarrow>
          let g2 = set_cards (setParentCard c (Some d) (cards_at g1)) g1;
              oldX = coord_x (card_of g2 c); y = coord_y (card_of g2 c);
              g3 = set_cards (setCoords c (- 1) y (cards_at g2)) g2
          in (case updateCardCoordinates c oldX y (cards_at g3) (zone_at g3 s) of
                None \<Rightarrow> None
              | Some z \<Rightarrow>
                  (case unstack_target t d (set_zone s z g3) of
                     None \<Rightarrow> None
                   | Some g4 \<Rightarrow>
                       (case zone (card_of g4 d) of
                          None \<Rightarrow> None
                        | Some r \<Rightarrow>
                            fixFreeSpaces s
                              (enqueue (EvAttachCard (fst s) (cid (card_of g4 c))
                                          (Some (snd r, fst r, cid (card_of g4 d)))) me g4)))))"

definition cmdAttachCard :: "int \<Rightarrow> command_attach_card \<Rightarrow> card_game \<Rightarrow> (response \<times> card_game) option" where
  "cmdAttachCard me cmd g =
     (case attach_request me cmd g of
        Inl r \<Rightarrow> Some (r, g)
      | Inr (c, target) \<Rightarrow>
          (let g1 = delete_arrows c g in
           map_option (Pair RespOk)
             (case target of
                Some (t, d) \<Rightarrow> attachCard me (ac_start_zone cmd, me) c t d g1
              | None \<Rightarrow> unattachCard me c g1)))"

end
