(* ===== verification/CardMoveSafe.thy ===== *)
theory CardMoveSafe
  imports CardMove
begin

text \<open>
  What a card move keeps: the zones and the cards agree on where every card lies, links and stashed
  cards stay in order, no null pointer is dereferenced unless a card attached to a moved one lies in
  a zone that shows its top card, and a card changes its zone only from the start to the target of
  the move. Everything rests on one lemma for moving one card in a game in which some cards are in
  flight, that is, taken out and not yet put back.
\<close>

named_theorems game_simps "what the updates of a game leave alone"

section \<open>Updates that only send events\<close>

text \<open>The part of a game the invariant is about.\<close>

lemma game_core [game_simps]:
  "cards_at (enqueue e i g) = cards_at g" "zones_at (enqueue e i g) = zones_at g"
  "deleted_later (enqueue e i g) = deleted_later g"
  "cards_at (enqueue_others e i g) = cards_at g" "zones_at (enqueue_others e i g) = zones_at g"
  "deleted_later (enqueue_others e i g) = deleted_later g"
  "cards_at (enqueue_private e i j g) = cards_at g" "zones_at (enqueue_private e i j g) = zones_at g"
  "deleted_later (enqueue_private e i j g) = deleted_later g"
  "cards_at (upd_player i f g) = cards_at g" "zones_at (upd_player i f g) = zones_at g"
  "deleted_later (upd_player i f g) = deleted_later g"
  "cards_at (set_cards h g) = h" "zones_at (set_cards h g) = zones_at g"
  "deleted_later (set_cards h g) = deleted_later g"
  "cards_at (set_zone r z g) = cards_at g" "zones_at (set_zone r z g) = (zones_at g)(r := Some z)"
  "deleted_later (set_zone r z g) = deleted_later g"
  "zone_at (set_zone r z g) q = (if q = r then z else zone_at g q)"
  "zone_at (set_cards h g) = zone_at g"
  "cards_at (snd (newCardId i g)) = cards_at g" "zones_at (snd (newCardId i g)) = zones_at g"
  "deleted_later (snd (newCardId i g)) = deleted_later g"
  "cards_at (announce_move me s t mf g) = cards_at g" "zones_at (announce_move me s t mf g) = zones_at g"
  "deleted_later (announce_move me s t mf g) = deleted_later g"
  "cards_at (forget_draws me s t u j g) = cards_at g" "zones_at (forget_draws me s t u j g) = zones_at g"
  "deleted_later (forget_draws me s t u j g) = deleted_later g"
  by (auto simp: enqueue_def enqueue_others_def enqueue_private_def upd_player_def set_cards_def set_zone_def
      zone_at_def newCardId_def announce_move_def forget_draws_def Let_def
      split: prod.split option.split list.split)

lemma reveal_core:
  assumes "revealTopCardIfNeeded me r g = Some g'"
  shows "cards_at g' = cards_at g" "zones_at g' = zones_at g" "deleted_later g' = deleted_later g"
    "hash_order g' = hash_order g"
  using assms
  by (auto simp: revealTopCardIfNeeded_def enqueue_def enqueue_others_def enqueue_private_def Let_def
      split: list.splits if_splits)

lemma show_tops_core:
  assumes "show_tops me s t u p g = Some g'"
  shows "cards_at g' = cards_at g" "zones_at g' = zones_at g" "deleted_later g' = deleted_later g"
    "hash_order g' = hash_order g"
proof -
  from assms obtain g1 g2 where g1: "(if reveal_start p then revealTopCardIfNeeded me s g else Some g) = Some g1"
    and g2: "(if t \<noteq> s \<and> reveal_target p then revealTopCardIfNeeded me t g1 else Some g1) = Some g2"
    and g': "g' = g2\<lparr>event_context := Some (if u then ContextUndoDraw else ContextMoveCard)\<rparr>"
    unfolding show_tops_def by (cases "reveal_start p"; cases "t \<noteq> s \<and> reveal_target p") (auto split: option.splits)
  have "cards_at g1 = cards_at g \<and> zones_at g1 = zones_at g \<and> deleted_later g1 = deleted_later g \<and> hash_order g1 = hash_order g"
    using g1 reveal_core [of me s g g1] by (auto split: if_splits)
  moreover have "cards_at g2 = cards_at g1 \<and> zones_at g2 = zones_at g1 \<and> deleted_later g2 = deleted_later g1 \<and>
      hash_order g2 = hash_order g1"
    using g2 reveal_core [of me t g1 g2] by (auto split: if_splits)
  ultimately show "cards_at g' = cards_at g" "zones_at g' = zones_at g" "deleted_later g' = deleted_later g"
    "hash_order g' = hash_order g"
    by (simp_all add: g')
qed

lemma upd_card_core [game_simps]:
  "cards_at (upd_card c f g) = (cards_at g)(c := f (card_of g c))"
  "zones_at (upd_card c f g) = zones_at g" "deleted_later (upd_card c f g) = deleted_later g"
  by (simp_all add: upd_card_def game_simps)

lemma delete_arrows_core [game_simps]:
  "cards_at (delete_arrows c g) = cards_at g" "zones_at (delete_arrows c g) = zones_at g"
  "deleted_later (delete_arrows c g) = deleted_later g"
proof -
  have inner: "cards_at (fold (delete_arrow i) js g) = cards_at g \<and> zones_at (fold (delete_arrow i) js g) = zones_at g
      \<and> deleted_later (fold (delete_arrow i) js g) = deleted_later g" for i js g
    by (induction js arbitrary: g) (simp_all add: delete_arrow_def game_simps)
  have "cards_at (fold (\<lambda>i g. fold (delete_arrow i) (arrows_touching c (player_at g i)) g) is g) = cards_at g
      \<and> zones_at (fold (\<lambda>i g. fold (delete_arrow i) (arrows_touching c (player_at g i)) g) is g) = zones_at g
      \<and> deleted_later (fold (\<lambda>i g. fold (delete_arrow i) (arrows_touching c (player_at g i)) g) is g) = deleted_later g"
    for "is"
    by (induction "is" arbitrary: g) (simp_all add: inner)
  then show "cards_at (delete_arrows c g) = cards_at g" "zones_at (delete_arrows c g) = zones_at g"
    "deleted_later (delete_arrows c g) = deleted_later g" by (simp_all add: delete_arrows_def)
qed

section \<open>Where the cards are\<close>

text \<open>What of a card the invariant is about.\<close>

definition links :: "server_card \<Rightarrow> zone_ref option \<times> addr option \<times> addr list \<times> addr option" where
  "links c = (zone c, parentCard c, attachedCards c, stashedCard c)"

definition zone_ok :: "zone_ref \<Rightarrow> cardzone \<Rightarrow> bool" where
  "zone_ok r z \<longleftrightarrow> zone_ref_of z = r \<and> distinct (zcards z) \<and> space_ok z"

text \<open>\<open>X\<close> are the cards in flight.\<close>

definition game_inv :: "addr set \<Rightarrow> card_game \<Rightarrow> bool" where
  "game_inv X g \<longleftrightarrow>
     (\<forall>r z. zones_at g r = Some z \<longrightarrow> zone_ok r z) \<and>
     (\<forall>a r. zone (card_of g a) = Some r \<longleftrightarrow> (\<exists>z. zones_at g r = Some z \<and> a \<in> set (zcards z))) \<and>
     attach_ok (cards_at g) \<and>
     (\<forall>a. a \<notin> X \<longrightarrow> parentCard (card_of g a) \<noteq> None \<longrightarrow> zone (card_of g a) \<noteq> None) \<and>
     (\<forall>a \<in> X. zone (card_of g a) = None) \<and>
     (\<forall>d a. stashedCard (card_of g d) = Some a \<longrightarrow>
        zone (card_of g a) = None \<and> a \<notin> X \<and> (\<forall>d'. stashedCard (card_of g d') = Some a \<longrightarrow> d' = d)) \<and>
     (\<forall>a p. parentCard (card_of g a) = Some p \<longrightarrow> p \<in> X \<or> zone (card_of g p) \<noteq> None)"

lemma game_invD:
  assumes "game_inv X g"
  shows "zones_at g r = Some z \<Longrightarrow> zone_ok r z"
    and "zone (card_of g a) = Some r \<longleftrightarrow> (\<exists>z. zones_at g r = Some z \<and> a \<in> set (zcards z))"
    and "attach_ok (cards_at g)"
    and "a \<notin> X \<Longrightarrow> parentCard (card_of g a) \<noteq> None \<Longrightarrow> zone (card_of g a) \<noteq> None"
    and "a \<in> X \<Longrightarrow> zone (card_of g a) = None"
    and "stashedCard (card_of g d) = Some a \<Longrightarrow> zone (card_of g a) = None \<and> a \<notin> X"
    and "stashedCard (card_of g d) = Some a \<Longrightarrow> stashedCard (card_of g d') = Some a \<Longrightarrow> d' = d"
    and "parentCard (card_of g a) = Some p \<Longrightarrow> p \<in> X \<or> zone (card_of g p) \<noteq> None"
  using assms unfolding game_inv_def by blast+

lemma links_eqD:
  assumes "links a = links b"
  shows "zone a = zone b" "parentCard a = parentCard b" "attachedCards a = attachedCards b"
    "stashedCard a = stashedCard b"
  using assms by (simp_all add: links_def)

lemma game_inv_cong:
  assumes "zones_at g' = zones_at g" and "\<And>a. links (card_of g' a) = links (card_of g a)"
  shows "game_inv X g' = game_inv X g"
  unfolding game_inv_def attach_ok_def by (simp add: assms(1) links_eqD [OF assms(2)])

text \<open>Which zones there are, and which of them show or tell their player the top card.\<close>

definition shows_top :: "cardzone \<Rightarrow> bool" where
  "shows_top z \<longleftrightarrow> alwaysRevealTopCard z \<or> alwaysLookAtTopCard z"

definition tops :: "card_game \<Rightarrow> zone_ref \<Rightarrow> bool option" where
  "tops g r = map_option shows_top (zones_at g r)"

lemma topsD:
  assumes "tops g' r = tops g r"
  shows "zones_at g' r = None \<longleftrightarrow> zones_at g r = None" "shows_top (zone_at g' r) = shows_top (zone_at g r)"
  using assms by (cases "zones_at g r"; cases "zones_at g' r"; simp add: tops_def zone_at_def)+

text \<open>Nothing but the places of the cards within their zones has changed.\<close>

definition quiet :: "card_game \<Rightarrow> card_game \<Rightarrow> bool" where
  "quiet g g' \<longleftrightarrow>
     (\<forall>a. links (card_of g' a) = links (card_of g a)) \<and> deleted_later g' = deleted_later g \<and>
     (\<forall>r. tops g' r = tops g r)"

lemma quiet_refl [simp]: "quiet g g"
  by (simp add: quiet_def)

lemma quiet_trans: "quiet g g' \<Longrightarrow> quiet g' g'' \<Longrightarrow> quiet g g''"
  by (simp add: quiet_def)

lemma quietI:
  assumes "zones_at g' = zones_at g" and "\<And>a. links (card_of g' a) = links (card_of g a)"
    and "deleted_later g' = deleted_later g"
  shows "quiet g g'"
  using assms by (simp add: quiet_def tops_def)

text \<open>An update of a card that leaves its links alone.\<close>

lemma upd_card_quiet:
  assumes "\<And>k. links (f k) = links k"
  shows "quiet g (upd_card c f g)" "game_inv X (upd_card c f g) = game_inv X g"
proof -
  have "links (card_of (upd_card c f g) a) = links (card_of g a)" for a by (simp add: game_simps assms)
  then show "quiet g (upd_card c f g)" "game_inv X (upd_card c f g) = game_inv X g"
    by (simp_all add: quietI game_simps game_inv_cong [of "upd_card c f g" g])
qed


section \<open>Steps that leave the links alone\<close>

definition calm :: "addr set \<Rightarrow> card_game \<Rightarrow> card_game \<Rightarrow> bool" where
  "calm X g g' \<longleftrightarrow> quiet g g' \<and> (game_inv X g \<longrightarrow> game_inv X g')"

lemma calm_refl [simp]: "calm X g g"
  by (simp add: calm_def)

lemma calm_trans: "calm X g g' \<Longrightarrow> calm X g' g'' \<Longrightarrow> calm X g g''"
  unfolding calm_def using quiet_trans by blast

lemma calmI:
  assumes "zones_at g' = zones_at g" and "\<And>a. links (card_of g' a) = links (card_of g a)"
    and "deleted_later g' = deleted_later g"
  shows "calm X g g'"
  using quietI [OF assms] game_inv_cong [OF assms(1,2)] by (simp add: calm_def)

lemma calm_core:
  "cards_at g' = cards_at g \<Longrightarrow> zones_at g' = zones_at g \<Longrightarrow> deleted_later g' = deleted_later g \<Longrightarrow> calm X g g'"
  by (rule calmI) simp_all

lemma calm_upd_card: "(\<And>k. links (f k) = links k) \<Longrightarrow> calm X g (upd_card c f g)"
  using upd_card_quiet by (simp add: calm_def)

lemma calm_set_zone:
  assumes "zones_at g r = Some z" and "zcards z' = zcards z" and "zone_ok r z \<Longrightarrow> zone_ok r z'"
    and "shows_top z' = shows_top z"
  shows "calm X g (set_zone r z' g)"
proof -
  have "game_inv X (set_zone r z' g)" if inv: "game_inv X g"
    unfolding game_inv_def game_simps
  proof (intro conjI)
    show "\<forall>q y. ((zones_at g)(r := Some z')) q = Some y \<longrightarrow> zone_ok q y"
      using game_invD(1) [OF inv] assms(1,3) by simp
    show "\<forall>a q. zone (card_of g a) = Some q \<longleftrightarrow> (\<exists>y. ((zones_at g)(r := Some z')) q = Some y \<and> a \<in> set (zcards y))"
      using game_invD(2) [OF inv] assms(1,2) by simp
  qed (insert inv [unfolded game_inv_def], (elim conjE, assumption)+)
  moreover have "quiet g (set_zone r z' g)" using assms(1,4) by (auto simp: quiet_def tops_def game_simps)
  ultimately show ?thesis by (simp add: calm_def)
qed

lemma links_setAttributeAll: "links (snd (setAttributeAll db attr v al k)) = links k"
  by (cases attr) (simp_all add: setAttributeAll_def setAttribute_def links_def Let_def)

lemma links_set_all_cards: "links (snd (set_all_cards db attr v cs r h) a) = links (h a)"
proof (induction cs arbitrary: r h)
  case (Cons c cs)
  obtain r' k where k: "setAttributeAll db attr v True (h c) = (r', k)" by force
  then have "links k = links (h c)" using links_setAttributeAll [of db attr v True "h c"] by simp
  then show ?case by (simp add: k Cons.IH)
qed simp

lemma calm_setCardAttrHelper: "calm X g (snd (setCardAttrHelper me i zn j attr v u g))"
proof -
  have all: "links (h a) = links (card_of g a)"
    if "set_all_cards (card_db g) attr v cs r (cards_at g) = (r', h)" for a cs r r' h
    using links_set_all_cards [of "card_db g" attr v cs r "cards_at g" a] that by simp
  have one: "links k = links (card_of g c)"
    if "setAttributeAll (card_db g) attr v b (card_of g c) = (r', k)" for b c r' k
    using links_setAttributeAll [of "card_db g" attr v b "card_of g c"] that by simp
  have links: "links (card_of (snd (setCardAttrHelper me i zn j attr v u g)) a) = links (card_of g a)" for a
    unfolding setCardAttrHelper_def
    by (cases "zones_at g (zn, me)") (auto simp: game_simps split: option.split prod.split dest: all one)
  have "zones_at (snd (setCardAttrHelper me i zn j attr v u g)) = zones_at g"
    "deleted_later (snd (setCardAttrHelper me i zn j attr v u g)) = deleted_later g"
    unfolding setCardAttrHelper_def by (auto simp: game_simps split: option.split prod.split)
  with links show ?thesis by (intro calmI) simp_all
qed

lemma calm_if: "calm X g a \<Longrightarrow> calm X g b \<Longrightarrow> calm X g (if P then a else b)"
  by simp

lemma calm_onCardBeingMoved: "calm X g (onCardBeingMoved me m s t u g)"
proof -
  have set: "calm X k (if P then snd (setCardAttrHelper me i zn j attr v w k) else k)" for P i zn j attr v w k
    by (rule calm_if [OF calm_setCardAttrHelper calm_refl])
  have draws: "calm X k (forget_draws me s t u j k)" for j k by (rule calm_core) (simp_all add: game_simps)
  show ?thesis
    unfolding onCardBeingMoved_def Let_def
    by (rule calm_trans [OF calm_trans [OF calm_trans [OF set set] set] draws])
qed


section \<open>Taking a card out and putting it back\<close>

definition zone_frame :: "cardzone \<Rightarrow> zone_ref \<times> bool \<times> zone_type \<times> bool \<times> bool" where
  "zone_frame z = (zone_ref_of z, has_coords z, ztype z, alwaysRevealTopCard z, alwaysLookAtTopCard z)"

lemma zone_frame_top: "zone_frame z' = zone_frame z \<Longrightarrow> shows_top z' = shows_top z"
  by (simp add: zone_frame_def shows_top_def)

lemma removeCardFromCoordMap_frame:
  "zcards (removeCardFromCoordMap h c x y z) = zcards z"
  "zone_frame (removeCardFromCoordMap h c x y z) = zone_frame z"
  by (simp_all add: removeCardFromCoordMap_def Let_def zone_frame_def zone_ref_of_def)

lemma removeCard_parts:
  assumes "removeCard c h z = (i, l, h', z')" and "c \<in> set (zcards z)"
  shows "h' = h(c := (h c)\<lparr>zone := None\<rparr>)" "zcards z' = remove1 c (zcards z)" "zone_frame z' = zone_frame z"
    "i = indexOf c (zcards z)" "l = isCardAtPosLookedAt z i"
proof -
  have frame: "zone_frame (z1\<lparr>zcards := cs\<rparr>) = zone_frame z1" "zone_frame (z1\<lparr>cardsBeingLookedAt := k\<rparr>) = zone_frame z1"
    for z1 cs k by (simp_all add: zone_frame_def zone_ref_of_def)
  show "h' = h(c := (h c)\<lparr>zone := None\<rparr>)" "zone_frame z' = zone_frame z"
    "i = indexOf c (zcards z)" "l = isCardAtPosLookedAt z i"
    using assms(1) by (auto simp: removeCard_def Let_def removeCardFromCoordMap_frame frame)
  show "zcards z' = remove1 c (zcards z)"
    using assms(1) indexOf_mem [OF assms(2)]
    by (auto simp: removeCard_def Let_def removeCardFromCoordMap_frame split: if_splits)
qed

lemma zone_frame_zcards [simp]: "zone_frame (z\<lparr>zcards := cs\<rparr>) = zone_frame z"
  by (simp add: zone_frame_def zone_ref_of_def)

lemma insertCardIntoCoordMap_frame:
  assumes "insertCardIntoCoordMap h c x y z = Some z'"
  shows "zcards z' = zcards z" "zone_frame z' = zone_frame z"
  using assms
  by (auto simp: insertCardIntoCoordMap_def Let_def zone_frame_def zone_ref_of_def
      split: if_splits option.splits)

lemma insertCard_parts:
  assumes "insertCard c x y h z = Some (h', z')" and "c \<notin> set (zcards z)"
  shows "set (zcards z') = insert c (set (zcards z))" "distinct (zcards z) \<Longrightarrow> distinct (zcards z')"
    "zone_frame z' = zone_frame z"
    "\<exists>x y. h' = h(c := (h c)\<lparr>coord_x := x, coord_y := y, zone := Some (zone_ref_of z)\<rparr>)"
proof -
  have z: "zone_frame z' = zone_frame z \<and> (zcards z' = zcards z @ [c] \<or>
      (\<exists>n. zcards z' = take n (zcards z) @ c # drop n (zcards z)))"
    using assms(1) by (auto simp: insertCard_def Let_def insertCardIntoCoordMap_frame split: if_splits option.splits)
  then show "zone_frame z' = zone_frame z" by simp
  have "mset (zcards z') = add_mset c (mset (zcards z))"
  proof -
    have "mset (zcards z) = mset (take n (zcards z)) + mset (drop n (zcards z))" for n
      by (metis append_take_drop_id mset_append)
    with z show ?thesis by auto
  qed
  from mset_eq_setD [of "zcards z'" "c # zcards z"] mset_eq_imp_distinct_iff [of "zcards z'" "c # zcards z"] this assms(2)
  show "set (zcards z') = insert c (set (zcards z))" "distinct (zcards z) \<Longrightarrow> distinct (zcards z')"
    by simp_all
  show "\<exists>x y. h' = h(c := (h c)\<lparr>coord_x := x, coord_y := y, zone := Some (zone_ref_of z)\<rparr>)"
  proof (cases "has_coords z")
    case True
    with assms(1) show ?thesis
      by (intro exI [of _ x] exI [of _ y])
         (auto simp: insertCard_def Let_def setCoords_def zone_ref_of_def split: option.splits)
  next
    case False
    with assms(1) show ?thesis
      by (intro exI [of _ 0]) (auto simp: insertCard_def Let_def setCoords_def zone_ref_of_def split: if_splits)
  qed
qed

text \<open>A card whose place is \<open>r\<close>, and the same card out of its place.\<close>

definition moved_links :: "addr \<Rightarrow> zone_ref option \<Rightarrow> card_game \<Rightarrow> card_game \<Rightarrow> bool" where
  "moved_links c r g g' \<longleftrightarrow>
     (\<forall>a. links (card_of g' a) = (if a = c then links ((card_of g c)\<lparr>zone := r\<rparr>) else links (card_of g a))) \<and>
     deleted_later g' = deleted_later g \<and> (\<forall>q. tops g' q = tops g q)"

lemma moved_linksD:
  assumes "moved_links c r g g'"
  shows "zone (card_of g' a) = (if a = c then r else zone (card_of g a))"
    "parentCard (card_of g' a) = parentCard (card_of g a)"
    "attachedCards (card_of g' a) = attachedCards (card_of g a)"
    "stashedCard (card_of g' a) = stashedCard (card_of g a)"
    "deleted_later g' = deleted_later g" "tops g' q = tops g q" "zones_at g' q = None \<longleftrightarrow> zones_at g q = None"
proof -
  have "links (card_of g' a) = (if a = c then links ((card_of g c)\<lparr>zone := r\<rparr>) else links (card_of g a))"
    using assms by (simp add: moved_links_def)
  then show "zone (card_of g' a) = (if a = c then r else zone (card_of g a))"
    "parentCard (card_of g' a) = parentCard (card_of g a)"
    "attachedCards (card_of g' a) = attachedCards (card_of g a)"
    "stashedCard (card_of g' a) = stashedCard (card_of g a)"
    by (simp_all add: links_def split: if_splits)
  show "deleted_later g' = deleted_later g" and q: "tops g' q = tops g q"
    using assms unfolding moved_links_def by blast+
  show "zones_at g' q = None \<longleftrightarrow> zones_at g q = None" by (rule topsD [OF q])
qed

lemma take_out_parts:
  assumes "take_out s c g = Some (i, l, g')"
  obtains z where "g' = set_zone s z (set_cards ((cards_at g)(c := (card_of g c)\<lparr>zone := None\<rparr>)) g)"
    "zcards z = remove1 c (zcards (zone_at g s))" "zone_frame z = zone_frame (zone_at g s)"
    "space_ok (zone_at g s) \<Longrightarrow> space_ok z" "c \<in> set (zcards (zone_at g s))"
proof -
  have c: "c \<in> set (zcards (zone_at g s))" using assms by (simp add: take_out_def split: if_splits)
  obtain i' l' h' z' where r: "removeCard c (cards_at g) (zone_at g s) = (i', l', h', z')"
    using prod_cases4 by blast
  from assms c r removeCard_parts [OF r c] removeCard_space_ok [OF _ r] show ?thesis
    by (intro that [of z']) (simp_all add: take_out_def)
qed

lemma attach_ok_links:
  assumes "attach_ok h" and "\<And>a. parentCard (h' a) = parentCard (h a)"
    and "\<And>a. attachedCards (h' a) = attachedCards (h a)"
  shows "attach_ok h'"
  using assms by (simp add: attach_ok_def)

lemma take_out_inv:
  assumes inv: "game_inv X g" and c: "zone (card_of g c) = Some s"
  shows "\<exists>i l g'. take_out s c g = Some (i, l, g') \<and> game_inv (insert c X) g' \<and> moved_links c None g g'"
proof -
  from game_invD(2) [OF inv, of c s] c obtain z where z: "zones_at g s = Some z" "c \<in> set (zcards z)" by blast
  then have zs: "zone_at g s = z" by (simp add: zone_at_def)
  have "take_out s c g \<noteq> None" using z(2) by (auto simp: take_out_def zs split: prod.split)
  then obtain i l g' where t: "take_out s c g = Some (i, l, g')" by (metis not_None_eq prod_cases3)
  then obtain z' where g': "g' = set_zone s z' (set_cards ((cards_at g)(c := (card_of g c)\<lparr>zone := None\<rparr>)) g)"
    and z': "zcards z' = remove1 c (zcards z)" "zone_frame z' = zone_frame z" "space_ok z \<Longrightarrow> space_ok z'"
    using take_out_parts zs by metis
  have ok: "zone_ok s z" by (rule game_invD(1) [OF inv z(1)])
  then have ok': "zone_ok s z'" and set: "set (zcards z') = set (zcards z) - {c}"
    using z' by (auto simp: zone_ok_def zone_frame_def)
  have zones: "zones_at g' = (zones_at g)(s := Some z')" by (simp add: g' game_simps)
  have links: "moved_links c None g g'"
    using z(1) zone_frame_top [OF z'(2)] by (simp add: moved_links_def g' tops_def game_simps)
  note L = moved_linksD [OF links]
  have "game_inv (insert c X) g'"
    unfolding game_inv_def L
  proof (intro conjI)
    show "\<forall>r z. zones_at g' r = Some z \<longrightarrow> zone_ok r z"
      using ok' game_invD(1) [OF inv] by (simp add: zones)
    show "\<forall>a r. (if a = c then None else zone (card_of g a)) = Some r \<longleftrightarrow>
        (\<exists>z. zones_at g' r = Some z \<and> a \<in> set (zcards z))"
    proof (intro allI)
      fix a r
      have "c \<notin> set (zcards q)" if "r \<noteq> s" "zones_at g r = Some q" for q
        using game_invD(2) [OF inv, of c r] c that by auto
      then show "(if a = c then None else zone (card_of g a)) = Some r \<longleftrightarrow>
          (\<exists>z. zones_at g' r = Some z \<and> a \<in> set (zcards z))"
        using game_invD(2) [OF inv, of a r] z set unfolding zones by (cases "r = s") auto
    qed
    show "attach_ok (cards_at g')"
      by (rule attach_ok_links [OF game_invD(3) [OF inv]]) (simp_all add: L)
    show "\<forall>a. a \<notin> insert c X \<longrightarrow> parentCard (card_of g a) \<noteq> None \<longrightarrow> (if a = c then None else zone (card_of g a)) \<noteq> None"
      using game_invD(4) [OF inv] by simp
    show "\<forall>a\<in>insert c X. (if a = c then None else zone (card_of g a)) = None"
      using game_invD(5) [OF inv] by simp
    show "\<forall>d a. stashedCard (card_of g d) = Some a \<longrightarrow> (if a = c then None else zone (card_of g a)) = None \<and>
        a \<notin> insert c X \<and> (\<forall>d'. stashedCard (card_of g d') = Some a \<longrightarrow> d' = d)"
      using game_invD(6,7) [OF inv] c by (metis insertE option.distinct(1))
    show "\<forall>a p. parentCard (card_of g a) = Some p \<longrightarrow> p \<in> insert c X \<or> (if p = c then None else zone (card_of g p)) \<noteq> None"
      using game_invD(8) [OF inv] by auto
  qed
  with t links show ?thesis by blast
qed

lemma place_card_inv:
  assumes inv: "game_inv X g" and t: "zones_at g t \<noteq> None" and c: "zone (card_of g c) = None"
    and stash: "\<And>d. stashedCard (card_of g d) \<noteq> Some c"
  shows "\<exists>newX g'. place_card t x y rv fd i c g = Some (newX, g') \<and> game_inv (X - {c}) g' \<and>
    moved_links c (Some t) g g'"
proof -
  obtain z where z: "zones_at g t = Some z" using t by blast
  then have zt: "zone_at g t = z" by (simp add: zone_at_def)
  have ok: "zone_ok t z" by (rule game_invD(1) [OF inv z])
  then have zp: "zone_ref_of z = t" "distinct (zcards z)" "space_ok z" by (simp_all add: zone_ok_def)
  have notin: "c \<notin> set (zcards z)" using game_invD(2) [OF inv, of c t] z c by simp
  define n where "n = (if rv then int (length (zcards z)) - x + i else x + i)"
  define newX where "newX = (if has_coords z then getFreeGridColumn (cards_at g) z n y (getName (cards_at g) c) (fd \<or> y \<noteq> 2) else n)"
  define g1 where "g1 = (if has_coords z then g else upd_card c (resetState (fst t = ''stack'')) g)"
  have reset: "links (resetState b k) = links k" for b k by (simp add: links_def resetState_def Let_def)
  have core: "zones_at g1 = zones_at g" "deleted_later g1 = deleted_later g"
    "links (card_of g1 a) = links (card_of g a)" for a
    by (simp_all add: g1_def game_simps reset)
  have "\<exists>h z'. insertCard c newX y (cards_at g1) z = Some (h, z') \<and> space_ok z'"
  proof (cases "has_coords z")
    case True
    then show ?thesis using insertCard_free [OF zp(3) True] by (simp add: newX_def g1_def)
  next
    case False
    have "space_ok (z\<lparr>zcards := cs\<rparr>)" for cs using zp(3) space_ok_cong [of "z\<lparr>zcards := cs\<rparr>" z] by simp
    with False show ?thesis by (simp add: insertCard_def Let_def)
  qed
  then obtain h z' where ins: "insertCard c newX y (cards_at g1) z = Some (h, z')" and sp: "space_ok z'" by blast
  note P = insertCard_parts [OF ins notin]
  define g' where "g' = set_zone t z' (set_cards h g1)"
  have place: "place_card t x y rv fd i c g = Some (newX, g')"
    using ins by (simp add: place_card_def Let_def zt newX_def n_def g1_def g'_def split: if_splits)
  have zones: "zones_at g' = (zones_at g)(t := Some z')" by (simp add: g'_def game_simps core)
  have card: "links (card_of g' a) = (if a = c then links ((card_of g c)\<lparr>zone := Some t\<rparr>) else links (card_of g a))" for a
    using P(4) core(3) [of c] core(3) [of a] by (auto simp: g'_def game_simps zp(1) links_def)
  have "deleted_later g' = deleted_later g" by (simp add: g'_def game_simps core)
  then have links: "moved_links c (Some t) g g'" using card z zone_frame_top [OF P(3)] by (simp add: moved_links_def tops_def zones)
  note L = moved_linksD [OF links]
  have "game_inv (X - {c}) g'"
    unfolding game_inv_def L
  proof (intro conjI)
    show "\<forall>r z. zones_at g' r = Some z \<longrightarrow> zone_ok r z"
      using P(2,3) sp zp game_invD(1) [OF inv] by (auto simp: zones zone_ok_def zone_frame_def)
    show "\<forall>a r. (if a = c then Some t else zone (card_of g a)) = Some r \<longleftrightarrow>
        (\<exists>z. zones_at g' r = Some z \<and> a \<in> set (zcards z))"
    proof (intro allI)
      fix a r
      have "c \<notin> set (zcards q)" if "zones_at g r = Some q" for q
        using game_invD(2) [OF inv, of c r] c that by auto
      then show "(if a = c then Some t else zone (card_of g a)) = Some r \<longleftrightarrow>
          (\<exists>z. zones_at g' r = Some z \<and> a \<in> set (zcards z))"
        using game_invD(2) [OF inv, of a r] z P(1) unfolding zones by (cases "r = t") auto
    qed
    show "attach_ok (cards_at g')"
      by (rule attach_ok_links [OF game_invD(3) [OF inv]]) (simp_all add: L)
    show "\<forall>a. a \<notin> X - {c} \<longrightarrow> parentCard (card_of g a) \<noteq> None \<longrightarrow> (if a = c then Some t else zone (card_of g a)) \<noteq> None"
      using game_invD(4) [OF inv] by auto
    show "\<forall>a\<in>X - {c}. (if a = c then Some t else zone (card_of g a)) = None"
      using game_invD(5) [OF inv] by simp
    show "\<forall>d a. stashedCard (card_of g d) = Some a \<longrightarrow> (if a = c then Some t else zone (card_of g a)) = None \<and>
        a \<notin> X - {c} \<and> (\<forall>d'. stashedCard (card_of g d') = Some a \<longrightarrow> d' = d)"
      using game_invD(6,7) [OF inv] stash by (metis Diff_iff)
    show "\<forall>a p. parentCard (card_of g a) = Some p \<longrightarrow> p \<in> X - {c} \<or> (if p = c then Some t else zone (card_of g p)) \<noteq> None"
      using game_invD(8) [OF inv] by auto
  qed
  with place links show ?thesis by blast
qed


lemma calm_extend_looked_at:
  assumes "zones_at g t \<noteq> None"
  shows "calm X g (extend_looked_at t known newX g)"
proof -
  obtain z where z: "zones_at g t = Some z" using assms by blast
  have "calm X g (set_zone t (setCardsBeingLookedAt n z) g)" for n
  proof (rule calm_set_zone [OF z])
    show "zcards (setCardsBeingLookedAt n z) = zcards z" by (simp add: setCardsBeingLookedAt_def)
    have "space_ok (setCardsBeingLookedAt n z) = space_ok z"
      by (rule space_ok_cong) (simp_all add: setCardsBeingLookedAt_def)
    then show "zone_ok t z \<Longrightarrow> zone_ok t (setCardsBeingLookedAt n z)"
      by (simp add: zone_ok_def zone_ref_of_def setCardsBeingLookedAt_def)
    show "shows_top (setCardsBeingLookedAt n z) = shows_top z" by (simp add: shows_top_def setCardsBeingLookedAt_def)
  qed
  then show ?thesis using z by (simp add: extend_looked_at_def Let_def zone_at_def)
qed

lemma calm_renumber: "calm X g (renumber s t fd c g)"
proof -
  have "calm X g (upd_card c (\<lambda>k. k\<lparr>cid := i\<rparr>) (snd (newCardId p g)))" for i p
    by (rule calm_trans [OF calm_core calm_upd_card]) (simp_all add: game_simps links_def)
  then show ?thesis by (simp add: renumber_def split: prod.split) (metis snd_conv)
qed

lemma calm_finish_move:
  assumes "zones_at g t \<noteq> None"
  shows "calm X g (finish_move me s t y rv u m p l fd newX c g)"
proof -
  define known where "known \<longleftrightarrow> rv \<or> l \<and> \<not> facedown (card_of g c)"
  define g3 where "g3 = upd_card c (\<lambda>k. k\<lparr>facedown := fd\<rparr>) (renumber s t fd c (extend_looked_at t known newX g))"
  have "calm X g g3"
    unfolding g3_def
    by (rule calm_trans [OF calm_trans [OF calm_extend_looked_at [OF assms] calm_renumber] calm_upd_card])
       (simp add: links_def)
  moreover have "calm X g3 (announce_move me s t mf g3)" for mf
    by (rule calm_core) (simp_all add: game_simps)
  ultimately show ?thesis
    unfolding finish_move_def Let_def known_def [symmetric] g3_def [symmetric]
    by (rule calm_trans [OF calm_trans calm_onCardBeingMoved])
qed

section \<open>Destroyed tokens\<close>

lemma destroy_moved_inv:
  assumes inv: "game_inv X g" and c: "c \<in> X" and parent: "fst s \<noteq> fst t \<longrightarrow> parentCard (card_of g c) = None \<and> attachedCards (card_of g c) = []"
    and step: "destroy_moved me s t c g = (next, g')"
  shows "shouldDestroyOnMove (card_of g c) (fst s) (fst t) \<Longrightarrow>
      next = stashedCard (card_of g c) \<and> game_inv (X - {c}) g' \<and> deleted_later g' = deleted_later g @ [c] \<and>
      zones_at g' = zones_at g \<and>
      (\<forall>a. zone (card_of g' a) = zone (card_of g a) \<and> parentCard (card_of g' a) = parentCard (card_of g a) \<and>
         stashedCard (card_of g' a) = (if a = c then None else stashedCard (card_of g a)))"
    and "\<not> shouldDestroyOnMove (card_of g c) (fst s) (fst t) \<Longrightarrow> next = Some c \<and> g' = g"
proof -
  assume destroy: "shouldDestroyOnMove (card_of g c) (fst s) (fst t)"
  then have names: "fst s \<noteq> fst t" by (auto simp: shouldDestroyOnMove_def split: if_splits)
  have "next = stashedCard (card_of g c) \<and> deleted_later g' = deleted_later g @ [c] \<and> zones_at g' = zones_at g \<and>
     (\<forall>a. links (card_of g' a) = links (if a = c then (card_of g c)\<lparr>stashedCard := None\<rparr> else card_of g a))"
  proof (cases "stashedCard (card_of g c)")
    case None
    with step destroy show ?thesis
      by (auto simp: destroy_moved_def Let_def takeStashedCard_def game_simps links_def)
  next
    case (Some d)
    obtain i g2 where n: "newCardId me (set_cards ((cards_at g)(c := (card_of g c)\<lparr>stashedCard := None\<rparr>))
        (enqueue (EvDestroyCard (fst s) (cid (card_of g c) mod 2 ^ 32)) me g)) = (i, g2)" by force
    then have "g2 = snd (newCardId me (set_cards ((cards_at g)(c := (card_of g c)\<lparr>stashedCard := None\<rparr>))
        (enqueue (EvDestroyCard (fst s) (cid (card_of g c) mod 2 ^ 32)) me g)))" by simp
    then have g2: "cards_at g2 = (cards_at g)(c := (card_of g c)\<lparr>stashedCard := None\<rparr>)" "zones_at g2 = zones_at g"
      "deleted_later g2 = deleted_later g" by (simp_all only: game_simps)
    from step destroy Some n show ?thesis
      by (auto simp: destroy_moved_def Let_def takeStashedCard_def game_simps g2 links_def)
  qed
  then have N: "next = stashedCard (card_of g c)" "deleted_later g' = deleted_later g @ [c]" "zones_at g' = zones_at g"
    and K: "links (card_of g' a) = links (if a = c then (card_of g c)\<lparr>stashedCard := None\<rparr> else card_of g a)" for a
    by blast+
  have F: "zone (card_of g' a) = zone (card_of g a)" "parentCard (card_of g' a) = parentCard (card_of g a)"
    "attachedCards (card_of g' a) = attachedCards (card_of g a)"
    "stashedCard (card_of g' a) = (if a = c then None else stashedCard (card_of g a))" for a
    using links_eqD [OF K [of a]] by auto
  have "game_inv (X - {c}) g'"
    unfolding game_inv_def F N
  proof (intro conjI)
    show "attach_ok (cards_at g')" by (rule attach_ok_links [OF game_invD(3) [OF inv]]) (simp_all add: F)
    show "\<forall>a. a \<notin> X - {c} \<longrightarrow> parentCard (card_of g a) \<noteq> None \<longrightarrow> zone (card_of g a) \<noteq> None"
      using game_invD(4) [OF inv] mp [OF parent names] by (metis Diff_iff singletonD)
    show "\<forall>d a. (if d = c then None else stashedCard (card_of g d)) = Some a \<longrightarrow> zone (card_of g a) = None \<and>
        a \<notin> X - {c} \<and> (\<forall>d'. (if d' = c then None else stashedCard (card_of g d')) = Some a \<longrightarrow> d' = d)"
      using game_invD(6,7) [OF inv] by (metis Diff_iff option.distinct(1))
    have "p \<noteq> c" if "parentCard (card_of g a) = Some p" for a p
    proof -
      have "a \<in> set (attachedCards (card_of g p))" using game_invD(3) [OF inv] that by (simp add: attach_ok_def)
      then show ?thesis using mp [OF parent names] by auto
    qed
    then show "\<forall>a p. parentCard (card_of g a) = Some p \<longrightarrow> p \<in> X - {c} \<or> zone (card_of g p) \<noteq> None"
      using game_invD(8) [OF inv] by blast
  qed (use game_invD(1,2,5) [OF inv] in auto)
  with N F show "next = stashedCard (card_of g c) \<and> game_inv (X - {c}) g' \<and> deleted_later g' = deleted_later g @ [c] \<and>
      zones_at g' = zones_at g \<and>
      (\<forall>a. zone (card_of g' a) = zone (card_of g a) \<and> parentCard (card_of g' a) = parentCard (card_of g a) \<and>
         stashedCard (card_of g' a) = (if a = c then None else stashedCard (card_of g a)))" by blast
next
  assume "\<not> shouldDestroyOnMove (card_of g c) (fst s) (fst t)"
  with step show "next = Some c \<and> g' = g" by (simp add: destroy_moved_def)
qed


section \<open>Moving one card\<close>

text \<open>
  Card \<open>c\<close> has arrived in \<open>t\<close> or has been destroyed; no other card has changed its zone, unless it
  was stashed in the destroyed one and lies in \<open>t\<close> now.
\<close>

definition arrives :: "zone_ref \<Rightarrow> zone_ref \<Rightarrow> addr \<Rightarrow> card_game \<Rightarrow> card_game \<Rightarrow> bool" where
  "arrives s t c g g' \<longleftrightarrow>
     (\<forall>a. a \<noteq> c \<longrightarrow> zone (card_of g' a) = zone (card_of g a) \<or>
        (stashedCard (card_of g c) = Some a \<and> zone (card_of g' a) = Some t \<and> c \<in> set (deleted_later g'))) \<and>
     (zone (card_of g' c) = Some t \<or> (zone (card_of g' c) = None \<and> c \<in> set (deleted_later g'))) \<and>
     (\<forall>d a. stashedCard (card_of g' d) = Some a \<longrightarrow> stashedCard (card_of g d) = Some a) \<and>
     set (deleted_later g) \<subseteq> set (deleted_later g') \<and>
     (\<forall>r. tops g' r = tops g r) \<and>
     (\<forall>a p. parentCard (card_of g' a) = Some p \<longrightarrow>
        parentCard (card_of g a) = Some p \<and> (fst s \<noteq> fst t \<longrightarrow> a \<noteq> c))"

lemma quietD:
  assumes "quiet g g'"
  shows "zone (card_of g' a) = zone (card_of g a)" "parentCard (card_of g' a) = parentCard (card_of g a)"
    "attachedCards (card_of g' a) = attachedCards (card_of g a)"
    "stashedCard (card_of g' a) = stashedCard (card_of g a)"
    "deleted_later g' = deleted_later g" "tops g' r = tops g r" "zones_at g' r = None \<longleftrightarrow> zones_at g r = None"
  using assms links_eqD [of "card_of g' a" "card_of g a"] topsD(1) [of g' r g] unfolding quiet_def by blast+

lemma processMoveCard_eq:
  assumes "take_out s (moved_card m) g = Some (i, l, g1)" and "drop_links un s t (moved_card m) g1 = Some g2"
    and "destroy_moved me s t (moved_card m) (if s \<noteq> t then delete_arrows (moved_card m) g2 else g2) = (Some c, g4)"
    and "place_card t x y rv (shouldBeFaceDown (moved_request m) (card_of g4 (moved_card m)) (zone_at g4 s) (zone_at g4 t))
           (x_index p + 1) c g4 = Some (newX, g5)"
  shows "processMoveCard un me s t x y rv u m (p, g) =
    Some (p\<lparr>x_index := x_index p + 1, reveal_start := reveal_start p \<or> moved_position m = 0,
            reveal_target := reveal_target p \<or> newX = 0\<rparr>,
          finish_move me s t y rv u m i l
            (shouldBeFaceDown (moved_request m) (card_of g4 (moved_card m)) (zone_at g4 s) (zone_at g4 t)) newX c g5)"
  using assms by (simp add: processMoveCard_def Let_def)

lemma processMoveCard_gone:
  assumes "take_out s (moved_card m) g = Some (i, l, g1)" and "drop_links un s t (moved_card m) g1 = Some g2"
    and "destroy_moved me s t (moved_card m) (if s \<noteq> t then delete_arrows (moved_card m) g2 else g2) = (None, g4)"
  shows "processMoveCard un me s t x y rv u m (p, g) = Some (p, g4)"
  using assms by (simp add: processMoveCard_def Let_def)

lemma process_rest:
  assumes out: "take_out s (moved_card m) g = Some (i, l, g1)" and drop: "drop_links un s t (moved_card m) g1 = Some g2"
    and inv: "game_inv (insert (moved_card m) X) g2" and X: "moved_card m \<notin> X" and t: "zones_at g2 t \<noteq> None"
    and parent: "fst s \<noteq> fst t \<Longrightarrow> parentCard (card_of g2 (moved_card m)) = None \<and> attachedCards (card_of g2 (moved_card m)) = []"
  shows "\<exists>p' g'. processMoveCard un me s t x y rv u m (p, g) = Some (p', g') \<and> game_inv X g' \<and>
    arrives s t (moved_card m) g2 g' \<and> (fst s = fst t \<longrightarrow> moved_links (moved_card m) (Some t) g2 g')"
proof -
  define c where "c = moved_card m"
  define g3 where "g3 = (if s \<noteq> t then delete_arrows c g2 else g2)"
  have core: "cards_at g3 = cards_at g2" "zones_at g3 = zones_at g2" "deleted_later g3 = deleted_later g2"
    by (simp_all add: g3_def game_simps)
  have tops3: "tops g3 r = tops g2 r" for r by (simp add: tops_def core)
  have inv3: "game_inv (insert c X) g3" using inv calm_core [OF core] by (simp add: calm_def c_def)
  have cX: "c \<in> insert c X" "insert c X - {c} = X" using X by (auto simp: c_def)
  obtain nxt g4 where d: "destroy_moved me s t c g3 = (nxt, g4)" by force
  have par3: "fst s \<noteq> fst t \<longrightarrow> parentCard (card_of g3 c) = None \<and> attachedCards (card_of g3 c) = []" using parent by (simp add: core c_def)
  note D = destroy_moved_inv [OF inv3 cX(1) par3 d]
  have zc: "zone (card_of g3 c) = None" by (rule game_invD(5) [OF inv3 cX(1)])
  show ?thesis
  proof (cases "shouldDestroyOnMove (card_of g3 c) (fst s) (fst t)")
    case False
    with D(2) have nxt: "nxt = Some c" "g4 = g3" by simp_all
    have "stashedCard (card_of g3 e) \<noteq> Some c" for e using game_invD(6) [OF inv3, of e c] by auto
    from place_card_inv [OF inv3 _ zc this] t obtain newX g5 where
      place: "place_card t x y rv (shouldBeFaceDown (moved_request m) (card_of g4 c) (zone_at g4 s) (zone_at g4 t))
         (x_index p + 1) c g3 = Some (newX, g5)" and inv5: "game_inv X g5" and L: "moved_links c (Some t) g3 g5"
      unfolding core cX(2) by blast
    define g' where "g' = finish_move me s t y rv u m i l
      (shouldBeFaceDown (moved_request m) (card_of g4 c) (zone_at g4 s) (zone_at g4 t)) newX c g5"
    have "zones_at g5 t \<noteq> None" using moved_linksD(7) [OF L, of t] t by (simp add: core)
    then have calm: "calm X g5 g'" unfolding g'_def by (rule calm_finish_move)
    then have q: "quiet g5 g'" and inv': "game_inv X g'" using inv5 by (simp_all add: calm_def)
    have L': "moved_links c (Some t) g2 g'"
      using L q unfolding moved_links_def quiet_def core tops3 by auto
    have "arrives s t c g2 g'" using moved_linksD [OF L'] parent by (auto simp: arrives_def c_def)
    with inv' L' processMoveCard_eq [OF out drop d [unfolded g3_def c_def nxt(1)] place [folded nxt(2), unfolded c_def]]
    show ?thesis unfolding c_def g'_def by blast
  next
    case True
    then have names: "fst s \<noteq> fst t" by (auto simp: shouldDestroyOnMove_def split: if_splits)
    from D(1) [OF True] have nxt: "nxt = stashedCard (card_of g3 c)" and inv4: "game_inv X g4"
      and del: "deleted_later g4 = deleted_later g2 @ [c]" and z4: "zones_at g4 = zones_at g2"
      and k4: "\<And>a. zone (card_of g4 a) = zone (card_of g2 a)"
        "\<And>a. stashedCard (card_of g4 a) = (if a = c then None else stashedCard (card_of g2 a))"
        "\<And>a. parentCard (card_of g4 a) = parentCard (card_of g2 a)"
      by (simp_all add: core cX(2))
    show ?thesis
    proof (cases nxt)
      case None
      have "processMoveCard un me s t x y rv u m (p, g) = Some (p, g4)"
        by (rule processMoveCard_gone [OF out drop d [unfolded g3_def c_def None]])
      moreover have "tops g4 r = tops g2 r" for r by (simp add: tops_def z4)
      then have "arrives s t c g2 g4" using zc parent [OF names] by (auto simp: arrives_def k4 del core c_def split: if_splits)
      ultimately show ?thesis using inv4 names unfolding c_def by blast
    next
      case (Some e)
      then have st: "stashedCard (card_of g2 c) = Some e" using nxt by (simp add: core)
      then have ze: "zone (card_of g4 e) = None" using game_invD(6) [OF inv, of c e] by (simp add: k4)
      have "stashedCard (card_of g4 b) \<noteq> Some e" for b using game_invD(7) [OF inv st, of b] by (simp add: k4) blast
      from place_card_inv [OF inv4 _ ze this] t obtain newX g5 where
        place: "place_card t x y rv (shouldBeFaceDown (moved_request m) (card_of g4 c) (zone_at g4 s) (zone_at g4 t))
           (x_index p + 1) e g4 = Some (newX, g5)" and inv5: "game_inv (X - {e}) g5" and L: "moved_links e (Some t) g4 g5"
        unfolding z4 by blast
      have "X - {e} = X" using game_invD(6) [OF inv st] by simp
      with inv5 have inv5: "game_inv X g5" by simp
      define g' where "g' = finish_move me s t y rv u m i l
        (shouldBeFaceDown (moved_request m) (card_of g4 c) (zone_at g4 s) (zone_at g4 t)) newX e g5"
      have "zones_at g5 t \<noteq> None" using moved_linksD(7) [OF L, of t] t by (simp add: z4)
      then have calm: "calm X g5 g'" unfolding g'_def by (rule calm_finish_move)
      then have q: "quiet g5 g'" and inv': "game_inv X g'" using inv5 by (simp_all add: calm_def)
      have ce: "c \<noteq> e" using game_invD(6) [OF inv st] by (auto simp: c_def)
      have k5: "parentCard (card_of g' a) = parentCard (card_of g2 a)" for a
        using quietD(2) [OF q] moved_linksD(2) [OF L] k4(3) by simp
      have t5: "tops g' r = tops g2 r" for r
        using quietD(6) [OF q] moved_linksD(6) [OF L] by (simp add: tops_def z4)
      have "arrives s t c g2 g'"
        unfolding arrives_def k5 t5
        using ce moved_linksD(1,4,5) [OF L] quietD(1,4,5) [OF q] st zc parent [OF names]
        by (auto simp: k4 del core c_def split: if_splits)
      with inv' names processMoveCard_eq [OF out drop d [unfolded g3_def c_def Some] place [unfolded c_def]]
      show ?thesis unfolding c_def g'_def by blast
    qed
  qed
qed


section \<open>Which cards are moved\<close>

lemma find_card_sound: "find_card h i n cs = Some (p, c) \<Longrightarrow> n \<le> p \<and> p < n + length cs \<and> cs ! (p - n) = c \<and> cid (h c) = i"
proof (induction cs arbitrary: n)
  case (Cons d ds)
  show ?case
  proof (cases "cid (h d) = i")
    case True
    with Cons.prems show ?thesis by auto
  next
    case False
    with Cons.prems have "find_card h i (Suc n) ds = Some (p, c)" by simp
    from Cons.IH [OF this] show ?thesis by (simp add: nth_Cons' Suc_diff_le)
  qed
qed simp

lemma getCard_sound:
  assumes "fst (getCard i False h z) = Some (p, c)"
  shows "p < length (zcards z)" "zcards z ! p = c" "if ztype z = HiddenZone then i = int p else cid (h c) = i"
  using assms find_card_sound [of h i 0 "zcards z" p c]
  by (auto simp: getCard_def Let_def split: if_splits option.splits)

lemma getCard_inj:
  assumes "distinct (zcards z)" and "fst (getCard i False h z) = Some (p, c)" and "fst (getCard j False h z) = Some (q, c)"
  shows "i = j"
  using getCard_sound [OF assms(2)] getCard_sound [OF assms(3)] assms(1)
  by (auto simp: nth_eq_iff_index_eq split: if_splits)

definition accepted :: "card_game \<Rightarrow> zone_ref \<Rightarrow> move_card_struct \<Rightarrow> bool" where
  "accepted g s m \<longleftrightarrow>
     fst (getCard (cm_card_id (moved_request m)) False (cards_at g) (zone_at g s)) = Some (moved_position m, moved_card m)"

lemma set_set_insert: "set (set_insert m ns) \<subseteq> insert m (set ns)"
  by (induction m ns rule: set_insert.induct) auto

lemma distinct_set_insert:
  "distinct (map moved_card ns) \<Longrightarrow> moved_card m \<notin> moved_card ` set ns \<Longrightarrow> distinct (map moved_card (set_insert m ns))"
proof (induction m ns rule: set_insert.induct)
  case (2 m n ns)
  have "moved_card n \<notin> moved_card ` set (set_insert m ns)"
    using 2(2,3) set_set_insert [of m ns] by auto
  with 2 show ?case by auto
qed simp

lemma collect_moves_sound:
  assumes "collect_moves g s t x y seen acc ms = Inr moves" and "distinct (zcards (zone_at g s))"
    and "\<And>m. m \<in> set acc \<Longrightarrow> accepted g s m \<and> cm_card_id (moved_request m) \<in> set seen"
    and "distinct (map moved_card acc)"
  shows "distinct (map moved_card moves) \<and> (\<forall>m \<in> set moves. accepted g s m)"
  using assms
proof (induction ms arbitrary: seen acc)
  case (Cons r ms)
  show ?case
  proof (cases "cm_card_id r \<in> set seen")
    case True
    with Cons show ?thesis by simp
  next
    case False
    show ?thesis
    proof (cases "fst (getCard (cm_card_id r) False (cards_at g) (zone_at g s))")
      case None
      with False Cons.prems(1) show ?thesis by simp
    next
      case (Some pc)
      obtain p c where pc: "pc = (p, c)" by force
      let ?new = "move_struct (cards_at g) c p r"
      have new: "accepted g s ?new" using Some by (simp add: accepted_def move_struct_def pc)
      have "moved_card ?new \<notin> moved_card ` set acc"
      proof
        assume "moved_card ?new \<in> moved_card ` set acc"
        then obtain m where m: "m \<in> set acc" "moved_card m = c" by (auto simp: move_struct_def)
        with Cons.prems(3) [OF m(1)] Some
          getCard_inj [OF Cons.prems(2), of "cm_card_id r" "cards_at g" p c "cm_card_id (moved_request m)" "moved_position m"]
        have "cm_card_id r = cm_card_id (moved_request m)" by (simp add: accepted_def pc)
        with Cons.prems(3) [OF m(1)] False show False by simp
      qed
      then have ins: "distinct (map moved_card (set_insert ?new acc))"
        "\<And>m. m \<in> set (set_insert ?new acc) \<Longrightarrow> accepted g s m \<and> cm_card_id (moved_request m) \<in> set (cm_card_id r # seen)"
        using distinct_set_insert [OF Cons.prems(4)] set_set_insert [of ?new acc] Cons.prems(3) new
        by (auto simp: move_struct_def)
      have keep: "\<And>m. m \<in> set acc \<Longrightarrow> accepted g s m \<and> cm_card_id (moved_request m) \<in> set (cm_card_id r # seen)"
        using Cons.prems(3) by simp
      have "collect_moves g s t x y (cm_card_id r # seen) acc ms = Inr moves \<or>
          collect_moves g s t x y (cm_card_id r # seen) (set_insert ?new acc) ms = Inr moves"
        using Cons.prems(1) False Some by (auto simp: pc Let_def split: if_splits)
      then show ?thesis
        using Cons.IH [OF _ Cons.prems(2) keep Cons.prems(4)] Cons.IH [OF _ Cons.prems(2) ins(2) ins(1)] by blast
    qed
  qed
qed simp

lemma accepted_zone:
  assumes "game_inv X g" and "zones_at g s \<noteq> None" and "accepted g s m"
  shows "zone (card_of g (moved_card m)) = Some s"
proof -
  obtain z where z: "zones_at g s = Some z" using assms(2) by blast
  with assms(3) getCard_sound(1,2) [of "cm_card_id (moved_request m)" "cards_at g" z]
  have "moved_card m \<in> set (zcards z)" by (metis accepted_def nth_mem option.sel zone_at_def)
  with game_invD(2) [OF assms(1)] z show ?thesis by blast
qed

lemma collected:
  assumes "game_inv X g" and "zones_at g s \<noteq> None" and "collect_moves g s t x y [] [] ms = Inr moves"
  shows "distinct (map moved_card moves) \<and> (\<forall>m \<in> set moves. zone (card_of g (moved_card m)) = Some s)"
proof -
  obtain z where z: "zones_at g s = Some z" using assms(2) by blast
  have "zone_ok s z" by (rule game_invD(1) [OF assms(1) z])
  then have "distinct (zcards (zone_at g s))" using z by (simp add: zone_ok_def zone_at_def)
  from collect_moves_sound [OF assms(3) this] accepted_zone [OF assms(1,2)] show ?thesis by simp
qed


section \<open>Moves within a zone\<close>

lemma process_all_rule:
  assumes "\<And>m p. m \<in> set ms \<Longrightarrow> P p \<Longrightarrow> \<exists>p'. step m p = Some p' \<and> P p'" and "P p"
  shows "\<exists>p'. process_all step ms p = Some p' \<and> P p'"
  using assms
proof (induction ms arbitrary: p)
  case (Cons m ms)
  from Cons.prems(1) [of m p] Cons.prems(2) obtain p1 where p1: "step m p = Some p1" "P p1" by auto
  from Cons.IH [OF _ p1(2)] Cons.prems(1) p1(1) show ?case by simp
qed simp

lemma moved_linksI:
  assumes "\<And>a. zone (card_of g' a) = (if a = c then r else zone (card_of g a))"
    "\<And>a. parentCard (card_of g' a) = parentCard (card_of g a)"
    "\<And>a. attachedCards (card_of g' a) = attachedCards (card_of g a)"
    "\<And>a. stashedCard (card_of g' a) = stashedCard (card_of g a)"
    "deleted_later g' = deleted_later g" "\<And>q. tops g' q = tops g q"
  shows "moved_links c r g g'"
  unfolding moved_links_def using assms by (simp add: links_def)

lemma moved_links_trans: "moved_links c q g g' \<Longrightarrow> moved_links c r g' g'' \<Longrightarrow> moved_links c r g g''"
  by (rule moved_linksI) (simp_all add: moved_linksD [of c r g' g''] moved_linksD [of c q g g'])

lemma moved_links_quiet: "moved_links c r g g' \<Longrightarrow> zone (card_of g c) = r \<Longrightarrow> quiet g g'"
  unfolding quiet_def by (auto simp: moved_linksD [of c r g g'] links_def)

lemma drop_links_same: "fst s = fst t \<Longrightarrow> drop_links un s t c g = Some g"
  by (simp add: drop_links_def)

lemma process_same_name:
  assumes inv: "game_inv X g" and c: "zone (card_of g (moved_card m)) = Some s" and t: "zones_at g t \<noteq> None"
    and name: "fst s = fst t"
  shows "\<exists>p' g'. processMoveCard un me s t x y rv u m (p, g) = Some (p', g') \<and> game_inv X g' \<and>
    moved_links (moved_card m) (Some t) g g'"
proof -
  from take_out_inv [OF inv c] obtain i l g1 where out: "take_out s (moved_card m) g = Some (i, l, g1)"
    and inv1: "game_inv (insert (moved_card m) X) g1" and L1: "moved_links (moved_card m) None g g1" by blast
  have X: "moved_card m \<notin> X" using game_invD(5) [OF inv] c by auto
  from moved_linksD(7) [OF L1, of t] t have t1: "zones_at g1 t \<noteq> None" by simp
  from process_rest [OF out drop_links_same [OF name] inv1 X t1] name obtain p' g' where
    "processMoveCard un me s t x y rv u m (p, g) = Some (p', g')" "game_inv X g'" "moved_links (moved_card m) (Some t) g1 g'"
    by blast
  with moved_links_trans [OF L1] show ?thesis by blast
qed

lemma process_within:
  assumes "game_inv X g" and "zone (card_of g (moved_card m)) = Some r" and "zones_at g r \<noteq> None"
  shows "\<exists>p' g'. processMoveCard un me r r x y rv u m (p, g) = Some (p', g') \<and> game_inv X g' \<and> quiet g g'"
proof -
  from process_same_name [OF assms refl] obtain p' g' where
    p: "processMoveCard un me r r x y rv u m (p, g) = Some (p', g')" "game_inv X g'"
    and L: "moved_links (moved_card m) (Some r) g g'" by blast
  have "quiet g g'" by (rule moved_links_quiet [OF L assms(2)])
  with p show ?thesis by blast
qed

text \<open>An operation on the game returns, and all it did was to rearrange zones.\<close>

definition settles :: "addr set \<Rightarrow> (card_game \<Rightarrow> card_game option) \<Rightarrow> card_game \<Rightarrow> bool" where
  "settles X f g \<longleftrightarrow> (\<exists>g'. f g = Some g' \<and> game_inv X g' \<and> quiet g g')"

text \<open>
  The top card of zone \<open>r\<close> can be shown: no card is in flight, so that every card with an attached
  card lies in a zone, or the zone does not show its top card.
\<close>

definition top_readable :: "addr set \<Rightarrow> zone_ref \<Rightarrow> card_game \<Rightarrow> bool" where
  "top_readable X r g \<longleftrightarrow> X = {} \<or> \<not> shows_top (zone_at g r)"

lemma top_readable_empty [simp]: "top_readable {} r g"
  by (simp add: top_readable_def)

lemma top_readable_tops: "top_readable X r g \<Longrightarrow> tops g' r = tops g r \<Longrightarrow> top_readable X r g'"
  by (simp add: top_readable_def topsD [of g' r g])

lemma top_readable_quiet: "top_readable X r g \<Longrightarrow> quiet g g' \<Longrightarrow> top_readable X r g'"
  by (erule top_readable_tops) (rule quietD(6))

lemma reveal_total:
  assumes inv: "game_inv X g" and top: "top_readable X r g"
  shows "\<exists>g'. revealTopCardIfNeeded me r g = Some g'"
proof (cases "zcards (zone_at g r) = [] \<or> \<not> shows_top (zone_at g r)")
  case True
  then show ?thesis by (auto simp: revealTopCardIfNeeded_def Let_def shows_top_def split: list.split)
next
  case False
  then have X: "X = {}" using top by (simp add: top_readable_def)
  have "getInfo (cards_at g) (card_of g c) \<noteq> None" for c
    using game_invD(8) [OF inv, of c] by (auto simp: getInfo_fails_iff X)
  then show ?thesis by (auto simp: revealTopCardIfNeeded_def Let_def split: list.split)
qed

lemma show_tops_total:
  assumes inv: "game_inv X g" and s: "top_readable X s g" and t: "top_readable X t g"
  shows "\<exists>g'. show_tops me s t u p g = Some g'"
proof -
  obtain g1 where g1: "(if reveal_start p then revealTopCardIfNeeded me s g else Some g) = Some g1"
    and core: "cards_at g1 = cards_at g" "zones_at g1 = zones_at g" "deleted_later g1 = deleted_later g"
    using reveal_total [OF inv s, of me] reveal_core by (cases "reveal_start p") auto
  from calm_core [OF core] inv have "game_inv X g1" by (simp add: calm_def)
  moreover have "top_readable X t g1" by (rule top_readable_tops [OF t]) (simp add: tops_def core)
  ultimately obtain g2 where "revealTopCardIfNeeded me t g1 = Some g2" using reveal_total by blast
  then show ?thesis unfolding show_tops_def g1 by simp
qed

lemma calmD: "calm X g g' \<Longrightarrow> game_inv X g \<Longrightarrow> game_inv X g' \<and> quiet g g'"
  by (simp add: calm_def)

text \<open>What \<open>perform_moves\<close> does after the loop.\<close>

lemma after_moves:
  assumes inv: "game_inv X g1" and top: "top_readable X s g1" "top_readable X t g1"
    and loop: "process_all (processMoveCard un me s t x y rv u) (if shouldBeFromTheBottom (zone_at g s) moves then rev moves else moves)
           (\<lparr>x_index = - 1, reveal_start = False, reveal_target = False\<rparr>, g) = Some (p, g1)"
  obtains g4 where "game_inv X g4" and "quiet g1 g4"
    and "perform_moves un fixer me s t x y fx u rv moves g =
           (if has_coords (zone_at g4 s) \<and> fx then fixer s g4 else Some g4)"
proof -
  from show_tops_total [OF inv top] obtain g4 where g4: "show_tops me s t u p g1 = Some g4" by blast
  have "perform_moves un fixer me s t x y fx u rv moves g = (if has_coords (zone_at g4 s) \<and> fx then fixer s g4 else Some g4)"
    by (simp add: perform_moves_def Let_def loop g4)
  with calmD [OF calm_core [OF show_tops_core(1-3) [OF g4]] inv] that show ?thesis by blast
qed

lemma move_within:
  assumes inv: "game_inv X g" and r: "zones_at g r \<noteq> None"
    and top: "top_readable X r g"
    and fixer: "\<And>g. fx \<Longrightarrow> game_inv X g \<Longrightarrow> zones_at g r \<noteq> None \<Longrightarrow> top_readable X r g \<Longrightarrow> settles X (fixer r) g"
  shows "\<exists>resp g'. move_card_with un fixer me r cmds r x y fx u rv g = Some (resp, g') \<and> game_inv X g' \<and> quiet g g'"
proof -
  obtain x' y' where xy: "target_coords (zone_at g r) x y = (x', y')" by force
  have allowed: "start_allowed me r r g" by (simp add: start_allowed_def)
  show ?thesis
  proof (cases "\<exists>m ms. collect_moves g r r x' y' [] [] cmds = Inr (m # ms)")
    case False
    then have "\<exists>resp. move_card_with un fixer me r cmds r x y fx u rv g = Some (resp, g)"
      by (auto simp: move_card_with_def allowed xy split: sum.split list.split)
    with inv show ?thesis by auto
  next
    case True
    then obtain moves where mv: "collect_moves g r r x' y' [] [] cmds = Inr moves" "moves \<noteq> []" by blast
    have zs: "zone (card_of g (moved_card m)) = Some r" if "m \<in> set moves" for m
      using collected [OF inv r mv(1)] that by blast
    define ms where "ms = (if shouldBeFromTheBottom (zone_at g r) moves then rev moves else moves)"
    let ?P = "\<lambda>pg. game_inv X (snd pg) \<and> quiet g (snd pg)"
    have "\<exists>p'. process_all (processMoveCard un me r r x' y' rv u) ms
        (\<lparr>x_index = - 1, reveal_start = False, reveal_target = False\<rparr>, g) = Some p' \<and> ?P p'"
    proof (rule process_all_rule)
      fix m and pg :: "move_progress \<times> card_game"
      assume m: "m \<in> set ms" and P: "?P pg"
      obtain p h where pg: "pg = (p, h)" by force
      have "zone (card_of h (moved_card m)) = Some r" "zones_at h r \<noteq> None"
        using quietD [of g h] P zs m r by (auto simp: pg ms_def split: if_splits)
      from process_within [OF _ this] P quiet_trans show "\<exists>p'. processMoveCard un me r r x' y' rv u m pg = Some p' \<and> ?P p'"
        unfolding pg by fastforce
    qed (use inv in simp)
    then obtain p g1 where all: "process_all (processMoveCard un me r r x' y' rv u) ms
        (\<lparr>x_index = - 1, reveal_start = False, reveal_target = False\<rparr>, g) = Some (p, g1)" "game_inv X g1" "quiet g g1"
      by auto
    have top1: "top_readable X r g1" by (rule top_readable_quiet [OF top all(3)])
    obtain g4 where inv4: "game_inv X g4" and q4: "quiet g1 g4"
      and perform: "perform_moves un fixer me r r x' y' fx u rv moves g =
           (if has_coords (zone_at g4 r) \<and> fx then fixer r g4 else Some g4)"
      by (rule after_moves [OF all(2) top1 top1 all(1) [unfolded ms_def]])
    have g4: "game_inv X g4" "quiet g g4" using inv4 quiet_trans [OF all(3) q4] by blast+
    have "\<exists>g'. perform_moves un fixer me r r x' y' fx u rv moves g = Some g' \<and> game_inv X g' \<and> quiet g g'"
    proof (cases "has_coords (zone_at g4 r) \<and> fx")
      case True
      with fixer [OF _ g4(1) _ top_readable_quiet [OF top g4(2)]] quietD(7) [OF g4(2), of r] r perform quiet_trans [OF g4(2)]
      show ?thesis
        by (auto simp: settles_def)
    next
      case False
      with perform have "perform_moves un fixer me r r x' y' fx u rv moves g = Some g4" by (simp only: if_False)
      with g4 show ?thesis by blast
    qed
    then show ?thesis using mv by (auto simp: move_card_with_def allowed xy neq_Nil_conv)
  qed
qed

lemma moveCardInRow_settles:
  "game_inv X g \<Longrightarrow> zones_at g r \<noteq> None \<Longrightarrow> top_readable X r g \<Longrightarrow> settles X (moveCardInRow r c x y) g"
  using move_within [where fx = False] by (fastforce simp: settles_def moveCardInRow_def)


lemma settles_Some: "game_inv X g \<Longrightarrow> settles X Some g"
  by (simp add: settles_def)

lemma settles_bind:
  assumes "settles X f g" and "\<And>g'. f g = Some g' \<Longrightarrow> game_inv X g' \<Longrightarrow> quiet g g' \<Longrightarrow> settles X k g'"
  shows "settles X (\<lambda>g. case f g of None \<Rightarrow> None | Some g' \<Rightarrow> k g') g"
proof -
  from assms(1) obtain g1 where 1: "f g = Some g1" "game_inv X g1" "quiet g g1" unfolding settles_def by blast
  from assms(2) [OF 1] obtain g2 where "k g1 = Some g2" "game_inv X g2" "quiet g1 g2" unfolding settles_def by blast
  with quiet_trans [OF 1(3)] show ?thesis by (simp add: settles_def 1(1))
qed

lemma fill_gap_settles:
  "game_inv X g \<Longrightarrow> zones_at g r \<noteq> None \<Longrightarrow> top_readable X r g \<Longrightarrow> settles X (fill_gap r fx tx y) g"
  using moveCardInRow_settles by (simp add: settles_def fill_gap_def)

lemma fix_place_settles:
  assumes inv: "game_inv X g" and r: "zones_at g r \<noteq> None" and ok: "top_readable X r g"
  shows "settles X (fix_place r place) g"
proof -
  obtain b y where place: "place = (b, y)" by force
  define top where "top = (\<lambda>g. if \<not> col (zone_at g r) y (b + 1) \<and> col (zone_at g r) y (b + 2)
                          then fill_gap r (b + 2) (b + 1) y g else Some g)"
  have top: "settles X top g'" if "game_inv X g'" "zones_at g' r \<noteq> None" "top_readable X r g'" for g'
    using fill_gap_settles [OF that] settles_Some [OF that(1)] by (simp add: top_def settles_def)
  have "settles X (\<lambda>g. case fill_gap r (b + 1) b y g of None \<Rightarrow> None | Some g' \<Rightarrow> top g') g"
  proof (rule settles_bind [OF fill_gap_settles [OF inv r ok]])
    fix g' assume "game_inv X g'" "quiet g g'"
    then show "settles X top g'" using quietD(7) [of g g' r] r top_readable_quiet [OF ok] by (intro top) blast+
  qed
  moreover have "fix_place r place g =
      (if \<not> col (zone_at g r) y b
       then if col (zone_at g r) y (b + 1)
            then (case fill_gap r (b + 1) b y g of None \<Rightarrow> None | Some g' \<Rightarrow> top g')
            else if col (zone_at g r) y (b + 2) then fill_gap r (b + 2) b y g else Some g
       else top g)"
    unfolding fix_place_def place prod.case Let_def top_def ..
  ultimately show ?thesis
    using top [OF inv r ok] fill_gap_settles [OF inv r ok, of "b + 2" b y] settles_Some [OF inv]
    unfolding settles_def by presburger
qed

lemma fixFreeSpaces_settles:
  assumes inv: "game_inv X g" and r: "zones_at g r \<noteq> None" and ok: "top_readable X r g"
  shows "settles X (fixFreeSpaces r) g"
proof (cases "has_coords (zone_at g r)")
  case True
  have "\<exists>g'. process_all (fix_place r) (places_to_look g r) g = Some g' \<and> (game_inv X g' \<and> quiet g g')"
  proof (rule process_all_rule)
    fix m h assume P: "game_inv X h \<and> quiet g h"
    then have "zones_at h r \<noteq> None" using quietD(7) [of g h r] r by blast
    with P fix_place_settles [of X h r m] quiet_trans top_readable_quiet [OF ok]
    show "\<exists>h'. fix_place r m h = Some h' \<and> (game_inv X h' \<and> quiet g h')" unfolding settles_def by blast
  qed (use inv in simp)
  with True show ?thesis by (simp add: settles_def fixFreeSpaces_def)
qed (use inv in \<open>simp add: settles_def fixFreeSpaces_def\<close>)

section \<open>Unattaching\<close>

text \<open>Card \<open>a\<close> has no parent any more; no card has changed its zone.\<close>

definition detaches :: "addr \<Rightarrow> card_game \<Rightarrow> card_game \<Rightarrow> bool" where
  "detaches a g g' \<longleftrightarrow>
     (\<forall>b. zone (card_of g' b) = zone (card_of g b) \<and> stashedCard (card_of g' b) = stashedCard (card_of g b) \<and>
        parentCard (card_of g' b) = (if b = a then None else parentCard (card_of g b))) \<and>
     deleted_later g' = deleted_later g \<and> (\<forall>r. tops g' r = tops g r)"

lemma detachesD:
  assumes "detaches a g g'"
  shows "zone (card_of g' b) = zone (card_of g b)" "stashedCard (card_of g' b) = stashedCard (card_of g b)"
    "parentCard (card_of g' b) = (if b = a then None else parentCard (card_of g b))"
    "deleted_later g' = deleted_later g" "tops g' r = tops g r" "zones_at g' r = None \<longleftrightarrow> zones_at g r = None"
  using assms topsD(1) [of g' r g] unfolding detaches_def by blast+

lemma setParentCard_inv:
  assumes "game_inv X g"
  shows "game_inv X (set_cards (setParentCard a None (cards_at g)) g)"
    "detaches a g (set_cards (setParentCard a None (cards_at g)) g)"
proof -
  let ?h = "setParentCard a None (cards_at g)"
  have F: "zone (?h b) = zone (card_of g b)" "stashedCard (?h b) = stashedCard (card_of g b)"
    "parentCard (?h b) = (if b = a then None else parentCard (card_of g b))" for b
    by (simp_all add: setParentCard_other [where f = zone] setParentCard_other [where f = stashedCard]
        parentCard_setParentCard)
  show "game_inv X (set_cards ?h g)"
    unfolding game_inv_def game_simps F
  proof (intro conjI)
    show "attach_ok ?h" by (rule setParentCard_ok [OF game_invD(3) [OF assms]])
    show "\<forall>b. b \<notin> X \<longrightarrow> (if b = a then None else parentCard (card_of g b)) \<noteq> None \<longrightarrow> zone (card_of g b) \<noteq> None"
      using game_invD(4) [OF assms] by simp
    show "\<forall>b p. (if b = a then None else parentCard (card_of g b)) = Some p \<longrightarrow> p \<in> X \<or> zone (card_of g p) \<noteq> None"
      using game_invD(8) [OF assms] by (metis option.distinct(1))
  qed (insert assms [unfolded game_inv_def], (elim conjE, assumption)+)
  show "detaches a g (set_cards ?h g)" by (simp add: detaches_def tops_def game_simps F)
qed

lemma detaches_quiet: "detaches a g g' \<Longrightarrow> quiet g' g'' \<Longrightarrow> detaches a g g''"
  using quietD [of g' g''] unfolding detaches_def by simp

lemma unattachCard_inv:
  assumes inv: "game_inv X g" and z: "zone (card_of g a) = Some r" and p: "parentCard (card_of g a) = Some c"
    and c: "zone (card_of g c) = None" and top: "top_readable X r g"
  shows "\<exists>g'. unattachCard me a g = Some g' \<and> game_inv X g' \<and> detaches a g g'"
proof -
  define g2 where "g2 = enqueue (EvAttachCard (fst r) (cid (card_of (set_cards (setParentCard a None (cards_at g)) g) a)) None) me
    (set_cards (setParentCard a None (cards_at g)) g)"
  have calm: "calm X (set_cards (setParentCard a None (cards_at g)) g) g2"
    unfolding g2_def by (rule calm_core) (simp_all add: game_simps)
  from calmD [OF this setParentCard_inv(1) [OF inv]] detaches_quiet [OF setParentCard_inv(2) [OF inv]]
  have g2: "game_inv X g2" "detaches a g g2" by blast+
  have "zones_at g r \<noteq> None" using game_invD(2) [OF inv, of a r] z by auto
  then have r: "zones_at g2 r \<noteq> None" using detachesD(6) [OF g2(2), of r] by simp
  have top2: "top_readable X r g2" by (rule top_readable_tops [OF top detachesD(5) [OF g2(2)]])
  have "settles X (fixFreeSpaces r) k" if "game_inv X k" "zones_at k r \<noteq> None" "top_readable X r k" for k
    by (rule fixFreeSpaces_settles [OF that])
  from move_within [OF g2(1) r top2, of "facedown (card_of g2 a)" fixFreeSpaces, OF this] obtain resp g3 where
    m: "move_card_with (\<lambda>_ _ _. None) fixFreeSpaces me r [plain_move (cid (card_of g2 a))] r (- 1)
        (coord_y (card_of g2 a)) (facedown (card_of g2 a)) False False g2 = Some (resp, g3)"
    and g3: "game_inv X g3" "quiet g2 g3" by blast
  have "zone (card_of g3 c) = None" using quietD(1) [OF g3(2)] g2(2) c by (simp add: detaches_def)
  with m z p have "unattachCard me a g = Some g3"
    by (simp add: unattachCard_def Let_def g2_def [symmetric])
  with g3(1) detaches_quiet [OF g2(2) g3(2)] show ?thesis by blast
qed

text \<open>
  The interface between \<open>processMoveCard\<close> and the operation it calls for every attached card.
\<close>

locale unattacher =
  fixes unattach :: "int \<Rightarrow> addr \<Rightarrow> card_game \<Rightarrow> card_game option"
  assumes unattach_law: "game_inv X g \<Longrightarrow> zone (card_of g a) = Some r \<Longrightarrow> parentCard (card_of g a) = Some c \<Longrightarrow>
    zone (card_of g c) = None \<Longrightarrow> top_readable X r g \<Longrightarrow> \<exists>g'. unattach me a g = Some g' \<and> game_inv X g' \<and> detaches a g g'"
begin

lemma unattach_all_inv:
  assumes "game_inv X g" and "zone (card_of g c) = None" and "distinct as"
    and "\<And>a. a \<in> set as \<Longrightarrow> parentCard (card_of g a) = Some c \<and>
      (\<exists>r. zone (card_of g a) = Some r \<and> top_readable X r g)"
  shows "\<exists>g'. unattach_all unattach as g = Some g' \<and> game_inv X g' \<and> deleted_later g' = deleted_later g \<and>
    (\<forall>b. zone (card_of g' b) = zone (card_of g b) \<and> stashedCard (card_of g' b) = stashedCard (card_of g b) \<and>
       parentCard (card_of g' b) = (if b \<in> set as then None else parentCard (card_of g b))) \<and>
    (\<forall>r. tops g' r = tops g r)"
  using assms
proof (induction as arbitrary: g)
  case (Cons a as)
  from Cons.prems(4) [OF list.set_intros(1)] obtain r where
    r: "zone (card_of g a) = Some r" "parentCard (card_of g a) = Some c" and top: "top_readable X r g" by blast
  from unattach_law [OF Cons.prems(1) r Cons.prems(2) top, of "snd r"] obtain g1 where
    g1: "unattach (snd r) a g = Some g1" "game_inv X g1" "detaches a g g1" by blast
  note D = detachesD [OF g1(3)]
  have "parentCard (card_of g1 b) = Some c \<and> (\<exists>r. zone (card_of g1 b) = Some r \<and> top_readable X r g1)" if "b \<in> set as" for b
    using D(1,3) [of b] top_readable_tops [OF _ D(5)] Cons.prems(3) Cons.prems(4) [of b] that by auto
  with Cons.IH [OF g1(2)] D(1) Cons.prems(2,3) obtain g' where
    g': "unattach_all unattach as g1 = Some g'" "game_inv X g'" "deleted_later g' = deleted_later g1"
    "\<forall>b. zone (card_of g' b) = zone (card_of g1 b) \<and> stashedCard (card_of g' b) = stashedCard (card_of g1 b) \<and>
       parentCard (card_of g' b) = (if b \<in> set as then None else parentCard (card_of g1 b))"
    "\<forall>r. tops g' r = tops g1 r"
    by auto
  with g1 r D show ?case by (intro exI [of _ g']) simp
qed simp

end

interpretation moving: unattacher unattachCard
  by unfold_locales (rule unattachCard_inv)


section \<open>Moving cards between zones\<close>

lemma moved_links_arrives: "fst s = fst t \<Longrightarrow> moved_links c (Some t) g g' \<Longrightarrow> arrives s t c g g'"
  unfolding arrives_def by (simp add: moved_linksD [of c "Some t" g g'])

lemma arrives_tops: "arrives s t c g g' \<Longrightarrow> tops g' r = tops g r"
  unfolding arrives_def by (elim conjE) (erule spec)

lemma arrives_dom: "arrives s t c g g' \<Longrightarrow> zones_at g' r = None \<longleftrightarrow> zones_at g r = None"
  by (rule topsD(1)) (rule arrives_tops)

lemma arrives_from:
  assumes "arrives s t c g2 g'" and "\<And>a. a \<noteq> c \<Longrightarrow> zone (card_of g2 a) = zone (card_of g a)"
    and "\<And>a. stashedCard (card_of g2 a) = stashedCard (card_of g a)" and "deleted_later g2 = deleted_later g"
    and "\<And>r. tops g2 r = tops g r"
    and "\<And>a p. parentCard (card_of g2 a) = Some p \<Longrightarrow> parentCard (card_of g a) = Some p"
  shows "arrives s t c g g'"
  using assms unfolding arrives_def by simp

text \<open>No card attached to \<open>c\<close> lies in a zone that shows its top card.\<close>

definition carries_unshown :: "card_game \<Rightarrow> addr \<Rightarrow> bool" where
  "carries_unshown g c \<longleftrightarrow>
     (\<forall>a \<in> set (attachedCards (card_of g c)). \<forall>r. zone (card_of g a) = Some r \<longrightarrow> \<not> shows_top (zone_at g r))"

lemma carries_unshownD:
  "carries_unshown g c \<Longrightarrow> a \<in> set (attachedCards (card_of g c)) \<Longrightarrow> zone (card_of g a) = Some r \<Longrightarrow>
     \<not> shows_top (zone_at g r)"
  unfolding carries_unshown_def by blast

lemma carries_nothing: "attachedCards (card_of g c) = [] \<Longrightarrow> carries_unshown g c"
  by (simp add: carries_unshown_def)

context unattacher
begin

lemma drop_links_inv:
  assumes inv: "game_inv {c} g" and name: "fst s \<noteq> fst t" and unshown: "carries_unshown g c"
  shows "\<exists>g'. drop_links unattach s t c g = Some g' \<and> game_inv {c} g' \<and>
    parentCard (card_of g' c) = None \<and> attachedCards (card_of g' c) = [] \<and>
    deleted_later g' = deleted_later g \<and> (\<forall>r. tops g' r = tops g r) \<and>
    (\<forall>b. zone (card_of g' b) = zone (card_of g b) \<and> stashedCard (card_of g' b) = stashedCard (card_of g b) \<and>
       (\<forall>p. parentCard (card_of g' b) = Some p \<longrightarrow> parentCard (card_of g b) = Some p))"
proof -
  define g1 where "g1 = (if parentCard (card_of g c) \<noteq> None then set_cards (setParentCard c None (cards_at g)) g else g)"
  have inv1: "game_inv {c} g1" and det: "detaches c g g1"
    using setParentCard_inv [OF inv] inv by (auto simp: g1_def detaches_def)
  note D = detachesD [OF det]
  have zc: "zone (card_of g1 c) = None" using game_invD(5) [OF inv1, of c] by simp
  have att: "attach_ok (cards_at g1)" by (rule game_invD(3) [OF inv1])
  have pc: "parentCard (card_of g1 c) = None" by (simp add: D)
  have children: "parentCard (card_of g1 a) = Some c \<and> (\<exists>r. zone (card_of g1 a) = Some r \<and> top_readable {c} r g1)"
    if a: "a \<in> set (attachedCards (card_of g1 c))" for a
  proof -
    have p: "parentCard (card_of g1 a) = Some c" using att a by (simp add: attach_ok_def)
    with pc have "a \<notin> {c}" by auto
    with p game_invD(4) [OF inv1, of a] obtain r where r: "zone (card_of g1 a) = Some r" by auto
    have "parentCard (card_of g a) = Some c" using p D(3) [of a] by (simp split: if_splits)
    then have "a \<in> set (attachedCards (card_of g c))" using game_invD(3) [OF inv] by (simp add: attach_ok_def)
    from carries_unshownD [OF unshown this, of r] have "\<not> shows_top (zone_at g r)" using r D(1) [of a] by simp
    then have "top_readable {c} r g1" by (simp add: top_readable_def topsD(2) [OF D(5)])
    with p r show ?thesis by blast
  qed
  have c_in: "c \<notin> set (attachedCards (card_of g1 c))" using children pc by force
  have dist: "distinct (attachedCards (card_of g1 c))" using att by (simp add: attach_ok_def)
  from unattach_all_inv [OF inv1 zc dist children] obtain g' where
    un: "unattach_all unattach (attachedCards (card_of g1 c)) g1 = Some g'" and inv': "game_inv {c} g'"
    and del: "deleted_later g' = deleted_later g1"
    and F: "\<And>b. zone (card_of g' b) = zone (card_of g1 b)" "\<And>b. stashedCard (card_of g' b) = stashedCard (card_of g1 b)"
    and P: "\<And>b. parentCard (card_of g' b) = (if b \<in> set (attachedCards (card_of g1 c)) then None else parentCard (card_of g1 b))"
    and top: "\<And>r. tops g' r = tops g1 r" by blast
  have "drop_links unattach s t c g = Some g'"
    unfolding drop_links_def Let_def g1_def [symmetric] using un name by (simp only: if_True simp_thms)
  moreover have "attachedCards (card_of g' c) = []"
  proof -
    have "b \<notin> set (attachedCards (card_of g' c))" for b
    proof -
      have "b \<in> set (attachedCards (card_of g' c)) \<longleftrightarrow> parentCard (card_of g' b) = Some c"
        "b \<in> set (attachedCards (card_of g1 c)) \<longleftrightarrow> parentCard (card_of g1 b) = Some c"
        using game_invD(3) [OF inv'] att unfolding attach_ok_def by blast+
      with P [of b] show ?thesis by simp
    qed
    then show ?thesis by (metis list.set_intros(1) neq_Nil_conv)
  qed
  ultimately show ?thesis using inv' del F top D P [of c] pc
    by (intro exI [of _ g'] conjI) (auto simp: P split: if_splits)
qed

lemma process_between:
  assumes inv: "game_inv {} g" and c: "zone (card_of g (moved_card m)) = Some s" and t: "zones_at g t \<noteq> None"
    and unshown: "fst s \<noteq> fst t \<Longrightarrow> carries_unshown g (moved_card m)"
  shows "\<exists>p' g'. processMoveCard unattach me s t x y rv u m (p, g) = Some (p', g') \<and> game_inv {} g' \<and>
    arrives s t (moved_card m) g g'"
proof (cases "fst s = fst t")
  case True
  with process_same_name [OF inv c t True] moved_links_arrives [OF True] show ?thesis by blast
next
  case False
  from take_out_inv [OF inv c] obtain i l g1 where out: "take_out s (moved_card m) g = Some (i, l, g1)"
    and inv1: "game_inv {moved_card m} g1" and L1: "moved_links (moved_card m) None g g1" by blast
  note L = moved_linksD [OF L1]
  have "carries_unshown g1 (moved_card m)"
    using unshown [OF False] by (simp add: carries_unshown_def L topsD(2) [OF L(6)])
  from drop_links_inv [OF inv1 False this] obtain g2 where drop: "drop_links unattach s t (moved_card m) g1 = Some g2"
    and inv2: "game_inv {moved_card m} g2"
    and par: "parentCard (card_of g2 (moved_card m)) = None \<and> attachedCards (card_of g2 (moved_card m)) = []"
    and del: "deleted_later g2 = deleted_later g1" and top: "\<And>r. tops g2 r = tops g1 r"
    and F: "\<And>b. zone (card_of g2 b) = zone (card_of g1 b)" "\<And>b. stashedCard (card_of g2 b) = stashedCard (card_of g1 b)"
      "\<And>b p. parentCard (card_of g2 b) = Some p \<Longrightarrow> parentCard (card_of g1 b) = Some p"
    by blast
  have "zones_at g2 t \<noteq> None" using topsD(1) [OF top] L(7) [of t] t by simp
  from process_rest [OF out drop inv2 _ this par] obtain p' g' where
    p: "processMoveCard unattach me s t x y rv u m (p, g) = Some (p', g')" "game_inv {} g'"
    "arrives s t (moved_card m) g2 g'" by blast
  have "arrives s t (moved_card m) g g'"
    by (rule arrives_from [OF p(3)]) (use F(3) in \<open>simp_all add: F(1,2) L del top\<close>)
  with p(1,2) show ?thesis by blast
qed

end

text \<open>
  Every card is where it was, went from \<open>s\<close> to \<open>t\<close>, left \<open>s\<close> to be deleted, or was stashed in a
  card that is deleted and lies in \<open>t\<close> now.
\<close>

definition conserved :: "zone_ref \<Rightarrow> zone_ref \<Rightarrow> card_game \<Rightarrow> card_game \<Rightarrow> bool" where
  "conserved s t g g' \<longleftrightarrow>
     (\<forall>a. zone (card_of g' a) = zone (card_of g a) \<or>
        (zone (card_of g a) = Some s \<and> zone (card_of g' a) = Some t) \<or>
        (zone (card_of g a) = Some s \<and> zone (card_of g' a) = None \<and> a \<in> set (deleted_later g')) \<or>
        (zone (card_of g a) = None \<and> zone (card_of g' a) = Some t \<and>
           (\<exists>d \<in> set (deleted_later g'). stashedCard (card_of g d) = Some a))) \<and>
     (\<forall>d a. stashedCard (card_of g' d) = Some a \<longrightarrow> stashedCard (card_of g d) = Some a) \<and>
     set (deleted_later g) \<subseteq> set (deleted_later g') \<and>
     (\<forall>r. zones_at g' r = None \<longleftrightarrow> zones_at g r = None)"

lemma conserved_dom: "conserved s t g g' \<Longrightarrow> zones_at g' r = None \<longleftrightarrow> zones_at g r = None"
  unfolding conserved_def by (elim conjE) (erule spec)

lemma quiet_conserved: "quiet g g' \<Longrightarrow> conserved s t g g'"
  unfolding conserved_def by (simp add: quietD [of g g'])

lemma arrives_conserved:
  assumes inv: "game_inv {} g" and c: "zone (card_of g c) = Some s" and arr: "arrives s t c g g'"
  shows "conserved s t g g'"
  unfolding conserved_def
proof (intro conjI allI)
  fix a
  show "zone (card_of g' a) = zone (card_of g a) \<or>
        (zone (card_of g a) = Some s \<and> zone (card_of g' a) = Some t) \<or>
        (zone (card_of g a) = Some s \<and> zone (card_of g' a) = None \<and> a \<in> set (deleted_later g')) \<or>
        (zone (card_of g a) = None \<and> zone (card_of g' a) = Some t \<and>
           (\<exists>d \<in> set (deleted_later g'). stashedCard (card_of g d) = Some a))"
  proof (cases "a = c")
    case True
    with c arr show ?thesis unfolding arrives_def by auto
  next
    case False
    with arr have "zone (card_of g' a) = zone (card_of g a) \<or>
        (stashedCard (card_of g c) = Some a \<and> zone (card_of g' a) = Some t \<and> c \<in> set (deleted_later g'))"
      unfolding arrives_def by blast
    then show ?thesis using game_invD(6) [OF inv, of c a] by auto
  qed
next
  show "zones_at g' r = None \<longleftrightarrow> zones_at g r = None" for r by (rule arrives_dom [OF arr])
qed (use arr in \<open>auto simp: arrives_def\<close>)

lemma conserved_trans:
  assumes inv: "game_inv {} g" and 1: "conserved s t g g1" and 2: "conserved s t g1 g'"
  shows "conserved s t g g'"
proof -
  define P where "P u v \<longleftrightarrow> (\<forall>a. zone (card_of v a) = zone (card_of u a) \<or>
        (zone (card_of u a) = Some s \<and> zone (card_of v a) = Some t) \<or>
        (zone (card_of u a) = Some s \<and> zone (card_of v a) = None \<and> a \<in> set (deleted_later v)) \<or>
        (zone (card_of u a) = None \<and> zone (card_of v a) = Some t \<and>
           (\<exists>d \<in> set (deleted_later v). stashedCard (card_of u d) = Some a)))" for u v
  have P: "P g g1" "P g1 g'" using 1 2 by (simp_all add: P_def conserved_def)
  have stash: "stashedCard (card_of g1 d) = Some a \<Longrightarrow> stashedCard (card_of g d) = Some a"
    and del: "set (deleted_later g1) \<subseteq> set (deleted_later g')" for d a
    using 1 2 by (simp_all add: conserved_def)
  have none: "stashedCard (card_of g d) = Some a \<Longrightarrow> zone (card_of g a) = None" for d a
    using game_invD(6) [OF inv] by blast
  have "P g g'"
    unfolding P_def
  proof
    fix a
    from P(1) [unfolded P_def, THEN spec, of a] P(2) [unfolded P_def, THEN spec, of a]
    show "zone (card_of g' a) = zone (card_of g a) \<or>
        (zone (card_of g a) = Some s \<and> zone (card_of g' a) = Some t) \<or>
        (zone (card_of g a) = Some s \<and> zone (card_of g' a) = None \<and> a \<in> set (deleted_later g')) \<or>
        (zone (card_of g a) = None \<and> zone (card_of g' a) = Some t \<and>
           (\<exists>d \<in> set (deleted_later g'). stashedCard (card_of g d) = Some a))"
      by (elim disjE conjE bexE) (use stash del none in \<open>auto\<close>)
  qed
  with 1 2 show ?thesis unfolding conserved_def P_def by auto
qed


definition delivered :: "zone_ref \<Rightarrow> card_game \<Rightarrow> addr \<Rightarrow> bool" where
  "delivered t g c \<longleftrightarrow> zone (card_of g c) = Some t \<or> (zone (card_of g c) = None \<and> c \<in> set (deleted_later g))"

lemma delivered_conserved:
  assumes "delivered t g c" and "conserved s t g g'"
  shows "delivered t g' c"
proof -
  have "zone (card_of g' c) = zone (card_of g c) \<or> zone (card_of g' c) = Some t \<or>
      (zone (card_of g' c) = None \<and> c \<in> set (deleted_later g'))" and "set (deleted_later g) \<subseteq> set (deleted_later g')"
    using assms(2) unfolding conserved_def by blast+
  with assms(1) show ?thesis unfolding delivered_def by auto
qed

lemma carries_arrives:
  assumes inv: "game_inv {} g" "game_inv {} g'" and arr: "arrives s t c g g'" and names: "fst s \<noteq> fst t"
    and n: "carries_unshown g n"
  shows "carries_unshown g' n"
  unfolding carries_unshown_def
proof (intro ballI allI impI)
  fix a r assume a: "a \<in> set (attachedCards (card_of g' n))" and r: "zone (card_of g' a) = Some r"
  have "parentCard (card_of g' a) = Some n" using game_invD(3) [OF inv(2)] a by (simp add: attach_ok_def)
  then have p: "parentCard (card_of g a) = Some n" "a \<noteq> c" using arr names unfolding arrives_def by blast+
  then have "zone (card_of g a) \<noteq> None" using game_invD(4) [OF inv(1), of a] by simp
  then have "stashedCard (card_of g c) \<noteq> Some a" using game_invD(6) [OF inv(1), of c a] by auto
  then have "zone (card_of g' a) = zone (card_of g a)" using arr p(2) unfolding arrives_def by blast
  with r have zg: "zone (card_of g a) = Some r" by simp
  have "a \<in> set (attachedCards (card_of g n))" using game_invD(3) [OF inv(1)] p by (simp add: attach_ok_def)
  from carries_unshownD [OF n this zg] have "\<not> shows_top (zone_at g r)" .
  then show "\<not> shows_top (zone_at g' r)" by (simp add: topsD(2) [OF arrives_tops [OF arr]])
qed

context unattacher
begin

lemma process_all_moves:
  assumes "game_inv {} g" and "zones_at g t \<noteq> None" and "distinct (map moved_card ms)"
    and "\<And>m. m \<in> set ms \<Longrightarrow> zone (card_of g (moved_card m)) = Some s \<and> stashedCard (card_of g (moved_card m)) \<notin> Some ` moved_card ` set ms"
    and "\<And>m. m \<in> set ms \<Longrightarrow> fst s \<noteq> fst t \<Longrightarrow> carries_unshown g (moved_card m)"
  shows "\<exists>p' g'. process_all (processMoveCard unattach me s t x y rv u) ms (p, g) = Some (p', g') \<and> game_inv {} g' \<and>
    conserved s t g g' \<and> (\<forall>m \<in> set ms. delivered t g' (moved_card m))"
  using assms
proof (induction ms arbitrary: p g)
  case Nil
  then show ?case by (simp add: quiet_conserved)
next
  case (Cons m ms)
  let ?c = "moved_card m"
  have c: "zone (card_of g ?c) = Some s" using Cons.prems(4) by simp
  have unshown: "fst s \<noteq> fst t \<Longrightarrow> carries_unshown g ?c" using Cons.prems(5) [of m] by simp
  from process_between [OF Cons.prems(1) c Cons.prems(2) unshown] obtain p1 g1 where
    p1: "processMoveCard unattach me s t x y rv u m (p, g) = Some (p1, g1)" and inv1: "game_inv {} g1"
    and arr: "arrives s t ?c g g1" by blast
  have t1: "zones_at g1 t \<noteq> None" using arrives_dom [OF arr, of t] Cons.prems(2) by simp
  have rest: "zone (card_of g1 (moved_card n)) = Some s" if "n \<in> set ms" for n
  proof -
    have "moved_card n \<noteq> ?c" using Cons.prems(3) that by (metis distinct.simps(2) imageI list.set_map list.simps(9))
    moreover have "stashedCard (card_of g ?c) \<noteq> Some (moved_card n)" using Cons.prems(4) [of m] that by auto
    ultimately show ?thesis using arr Cons.prems(4) [of n] that unfolding arrives_def by auto
  qed
  have stash: "stashedCard (card_of g1 (moved_card n)) \<notin> Some ` moved_card ` set ms" if "n \<in> set ms" for n
  proof
    assume "stashedCard (card_of g1 (moved_card n)) \<in> Some ` moved_card ` set ms"
    then obtain k where k: "k \<in> set ms" "stashedCard (card_of g1 (moved_card n)) = Some (moved_card k)" by auto
    then have "zone (card_of g1 (moved_card k)) = None" using game_invD(6) [OF inv1] by blast
    with rest [OF k(1)] show False by simp
  qed
  have carry: "fst s \<noteq> fst t \<Longrightarrow> carries_unshown g1 (moved_card n)" if "n \<in> set ms" for n
    using carries_arrives [OF Cons.prems(1) inv1 arr] Cons.prems(5) [of n] that by simp
  from Cons.IH [OF inv1 t1 _ _ carry, of p1] Cons.prems(3) rest stash obtain p' g' where
    g': "process_all (processMoveCard unattach me s t x y rv u) ms (p1, g1) = Some (p', g')" "game_inv {} g'"
    "conserved s t g1 g'" "\<forall>m \<in> set ms. delivered t g' (moved_card m)" by auto
  have "delivered t g1 ?c" using arr by (simp add: arrives_def delivered_def)
  with delivered_conserved [OF _ g'(3)] have "delivered t g' ?c" by blast
  moreover have "conserved s t g g'"
    by (rule conserved_trans [OF Cons.prems(1) arrives_conserved [OF Cons.prems(1) c arr] g'(3)])
  ultimately show ?case using p1 g' by auto
qed

lemma move_between:
  assumes inv: "game_inv {} g" and s: "zones_at g s \<noteq> None" and t: "zones_at g t \<noteq> None"
    and unshown: "\<And>c. fst s \<noteq> fst t \<Longrightarrow> zone (card_of g c) = Some s \<Longrightarrow> carries_unshown g c"
    and fixer: "\<And>g. game_inv {} g \<Longrightarrow> zones_at g s \<noteq> None \<Longrightarrow> settles {} (fixer s) g"
  shows "\<exists>resp g'. move_card_with unattach fixer me s cmds t x y fx u rv g = Some (resp, g') \<and> game_inv {} g' \<and>
    conserved s t g g' \<and> (resp \<noteq> RespOk \<longrightarrow> g' = g)"
proof -
  obtain x' y' where xy: "target_coords (zone_at g t) x y = (x', y')" by force
  show ?thesis
  proof (cases "start_allowed me s t g \<and> (\<exists>m ms. collect_moves g s t x' y' [] [] cmds = Inr (m # ms))")
    case False
    then have "\<exists>resp. move_card_with unattach fixer me s cmds t x y fx u rv g = Some (resp, g)"
      by (auto simp: move_card_with_def xy split: sum.split list.split)
    with inv quiet_conserved [OF quiet_refl] show ?thesis by blast
  next
    case True
    then obtain moves where mv: "collect_moves g s t x' y' [] [] cmds = Inr moves" "moves \<noteq> []"
      and allowed: "start_allowed me s t g" by blast
    define ms where "ms = (if shouldBeFromTheBottom (zone_at g s) moves then rev moves else moves)"
    have ms: "set ms = set moves" "distinct (map moved_card ms)"
      using collected [OF inv s mv(1)] by (auto simp: ms_def rev_map [symmetric])
    have zs: "zone (card_of g (moved_card m)) = Some s" if "m \<in> set ms" for m
      using collected [OF inv s mv(1)] that ms(1) by blast
    have st: "stashedCard (card_of g (moved_card m)) \<notin> Some ` moved_card ` set ms" for m
      using game_invD(6) [OF inv, of "moved_card m"] zs by fastforce
    from process_all_moves [OF inv t ms(2), of s] zs st unshown obtain p g1 where
      all: "process_all (processMoveCard unattach me s t x' y' rv u) ms
        (\<lparr>x_index = - 1, reveal_start = False, reveal_target = False\<rparr>, g) = Some (p, g1)"
      "game_inv {} g1" "conserved s t g g1" by blast
    obtain g4 where g4: "game_inv {} g4" "quiet g1 g4"
      and perform: "perform_moves unattach fixer me s t x' y' fx u rv moves g =
           (if has_coords (zone_at g4 s) \<and> fx then fixer s g4 else Some g4)"
      by (rule after_moves [OF all(2) _ _ all(1) [unfolded ms_def]]) simp_all
    have "zones_at g4 s \<noteq> None" using quietD(7) [OF g4(2), of s] conserved_dom [OF all(3), of s] s by simp
    then have "\<exists>g'. perform_moves unattach fixer me s t x' y' fx u rv moves g = Some g' \<and> game_inv {} g' \<and> quiet g1 g'"
      using fixer [OF g4(1)] g4 quiet_trans [OF g4(2)] unfolding perform settles_def by auto
    then obtain g' where g': "perform_moves unattach fixer me s t x' y' fx u rv moves g = Some g'"
      "game_inv {} g'" "quiet g1 g'" by blast
    from mv(2) obtain m1 m2 where m12: "moves = m1 # m2" by (cases moves) auto
    have "move_card_with unattach fixer me s cmds t x y fx u rv g = Some (RespOk, g')"
      using g'(1) allowed mv(1) by (simp add: move_card_with_def xy m12)
    moreover have "conserved s t g g'" by (rule conserved_trans [OF inv all(3) quiet_conserved [OF g'(3)]])
    ultimately show ?thesis using g'(2) by blast
  qed
qed

end

text \<open>C3: Moving cards, whatever the request, dereferences no null pointer and keeps the game well
  formed, provided that, when the name of the zone changes, no card attached to a card of the start
  zone lies in a zone that shows its top card. A card changes its zone only from the start to the
  target, or is deleted as a token that leaves play, or takes the place of the token it was stashed
  in. A refused request changes nothing.\<close>

theorem moveCard_safe:
  assumes "game_inv {} g" and "zones_at g s \<noteq> None" and "zones_at g t \<noteq> None"
    and "\<And>c. fst s \<noteq> fst t \<Longrightarrow> zone (card_of g c) = Some s \<Longrightarrow> carries_unshown g c"
  shows "\<exists>resp g'. moveCard me s cmds t x y fixSpaces undoingDraw isReversed g = Some (resp, g') \<and> game_inv {} g' \<and>
    conserved s t g g' \<and> (resp \<noteq> RespOk \<longrightarrow> g' = g)"
  unfolding moveCard_def by (rule moving.move_between [OF assms fixFreeSpaces_settles]) simp_all


section \<open>The layers are one operation\<close>

text \<open>
  A move within a zone unattaches nothing, and without the last flag it closes no gaps: what
  \<open>moveCardInRow\<close> and \<open>unattachCard\<close> call is \<open>moveCard\<close>.
\<close>

lemma processMoveCard_same_name:
  assumes "fst s = fst t"
  shows "processMoveCard un me s t x y rv u = processMoveCard un' me s t x y rv u"
proof -
  have "drop_links un s t c g = drop_links un' s t c g" for c g
    using assms by (simp add: drop_links_same)
  then show ?thesis unfolding processMoveCard_def by (simp only:)
qed

lemma perform_moves_same_name:
  assumes "fst s = fst t" and "fx \<longrightarrow> fixer = fixer'"
  shows "perform_moves un fixer me s t x y fx u rv ms g = perform_moves un' fixer' me s t x y fx u rv ms g"
  unfolding perform_moves_def processMoveCard_same_name [OF assms(1), of un me x y rv u un']
  using assms(2) by (cases fx) (simp_all only: simp_thms if_False)

lemma move_card_with_same_name:
  assumes "fst s = fst t" and "fx \<longrightarrow> fixer = fixer'"
  shows "move_card_with un fixer me s cmds t x y fx u rv g = move_card_with un' fixer' me s cmds t x y fx u rv g"
proof -
  have "perform_moves un fixer me s t x y fx u rv ms g = perform_moves un' fixer' me s t x y fx u rv ms g" for x y ms
    by (rule perform_moves_same_name [OF assms])
  then show ?thesis unfolding move_card_with_def by (simp only:)
qed

lemma moveCardInRow_is_moveCard:
  "moveCardInRow r c x y g =
     map_option snd (moveCard (snd r) r [plain_move (cid (card_of g c))] r x y False False False g)"
  unfolding moveCardInRow_def moveCard_def
  by (subst move_card_with_same_name [where fixer' = fixFreeSpaces and un' = unattachCard]) simp_all

lemma unattachCard_calls_moveCard:
  "move_card_with (\<lambda>_ _ _. None) fixFreeSpaces me r cmds r x y fx False False g =
     moveCard me r cmds r x y fx False False g"
  unfolding moveCard_def by (rule move_card_with_same_name) simp_all

section \<open>A game\<close>

text \<open>
  Two players; the first has two bears in hand and on the table a wolf (4) with an aura (3).
\<close>

definition ex_card :: "string \<Rightarrow> int \<Rightarrow> zone_ref option \<Rightarrow> server_card" where
  "ex_card n i r = new_server_card \<lparr>ref_name = n, ref_provider = ''p''\<rparr> i 0 0 r"

definition ex_player :: "string \<Rightarrow> int \<Rightarrow> server_player" where
  "ex_player n k =
     \<lparr>nextCardId = k, is_judge = False, user_name = n, has_conceded = False, arrows = [], lastDrawList = []\<rparr>"

definition ex_cards :: card_store where
  "ex_cards a =
     (if a = 1 then ex_card ''Bear'' 1 (Some (''hand'', 1))
      else if a = 2 then ex_card ''Bear'' 2 (Some (''hand'', 1))
      else if a = 3 then (ex_card ''Aura'' 3 (Some (''table'', 1)))\<lparr>parentCard := Some 4, coord_x := - 1, coord_y := 2\<rparr>
      else if a = 4 then (ex_card ''Wolf'' 4 (Some (''table'', 1)))\<lparr>attachedCards := [3], coord_y := 2\<rparr>
      else ex_card ''Isle'' (int a) None)"

definition ex_table :: cardzone where
  "ex_table = (new_cardzone 1 ''table'' True PublicZone)
     \<lparr>zcards := [3, 4], coordinateMap := (\<lambda>y. if y = 2 then [(0, 4)] else []),
      freeSpaceMap := (\<lambda>y. if y = 2 then 3 else 0)\<rparr>"

definition ex_zones :: "zone_ref \<Rightarrow> cardzone option" where
  "ex_zones r =
    (if r = (''hand'', 1) then Some ((new_cardzone 1 ''hand'' False PrivateZone)\<lparr>zcards := [1, 2]\<rparr>)
     else if r = (''table'', 1) then Some ex_table
     else if r = (''table'', 2) then Some (new_cardzone 2 ''table'' True PublicZone)
     else if r = (''grave'', 1) then Some (new_cardzone 1 ''grave'' False PublicZone)
     else None)"

definition ex_game :: card_game where
  "ex_game = \<lparr>cards_at = ex_cards, zones_at = ex_zones, players_at = [(1, ex_player ''ann'' 10), (2, ex_player ''bob'' 20)],
    ruled_game = False, game_started = True, card_db = (\<lambda>_ _. False), hash_order = (\<lambda>x. x), event_list = [],
    private_player = 0, event_context = None, deleted_later = []\<rparr>"

lemma space_ok_empty: "space_ok (new_cardzone p n b t)" "space_ok ((new_cardzone p n b t)\<lparr>zcards := cs\<rparr>)"
  by (auto simp: space_ok_def new_cardzone_def pile_used_def col_def)

lemma ex_table_ok: "space_ok ex_table"
  unfolding space_ok_def
proof (intro allI conjI impI)
  fix y b :: int
  show "qm_ok (coordinateMap ex_table y)" "0 \<le> freeSpaceMap ex_table y" "freeSpaceMap ex_table y mod 3 = 0"
    "\<not> pile_used ex_table y (freeSpaceMap ex_table y)"
    by (auto simp: ex_table_def pile_used_def col_def qm_contains_def qm_ok_def)
  assume "0 \<le> b" "b < freeSpaceMap ex_table y" "b mod 3 = 0"
  then have "y = 2 \<and> 0 \<le> b \<and> b < 3 \<and> b mod 3 = 0" by (auto simp: ex_table_def split: if_splits)
  then have "y = 2 \<and> b = 0" by presburger
  then show "pile_used ex_table y b" by (simp add: ex_table_def pile_used_def col_def qm_contains_def)
qed

lemma ex_game_inv: "game_inv {} ex_game"
proof -
  have "zone_ok r z" if "ex_zones r = Some z" for r z
    using that space_ok_empty ex_table_ok
    by (auto simp: ex_zones_def zone_ok_def zone_ref_of_def new_cardzone_def ex_table_def split: if_splits)
  moreover have "zone (ex_cards a) = Some r \<longleftrightarrow> (\<exists>z. ex_zones r = Some z \<and> a \<in> set (zcards z))" for a r
    by (auto simp: ex_cards_def ex_card_def new_server_card_def ex_zones_def new_cardzone_def ex_table_def)
  moreover have "attach_ok ex_cards"
    by (auto simp: attach_ok_def ex_cards_def ex_card_def new_server_card_def)
  moreover have "stashedCard (ex_cards a) = None" "parentCard (ex_cards a) \<noteq> None \<Longrightarrow> zone (ex_cards a) \<noteq> None" for a
    by (auto simp: ex_cards_def ex_card_def new_server_card_def split: if_splits)
  moreover have "parentCard (ex_cards a) = Some p \<Longrightarrow> zone (ex_cards p) \<noteq> None" for a p
    by (auto simp: ex_cards_def ex_card_def new_server_card_def split: if_splits)
  ultimately show ?thesis unfolding game_inv_def by (simp only: ex_game_def card_game.select_convs) blast
qed

lemma ex_game_unshown: "carries_unshown ex_game c"
  by (auto simp: carries_unshown_def ex_game_def ex_cards_def ex_card_def new_server_card_def zone_at_def
      ex_zones_def ex_table_def new_cardzone_def shows_top_def split: if_splits)

theorem moveCard_safe_witness:
  "\<exists>resp g'. moveCard 1 (''table'', 1) [plain_move 4] (''grave'', 1) 0 0 True False False ex_game = Some (resp, g') \<and>
     game_inv {} g' \<and> conserved (''table'', 1) (''grave'', 1) ex_game g'"
proof -
  have "zones_at ex_game (''table'', 1) \<noteq> None" "zones_at ex_game (''grave'', 1) \<noteq> None"
    by (simp_all add: ex_game_def ex_zones_def)
  from moveCard_safe [OF ex_game_inv this ex_game_unshown] show ?thesis by blast
qed

end
