(* ===== verification/MoveConceal.thy ===== *)
theory MoveConceal
  imports CardMoveSafe
begin

text \<open>
  What the other players learn from a move. Two games are alike for them when they differ only in
  which cards a set of hidden cards are, in what was sent to a single player, and in the piles by
  name, which no client is told about. The theorem is an unwinding: a move that keeps the hidden
  cards hidden takes alike games to alike games, so it sends the others the same events, and the
  next move may follow.
\<close>

section \<open>Games the others cannot tell apart\<close>

definition blank :: "server_card \<Rightarrow> server_card" where
  "blank k = k\<lparr>cardRef := \<lparr>ref_name = [], ref_provider = []\<rparr>\<rparr>"

definition strip :: "cardzone \<Rightarrow> cardzone" where
  "strip z = z\<lparr>freePilesMap := (\<lambda>_. [])\<rparr>"

text \<open>Stores that agree but for what the cards in \<open>H\<close> are.\<close>

definition same_store :: "addr set \<Rightarrow> card_store \<Rightarrow> card_store \<Rightarrow> bool" where
  "same_store H h h' \<longleftrightarrow> (\<forall>a. blank (h' a) = blank (h a) \<and> (a \<notin> H \<longrightarrow> h' a = h a))"

definition seen_by_others :: "card_game \<Rightarrow> queued_event list" where
  "seen_by_others g = filter q_others (event_list g)"

definition alike :: "addr set \<Rightarrow> card_game \<Rightarrow> card_game \<Rightarrow> bool" where
  "alike H g g' \<longleftrightarrow>
     same_store H (cards_at g) (cards_at g') \<and>
     (\<forall>r. map_option strip (zones_at g' r) = map_option strip (zones_at g r)) \<and>
     seen_by_others g' = seen_by_others g \<and>
     players_at g' = players_at g \<and> ruled_game g' = ruled_game g \<and> game_started g' = game_started g \<and>
     card_db g' = card_db g \<and> hash_order g' = hash_order g \<and> private_player g' = private_player g \<and>
     event_context g' = event_context g \<and> deleted_later g' = deleted_later g"

text \<open>The cards in \<open>H\<close> that lie in a zone are hidden from the others.\<close>

definition veiled :: "addr set \<Rightarrow> card_game \<Rightarrow> bool" where
  "veiled H g \<longleftrightarrow>
     (\<forall>a \<in> H. \<forall>r. zone (card_of g a) = Some r \<longrightarrow> facedown (card_of g a) \<or> ztype (zone_at g r) \<noteq> PublicZone)"

lemma blank_eqD:
  assumes "blank k = blank k'"
  shows "zone k = zone k'" "cid k = cid k'" "coord_x k = coord_x k'" "coord_y k = coord_y k'"
    "counters k = counters k'" "tapped k = tapped k'" "attacking k = attacking k'" "facedown k = facedown k'"
    "color k = color k'" "ptString k = ptString k'" "annotation k = annotation k'"
    "destroyOnZoneChange k = destroyOnZoneChange k'" "doesntUntap k = doesntUntap k'"
    "parentCard k = parentCard k'" "attachedCards k = attachedCards k'" "stashedCard k = stashedCard k'"
  using assms by (cases k; cases k'; simp add: blank_def)+

lemma strip_eqD:
  assumes "strip z = strip z'"
  shows "zone_name z = zone_name z'" "zone_player z = zone_player z'" "has_coords z = has_coords z'"
    "ztype z = ztype z'" "cardsBeingLookedAt z = cardsBeingLookedAt z'"
    "alwaysRevealTopCard z = alwaysRevealTopCard z'" "alwaysLookAtTopCard z = alwaysLookAtTopCard z'"
    "zcards z = zcards z'" "coordinateMap z = coordinateMap z'" "freeSpaceMap z = freeSpaceMap z'"
  using assms by (cases z; cases z'; simp add: strip_def)+

lemma same_storeD:
  assumes "same_store H h h'"
  shows "blank (h' a) = blank (h a)" "a \<notin> H \<Longrightarrow> h' a = h a"
  using assms unfolding same_store_def by blast+

lemmas same_store_fields = same_storeD(1) [THEN blank_eqD(1)] same_storeD(1) [THEN blank_eqD(2)]
  same_storeD(1) [THEN blank_eqD(3)] same_storeD(1) [THEN blank_eqD(4)] same_storeD(1) [THEN blank_eqD(8)]
  same_storeD(1) [THEN blank_eqD(11)] same_storeD(1) [THEN blank_eqD(12)] same_storeD(1) [THEN blank_eqD(14)]
  same_storeD(1) [THEN blank_eqD(15)] same_storeD(1) [THEN blank_eqD(16)]

lemma same_store_refl [simp]: "same_store H h h"
  by (simp add: same_store_def)

lemma alike_refl [simp]: "alike H g g"
  by (simp add: alike_def)

text \<open>An update that does not look at what the card is.\<close>

definition blind :: "(server_card \<Rightarrow> server_card) \<Rightarrow> bool" where
  "blind f \<longleftrightarrow> (\<forall>k k'. blank k = blank k' \<longrightarrow> blank (f k) = blank (f k'))"

lemma same_store_upd:
  assumes "same_store H h h'" and "blind f"
  shows "same_store H (h(c := f (h c))) (h'(c := f (h' c)))"
proof -
  have "blank (f (h' c)) = blank (f (h c))" using assms unfolding same_store_def blind_def by blast
  with same_storeD [OF assms(1)] show ?thesis unfolding same_store_def fun_upd_apply by metis
qed

section \<open>Zones\<close>

lemma col_cong: "coordinateMap z = coordinateMap z' \<Longrightarrow> col z = col z'"
  by (simp add: col_def fun_eq_iff)

lemma removeCardFromCoordMap_same:
  assumes "strip z = strip z'"
  shows "strip (removeCardFromCoordMap h c x y z) = strip (removeCardFromCoordMap h' c x y z')"
proof -
  have form: "strip (removeCardFromCoordMap h c x y z) = (strip z)\<lparr>
      coordinateMap := coordinateMap (removeCardFromCoordMap h c x y z),
      freeSpaceMap := freeSpaceMap (removeCardFromCoordMap h c x y z)\<rparr>" for h z
    by (rule cardzone.equality) (simp_all add: removeCardFromCoordMap_def Let_def strip_def)
  show ?thesis
  proof (cases "0 \<le> x")
    case True
    note S = strip_eqD(9,10) [OF assms]
    have "pile_used (z\<lparr>coordinateMap := m\<rparr>) = pile_used (z'\<lparr>coordinateMap := m\<rparr>)" for m
      by (rule pile_used_cong) simp
    with True S have "coordinateMap (removeCardFromCoordMap h c x y z) = coordinateMap (removeCardFromCoordMap h' c x y z')"
      "freeSpaceMap (removeCardFromCoordMap h c x y z) = freeSpaceMap (removeCardFromCoordMap h' c x y z')"
      by (simp_all add: removeCardFromCoordMap_state(1,2))
    with assms show ?thesis by (simp add: form)
  qed (use assms in simp)
qed

lemma insertCardIntoCoordMap_same:
  assumes "strip z = strip z'"
  shows "map_option strip (insertCardIntoCoordMap h c x y z) = map_option strip (insertCardIntoCoordMap h' c x y z')"
proof (cases "0 \<le> x")
  case True
  note S = strip_eqD(9,10) [OF assms]
  have form: "strip u = (strip z)\<lparr>coordinateMap := coordinateMap u, freeSpaceMap := freeSpaceMap u\<rparr>"
    if "insertCardIntoCoordMap h c x y z = Some u" for h z u
    using that by (cases z) (auto simp: insertCardIntoCoordMap_def Let_def strip_def split: if_splits option.splits)
  have none: "insertCardIntoCoordMap h c x y z = None \<longleftrightarrow>
      x mod 3 \<noteq> 0 \<and> c_mod (x - 2) 3 = 0 \<and> map_of (qm_insert x c (coordinateMap z y)) (pile_base x) = None" for h z
    using True by (auto simp: insertCardIntoCoordMap_def Let_def card_at_def set_row_def split: option.split)
  show ?thesis
  proof (cases "insertCardIntoCoordMap h c x y z")
    case None
    then have "insertCardIntoCoordMap h' c x y z' = None" using none S by simp
    with None show ?thesis by simp
  next
    case (Some u)
    then obtain u' where u': "insertCardIntoCoordMap h' c x y z' = Some u'" using none S by (metis option.exhaust option.simps(3))
    have "coordinateMap u = coordinateMap u'" "freeSpaceMap u = freeSpaceMap u'"
      using insertCardIntoCoordMap_state(1,2) [OF True Some] insertCardIntoCoordMap_state(1,2) [OF True u'] S by simp_all
    with form [OF Some] form [OF u'] assms Some u' show ?thesis by simp
  qed
qed (use assms in \<open>simp add: insertCardIntoCoordMap_def\<close>)

text \<open>The column does not depend on names unless piles are searched by name.\<close>

lemma getFreeGridColumn_same:
  assumes "strip z = strip z'" and "\<And>a. attachedCards (h a) = attachedCards (h' a)" and "x \<noteq> - 1 \<or> b"
  shows "getFreeGridColumn h z x y n b = getFreeGridColumn h' z' x y n' b"
proof -
  note S = strip_eqD(9,10) [OF assms(1)]
  have "col z = col z'" by (rule col_cong [OF S(1)])
  moreover have "attached_at h z y p = attached_at h' z' y p" for p
    using S(1) assms(2) by (simp add: attached_at_def card_at_def split: option.split)
  ultimately show ?thesis
    using assms(3) S by (simp add: getFreeGridColumn_def Let_def split: option.split)
qed

lemma strip_zcards [simp]: "strip (z\<lparr>zcards := cs\<rparr>) = (strip z)\<lparr>zcards := cs\<rparr>"
  by (simp add: strip_def)

lemma strip_looked_at [simp]: "strip (z\<lparr>cardsBeingLookedAt := n\<rparr>) = (strip z)\<lparr>cardsBeingLookedAt := n\<rparr>"
  by (simp add: strip_def)

section \<open>Operations on one zone\<close>

lemma rel_option_case:
  assumes "rel_option A x y" and "\<And>a b. A a b \<Longrightarrow> rel_option B (f a) (g b)"
  shows "rel_option B (case x of None \<Rightarrow> None | Some a \<Rightarrow> f a) (case y of None \<Rightarrow> None | Some b \<Rightarrow> g b)"
  using assms by (cases x; cases y) auto

lemma rel_option_map_eq: "map_option f x = map_option f y \<Longrightarrow> rel_option (\<lambda>a b. f a = f b) x y"
  by (cases x; cases y) auto

definition same_placing :: "addr set \<Rightarrow> card_store \<times> cardzone \<Rightarrow> card_store \<times> cardzone \<Rightarrow> bool" where
  "same_placing H p q \<longleftrightarrow> same_store H (fst p) (fst q) \<and> strip (snd p) = strip (snd q)"

lemma blindI: "(\<And>k. blank (f k) = f (blank k)) \<Longrightarrow> blind f"
  by (simp add: blind_def)

lemma blind_simps [simp]:
  "blind (\<lambda>k. k\<lparr>zone := r\<rparr>)" "blind (\<lambda>k. k\<lparr>cid := i\<rparr>)" "blind (\<lambda>k. k\<lparr>facedown := b\<rparr>)"
  "blind (\<lambda>k. k\<lparr>coord_x := x, coord_y := y\<rparr>)" "blind (\<lambda>k. k\<lparr>parentCard := q\<rparr>)"
  "blind (\<lambda>k. k\<lparr>attachedCards := attachedCards k @ [a]\<rparr>)" "blind (\<lambda>k. k\<lparr>attachedCards := remove1 a (attachedCards k)\<rparr>)"
  "blind (\<lambda>k. k\<lparr>stashedCard := q\<rparr>)" "blind (\<lambda>k. k\<lparr>tapped := b\<rparr>)" "blind (\<lambda>k. k\<lparr>ptString := v\<rparr>)"
  "blind (\<lambda>k. k\<lparr>annotation := v\<rparr>)" "blind (resetState b)"
  by (rule blindI, simp add: blank_def resetState_def Let_def)+

lemma removeCard_form:
  "removeCard c h z =
     (let i = indexOf c (zcards z); l = isCardAtPosLookedAt z i;
          u = (if l \<and> cardsBeingLookedAt z > 0 then z\<lparr>cardsBeingLookedAt := cardsBeingLookedAt z - 1\<rparr> else z)
            \<lparr>zcards := removeAt (nat i) (zcards z)\<rparr>
      in (i, l, h(c := (h c)\<lparr>zone := None\<rparr>),
          if has_coords z then removeCardFromCoordMap h c (coord_x (h c)) (coord_y (h c)) u else u))"
  by (simp add: removeCard_def Let_def)

lemma removeCard_same:
  assumes h: "same_store H h h'" and z: "strip z = strip z'" and r: "removeCard c h z = (i, l, h1, z1)"
  shows "\<exists>h1' z1'. removeCard c h' z' = (i, l, h1', z1') \<and> same_placing H (h1, z1) (h1', z1')"
proof -
  note S = strip_eqD [OF z] and F = same_store_fields [OF h]
  define u where "u z = (if l \<and> cardsBeingLookedAt z > 0 then z\<lparr>cardsBeingLookedAt := cardsBeingLookedAt z - 1\<rparr> else z)
      \<lparr>zcards := removeAt (nat i) (zcards z)\<rparr>" for z :: cardzone
  have i: "i = indexOf c (zcards z)" "l = isCardAtPosLookedAt z i"
    and h1: "h1 = h(c := (h c)\<lparr>zone := None\<rparr>)"
    and z1: "z1 = (if has_coords z then removeCardFromCoordMap h c (coord_x (h c)) (coord_y (h c)) (u z) else u z)"
    using r unfolding removeCard_form Let_def prod.inject u_def by blast+
  have i': "i = indexOf c (zcards z')" "l = isCardAtPosLookedAt z' i"
    using i S by (simp_all add: isCardAtPosLookedAt_def)
  have u: "strip (u z) = strip (u z')" using z S by (simp add: u_def)
  define z1' where "z1' = (if has_coords z' then removeCardFromCoordMap h' c (coord_x (h' c)) (coord_y (h' c)) (u z') else u z')"
  have "removeCard c h' z' = (i, l, h'(c := (h' c)\<lparr>zone := None\<rparr>), z1')"
    unfolding removeCard_form Let_def i'(1) [symmetric] i'(2) [symmetric] z1'_def u_def ..
  moreover have "strip z1 = strip z1'"
    using removeCardFromCoordMap_same [OF u] u S(3) F by (simp add: z1 z1'_def)
  ultimately show ?thesis
    using same_store_upd [OF h, of "\<lambda>k. k\<lparr>zone := None\<rparr>" c] by (simp add: same_placing_def h1)
qed

lemma insertCard_same:
  assumes h: "same_store H h h'" and z: "strip z = strip z'"
  shows "rel_option (same_placing H) (insertCard c x y h z) (insertCard c x y h' z')"
proof -
  note S = strip_eqD [OF z]
  have h1: "same_store H (setCoords c x y h) (setCoords c x y h')" for x y
    unfolding setCoords_def by (rule same_store_upd [OF h]) simp
  have h2: "same_store H ((setCoords c x y h)(c := (setCoords c x y h c)\<lparr>zone := r\<rparr>))
      ((setCoords c x y h')(c := (setCoords c x y h' c)\<lparr>zone := r\<rparr>))" for r x y
    by (rule same_store_upd [OF h1]) simp
  show ?thesis
  proof (cases "has_coords z")
    case True
    have "rel_option (\<lambda>a b. strip a = strip b)
        (insertCardIntoCoordMap (setCoords c x y h) c x y (z\<lparr>zcards := zcards z @ [c]\<rparr>))
        (insertCardIntoCoordMap (setCoords c x y h') c x y (z'\<lparr>zcards := zcards z' @ [c]\<rparr>))"
      by (rule rel_option_map_eq [OF insertCardIntoCoordMap_same]) (simp add: z S)
    then show ?thesis
      unfolding insertCard_def Let_def using True S(3)
      by (simp, elim rel_option_case) (use h2 S in \<open>simp add: same_placing_def\<close>)
  next
    case False
    then show ?thesis
      using h2 S z by (simp add: insertCard_def Let_def same_placing_def)
  qed
qed

lemma find_card_same: "same_store H h h' \<Longrightarrow> find_card h' i n cs = find_card h i n cs"
  by (induction cs arbitrary: n) (simp_all add: same_store_fields)

lemma getCard_same:
  assumes "same_store H h h'" and "strip z = strip z'"
  shows "fst (getCard i False h' z') = fst (getCard i False h z)"
  using strip_eqD [OF assms(2)] find_card_same [OF assms(1)]
  by (simp add: getCard_def Let_def split: option.split)


section \<open>Updates of a game\<close>

text \<open>The order of iteration stays the same.\<close>

lemma game_order [game_simps]:
  "hash_order (enqueue e i g) = hash_order g" "hash_order (enqueue_others e i g) = hash_order g"
  "hash_order (enqueue_private e i j g) = hash_order g" "hash_order (upd_player i f g) = hash_order g"
  "hash_order (set_cards h g) = hash_order g" "hash_order (set_zone r z g) = hash_order g"
  "hash_order (upd_card c k g) = hash_order g" "hash_order (snd (newCardId i g)) = hash_order g"
  "hash_order (announce_move me s t mf g) = hash_order g" "hash_order (forget_draws me s t u j g) = hash_order g"
  by (auto simp: enqueue_def enqueue_others_def enqueue_private_def upd_player_def set_cards_def set_zone_def upd_card_def
      newCardId_def announce_move_def forget_draws_def Let_def
      split: prod.split option.split list.split)

lemma delete_arrows_order [game_simps]: "hash_order (delete_arrows c g) = hash_order g"
proof -
  have inner: "hash_order (fold (delete_arrow i) js g) = hash_order g" for i js g
    by (induction js arbitrary: g) (simp_all add: delete_arrow_def game_simps)
  have "hash_order (fold (\<lambda>i g. fold (delete_arrow i) (arrows_touching c (player_at g i)) g) is g) = hash_order g" for "is"
    by (induction "is" arbitrary: g) (simp_all add: inner)
  then show ?thesis by (simp add: delete_arrows_def)
qed

lemma alikeD:
  assumes "alike H g g'"
  shows "same_store H (cards_at g) (cards_at g')" "map_option strip (zones_at g' r) = map_option strip (zones_at g r)"
    "seen_by_others g' = seen_by_others g" "players_at g' = players_at g" "ruled_game g' = ruled_game g"
    "game_started g' = game_started g" "card_db g' = card_db g" "hash_order g' = hash_order g"
    "private_player g' = private_player g" "event_context g' = event_context g" "deleted_later g' = deleted_later g"
  using assms unfolding alike_def by blast+

lemma alike_zone: "alike H g g' \<Longrightarrow> strip (zone_at g' r) = strip (zone_at g r)"
  using alikeD(2) [of H g g' r] by (cases "zones_at g r"; cases "zones_at g' r") (simp_all add: zone_at_def)

lemma alike_player: "alike H g g' \<Longrightarrow> player_at g' i = player_at g i"
  by (simp add: player_at_def alikeD)

lemma alike_enqueue: "alike H g g' \<Longrightarrow> alike H (enqueue e i g) (enqueue e i g')"
  by (simp add: alike_def enqueue_def seen_by_others_def)

lemma alike_enqueue_others: "alike H g g' \<Longrightarrow> alike H (enqueue_others e i g) (enqueue_others e i g')"
  by (simp add: alike_def enqueue_others_def seen_by_others_def)

lemma alike_enqueue_private: "alike H g g' \<Longrightarrow> alike H (enqueue_private e i j g) (enqueue_private e' i j g')"
  by (simp add: alike_def enqueue_private_def seen_by_others_def Let_def)

lemma alike_upd_player: "alike H g g' \<Longrightarrow> alike H (upd_player i f g) (upd_player i f g')"
  by (simp add: alike_def upd_player_def seen_by_others_def)

lemma alike_set_cards:
  "alike H g g' \<Longrightarrow> same_store H h h' \<Longrightarrow> alike H (set_cards h g) (set_cards h' g')"
  by (simp add: alike_def set_cards_def seen_by_others_def)

lemma alike_set_zone: "alike H g g' \<Longrightarrow> strip z = strip z' \<Longrightarrow> alike H (set_zone r z g) (set_zone r z' g')"
  by (auto simp: alike_def set_zone_def seen_by_others_def)

lemma alike_upd_card: "alike H g g' \<Longrightarrow> blind f \<Longrightarrow> alike H (upd_card c f g) (upd_card c f g')"
  unfolding upd_card_def by (intro alike_set_cards same_store_upd) (simp_all add: alikeD)

lemma alike_newCardId:
  "alike H g g' \<Longrightarrow> fst (newCardId i g') = fst (newCardId i g) \<and> alike H (snd (newCardId i g)) (snd (newCardId i g'))"
  by (simp add: newCardId_def alike_player alike_upd_player)

lemma alike_deleted: "alike H g g' \<Longrightarrow> alike H (g\<lparr>deleted_later := ds\<rparr>) (g'\<lparr>deleted_later := ds\<rparr>)"
  by (simp add: alike_def seen_by_others_def)

lemma alike_context: "alike H g g' \<Longrightarrow> alike H (g\<lparr>event_context := x\<rparr>) (g'\<lparr>event_context := x\<rparr>)"
  by (simp add: alike_def seen_by_others_def)

lemma alike_fold:
  "(\<And>x g g'. alike H g g' \<Longrightarrow> alike H (f x g) (f x g')) \<Longrightarrow> alike H g g' \<Longrightarrow> alike H (fold f xs g) (fold f xs g')"
  by (induction xs arbitrary: g g') simp_all

lemma alike_delete_arrows: "alike H g g' \<Longrightarrow> alike H (delete_arrows c g) (delete_arrows c g')"
proof -
  have one: "alike H g g' \<Longrightarrow> alike H (delete_arrow i j g) (delete_arrow i j g')" for i j g g'
    unfolding delete_arrow_def by (intro alike_upd_player alike_enqueue)
  assume a: "alike H g g'"
  have "alike H (fold (\<lambda>i g. fold (delete_arrow i) (arrows_touching c (player_at g i)) g) (map fst (players_at g)) g)
      (fold (\<lambda>i g. fold (delete_arrow i) (arrows_touching c (player_at g i)) g) (map fst (players_at g)) g')"
  proof (rule alike_fold [OF _ a])
    fix i g g' assume "alike H g g'"
    then show "alike H (fold (delete_arrow i) (arrows_touching c (player_at g i)) g)
        (fold (delete_arrow i) (arrows_touching c (player_at g' i)) g')"
      unfolding alike_player [OF \<open>alike H g g'\<close>] by (rule alike_fold [OF one, rotated])
  qed
  then show ?thesis by (simp add: delete_arrows_def alikeD(4) [OF a])
qed

lemma setParentCard_same:
  assumes "same_store H h h'"
  shows "same_store H (setParentCard c None h) (setParentCard c None h')"
proof -
  have p: "parentCard (h' c) = parentCard (h c)" by (simp add: same_store_fields [OF assms])
  have "same_store H (removeAttachedCard p c h) (removeAttachedCard p c h')" for p
    unfolding removeAttachedCard_def
    by (rule same_store_upd [OF assms, of "\<lambda>k. k\<lparr>attachedCards := remove1 c (attachedCards k)\<rparr>"]) simp
  with assms have "same_store H (case parentCard (h c) of None \<Rightarrow> h | Some p \<Rightarrow> removeAttachedCard p c h)
      (case parentCard (h c) of None \<Rightarrow> h' | Some p \<Rightarrow> removeAttachedCard p c h')"
    by (simp split: option.split)
  from same_store_upd [OF this, of "\<lambda>k. k\<lparr>parentCard := None\<rparr>" c] show ?thesis
    by (simp add: setParentCard_def Let_def p)
qed

text \<open>The attributes a move sets: the database is not asked, so what the card is does not matter.\<close>

definition move_attribute :: "card_attribute \<Rightarrow> string \<Rightarrow> bool" where
  "move_attribute attr v \<longleftrightarrow> (attr = AttrTapped \<and> v = ''1'') \<or> attr = AttrPT \<or> attr = AttrAnnotation"

lemma setAttributeAll_same:
  assumes "move_attribute attr v"
  shows "blind (\<lambda>k. snd (setAttributeAll db attr v al k))" "fst (setAttributeAll db attr v al k) = v"
  using assms
  by (auto simp: move_attribute_def setAttributeAll_def setAttribute_def Let_def blank_def intro!: blindI)

lemma set_all_cards_same:
  assumes "move_attribute attr v" and "same_store H h h'"
  shows "fst (set_all_cards db attr v cs r h') = fst (set_all_cards db attr v cs r h) \<and>
    same_store H (snd (set_all_cards db attr v cs r h)) (snd (set_all_cards db attr v cs r h'))"
  using assms(2)
proof (induction cs arbitrary: r h h')
  case (Cons c cs)
  have "same_store H (h(c := snd (setAttributeAll db attr v True (h c)))) (h'(c := snd (setAttributeAll db attr v True (h' c))))"
    by (rule same_store_upd [OF Cons.prems setAttributeAll_same(1) [OF assms(1)]])
  then show ?case
    unfolding set_all_cards.simps case_prod_beta setAttributeAll_same(2) [OF assms(1)] by (rule Cons.IH)
qed simp

lemma alike_setCardAttrHelper:
  assumes a: "alike H g g'" and attr: "move_attribute attr v"
  shows "alike H (snd (setCardAttrHelper me i zn j attr v u g)) (snd (setCardAttrHelper me i zn j attr v u g'))"
proof (cases "zones_at g (zn, me)")
  case None
  with alikeD(2) [OF a, of "(zn, me)"] have "zones_at g' (zn, me) = None" by simp
  with None a show ?thesis by (simp add: setCardAttrHelper_def)
next
  case (Some z)
  with alikeD(2) [OF a, of "(zn, me)"] obtain z' where z': "zones_at g' (zn, me) = Some z'" "strip z' = strip z" by auto
  note S = strip_eqD [OF z'(2)]
  have get: "fst (getCard k False (cards_at g') z') = fst (getCard k False (cards_at g) z)" for k
    by (rule getCard_same [OF alikeD(1) [OF a] z'(2) [symmetric]])
  have all: "fst (set_all_cards (card_db g) attr v (zcards z) [] (cards_at g')) = fst (set_all_cards (card_db g) attr v (zcards z) [] (cards_at g))"
    "same_store H (snd (set_all_cards (card_db g) attr v (zcards z) [] (cards_at g))) (snd (set_all_cards (card_db g) attr v (zcards z) [] (cards_at g')))"
    using set_all_cards_same [OF attr alikeD(1) [OF a]] by blast+
  have one: "alike H (upd_card c (\<lambda>_. snd (setAttributeAll (card_db g) attr v False (card_of g c))) g)
      (upd_card c (\<lambda>_. snd (setAttributeAll (card_db g) attr v False (card_of g' c))) g')" for c
    unfolding upd_card_def
    by (intro alike_set_cards a same_store_upd [OF alikeD(1) [OF a] setAttributeAll_same(1) [OF attr]])
  note R = setAttributeAll_same(2) [OF attr, of "card_db g"]
  show ?thesis
    unfolding setCardAttrHelper_def Some z'(1) option.case S(1,3,8) get alikeD(7) [OF a] case_prod_beta R all(1)
    using alike_enqueue [OF one] alike_enqueue [OF alike_set_cards [OF a all(2)]] a
    by (simp split: option.split)
qed


section \<open>The steps of a move\<close>

definition same_result :: "addr set \<Rightarrow> 'a \<times> card_game \<Rightarrow> 'a \<times> card_game \<Rightarrow> bool" where
  "same_result H p q \<longleftrightarrow> fst p = fst q \<and> alike H (snd p) (snd q)"

lemma take_out_alike:
  assumes a: "alike H g g'" and t: "take_out s c g = Some (i, l, h)"
  shows "\<exists>h'. take_out s c g' = Some (i, l, h') \<and> alike H h h'"
proof -
  note z = alike_zone [OF a, of s, symmetric]
  from t obtain h1 z1 where r: "removeCard c (cards_at g) (zone_at g s) = (i, l, h1, z1)"
    and h: "h = set_zone s z1 (set_cards h1 g)" and c: "c \<in> set (zcards (zone_at g s))"
    by (auto simp: take_out_def split: if_splits prod.splits)
  from removeCard_same [OF alikeD(1) [OF a] z r] obtain h1' z1' where
    r': "removeCard c (cards_at g') (zone_at g' s) = (i, l, h1', z1')" and "same_store H h1 h1'" "strip z1 = strip z1'"
    by (auto simp: same_placing_def)
  then have "alike H h (set_zone s z1' (set_cards h1' g'))"
    unfolding h by (intro alike_set_zone alike_set_cards a)
  moreover have "take_out s c g' = Some (i, l, set_zone s z1' (set_cards h1' g'))"
    using c r' strip_eqD(8) [OF z] by (simp add: take_out_def)
  ultimately show ?thesis by blast
qed

text \<open>A card without attachments gives up its parent.\<close>

lemma drop_links_alike:
  assumes a: "alike H g g'" and none: "fst s \<noteq> fst t \<Longrightarrow> attachedCards (card_of g c) = []"
    and ok: "attach_ok (cards_at g)"
  shows "\<exists>h h'. drop_links un s t c g = Some h \<and> drop_links un s t c g' = Some h' \<and> alike H h h' \<and>
    (\<forall>a. zone (card_of h a) = zone (card_of g a) \<and> facedown (card_of h a) = facedown (card_of g a) \<and>
       stashedCard (card_of h a) = stashedCard (card_of g a) \<and> destroyOnZoneChange (card_of h a) = destroyOnZoneChange (card_of g a)) \<and>
    zones_at h = zones_at g \<and> hash_order h = hash_order g"
proof (cases "fst s = fst t")
  case True
  with a show ?thesis by (simp add: drop_links_same)
next
  case False
  note F = same_store_fields [OF alikeD(1) [OF a]]
  define k where "k g = (if parentCard (card_of g c) \<noteq> None then set_cards (setParentCard c None (cards_at g)) g else g)" for g
  have att: "attachedCards (card_of (k g) c) = []"
    using none [OF False] attachedCards_setParentCard [OF ok, of c None c] by (simp add: k_def game_simps)
  have al: "alike H (k g) (k g')"
    using a F alike_set_cards [OF a setParentCard_same [OF alikeD(1) [OF a]]] by (simp add: k_def)
  then have att': "attachedCards (card_of (k g') c) = []" using att same_store_fields(9) [OF alikeD(1) [OF al]] by simp
  have "drop_links un s t c g = Some (k g)" "drop_links un s t c g' = Some (k g')"
    unfolding drop_links_def Let_def k_def [symmetric] att att' using False by simp_all
  moreover have "zone (card_of (k g) a) = zone (card_of g a)" "facedown (card_of (k g) a) = facedown (card_of g a)"
    "stashedCard (card_of (k g) a) = stashedCard (card_of g a)"
    "destroyOnZoneChange (card_of (k g) a) = destroyOnZoneChange (card_of g a)" "zones_at (k g) = zones_at g"
    "hash_order (k g) = hash_order g" for a
    by (simp_all add: k_def game_simps setParentCard_other [where f = zone] setParentCard_other [where f = facedown]
        setParentCard_other [where f = stashedCard] setParentCard_other [where f = destroyOnZoneChange])
  ultimately show ?thesis using al by blast
qed

lemma place_card_alike:
  assumes a: "alike H g g'"
    and search: "has_coords (zone_at g t) \<Longrightarrow> y \<noteq> 2 \<or> fd \<or> (\<not> rv \<and> x + i \<noteq> - 1)"
  shows "rel_option (same_result H) (place_card t x y rv fd i c g) (place_card t x y rv fd i c g')"
proof -
  note z = alike_zone [OF a, of t] and S = strip_eqD [OF alike_zone [OF a, of t]]
  define n where "n = (if rv then int (length (zcards (zone_at g t))) - x + i else x + i)"
  have n': "(if rv then int (length (zcards (zone_at g' t))) - x + i else x + i) = n" using S by (simp add: n_def)
  show ?thesis
  proof (cases "has_coords (zone_at g t)")
    case True
    have "getFreeGridColumn (cards_at g) (zone_at g t) n y (getName (cards_at g) c) (fd \<or> y \<noteq> 2)
        = getFreeGridColumn (cards_at g') (zone_at g' t) n y (getName (cards_at g') c) (fd \<or> y \<noteq> 2)"
      by (rule getFreeGridColumn_same [OF z [symmetric]])
         (use search [OF True] same_store_fields(9) [OF alikeD(1) [OF a]] in \<open>auto simp: n_def\<close>)
    then obtain m where m: "getFreeGridColumn (cards_at g) (zone_at g t) n y (getName (cards_at g) c) (fd \<or> y \<noteq> 2) = m"
      "getFreeGridColumn (cards_at g') (zone_at g' t) n y (getName (cards_at g') c) (fd \<or> y \<noteq> 2) = m" by simp
    show ?thesis
      unfolding place_card_def Let_def n' n_def [symmetric] S(3) if_P [OF True] m prod.case
      by (rule rel_option_case [OF insertCard_same [OF alikeD(1) [OF a] z [symmetric]]])
         (auto simp: same_placing_def same_result_def intro!: alike_set_zone alike_set_cards a)
  next
    case False
    let ?r = "upd_card c (resetState (fst t = ''stack''))"
    have r: "alike H (?r g) (?r g')" by (rule alike_upd_card [OF a]) simp
    show ?thesis
      unfolding place_card_def Let_def n' n_def [symmetric] S(3) if_not_P [OF False] prod.case
      by (rule rel_option_case [OF insertCard_same [OF alikeD(1) [OF r] z [symmetric]]])
         (auto simp: same_placing_def same_result_def intro!: alike_set_zone alike_set_cards r)
  qed
qed

lemma alike_extend_looked_at:
  assumes a: "alike H g g'"
  shows "alike H (extend_looked_at t known n g) (extend_looked_at t known n g')"
proof -
  note z = alike_zone [OF a, of t]
  have "strip (setCardsBeingLookedAt m (zone_at g t)) = strip (setCardsBeingLookedAt m (zone_at g' t))" for m
    using z by (simp add: setCardsBeingLookedAt_def)
  with strip_eqD [OF z] a show ?thesis
    by (auto simp: extend_looked_at_def Let_def intro!: alike_set_zone)
qed

lemma alike_renumber: "alike H g g' \<Longrightarrow> alike H (renumber s t fd c g) (renumber s t fd c g')"
  using alike_newCardId [of H g g' "snd t"]
  by (simp add: renumber_def case_prod_beta alike_upd_card)

text \<open>The event for the others does not show what the card is, if it is hidden before and after.\<close>

lemma others_same:
  assumes "strip (fact_start f) = strip (fact_start f')" and "strip (fact_target f) = strip (fact_target f')"
    and "\<And>n p. f\<lparr>fact_start := fact_start f', fact_target := fact_target f', fact_name := n, fact_provider := p\<rparr>
           = f'\<lparr>fact_name := n, fact_provider := p\<rparr>"
    and "source_hidden_to_others f \<and> target_hidden_to_others f \<or>
         fact_name f = fact_name f' \<and> fact_provider f = fact_provider f'"
  shows "snd (move_events f) = snd (move_events f')"
proof -
  note S = strip_eqD [OF assms(1)] and T = strip_eqD [OF assms(2)]
  have F: "fact_ruled f = fact_ruled f'" "fact_y f = fact_y f'" "fact_x f = fact_x f'" "fact_position f = fact_position f'"
    "fact_was_face_down f = fact_was_face_down f'" "fact_face_down f = fact_face_down f'"
    "fact_old_id f = fact_old_id f'" "fact_new_id f = fact_new_id f'"
    using assms(3) [of "[]" "[]"] by (cases f; cases f'; simp)+
  have common: "common_event f = common_event f'"
    by (simp add: common_event_def zone_ref_of_def S T F)
  have conceal: "conceal_source f = conceal_source f'"
    by (simp add: conceal_source_def ruledConcealsMoveSource_def S T F)
  have hidden: "source_hidden_to_others f = source_hidden_to_others f'" "target_hidden_to_others f = target_hidden_to_others f'"
    by (simp_all add: source_hidden_to_others_def target_hidden_to_others_def S T F)
  have "others_event f = others_event f'"
    unfolding others_event_def Let_def common conceal hidden S T F using assms(4) unfolding hidden by auto
  then show ?thesis
    by (simp add: move_events_def clearRuledFaceDownExileMoveIdentity_def F T Let_def)
qed


lemma alike_forget_draws: "alike H g g' \<Longrightarrow> alike H (forget_draws me s t u j g) (forget_draws me s t u j g')"
  by (auto simp: forget_draws_def alike_player intro: alike_upd_player split: option.split)

lemma alike_if: "alike H a a' \<Longrightarrow> alike H b b' \<Longrightarrow> alike H (if P then a else b) (if P then a' else b')"
  by simp

lemma alike_onCardBeingMoved:
  assumes a: "alike H g g'"
  shows "alike H (onCardBeingMoved me m s t u g) (onCardBeingMoved me m s t u g')"
proof -
  let ?c = "moved_card m" and ?r = "moved_request m"
  define g1 where "g1 g = (if cm_tapped ?r then snd (setCardAttrHelper me (snd t) (fst t) (cid (card_of g ?c)) AttrTapped ''1'' None g) else g)" for g
  define g2 where "g2 g = (if cm_pt ?r \<noteq> [] then snd (setCardAttrHelper me (snd t) (fst t) (cid (card_of g ?c)) AttrPT (cm_pt ?r) None g) else g)" for g
  define own where "own g = ''Owner: '' @ user_name (player_at g (snd s))" for g
  define new where "new g = (if annotation (card_of g ?c) = [] then own g else own g @ [CHR 0x0A, CHR 0x0A] @ annotation (card_of g ?c))" for g
  define g3 where "g3 g = (if snd s \<noteq> snd t \<and> \<not> contains_sub ''Owner:'' (annotation (card_of g ?c)) \<and> \<not> ruled_game g
     then snd (setCardAttrHelper me (snd t) (fst t) (cid (card_of g ?c)) AttrAnnotation (new g) (Some ?c) g) else g)" for g
  have form: "onCardBeingMoved me m s t u g = forget_draws me s t u (cid (card_of (g3 (g2 (g1 g))) ?c)) (g3 (g2 (g1 g)))" for g
    by (simp add: onCardBeingMoved_def Let_def g1_def g2_def g3_def new_def own_def)
  have cid: "cid (card_of g' c) = cid (card_of g c)" "annotation (card_of g' c) = annotation (card_of g c)"
    if "alike H g g'" for g g' c
    using same_store_fields [OF alikeD(1) [OF that]] by simp_all
  have 1: "alike H (g1 g) (g1 g')" unfolding g1_def cid(1) [OF a]
    by (intro alike_if alike_setCardAttrHelper a) (simp add: move_attribute_def)
  have 2: "alike H (g2 k) (g2 k')" if "alike H k k'" for k k' unfolding g2_def cid(1) [OF that]
    by (intro alike_if alike_setCardAttrHelper that) (simp add: move_attribute_def)
  have 3: "alike H (g3 k) (g3 k')" if "alike H k k'" for k k'
  proof -
    have "new k' = new k" using cid [OF that] alike_player [OF that] by (simp add: new_def own_def)
    then show ?thesis unfolding g3_def cid [OF that] alikeD(5) [OF that]
      by (auto intro!: alike_setCardAttrHelper that simp: move_attribute_def)
  qed
  have "alike H (g3 (g2 (g1 g))) (g3 (g2 (g1 g')))" by (intro 1 2 3)
  from alike_forget_draws [OF this] cid(1) [OF this] show ?thesis unfolding form by simp
qed

lemma alike_announce:
  assumes "alike H g g'" and "snd (move_events f) = snd (move_events f')"
  shows "alike H (announce_move me s t f g) (announce_move me s t f' g')"
  using assms by (simp add: announce_move_def case_prod_beta alike_enqueue_others alike_enqueue_private)

lemma finish_move_alike:
  assumes a: "alike H g g'"
    and hidden: "c \<in> H \<Longrightarrow> (facedown (card_of g c) \<or> ztype (zone_at g s) \<noteq> PublicZone) \<and>
      (fd \<or> ztype (zone_at g t) \<noteq> PublicZone)"
  shows "alike H (finish_move me s t y rv u m p l fd newX c g) (finish_move me s t y rv u m p l fd newX c g')"
proof -
  define known where "known g = (rv \<or> l \<and> \<not> facedown (card_of g c))" for g
  define g1 where "g1 g = extend_looked_at t (known g) newX g" for g
  define g3 where "g3 g = upd_card c (\<lambda>k. k\<lparr>facedown := fd\<rparr>) (renumber s t fd c (g1 g))" for g
  define f where "f g = \<lparr>fact_ruled = ruled_game (g3 g), fact_start = zone_at (g3 g) s, fact_target = zone_at (g3 g) t, fact_y = y,
       fact_x = newX, fact_position = p, fact_looked_at = l, fact_known = known g,
       fact_was_face_down = facedown (card_of (g1 g) c), fact_face_down = fd, fact_old_id = cid (card_of (g1 g) c),
       fact_new_id = cid (card_of (g3 g) c), fact_name = getName (cards_at (g3 g)) c,
       fact_provider = ref_provider (cardRef (card_of (g3 g) c))\<rparr>" for g
  have form: "finish_move me s t y rv u m p l fd newX c g = onCardBeingMoved me m s t u (announce_move me s t (f g) (g3 g))" for g
    by (simp add: finish_move_def Let_def known_def g1_def g3_def f_def)
  have known: "known g' = known g" using same_store_fields [OF alikeD(1) [OF a]] by (simp add: known_def)
  have 1: "alike H (g1 g) (g1 g')" unfolding g1_def known by (rule alike_extend_looked_at [OF a])
  have 3: "alike H (g3 g) (g3 g')" unfolding g3_def by (intro alike_upd_card alike_renumber 1) simp
  note F1 = same_store_fields [OF alikeD(1) [OF 1]] and F3 = same_store_fields [OF alikeD(1) [OF 3]]
  have "snd (move_events (f g)) = snd (move_events (f g'))"
  proof (rule others_same)
    show "strip (fact_start (f g)) = strip (fact_start (f g'))" "strip (fact_target (f g)) = strip (fact_target (f g'))"
      by (simp_all add: f_def alike_zone [OF 3])
    show "(f g)\<lparr>fact_start := fact_start (f g'), fact_target := fact_target (f g'), fact_name := n, fact_provider := q\<rparr>
        = (f g')\<lparr>fact_name := n, fact_provider := q\<rparr>" for n q
      by (simp add: f_def F1 F3 known alikeD(5) [OF 3])
    show "source_hidden_to_others (f g) \<and> target_hidden_to_others (f g) \<or>
         fact_name (f g) = fact_name (f g') \<and> fact_provider (f g) = fact_provider (f g')"
    proof (cases "c \<in> H")
      case True
      have "facedown (card_of (g1 g) c) = facedown (card_of g c)"
        by (simp add: g1_def extend_looked_at_def Let_def game_simps)
      moreover have "ztype (zone_at (g3 g) r) = ztype (zone_at g r)" for r
        by (simp add: g3_def upd_card_def game_simps renumber_def case_prod_beta zone_at_def g1_def
            extend_looked_at_def Let_def setCardsBeingLookedAt_def)
      ultimately show ?thesis using hidden [OF True]
        by (simp add: source_hidden_to_others_def target_hidden_to_others_def f_def)
    next
      case False
      then have "card_of (g3 g') c = card_of (g3 g) c" by (rule same_storeD(2) [OF alikeD(1) [OF 3]])
      then show ?thesis by (simp add: f_def getName_def)
    qed
  qed
  from alike_onCardBeingMoved [OF alike_announce [OF 3 this]] show ?thesis unfolding form .
qed


section \<open>Faces and zones along a move\<close>

definition zone_sig :: "cardzone \<Rightarrow> zone_ref \<times> bool \<times> zone_type \<times> bool \<times> bool" where
  "zone_sig z = zone_frame z"

definition same_sigs :: "card_game \<Rightarrow> card_game \<Rightarrow> bool" where
  "same_sigs g g' \<longleftrightarrow>
     (\<forall>q. map_option zone_sig (zones_at g' q) = map_option zone_sig (zones_at g q)) \<and> hash_order g' = hash_order g"

definition same_faces :: "card_game \<Rightarrow> card_game \<Rightarrow> bool" where
  "same_faces g g' \<longleftrightarrow> (\<forall>a. facedown (card_of g' a) = facedown (card_of g a)) \<and> same_sigs g g'"

lemma same_faces_refl [simp]: "same_faces g g"
  by (simp add: same_faces_def same_sigs_def)

lemma same_faces_trans: "same_faces g g' \<Longrightarrow> same_faces g' g'' \<Longrightarrow> same_faces g g''"
  by (simp add: same_faces_def same_sigs_def)

lemma same_faces_core:
  "cards_at g' = cards_at g \<Longrightarrow> zones_at g' = zones_at g \<Longrightarrow> hash_order g' = hash_order g \<Longrightarrow> same_faces g g'"
  by (simp add: same_faces_def same_sigs_def)

lemma facedown_setAttributeAll:
  "move_attribute attr v \<Longrightarrow> facedown (snd (setAttributeAll db attr v al k)) = facedown k"
  by (auto simp: move_attribute_def setAttributeAll_def setAttribute_def Let_def)

lemma facedown_set_all_cards:
  "move_attribute attr v \<Longrightarrow> facedown (snd (set_all_cards db attr v cs r h) a) = facedown (h a)"
proof (induction cs arbitrary: r h)
  case (Cons c cs)
  obtain r' k where k: "setAttributeAll db attr v True (h c) = (r', k)" by force
  then have "facedown k = facedown (h c)" using facedown_setAttributeAll [OF Cons.prems, of db True "h c"] by simp
  then show ?case by (simp add: k Cons)
qed simp

lemma same_faces_setCardAttrHelper:
  assumes "move_attribute attr v"
  shows "same_faces g (snd (setCardAttrHelper me i zn j attr v u g))"
proof -
  have all: "facedown (h a) = facedown (card_of g a)"
    if "set_all_cards (card_db g) attr v cs r (cards_at g) = (r', h)" for a cs r r' h
    using facedown_set_all_cards [OF assms, of "card_db g" cs r "cards_at g" a] that by simp
  have one: "facedown k = facedown (card_of g c)"
    if "setAttributeAll (card_db g) attr v b (card_of g c) = (r', k)" for b c r' k
    using facedown_setAttributeAll [OF assms, of "card_db g" b "card_of g c"] that by simp
  have "facedown (card_of (snd (setCardAttrHelper me i zn j attr v u g)) a) = facedown (card_of g a)" for a
    unfolding setCardAttrHelper_def
    by (cases "zones_at g (zn, me)") (auto simp: game_simps split: option.split prod.split dest: all one)
  moreover have "zones_at (snd (setCardAttrHelper me i zn j attr v u g)) = zones_at g"
    "hash_order (snd (setCardAttrHelper me i zn j attr v u g)) = hash_order g"
    unfolding setCardAttrHelper_def by (auto simp: game_simps split: option.split prod.split)
  ultimately show ?thesis by (simp add: same_faces_def same_sigs_def)
qed

lemma same_faces_onCardBeingMoved: "same_faces g (onCardBeingMoved me m s t u g)"
proof -
  have set: "same_faces k (if P then snd (setCardAttrHelper me i zn j attr v w k) else k)"
    if "move_attribute attr v" for P i zn j attr v w k
    using same_faces_setCardAttrHelper [OF that] by simp
  have draws: "same_faces k (forget_draws me s t u j k)" for j k by (rule same_faces_core) (simp_all add: game_simps)
  show ?thesis
    unfolding onCardBeingMoved_def Let_def
    by (rule same_faces_trans [OF same_faces_trans [OF same_faces_trans [OF set set] set] draws])
       (simp_all add: move_attribute_def)
qed

lemma same_sigs_extend: "zones_at g t \<noteq> None \<Longrightarrow> same_sigs g (extend_looked_at t known n g)"
  by (auto simp: same_sigs_def extend_looked_at_def Let_def game_simps zone_at_def zone_sig_def zone_frame_def
      zone_ref_of_def setCardsBeingLookedAt_def)

lemma finish_move_faces:
  assumes "zones_at g t \<noteq> None"
  shows "facedown (card_of (finish_move me s t y rv u m p l fd newX c g) a) = (if a = c then fd else facedown (card_of g a))"
    and "same_sigs g (finish_move me s t y rv u m p l fd newX c g)"
proof -
  define known where "known \<longleftrightarrow> rv \<or> l \<and> \<not> facedown (card_of g c)"
  define g2 where "g2 = renumber s t fd c (extend_looked_at t known newX g)"
  define g3 where "g3 = upd_card c (\<lambda>k. k\<lparr>facedown := fd\<rparr>) g2"
  have faces2: "facedown (card_of g2 a) = facedown (card_of g a)" for a
    by (simp add: g2_def renumber_def case_prod_beta game_simps extend_looked_at_def Let_def)
  have "same_sigs g g2" using same_sigs_extend [OF assms, of known newX]
    by (simp add: g2_def renumber_def case_prod_beta game_simps same_sigs_def)
  then have 3: "facedown (card_of g3 a) = (if a = c then fd else facedown (card_of g a))" "same_sigs g g3" for a
    using faces2 by (simp_all add: g3_def game_simps same_sigs_def)
  obtain mf where f: "finish_move me s t y rv u m p l fd newX c g = onCardBeingMoved me m s t u (announce_move me s t mf g3)"
    unfolding finish_move_def Let_def known_def [symmetric] g2_def [symmetric] g3_def [symmetric] by blast
  have "same_faces g3 (finish_move me s t y rv u m p l fd newX c g)"
    unfolding f by (rule same_faces_trans [OF same_faces_core same_faces_onCardBeingMoved]) (simp_all add: game_simps)
  with 3 show "facedown (card_of (finish_move me s t y rv u m p l fd newX c g) a) = (if a = c then fd else facedown (card_of g a))"
    "same_sigs g (finish_move me s t y rv u m p l fd newX c g)" by (simp_all add: same_faces_def same_sigs_def)
qed

lemma removeCard_sig:
  assumes "removeCard c h z = (i, l, h', z')"
  shows "zone_sig z' = zone_sig z"
proof -
  have "zone_sig (removeCardFromCoordMap h c x y u) = zone_sig u" for h x y u
    by (simp add: zone_sig_def removeCardFromCoordMap_frame(2))
  moreover have "zone_sig (z\<lparr>zcards := cs\<rparr>) = zone_sig z" "zone_sig (z\<lparr>cardsBeingLookedAt := k\<rparr>) = zone_sig z" for z cs k
    by (simp_all add: zone_sig_def zone_frame_def zone_ref_of_def)
  ultimately show ?thesis using assms by (auto simp: removeCard_form Let_def)
qed

lemma insertCard_sig:
  assumes "insertCard c x y h z = Some (h', z')"
  shows "zone_sig z' = zone_sig z"
proof -
  have "zone_sig u' = zone_sig u" if "insertCardIntoCoordMap h c x y u = Some u'" for h u u'
    using insertCardIntoCoordMap_frame(2) [OF that] that
    by (auto simp: zone_sig_def insertCardIntoCoordMap_def Let_def split: if_splits option.splits)
  moreover have "zone_sig (z\<lparr>zcards := cs\<rparr>) = zone_sig z" for cs by (simp add: zone_sig_def)
  ultimately show ?thesis
    using assms by (auto simp: insertCard_def Let_def split: if_splits option.splits)
qed


text \<open>Card \<open>c\<close> has come to \<open>r\<close>, with face \<open>b\<close>; the other cards and the kinds of the zones are as before.\<close>

definition stays :: "addr \<Rightarrow> zone_ref option \<Rightarrow> bool \<Rightarrow> card_game \<Rightarrow> card_game \<Rightarrow> bool" where
  "stays c r b g g' \<longleftrightarrow>
     (\<forall>a. zone (card_of g' a) = (if a = c then r else zone (card_of g a)) \<and>
        facedown (card_of g' a) = (if a = c then b else facedown (card_of g a)) \<and>
        stashedCard (card_of g' a) = stashedCard (card_of g a) \<and>
        (attachedCards (card_of g a) = [] \<longrightarrow> attachedCards (card_of g' a) = [])) \<and>
     same_sigs g g'"

lemma staysI:
  assumes "\<And>a. zone (card_of g' a) = (if a = c then r else zone (card_of g a))"
    "\<And>a. facedown (card_of g' a) = (if a = c then b else facedown (card_of g a))"
    "\<And>a. stashedCard (card_of g' a) = stashedCard (card_of g a)"
    "\<And>a. attachedCards (card_of g a) = [] \<Longrightarrow> attachedCards (card_of g' a) = []" "same_sigs g g'"
  shows "stays c r b g g'"
  using assms by (simp add: stays_def)

lemma staysD:
  assumes "stays c r b g g'"
  shows "zone (card_of g' a) = (if a = c then r else zone (card_of g a))"
    "facedown (card_of g' a) = (if a = c then b else facedown (card_of g a))"
    "stashedCard (card_of g' a) = stashedCard (card_of g a)"
    "attachedCards (card_of g a) = [] \<Longrightarrow> attachedCards (card_of g' a) = []" "same_sigs g g'"
  using assms unfolding stays_def by blast+

lemma stays_trans: "stays c r b g g' \<Longrightarrow> stays c r' b' g' g'' \<Longrightarrow> stays c r' b' g g''"
  by (rule staysI) (simp_all add: staysD [of c r' b' g' g''] staysD [of c r b g g'],
      use staysD(5) [of c r b g g'] staysD(5) [of c r' b' g' g''] in \<open>simp add: same_sigs_def\<close>)

lemma take_out_stays:
  assumes "take_out s c g = Some (i, l, g')" and "zones_at g s \<noteq> None"
  shows "stays c None (facedown (card_of g c)) g g'"
proof -
  obtain h1 z1 where r: "removeCard c (cards_at g) (zone_at g s) = (i, l, h1, z1)"
    and g': "g' = set_zone s z1 (set_cards h1 g)" and c: "c \<in> set (zcards (zone_at g s))"
    using assms(1) by (auto simp: take_out_def split: if_splits prod.splits)
  have "same_sigs g g'" using removeCard_sig [OF r] assms(2) by (auto simp: same_sigs_def g' game_simps zone_at_def)
  with removeCard_parts(1) [OF r c] show ?thesis by (intro staysI) (auto simp: g' game_simps)
qed

lemma place_card_stays:
  assumes p: "place_card t x y rv fd i c g = Some (newX, g')" and z: "zones_at g t = Some z" and r: "zone_ref_of z = t"
    and c: "c \<notin> set (zcards z)"
  shows "stays c (Some t) (facedown (card_of g c)) g g'"
proof -
  have zt: "zone_at g t = z" using z by (simp add: zone_at_def)
  obtain n g1 h z' where g1: "g1 = g \<or> g1 = upd_card c (resetState (fst t = ''stack'')) g"
    and ins: "insertCard c n y (cards_at g1) z = Some (h, z')" and g': "g' = set_zone t z' (set_cards h g1)"
    using p by (auto simp: place_card_def Let_def zt split: if_splits option.splits)
  have reset: "facedown (resetState b k) = facedown k" "links (resetState b k) = links k" for b k
    by (simp_all add: resetState_def Let_def links_def)
  have core: "zones_at g1 = zones_at g" "hash_order g1 = hash_order g" "facedown (card_of g1 a) = facedown (card_of g a)"
    "links (card_of g1 a) = links (card_of g a)" for a
    using g1 by (auto simp: game_simps reset split: if_splits)
  have "same_sigs g g'" using insertCard_sig [OF ins] z by (auto simp: same_sigs_def g' game_simps core)
  with insertCard_parts(4) [OF ins c] r core(3) links_eqD [OF core(4)] show ?thesis
    by (intro staysI) (auto simp: g' game_simps)
qed

lemma finish_move_stays:
  assumes t: "zones_at g t \<noteq> None" and c: "zone (card_of g c) = r"
  shows "stays c r fd g (finish_move me s t y rv u m p l fd newX c g)"
proof -
  let ?g = "finish_move me s t y rv u m p l fd newX c g"
  have q: "quiet g ?g" using calm_finish_move [OF t] by (simp add: calm_def)
  show ?thesis
    by (rule staysI) (use c in \<open>simp_all add: quietD [OF q] finish_move_faces [OF t]\<close>)
qed

lemma shouldBeFaceDown_cong:
  assumes "facedown k = facedown k'" and "ztype z = ztype z'" "zone_name z = zone_name z'" "zone_name w = zone_name w'"
  shows "shouldBeFaceDown m k w z = shouldBeFaceDown m k' w' z'"
  using assms by (simp add: shouldBeFaceDown_def split: option.split)

lemma same_sigs_zone:
  assumes "same_sigs g g'" and "zones_at g r \<noteq> None"
  shows "zone_sig (zone_at g' r) = zone_sig (zone_at g r)" "zones_at g' r \<noteq> None"
  using assms(1) [unfolded same_sigs_def, THEN conjunct1, THEN spec, of r] assms(2) by (auto simp: zone_at_def)

lemma zone_sigD:
  assumes "zone_sig z = zone_sig z'"
  shows "zone_ref_of z = zone_ref_of z'" "zone_name z = zone_name z'" "has_coords z = has_coords z'"
    "ztype z = ztype z'" "alwaysRevealTopCard z = alwaysRevealTopCard z'"
  using assms by (auto simp: zone_sig_def zone_frame_def zone_ref_of_def)

lemma destroy_moved_alike:
  assumes a: "alike H g g'" and none: "fst s \<noteq> fst t \<Longrightarrow> stashedCard (card_of g c) = None"
  shows "\<exists>h h'. destroy_moved me s t c g = (if shouldDestroyOnMove (card_of g c) (fst s) (fst t) then (None, h) else (Some c, h)) \<and>
    destroy_moved me s t c g' = (if shouldDestroyOnMove (card_of g c) (fst s) (fst t) then (None, h') else (Some c, h')) \<and>
    alike H h h' \<and> zones_at h = zones_at g \<and> hash_order h = hash_order g \<and> (\<forall>b. links (card_of h b) = links (card_of g b) \<and> facedown (card_of h b) = facedown (card_of g b)) \<and>
    (\<not> shouldDestroyOnMove (card_of g c) (fst s) (fst t) \<longrightarrow> h = g \<and> h' = g')"
proof (cases "shouldDestroyOnMove (card_of g c) (fst s) (fst t)")
  case True
  then have stash: "stashedCard (card_of g c) = None"
    by (intro none) (auto simp: shouldDestroyOnMove_def split: if_splits)
  note F = same_store_fields [OF alikeD(1) [OF a]]
  have True': "shouldDestroyOnMove (card_of g' c) (fst s) (fst t)" using True F by (simp add: shouldDestroyOnMove_def)
  define k where "k g = (set_cards ((cards_at g)(c := (card_of g c)\<lparr>stashedCard := None\<rparr>))
     (enqueue (EvDestroyCard (fst s) (cid (card_of g c) mod 2 ^ 32)) me g))\<lparr>deleted_later := deleted_later g @ [c]\<rparr>" for g
  have "destroy_moved me s t c g = (None, k g)" "destroy_moved me s t c g' = (None, k g')"
    using True True' stash F by (simp_all add: destroy_moved_def Let_def takeStashedCard_def game_simps k_def)
  moreover have "alike H (k g) (k g')"
    unfolding k_def F(2) [of c] alikeD(11) [OF a]
    by (intro alike_deleted alike_set_cards alike_enqueue a same_store_upd [OF alikeD(1) [OF a]]) simp
  moreover have "zones_at (k g) = zones_at g" "hash_order (k g) = hash_order g" "links (card_of (k g) b) = links (card_of g b)"
    "facedown (card_of (k g) b) = facedown (card_of g b)" for b
    using stash by (simp_all add: k_def game_simps links_def)
  ultimately show ?thesis using True by auto
next
  case False
  then have "\<not> shouldDestroyOnMove (card_of g' c) (fst s) (fst t)"
    using same_store_fields [OF alikeD(1) [OF a]] by (simp add: shouldDestroyOnMove_def)
  with False a show ?thesis by (simp add: destroy_moved_def)
qed


section \<open>Unwinding\<close>

lemma stays_faces: "stays c r b g g' \<Longrightarrow> zones_at g q \<noteq> None \<Longrightarrow> zone_sig (zone_at g' q) = zone_sig (zone_at g q)"
  by (rule same_sigs_zone(1) [OF staysD(5)])

lemma processMoveCard_parts:
  assumes "processMoveCard un me s t x y rv u m (p, g) = Some (q, h)"
    and "take_out s (moved_card m) g = Some (i, l, g1)" and "drop_links un s t (moved_card m) g1 = Some g2"
    and "destroy_moved me s t (moved_card m) (if s \<noteq> t then delete_arrows (moved_card m) g2 else g2) = (Some c, g4)"
  obtains newX g5 where "place_card t x y rv (shouldBeFaceDown (moved_request m) (card_of g4 (moved_card m)) (zone_at g4 s) (zone_at g4 t))
      (x_index p + 1) c g4 = Some (newX, g5)"
    and "q = p\<lparr>x_index := x_index p + 1, reveal_start := reveal_start p \<or> moved_position m = 0,
            reveal_target := reveal_target p \<or> newX = 0\<rparr>"
    and "h = finish_move me s t y rv u m i l
            (shouldBeFaceDown (moved_request m) (card_of g4 (moved_card m)) (zone_at g4 s) (zone_at g4 t)) newX c g5"
  using assms by (auto simp: processMoveCard_def Let_def split: option.splits prod.splits)

lemma process_alike:
  assumes a: "alike H g g'" and inv: "game_inv {} g" and s: "zones_at g s \<noteq> None" and t: "zones_at g t \<noteq> None"
    and step: "processMoveCard un me s t x y rv u m (p, g) = Some (q, h)"
    and c: "zone (card_of g (moved_card m)) = Some s"
    and stash: "fst s \<noteq> fst t \<Longrightarrow> stashedCard (card_of g (moved_card m)) = None"
    and att: "fst s \<noteq> fst t \<Longrightarrow> attachedCards (card_of g (moved_card m)) = []"
    and fd: "fd = shouldBeFaceDown (moved_request m) (card_of g (moved_card m)) (zone_at g s) (zone_at g t)"
    and hidden: "moved_card m \<in> H \<Longrightarrow> (facedown (card_of g (moved_card m)) \<or> ztype (zone_at g s) \<noteq> PublicZone) \<and>
      (fd \<or> ztype (zone_at g t) \<noteq> PublicZone)"
    and search: "has_coords (zone_at g t) \<Longrightarrow> y \<noteq> 2 \<or> fd \<or> (\<not> rv \<and> x + (x_index p + 1) \<noteq> - 1)"
  shows "\<exists>h'. processMoveCard un me s t x y rv u m (p, g') = Some (q, h') \<and> alike H h h' \<and>
    (\<exists>r b. stays (moved_card m) r b g h \<and> (r = Some t \<and> b = fd \<or> r = None)) \<and>
    x_index p \<le> x_index q"
proof -
  let ?c = "moved_card m"
  from take_out_inv [OF inv assms(6)] obtain i l g1 where out: "take_out s ?c g = Some (i, l, g1)" and inv1: "game_inv {?c} g1"
    by blast
  from take_out_alike [OF a out] obtain g1' where out': "take_out s ?c g' = Some (i, l, g1')" and a1: "alike H g1 g1'" by blast
  have st1: "stays ?c None (facedown (card_of g ?c)) g g1" by (rule take_out_stays [OF out s])
  have att1: "fst s \<noteq> fst t \<Longrightarrow> attachedCards (card_of g1 ?c) = []" using staysD(4) [OF st1] att by simp
  from drop_links_alike [OF a1 att1 game_invD(3) [OF inv1], where un = un] obtain g2 g2' where
    drop: "drop_links un s t ?c g1 = Some g2" and drop': "drop_links un s t ?c g1' = Some g2'" and a2: "alike H g2 g2'"
    and F2: "\<And>a. zone (card_of g2 a) = zone (card_of g1 a)" "\<And>a. facedown (card_of g2 a) = facedown (card_of g1 a)"
      "\<And>a. stashedCard (card_of g2 a) = stashedCard (card_of g1 a)" "zones_at g2 = zones_at g1" "hash_order g2 = hash_order g1" by blast
  define arrow where "arrow g = (if s \<noteq> t then delete_arrows ?c g else g)" for g
  have core: "cards_at (arrow g2) = cards_at g2" "zones_at (arrow g2) = zones_at g2" "hash_order (arrow g2) = hash_order g2"
    by (simp_all add: arrow_def game_simps)
  have a3: "alike H (arrow g2) (arrow g2')" using a2 alike_delete_arrows by (simp add: arrow_def)
  have stash3: "fst s \<noteq> fst t \<Longrightarrow> stashedCard (card_of (arrow g2) ?c) = None" using stash staysD(3) [OF st1] by (simp add: core F2)
  from destroy_moved_alike [OF a3 stash3, where me = me] obtain g4 g4' where
    d: "destroy_moved me s t ?c (arrow g2) = (if shouldDestroyOnMove (card_of (arrow g2) ?c) (fst s) (fst t) then (None, g4) else (Some ?c, g4))"
    and d': "destroy_moved me s t ?c (arrow g2') = (if shouldDestroyOnMove (card_of (arrow g2) ?c) (fst s) (fst t) then (None, g4') else (Some ?c, g4'))"
    and a4: "alike H g4 g4'" and z4: "zones_at g4 = zones_at (arrow g2)" "hash_order g4 = hash_order (arrow g2)"
    and k4: "\<And>b. links (card_of g4 b) = links (card_of (arrow g2) b)" "\<And>b. facedown (card_of g4 b) = facedown (card_of (arrow g2) b)"
    by blast
  have att2: "attachedCards (card_of g2 a) = []" if "attachedCards (card_of g1 a) = []" for a
  proof (cases "fst s = fst t")
    case True
    with drop that show ?thesis by (simp add: drop_links_same)
  next
    case False
    with drop att1 have "g2 = (if parentCard (card_of g1 ?c) \<noteq> None then set_cards (setParentCard ?c None (cards_at g1)) g1 else g1)"
      using attachedCards_setParentCard [OF game_invD(3) [OF inv1], of ?c None ?c]
      by (auto simp: drop_links_def Let_def game_simps split: if_splits)
    with that show ?thesis
      using attachedCards_setParentCard [OF game_invD(3) [OF inv1], of ?c None a] by (auto simp: game_simps)
  qed
  have st4: "stays ?c None (facedown (card_of g ?c)) g g4"
  proof (rule staysI)
    show "same_sigs g g4" using staysD(5) [OF st1] by (simp add: same_sigs_def z4 core F2)
    show "attachedCards (card_of g4 a) = []" if "attachedCards (card_of g a) = []" for a
      using att2 [OF staysD(4) [OF st1 that]] links_eqD(3) [OF k4(1)] by (simp add: core)
  qed (simp_all add: links_eqD [OF k4(1)] k4(2) core F2 staysD [OF st1])
  have out0: "take_out s (moved_card m) g = Some (i, l, g1)" "take_out s (moved_card m) g' = Some (i, l, g1')"
    "drop_links un s t (moved_card m) g1 = Some g2" "drop_links un s t (moved_card m) g1' = Some g2'"
    using out out' drop drop' by simp_all
  show ?thesis
  proof (cases "shouldDestroyOnMove (card_of (arrow g2) ?c) (fst s) (fst t)")
    case True
    note d0 = d [unfolded if_P [OF True], unfolded arrow_def] d' [unfolded if_P [OF True], unfolded arrow_def]
    from processMoveCard_gone [OF out0(1,3) d0(1)] step have "q = p" "h = g4" by simp_all
    with processMoveCard_gone [OF out0(2,4) d0(2)] a4 st4 show ?thesis by auto
  next
    case False
    note d0 = d [unfolded if_not_P [OF False], unfolded arrow_def] d' [unfolded if_not_P [OF False], unfolded arrow_def]
    have sig: "zone_sig (zone_at g4 r) = zone_sig (zone_at g r)" if "zones_at g r \<noteq> None" for r
      by (rule stays_faces [OF st4 that])
    note sS = zone_sigD [OF sig [OF s]] and sT = zone_sigD [OF sig [OF t]]
    have fd4: "shouldBeFaceDown (moved_request m) (card_of g4 ?c) (zone_at g4 s) (zone_at g4 t) = fd"
      unfolding fd by (rule shouldBeFaceDown_cong) (simp_all add: staysD [OF st4] sS sT)
    have fd4': "shouldBeFaceDown (moved_request m) (card_of g4' ?c) (zone_at g4' s) (zone_at g4' t) = fd"
      unfolding fd4 [symmetric]
      by (rule shouldBeFaceDown_cong) (simp_all add: same_store_fields [OF alikeD(1) [OF a4]] strip_eqD [OF alike_zone [OF a4]])
    from processMoveCard_parts [OF step out0(1,3) d0(1)] obtain newX g5 where
      place: "place_card t x y rv fd (x_index p + 1) ?c g4 = Some (newX, g5)"
      and q: "q = p\<lparr>x_index := x_index p + 1, reveal_start := reveal_start p \<or> moved_position m = 0,
            reveal_target := reveal_target p \<or> newX = 0\<rparr>"
      and h: "h = finish_move me s t y rv u m i l fd newX ?c g5"
      unfolding fd4 by blast
    have "rel_option (same_result H) (place_card t x y rv fd (x_index p + 1) ?c g4) (place_card t x y rv fd (x_index p + 1) ?c g4')"
      by (rule place_card_alike [OF a4]) (use search sT in simp)
    with place obtain g5' where place': "place_card t x y rv fd (x_index p + 1) ?c g4' = Some (newX, g5')" and a5: "alike H g5 g5'"
      by (auto simp: option_rel_Some1 same_result_def)
    obtain zt where zt: "zones_at g4 t = Some zt" using same_sigs_zone(2) [OF staysD(5) [OF st4] t] by blast
    have "zone_ref_of zt = t"
      using zt t sT(1) game_invD(1) [OF inv, of t] by (auto simp: zone_at_def zone_ok_def)
    moreover have "?c \<notin> set (zcards zt)"
      using game_invD(2) [OF inv1, of ?c t] game_invD(5) [OF inv1, of ?c] zt by (simp add: z4 core F2)
    ultimately have st5: "stays ?c (Some t) (facedown (card_of g4 ?c)) g4 g5" by (rule place_card_stays [OF place zt])
    have t5: "zones_at g5 t \<noteq> None" using same_sigs_zone(2) [OF staysD(5) [OF st5], of t] zt by simp
    have sig5: "zone_sig (zone_at g5 r) = zone_sig (zone_at g r)" if "zones_at g r \<noteq> None" for r
      using stays_faces [OF st5 same_sigs_zone(2) [OF staysD(5) [OF st4] that]] sig [OF that] by simp
    have hid5: "(facedown (card_of g5 ?c) \<or> ztype (zone_at g5 s) \<noteq> PublicZone) \<and> (fd \<or> ztype (zone_at g5 t) \<noteq> PublicZone)" if "?c \<in> H"
      using hidden that zone_sigD(4) [OF sig5 [OF s]] zone_sigD(4) [OF sig5 [OF t]]
      by (simp add: staysD [OF st5] staysD [OF st4])
    have "alike H h (finish_move me s t y rv u m i l fd newX ?c g5')"
      unfolding h by (rule finish_move_alike [OF a5 hid5])
    moreover have "processMoveCard un me s t x y rv u m (p, g') = Some (q, finish_move me s t y rv u m i l fd newX ?c g5')"
      using processMoveCard_eq [OF out0(2,4) d0(2) place' [folded fd4']]
      unfolding fd4' q by simp
    moreover have "stays ?c (Some t) fd g h"
      unfolding h by (rule stays_trans [OF stays_trans [OF st4 st5] finish_move_stays [OF t5]]) (simp add: staysD [OF st5])
    ultimately show ?thesis unfolding q by auto
  qed
qed


lemma veiledD:
  "veiled H g \<Longrightarrow> a \<in> H \<Longrightarrow> zone (card_of g a) = Some r \<Longrightarrow> facedown (card_of g a) \<or> ztype (zone_at g r) \<noteq> PublicZone"
  unfolding veiled_def by blast

lemma process_all_alike:
  assumes total: "\<And>m p g. game_inv {} g \<Longrightarrow> zone (card_of g (moved_card m)) = Some s \<Longrightarrow> zones_at g t \<noteq> None \<Longrightarrow>
      (fst s \<noteq> fst t \<Longrightarrow> attachedCards (card_of g (moved_card m)) = []) \<Longrightarrow> \<exists>q h. processMoveCard un me s t x y rv u m (p, g) = Some (q, h) \<and> game_inv {} h"
    and "alike H g g'" and "game_inv {} g" and "veiled H g" and "zones_at g s \<noteq> None" and "zones_at g t \<noteq> None"
    and "distinct (map moved_card ms)"
    and "\<And>m. m \<in> set ms \<Longrightarrow> zone (card_of g (moved_card m)) = Some s \<and>
      (fst s \<noteq> fst t \<longrightarrow> stashedCard (card_of g (moved_card m)) = None \<and> attachedCards (card_of g (moved_card m)) = []) \<and>
      (moved_card m \<in> H \<longrightarrow> ztype (zone_at g t) \<noteq> PublicZone \<or>
         shouldBeFaceDown (moved_request m) (card_of g (moved_card m)) (zone_at g s) (zone_at g t))"
    and "(\<forall>m \<in> set ms. has_coords (zone_at g t) \<longrightarrow> y \<noteq> 2 \<or>
            shouldBeFaceDown (moved_request m) (card_of g (moved_card m)) (zone_at g s) (zone_at g t) \<or> (\<not> rv \<and> 0 \<le> x)) \<or>
         (length ms \<le> 1 \<and> \<not> rv \<and> x + (x_index p + 1) \<noteq> - 1)"
    and "- 1 \<le> x_index p"
  shows "\<exists>q h h'. process_all (processMoveCard un me s t x y rv u) ms (p, g) = Some (q, h) \<and>
    process_all (processMoveCard un me s t x y rv u) ms (p, g') = Some (q, h') \<and>
    alike H h h' \<and> game_inv {} h \<and> veiled H h \<and> same_sigs g h"
  using assms(2-)
proof (induction ms arbitrary: p g g')
  case Nil
  then show ?case by (simp add: same_sigs_def)
next
  case (Cons m ms)
  let ?fd = "\<lambda>g m. shouldBeFaceDown (moved_request m) (card_of g (moved_card m)) (zone_at g s) (zone_at g t)"
  note a = Cons.prems(1) and inv = Cons.prems(2) and veil = Cons.prems(3) and s = Cons.prems(4) and t = Cons.prems(5)
  have m: "zone (card_of g (moved_card m)) = Some s"
    "fst s \<noteq> fst t \<Longrightarrow> stashedCard (card_of g (moved_card m)) = None"
    "fst s \<noteq> fst t \<Longrightarrow> attachedCards (card_of g (moved_card m)) = []"
    "moved_card m \<in> H \<Longrightarrow> (facedown (card_of g (moved_card m)) \<or> ztype (zone_at g s) \<noteq> PublicZone) \<and>
      (?fd g m \<or> ztype (zone_at g t) \<noteq> PublicZone)"
    using Cons.prems(7) [of m] veiledD [OF veil, of "moved_card m" s] by auto
  have search: "has_coords (zone_at g t) \<Longrightarrow> y \<noteq> 2 \<or> ?fd g m \<or> (\<not> rv \<and> x + (x_index p + 1) \<noteq> - 1)"
    using Cons.prems(8,9) by auto
  from total [OF inv m(1) t m(3), of p] obtain q h where step: "processMoveCard un me s t x y rv u m (p, g) = Some (q, h)"
    and inv1: "game_inv {} h" by blast
  from process_alike [OF a inv s t step m(1) m(2) m(3) refl m(4) search] obtain h' r b where
    step': "processMoveCard un me s t x y rv u m (p, g') = Some (q, h')" and a1: "alike H h h'"
    and st: "stays (moved_card m) r b g h" and rb: "r = Some t \<and> b = ?fd g m \<or> r = None" and idx: "x_index p \<le> x_index q"
    by blast
  have sig: "zone_sig (zone_at h z) = zone_sig (zone_at g z)" "zones_at h z \<noteq> None" if "zones_at g z \<noteq> None" for z
    using same_sigs_zone [OF staysD(5) [OF st] that] by simp_all
  have veil1: "veiled H h"
    unfolding veiled_def
  proof (intro ballI allI impI)
    fix d z assume d: "d \<in> H" and z: "zone (card_of h d) = Some z"
    show "facedown (card_of h d) \<or> ztype (zone_at h z) \<noteq> PublicZone"
    proof (cases "d = moved_card m")
      case True
      with z rb have "z = t" "facedown (card_of h d) = ?fd g m" by (auto simp: staysD [OF st])
      with m(4) d True zone_sigD(4) [OF sig(1) [OF t]] show ?thesis by auto
    next
      case False
      with z have zg: "zone (card_of g d) = Some z" "facedown (card_of h d) = facedown (card_of g d)" by (simp_all add: staysD [OF st])
      then have "zones_at g z \<noteq> None" using game_invD(2) [OF inv, of d z] by auto
      from zg veiledD [OF veil d zg(1)] zone_sigD(4) [OF sig(1) [OF this]] show ?thesis by simp
    qed
  qed
  note S = zone_sigD [OF sig(1) [OF s]] and T = zone_sigD [OF sig(1) [OF t]]
  have other: "moved_card n \<noteq> moved_card m" if "n \<in> set ms" for n
    using Cons.prems(6) that by (metis distinct.simps(2) imageI list.set_map list.simps(9))
  have fd: "?fd h n = ?fd g n" if "n \<in> set ms" for n
    by (rule shouldBeFaceDown_cong) (simp_all add: S T staysD [OF st] other [OF that])
  have rest: "zone (card_of h (moved_card n)) = Some s \<and>
      (fst s \<noteq> fst t \<longrightarrow> stashedCard (card_of h (moved_card n)) = None \<and> attachedCards (card_of h (moved_card n)) = []) \<and>
      (moved_card n \<in> H \<longrightarrow> ztype (zone_at h t) \<noteq> PublicZone \<or> ?fd h n)" if "n \<in> set ms" for n
    using Cons.prems(7) [of n] that other [OF that] staysD(4) [OF st] T fd [OF that] by (simp add: staysD(1,3) [OF st])
  have find: "(\<forall>n \<in> set ms. has_coords (zone_at h t) \<longrightarrow> y \<noteq> 2 \<or> ?fd h n \<or> (\<not> rv \<and> 0 \<le> x)) \<or>
      (length ms \<le> 1 \<and> \<not> rv \<and> x + (x_index q + 1) \<noteq> - 1)"
    using Cons.prems(8) fd T by (cases ms) auto
  have "- 1 \<le> x_index q" using idx Cons.prems(9) by simp
  from Cons.IH [OF a1 inv1 veil1 sig(2) [OF s] sig(2) [OF t] _ rest find this] Cons.prems(6) obtain q' k k' where
    "process_all (processMoveCard un me s t x y rv u) ms (q, h) = Some (q', k)"
    "process_all (processMoveCard un me s t x y rv u) ms (q, h') = Some (q', k')"
    "alike H k k' \<and> game_inv {} k \<and> veiled H k" "same_sigs h k" by auto
  with step step' staysD(5) [OF st] show ?case by (auto simp: same_sigs_def)
qed

lemma getInfo_alike:
  assumes "alike H g g'"
  shows "getInfo (cards_at g') (card_of g' c) = None \<longleftrightarrow> getInfo (cards_at g) (card_of g c) = None"
  by (simp add: getInfo_fails_iff same_store_fields [OF alikeD(1) [OF assms]])

lemma alike_reveal:
  assumes a: "alike H g g'" and no: "\<not> alwaysRevealTopCard (zone_at g r)"
  shows "rel_option (alike H) (revealTopCardIfNeeded me r g) (revealTopCardIfNeeded me r g')"
proof -
  note S = strip_eqD [OF alike_zone [OF a, of r]]
  have both: "rel_option (alike H) (map_option f (getInfo (cards_at g) (card_of g c))) (map_option f' (getInfo (cards_at g') (card_of g' c)))"
    if "\<And>i i'. alike H (f i) (f' i')" for c f f'
    using getInfo_alike [OF a, of c] that
    by (cases "getInfo (cards_at g) (card_of g c)"; cases "getInfo (cards_at g') (card_of g' c)") simp_all
  show ?thesis
    unfolding revealTopCardIfNeeded_def Let_def S
    using no a by (auto intro!: both alike_enqueue_private alike_enqueue_others split: list.split)
qed

lemma collect_moves_alike:
  assumes a: "alike H g g'"
  shows "collect_moves g' s t x y seen acc ms = collect_moves g s t x y seen acc ms"
proof (induction ms arbitrary: seen acc)
  case (Cons m ms)
  have get: "fst (getCard (cm_card_id m) False (cards_at g') (zone_at g' s)) = fst (getCard (cm_card_id m) False (cards_at g) (zone_at g s))"
    by (rule getCard_same [OF alikeD(1) [OF a] alike_zone [OF a, symmetric]])
  note F = same_store_fields [OF alikeD(1) [OF a]] and T = strip_eqD [OF alike_zone [OF a, of t]]
  have col: "isColumnEmpty (zone_at g' t) x y = isColumnEmpty (zone_at g t) x y"
    using T col_cong [OF T(9)] by (simp add: isColumnEmpty_def)
  have struct: "move_struct (cards_at g') c p m = move_struct (cards_at g) c p m" for c p
    by (simp add: move_struct_def F)
  show ?case unfolding collect_moves.simps get col F struct Cons ..
qed simp

lemma collect_moves_requests:
  "collect_moves g s t x y seen acc ms = Inr moves \<Longrightarrow> m \<in> set moves \<Longrightarrow> m \<in> set acc \<or> moved_request m \<in> set ms"
proof (induction ms arbitrary: seen acc)
  case (Cons r ms)
  have "\<And>p c. m \<in> set (set_insert (move_struct (cards_at g) c p r) acc) \<Longrightarrow> m \<in> set acc \<or> moved_request m = r"
    using set_set_insert by (fastforce simp: move_struct_def)
  with Cons show ?case by (fastforce simp: Let_def split: if_splits option.splits)
qed simp


text \<open>An operation takes two alike games to alike games, and hidden cards stay hidden.\<close>

definition unwinds :: "addr set \<Rightarrow> (card_game \<Rightarrow> card_game option) \<Rightarrow> card_game \<Rightarrow> card_game \<Rightarrow> bool" where
  "unwinds H f g g' \<longleftrightarrow>
     (\<exists>h h'. f g = Some h \<and> f g' = Some h' \<and> alike H h h' \<and> game_inv {} h \<and> veiled H h \<and> same_sigs g h)"

lemma same_sigs_trans: "same_sigs g g' \<Longrightarrow> same_sigs g' g'' \<Longrightarrow> same_sigs g g''"
  by (simp add: same_sigs_def)

lemma same_sigs_refl [simp]: "same_sigs g g"
  by (simp add: same_sigs_def)

lemma veiled_core: "cards_at g' = cards_at g \<Longrightarrow> zones_at g' = zones_at g \<Longrightarrow> veiled H g' = veiled H g"
  by (simp add: veiled_def zone_at_def)

lemma show_tops_alike:
  assumes a: "alike H g g'" and inv: "game_inv {} g"
    and no: "\<not> alwaysRevealTopCard (zone_at g s)" "\<not> alwaysRevealTopCard (zone_at g t)"
  shows "\<exists>k k'. show_tops me s t u p g = Some k \<and> show_tops me s t u p g' = Some k' \<and> alike H k k'"
proof -
  have one: "\<exists>k'. (if P then revealTopCardIfNeeded me r h' else Some h') = Some k' \<and> alike H k k'"
    if "alike H h h'" "\<not> alwaysRevealTopCard (zone_at h r)" "(if P then revealTopCardIfNeeded me r h else Some h) = Some k"
    for P r h h' k
    using alike_reveal [OF that(1,2), of me] that by (cases P) (auto simp: option_rel_Some1)
  from show_tops_total [OF inv] obtain k where k: "show_tops me s t u p g = Some k" by fastforce
  then obtain g1 where g1: "(if reveal_start p then revealTopCardIfNeeded me s g else Some g) = Some g1"
    unfolding show_tops_def by (cases "if reveal_start p then revealTopCardIfNeeded me s g else Some g") simp_all
  with k obtain g2 where g2: "(if t \<noteq> s \<and> reveal_target p then revealTopCardIfNeeded me t g1 else Some g1) = Some g2"
    unfolding show_tops_def by (cases "if t \<noteq> s \<and> reveal_target p then revealTopCardIfNeeded me t g1 else Some g1") simp_all
  from one [OF a no(1) g1] obtain h1 where
    h1: "(if reveal_start p then revealTopCardIfNeeded me s g' else Some g') = Some h1" "alike H g1 h1" by blast
  have "zones_at g1 = zones_at g" using g1 reveal_core(2) [of me s g g1] by (auto split: if_splits)
  then have "\<not> alwaysRevealTopCard (zone_at g1 t)" using no(2) by (simp add: zone_at_def)
  from one [OF h1(2) this g2] obtain h2 where
    h2: "(if t \<noteq> s \<and> reveal_target p then revealTopCardIfNeeded me t h1 else Some h1) = Some h2" "alike H g2 h2" by blast
  show ?thesis
    unfolding show_tops_def g1 g2 h1(1) h2(1) option.case
    by (intro exI conjI) (rule refl, rule refl, rule alike_context [OF h2(2)])
qed

lemma perform_alike:
  assumes total: "\<And>m p g. game_inv {} g \<Longrightarrow> zone (card_of g (moved_card m)) = Some s \<Longrightarrow> zones_at g t \<noteq> None \<Longrightarrow>
      (fst s \<noteq> fst t \<Longrightarrow> attachedCards (card_of g (moved_card m)) = []) \<Longrightarrow> \<exists>q h. processMoveCard un me s t x y rv u m (p, g) = Some (q, h) \<and> game_inv {} h"
    and fixer: "\<And>h h'. fx \<Longrightarrow> alike H h h' \<Longrightarrow> game_inv {} h \<Longrightarrow> veiled H h \<Longrightarrow> zones_at h s \<noteq> None \<Longrightarrow> same_sigs g h \<Longrightarrow>
      unwinds H (fixer s) h h'"
    and a: "alike H g g'" and inv: "game_inv {} g" and veil: "veiled H g" and s: "zones_at g s \<noteq> None" and t: "zones_at g t \<noteq> None"
    and dist: "distinct (map moved_card ms)"
    and cards: "\<And>m. m \<in> set ms \<Longrightarrow> zone (card_of g (moved_card m)) = Some s \<and>
      (fst s \<noteq> fst t \<longrightarrow> stashedCard (card_of g (moved_card m)) = None \<and> attachedCards (card_of g (moved_card m)) = []) \<and>
      (moved_card m \<in> H \<longrightarrow> ztype (zone_at g t) \<noteq> PublicZone \<or>
         shouldBeFaceDown (moved_request m) (card_of g (moved_card m)) (zone_at g s) (zone_at g t))"
    and search: "(\<forall>m \<in> set ms. has_coords (zone_at g t) \<longrightarrow> y \<noteq> 2 \<or>
            shouldBeFaceDown (moved_request m) (card_of g (moved_card m)) (zone_at g s) (zone_at g t) \<or> (\<not> rv \<and> 0 \<le> x)) \<or>
         (length ms \<le> 1 \<and> \<not> rv \<and> x \<noteq> - 1)"
    and reveal: "\<not> alwaysRevealTopCard (zone_at g s)" "\<not> alwaysRevealTopCard (zone_at g t)"
  shows "unwinds H (perform_moves un fixer me s t x y fx u rv ms) g g'"
proof -
  define os where "os = (if shouldBeFromTheBottom (zone_at g s) ms then rev ms else ms)"
  define p0 where "p0 = \<lparr>x_index = - 1, reveal_start = False, reveal_target = False\<rparr>"
  have os: "set os = set ms" "length os = length ms" "distinct (map moved_card os)"
    using dist by (simp_all add: os_def rev_map [symmetric])
  have os': "(if shouldBeFromTheBottom (zone_at g' s) ms then rev ms else ms) = os"
    using strip_eqD [OF alike_zone [OF a, of s]] by (simp add: os_def shouldBeFromTheBottom_def)
  have search': "(\<forall>m \<in> set os. has_coords (zone_at g t) \<longrightarrow> y \<noteq> 2 \<or>
            shouldBeFaceDown (moved_request m) (card_of g (moved_card m)) (zone_at g s) (zone_at g t) \<or> (\<not> rv \<and> 0 \<le> x)) \<or>
         (length os \<le> 1 \<and> \<not> rv \<and> x + (x_index p0 + 1) \<noteq> - 1)"
    using search by (simp add: os p0_def)
  have cards': "zone (card_of g (moved_card m)) = Some s \<and>
      (fst s \<noteq> fst t \<longrightarrow> stashedCard (card_of g (moved_card m)) = None \<and> attachedCards (card_of g (moved_card m)) = []) \<and>
      (moved_card m \<in> H \<longrightarrow> ztype (zone_at g t) \<noteq> PublicZone \<or>
         shouldBeFaceDown (moved_request m) (card_of g (moved_card m)) (zone_at g s) (zone_at g t))" if "m \<in> set os" for m
    using cards that os(1) by blast
  have p0: "- 1 \<le> x_index p0" by (simp add: p0_def)
  from process_all_alike [OF total a inv veil s t os(3) cards' search' p0] obtain q h h' where
    run: "process_all (processMoveCard un me s t x y rv u) os (p0, g) = Some (q, h)"
    "process_all (processMoveCard un me s t x y rv u) os (p0, g') = Some (q, h')"
    and h: "alike H h h'" "game_inv {} h" "veiled H h" "same_sigs g h" by blast
  have sig: "zone_sig (zone_at h r) = zone_sig (zone_at g r)" "zones_at h r \<noteq> None" if "zones_at g r \<noteq> None" for r
    using same_sigs_zone [OF h(4) that] by simp_all
  have "\<not> alwaysRevealTopCard (zone_at h s)" "\<not> alwaysRevealTopCard (zone_at h t)"
    using reveal zone_sigD(5) [OF sig(1)] s t by simp_all
  from show_tops_alike [OF h(1,2) this] obtain k k' where
    shown: "show_tops me s t u q h = Some k" "show_tops me s t u q h' = Some k'" and k: "alike H k k'" by blast
  note core = show_tops_core [OF shown(1)]
  have kinv: "game_inv {} k" "veiled H k" "same_sigs g k" "zones_at k s \<noteq> None"
    using calm_core [OF core(1-3), of "{}"] h veiled_core [OF core(1,2)] sig(2) [OF s]
    by (simp_all add: calm_def core same_sigs_def)
  have hc: "has_coords (zone_at k' s) = has_coords (zone_at k s)"
    by (rule strip_eqD(3) [OF alike_zone [OF k]])
  have form: "perform_moves un fixer me s t x y fx u rv ms g = (if has_coords (zone_at k s) \<and> fx then fixer s k else Some k)"
    "perform_moves un fixer me s t x y fx u rv ms g' = (if has_coords (zone_at k s) \<and> fx then fixer s k' else Some k')"
    unfolding perform_moves_def os_def [symmetric] os' p0_def [symmetric] run option.case prod.case Let_def shown hc
    by (rule refl)+
  show ?thesis
  proof (cases "has_coords (zone_at k s) \<and> fx")
    case True
    with fixer [OF _ k kinv(1,2,4,3)] show ?thesis
      unfolding unwinds_def form if_P [OF True] using same_sigs_trans [OF kinv(3)] by blast
  next
    case False
    show ?thesis unfolding unwinds_def form if_not_P [OF False] using k kinv by blast
  qed
qed

lemma length_set_insert: "length (set_insert m ns) \<le> Suc (length ns)"
  by (induction m ns rule: set_insert.induct) auto

lemma collect_moves_length:
  "collect_moves g s t x y seen acc ms = Inr moves \<Longrightarrow> length moves \<le> length acc + length ms"
proof (induction ms arbitrary: seen acc)
  case (Cons r ms)
  have ins: "length (set_insert (move_struct (cards_at g) c p r) acc) \<le> Suc (length acc)" for c p by (rule length_set_insert)
  have "\<exists>seen' acc'. collect_moves g s t x y seen' acc' ms = Inr moves \<and> length acc' \<le> Suc (length acc)"
  proof (cases "cm_card_id r \<in> set seen \<or> fst (getCard (cm_card_id r) False (cards_at g) (zone_at g s)) = None")
    case True
    with Cons.prems show ?thesis by (intro exI [of _ seen] exI [of _ acc]) (auto simp: Let_def split: if_splits)
  next
    case False
    then obtain p c where get: "fst (getCard (cm_card_id r) False (cards_at g) (zone_at g s)) = Some (p, c)" by auto
    let ?acc = "set_insert (move_struct (cards_at g) c p r) acc"
    from Cons.prems False have "collect_moves g s t x y (cm_card_id r # seen) acc ms = Inr moves \<or>
        collect_moves g s t x y (cm_card_id r # seen) ?acc ms = Inr moves"
      by (auto simp: get Let_def split: if_splits)
    with ins show ?thesis by (metis le_SucI le_refl)
  qed
  then obtain seen' acc' where "collect_moves g s t x y seen' acc' ms = Inr moves" "length acc' \<le> Suc (length acc)" by blast
  with Cons.IH show ?case by fastforce
qed simp

section \<open>A whole move\<close>

text \<open>
  The moved cards that are hidden stay hidden, and no card that changes the kind of its zone carries
  another one with it.
\<close>

definition keeps_hidden :: "addr set \<Rightarrow> card_game \<Rightarrow> zone_ref \<Rightarrow> zone_ref \<Rightarrow> card_to_move list \<Rightarrow> bool" where
  "keeps_hidden H g s t cmds \<longleftrightarrow>
     (\<forall>m \<in> set cmds. \<forall>c. find_in_zone g s (cm_card_id m) = Some c \<longrightarrow>
        (c \<in> H \<longrightarrow> ztype (zone_at g t) \<noteq> PublicZone \<or> shouldBeFaceDown m (card_of g c) (zone_at g s) (zone_at g t)) \<and>
        (fst s \<noteq> fst t \<longrightarrow> stashedCard (card_of g c) = None \<and> attachedCards (card_of g c) = []))"

text \<open>No pile has to be found by the name of its cards.\<close>

definition column_given :: "card_game \<Rightarrow> zone_ref \<Rightarrow> zone_ref \<Rightarrow> card_to_move list \<Rightarrow> int \<Rightarrow> int \<Rightarrow> bool \<Rightarrow> bool" where
  "column_given g s t cmds x y rv \<longleftrightarrow>
     (has_coords (zone_at g t) \<longrightarrow>
        y \<noteq> 2 \<or> (\<not> rv \<and> (0 \<le> x \<or> (length cmds \<le> 1 \<and> x \<noteq> - 1))) \<or>
        (\<forall>m \<in> set cmds. \<forall>c. find_in_zone g s (cm_card_id m) = Some c \<longrightarrow>
           shouldBeFaceDown m (card_of g c) (zone_at g s) (zone_at g t)))"

lemma collected_found:
  assumes inv: "game_inv X g" and s: "zones_at g s \<noteq> None" and col: "collect_moves g s t x y [] [] cmds = Inr moves"
    and m: "m \<in> set moves"
  shows "moved_request m \<in> set cmds" "find_in_zone g s (cm_card_id (moved_request m)) = Some (moved_card m)"
proof -
  show "moved_request m \<in> set cmds" using collect_moves_requests [OF col m] by simp
  obtain z where z: "zones_at g s = Some z" using s by blast
  with game_invD(1) [OF inv z] have "distinct (zcards (zone_at g s))" by (simp add: zone_ok_def zone_at_def)
  from collect_moves_sound [OF col this] m have "accepted g s m" by simp
  then show "find_in_zone g s (cm_card_id (moved_request m)) = Some (moved_card m)"
    by (simp add: accepted_def find_in_zone_def)
qed

lemma start_allowed_alike: "alike H g g' \<Longrightarrow> start_allowed me s t g' = start_allowed me s t g"
  by (simp add: start_allowed_def alike_player alikeD(5) strip_eqD [OF alike_zone])

lemma target_coords_alike: "alike H g g' \<Longrightarrow> target_coords (zone_at g' t) x y = target_coords (zone_at g t) x y"
  by (simp add: target_coords_def strip_eqD [OF alike_zone])

lemma move_alike:
  assumes total: "\<And>x y m p g. game_inv {} g \<Longrightarrow> zone (card_of g (moved_card m)) = Some s \<Longrightarrow> zones_at g t \<noteq> None \<Longrightarrow>
      (fst s \<noteq> fst t \<Longrightarrow> attachedCards (card_of g (moved_card m)) = []) \<Longrightarrow> \<exists>q h. processMoveCard un me s t x y rv u m (p, g) = Some (q, h) \<and> game_inv {} h"
    and fixer: "\<And>h h'. fx \<Longrightarrow> alike H h h' \<Longrightarrow> game_inv {} h \<Longrightarrow> veiled H h \<Longrightarrow> zones_at h s \<noteq> None \<Longrightarrow> same_sigs g h \<Longrightarrow>
      unwinds H (fixer s) h h'"
    and a: "alike H g g'" and inv: "game_inv {} g" and veil: "veiled H g" and s: "zones_at g s \<noteq> None" and t: "zones_at g t \<noteq> None"
    and keeps: "keeps_hidden H g s t cmds" and given: "column_given g s t cmds x y rv"
    and reveal: "\<not> alwaysRevealTopCard (zone_at g s)" "\<not> alwaysRevealTopCard (zone_at g t)"
  shows "\<exists>resp h h'. move_card_with un fixer me s cmds t x y fx u rv g = Some (resp, h) \<and>
    move_card_with un fixer me s cmds t x y fx u rv g' = Some (resp, h') \<and>
    alike H h h' \<and> game_inv {} h \<and> veiled H h \<and> same_sigs g h"
proof -
  obtain x' y' where xy: "target_coords (zone_at g t) x y = (x', y')" by force
  note same = start_allowed_alike [OF a, of me s t] target_coords_alike [OF a, of t x y] collect_moves_alike [OF a]
  show ?thesis
  proof (cases "start_allowed me s t g \<and> (\<exists>m ms. collect_moves g s t x' y' [] [] cmds = Inr (m # ms))")
    case False
    then have "\<exists>resp. move_card_with un fixer me s cmds t x y fx u rv g = Some (resp, g) \<and>
        move_card_with un fixer me s cmds t x y fx u rv g' = Some (resp, g')"
      by (auto simp: move_card_with_def xy same split: sum.split list.split)
    with a inv veil show ?thesis by (metis same_sigs_refl)
  next
    case True
    then obtain moves where mv: "collect_moves g s t x' y' [] [] cmds = Inr moves" "moves \<noteq> []"
      and allowed: "start_allowed me s t g" by blast
    note found = collected_found [OF inv s mv(1)]
    have cards: "zone (card_of g (moved_card m)) = Some s \<and>
        (fst s \<noteq> fst t \<longrightarrow> stashedCard (card_of g (moved_card m)) = None \<and> attachedCards (card_of g (moved_card m)) = []) \<and>
        (moved_card m \<in> H \<longrightarrow> ztype (zone_at g t) \<noteq> PublicZone \<or>
           shouldBeFaceDown (moved_request m) (card_of g (moved_card m)) (zone_at g s) (zone_at g t))" if "m \<in> set moves" for m
      using collected [OF inv s mv(1)] that keeps found [OF that] unfolding keeps_hidden_def by blast
    have coords: "x' = x \<and> y' = y" if "has_coords (zone_at g t)" using that xy by (simp add: target_coords_def)
    have search: "(\<forall>m \<in> set moves. has_coords (zone_at g t) \<longrightarrow> y' \<noteq> 2 \<or>
            shouldBeFaceDown (moved_request m) (card_of g (moved_card m)) (zone_at g s) (zone_at g t) \<or> (\<not> rv \<and> 0 \<le> x')) \<or>
         (length moves \<le> 1 \<and> \<not> rv \<and> x' \<noteq> - 1)"
    proof (cases "has_coords (zone_at g t)")
      case True
      with coords given found collect_moves_length [OF mv(1)] show ?thesis unfolding column_given_def by fastforce
    qed simp
    have "unwinds H (perform_moves un fixer me s t x' y' fx u rv moves) g g'"
    proof (rule perform_alike [OF _ _ a inv veil s t _ cards search reveal])
      show "distinct (map moved_card moves)" using collected [OF inv s mv(1)] by simp
    qed (rule total, assumption+, rule fixer, assumption+)
    then obtain h h' where h: "perform_moves un fixer me s t x' y' fx u rv moves g = Some h"
      "perform_moves un fixer me s t x' y' fx u rv moves g' = Some h'"
      "alike H h h' \<and> game_inv {} h \<and> veiled H h \<and> same_sigs g h" unfolding unwinds_def by blast
    from mv(2) obtain m1 m2 where m12: "moves = m1 # m2" by (cases moves) auto
    have "move_card_with un fixer me s cmds t x y fx u rv g = Some (RespOk, h)"
      "move_card_with un fixer me s cmds t x y fx u rv g' = Some (RespOk, h')"
      using h(1,2) allowed mv(1) by (simp_all add: move_card_with_def xy same m12)
    with h(3) show ?thesis by blast
  qed
qed

section \<open>Closing the gaps\<close>

lemma found_zone:
  assumes "game_inv X g" and "zones_at g s \<noteq> None" and "find_in_zone g s i = Some c"
  shows "zone (card_of g c) = Some s"
proof -
  obtain z where z: "zones_at g s = Some z" using assms(2) by blast
  with assms(3) getCard_sound(1,2) [of i "cards_at g" z] have "c \<in> set (zcards z)"
    by (fastforce simp: find_in_zone_def zone_at_def)
  with game_invD(2) [OF assms(1)] z show ?thesis by blast
qed

lemma moveCardInRow_unwinds:
  assumes a: "alike H g g'" and inv: "game_inv {} g" and veil: "veiled H g" and r: "zones_at g r \<noteq> None"
    and no: "\<not> alwaysRevealTopCard (zone_at g r)" and x: "x \<noteq> - 1"
  shows "unwinds H (moveCardInRow r c x y) g g'"
proof -
  have total: "\<exists>q h. processMoveCard un (snd r) r r x y False False m (p, g) = Some (q, h) \<and> game_inv {} h"
    if "game_inv {} g" "zone (card_of g (moved_card m)) = Some r" "zones_at g r \<noteq> None" for un x y m p g
    using process_same_name [OF that refl] by blast
  have keeps: "keeps_hidden H g r r [plain_move i]" for i
    using veiledD [OF veil, of _ r] found_zone [OF inv r]
    by (auto simp: keeps_hidden_def shouldBeFaceDown_def plain_move_def)
  have given: "column_given g r r [plain_move i] x y False" for i using x by (simp add: column_given_def)
  have cid: "cid (card_of g' c) = cid (card_of g c)" by (rule same_store_fields(2) [OF alikeD(1) [OF a]])
  from move_alike [where fx = False and me = "snd r" and u = False, OF total _ a inv veil r r keeps given no no]
  show ?thesis unfolding unwinds_def moveCardInRow_def cid by fastforce
qed

lemma unwinds_Some: "alike H g g' \<Longrightarrow> game_inv {} g \<Longrightarrow> veiled H g \<Longrightarrow> unwinds H Some g g'"
  by (simp add: unwinds_def)

lemma unwinds_bind:
  assumes "unwinds H f g g'"
    and "\<And>h h'. alike H h h' \<Longrightarrow> game_inv {} h \<Longrightarrow> veiled H h \<Longrightarrow> same_sigs g h \<Longrightarrow> unwinds H k h h'"
  shows "unwinds H (\<lambda>g. case f g of None \<Rightarrow> None | Some g' \<Rightarrow> k g') g g'"
proof -
  from assms(1) obtain h h' where 1: "f g = Some h" "f g' = Some h'" "alike H h h'" "game_inv {} h" "veiled H h" "same_sigs g h"
    unfolding unwinds_def by blast
  from assms(2) [OF 1(3-6)] same_sigs_trans [OF 1(6)] show ?thesis unfolding unwinds_def by (simp add: 1(1,2)) blast
qed

text \<open>An operation on zone \<open>r\<close> that unwinds wherever \<open>r\<close> shows no top card.\<close>

definition unwinds_at :: "addr set \<Rightarrow> zone_ref \<Rightarrow> (card_game \<Rightarrow> card_game option) \<Rightarrow> bool" where
  "unwinds_at H r f \<longleftrightarrow>
     (\<forall>g g'. alike H g g' \<longrightarrow> game_inv {} g \<longrightarrow> veiled H g \<longrightarrow> zones_at g r \<noteq> None \<longrightarrow>
        \<not> alwaysRevealTopCard (zone_at g r) \<longrightarrow> unwinds H f g g')"

lemma unwinds_at_Some: "unwinds_at H r Some"
  by (simp add: unwinds_at_def unwinds_Some)

lemma unwinds_atD:
  "unwinds_at H r f \<Longrightarrow> alike H g g' \<Longrightarrow> game_inv {} g \<Longrightarrow> veiled H g \<Longrightarrow> zones_at g r \<noteq> None \<Longrightarrow>
     \<not> alwaysRevealTopCard (zone_at g r) \<Longrightarrow> unwinds H f g g'"
  unfolding unwinds_at_def by blast

lemma unwinds_at_bind:
  assumes "unwinds_at H r f" and "unwinds_at H r k"
  shows "unwinds_at H r (\<lambda>g. case f g of None \<Rightarrow> None | Some g' \<Rightarrow> k g')"
  unfolding unwinds_at_def
proof (intro allI impI)
  fix g g' assume g: "alike H g g'" "game_inv {} g" "veiled H g" "zones_at g r \<noteq> None" "\<not> alwaysRevealTopCard (zone_at g r)"
  show "unwinds H (\<lambda>g. case f g of None \<Rightarrow> None | Some g' \<Rightarrow> k g') g g'"
  proof (rule unwinds_bind [OF unwinds_atD [OF assms(1) g]])
    fix h h' assume h: "alike H h h'" "game_inv {} h" "veiled H h" and sigs: "same_sigs g h"
    note sig = same_sigs_zone [OF sigs g(4)]
    have "\<not> alwaysRevealTopCard (zone_at h r)" using g(5) zone_sigD(5) [OF sig(1)] by simp
    from unwinds_atD [OF assms(2) h sig(2) this] show "unwinds H k h h'" .
  qed
qed

lemma unwinds_at_if:
  assumes "unwinds_at H r f" and "unwinds_at H r k"
    and "\<And>g g'. alike H g g' \<Longrightarrow> P g' = P g"
  shows "unwinds_at H r (\<lambda>g. if P g then f g else k g)"
  using assms unfolding unwinds_at_def unwinds_def by simp

lemma fill_gap_unwinds:
  assumes "toX \<noteq> - 1"
  shows "unwinds_at H r (fill_gap r fromX toX y)"
  unfolding unwinds_at_def
proof (intro allI impI)
  fix g g' assume g: "alike H g g'" "game_inv {} g" "veiled H g" "zones_at g r \<noteq> None" "\<not> alwaysRevealTopCard (zone_at g r)"
  have "card_at (zone_at g' r) y fromX = card_at (zone_at g r) y fromX"
    using strip_eqD(9) [OF alike_zone [OF g(1), of r]] by (simp add: card_at_def)
  with moveCardInRow_unwinds [OF g assms] show "unwinds H (fill_gap r fromX toX y) g g'"
    by (simp add: unwinds_def fill_gap_def)
qed

lemma fix_place_unwinds:
  assumes "b mod 3 = 0"
  shows "unwinds_at H r (fix_place r (b, y))"
proof -
  have b: "b \<noteq> - 1" "b + 1 \<noteq> - 1" using assms by presburger+
  have col: "col (zone_at g' r) = col (zone_at g r)" if "alike H g g'" for g g'
    by (rule col_cong [OF strip_eqD(9) [OF alike_zone [OF that]]])
  define fill_top where "fill_top = (\<lambda>g. if \<not> col (zone_at g r) y (b + 1) \<and> col (zone_at g r) y (b + 2)
                          then fill_gap r (b + 2) (b + 1) y g else Some g)"
  have top: "unwinds_at H r fill_top"
    unfolding fill_top_def by (rule unwinds_at_if [OF fill_gap_unwinds [OF b(2)] unwinds_at_Some]) (drule col, simp)
  have form: "fix_place r (b, y) = (\<lambda>g. if \<not> col (zone_at g r) y b
      then (if col (zone_at g r) y (b + 1)
            then (case fill_gap r (b + 1) b y g of None \<Rightarrow> None | Some g' \<Rightarrow> fill_top g')
            else if col (zone_at g r) y (b + 2) then fill_gap r (b + 2) b y g else Some g)
      else fill_top g)"
    unfolding fix_place_def prod.case Let_def fill_top_def ..
  show ?thesis
    unfolding form
    by (rule unwinds_at_if [OF unwinds_at_if [OF unwinds_at_bind [OF fill_gap_unwinds [OF b(1)] top]
          unwinds_at_if [OF fill_gap_unwinds [OF b(1)] unwinds_at_Some]] top])
       (drule col, simp)+
qed

lemma process_all_unwinds:
  "(\<And>m. m \<in> set ms \<Longrightarrow> unwinds_at H r (step m)) \<Longrightarrow> unwinds_at H r (process_all step ms)"
proof (induction ms)
  case Nil
  then show ?case using unwinds_at_Some by (simp add: unwinds_at_def unwinds_def)
next
  case (Cons m ms)
  have "process_all step (m # ms) = (\<lambda>p. case step m p of None \<Rightarrow> None | Some p' \<Rightarrow> process_all step ms p')" by (simp add: fun_eq_iff)
  with Cons unwinds_at_bind show ?case by simp
qed

lemma fixFreeSpaces_unwinds:
  assumes a: "alike H g g'" and inv: "game_inv {} g" and veil: "veiled H g" and r: "zones_at g r \<noteq> None"
    and no: "\<not> alwaysRevealTopCard (zone_at g r)" and ord: "\<And>ps. set (hash_order g ps) \<subseteq> set ps"
  shows "unwinds H (fixFreeSpaces r) g g'"
proof -
  note S = strip_eqD [OF alike_zone [OF a, of r]] and F = same_store_fields [OF alikeD(1) [OF a]]
  have places: "places_to_look g' r = places_to_look g r"
    by (simp add: places_to_look_def S F alikeD(8) [OF a])
  have "unwinds_at H r (fix_place r place)" if "place \<in> set (places_to_look g r)" for place
  proof -
    obtain b y where p: "place = (b, y)" by force
    with that ord have "\<exists>x. b = pile_base x" by (fastforce simp: places_to_look_def)
    then have "b mod 3 = 0" unfolding pile_base_def by (metis mod_mult_self2_is_0)
    then show ?thesis unfolding p by (rule fix_place_unwinds)
  qed
  then have "unwinds H (process_all (fix_place r) (places_to_look g r)) g g'"
    by (intro unwinds_atD [OF process_all_unwinds a inv veil r no])
  with a inv veil show ?thesis by (simp add: unwinds_def fixFreeSpaces_def places S)
qed

section \<open>What the others learn\<close>

text \<open>C4: Let a well-formed game and another one look the same to everybody but the owners of a set of hidden
  cards. Take a move that keeps those cards hidden, that needs no pile to be found by the name of its
  cards, whose cards have nothing attached to them and no card stashed in them if they go to a zone of
  another name, and whose two zones do not reveal their top card to everybody; and let a set be
  iterated in an order of its own elements. Then the move answers the same in both games, sends the
  other players the same events, and leaves two games that again look the same, with the cards still
  hidden: the others learn nothing about what those cards are. Without the second condition they may
  learn the name of a face-down card from the column a later card is put into.\<close>

theorem hidden_moves_conceal:
  assumes a: "alike H g g'" and inv: "game_inv {} g" and veil: "veiled H g"
    and s: "zones_at g s \<noteq> None" and t: "zones_at g t \<noteq> None"
    and keeps: "keeps_hidden H g s t cmds" and given: "column_given g s t cmds x y isReversed"
    and reveal: "\<not> alwaysRevealTopCard (zone_at g s)" "\<not> alwaysRevealTopCard (zone_at g t)"
    and ord: "\<And>ps. set (hash_order g ps) \<subseteq> set ps"
  shows "\<exists>resp h h'. moveCard me s cmds t x y fixSpaces undoingDraw isReversed g = Some (resp, h) \<and>
    moveCard me s cmds t x y fixSpaces undoingDraw isReversed g' = Some (resp, h') \<and>
    seen_by_others h' = seen_by_others h \<and> alike H h h' \<and> game_inv {} h \<and> veiled H h"
proof -
  have total: "\<exists>q h. processMoveCard unattachCard me s t x y rv u m (p, g) = Some (q, h) \<and> game_inv {} h"
    if "game_inv {} g" "zone (card_of g (moved_card m)) = Some s" "zones_at g t \<noteq> None"
      "fst s \<noteq> fst t \<Longrightarrow> attachedCards (card_of g (moved_card m)) = []" for x y rv u m p g
    using moving.process_between [OF that(1-3) carries_nothing] that(4) by blast
  have fixer: "unwinds H (fixFreeSpaces s) h h'"
    if "alike H h h'" "game_inv {} h" "veiled H h" "zones_at h s \<noteq> None" "same_sigs g h" for h h'
  proof (rule fixFreeSpaces_unwinds [OF that(1-4)])
    show "\<not> alwaysRevealTopCard (zone_at h s)"
      using reveal(1) zone_sigD(5) [OF same_sigs_zone(1) [OF that(5) s]] by simp
    show "set (hash_order h ps) \<subseteq> set ps" for ps using ord [of ps] that(5) by (simp add: same_sigs_def)
  qed
  have "\<exists>resp h h'. moveCard me s cmds t x y fixSpaces undoingDraw isReversed g = Some (resp, h) \<and>
      moveCard me s cmds t x y fixSpaces undoingDraw isReversed g' = Some (resp, h') \<and>
      alike H h h' \<and> game_inv {} h \<and> veiled H h \<and> same_sigs g h"
    unfolding moveCard_def
    by (rule move_alike [OF _ _ a inv veil s t keeps given reveal])
       (rule total, assumption+, rule fixer, assumption+)
  with alikeD(3) show ?thesis by metis
qed

text \<open>The same game with another card in the first player's hand.\<close>

definition ex_other :: card_game where
  "ex_other = upd_card 1 (\<lambda>k. k\<lparr>cardRef := \<lparr>ref_name = ''Elk'', ref_provider = ''q''\<rparr>\<rparr>) ex_game"

lemma ex_games_alike: "alike {1} ex_game ex_other" "veiled {1} ex_game"
  by (auto simp: alike_def same_store_def ex_other_def upd_card_def set_cards_def seen_by_others_def blank_def
      veiled_def ex_game_def ex_cards_def ex_card_def new_server_card_def zone_at_def ex_zones_def new_cardzone_def)

theorem hidden_moves_conceal_witness:
  "\<exists>resp h h'. moveCard 1 (''hand'', 1) [(plain_move 1)\<lparr>cm_face_down := Some True\<rparr>] (''table'', 1) (- 1) 0 True False False ex_game
       = Some (resp, h) \<and>
     moveCard 1 (''hand'', 1) [(plain_move 1)\<lparr>cm_face_down := Some True\<rparr>] (''table'', 1) (- 1) 0 True False False ex_other
       = Some (resp, h') \<and>
     seen_by_others h' = seen_by_others h \<and> alike {1} h h' \<and> game_inv {} h \<and> veiled {1} h"
proof -
  let ?cmds = "[(plain_move 1)\<lparr>cm_face_down := Some True\<rparr>]"
  have z: "zones_at ex_game (''hand'', 1) \<noteq> None" "zones_at ex_game (''table'', 1) \<noteq> None"
    by (simp_all add: ex_game_def ex_zones_def)
  have f: "find_in_zone ex_game (''hand'', 1) 1 = Some 1"
    by (simp add: find_in_zone_def ex_game_def zone_at_def ex_zones_def getCard_def new_cardzone_def Let_def ex_cards_def
        ex_card_def new_server_card_def)
  have k: "keeps_hidden {1} ex_game (''hand'', 1) (''table'', 1) ?cmds"
    unfolding keeps_hidden_def
    by (simp add: plain_move_def f) (simp add: ex_game_def zone_at_def ex_zones_def ex_cards_def ex_card_def
        new_server_card_def new_cardzone_def ex_table_def shouldBeFaceDown_def)
  have c: "column_given ex_game (''hand'', 1) (''table'', 1) ?cmds (- 1) 0 False" by (simp add: column_given_def)
  have r: "\<not> alwaysRevealTopCard (zone_at ex_game (''hand'', 1))" "\<not> alwaysRevealTopCard (zone_at ex_game (''table'', 1))"
    by (simp_all add: ex_game_def zone_at_def ex_zones_def ex_table_def new_cardzone_def)
  show ?thesis by (rule hidden_moves_conceal [OF ex_games_alike(1) ex_game_inv ex_games_alike(2) z k c r]) (simp add: ex_game_def)
qed

end
