(* ===== verification/MoveFaults.thy ===== *)
theory MoveFaults
  imports MoveConceal
begin

text \<open>
  Inputs on which the move code does not do what it means to: a card with two attached cards that
  leaves a zone which shows its top card, a request to attach that dereferences a null pointer, a
  card attached to itself, a card given to another player that is not tapped, and a face-down card
  whose name shows in where a later card is put. The first one is why \<open>moveCard_safe\<close> asks that no
  card attached to a moved one lies in a zone that shows its top card, the last one why
  \<open>hidden_moves_conceal\<close> asks for moves that look for no pile by name.
\<close>

section \<open>A zone that shows its top card\<close>

text \<open>
  The game of \<open>ex_game\<close> with a second card (5) attached to the wolf (4), on a table whose player has
  asked for the top card to be shown. When the wolf leaves, it is out of every zone while its
  attached cards are unattached: putting the first of them (3) elsewhere on the table makes the
  second the top card, and telling the clients what that is attached to follows the null pointer.
\<close>

definition shown_cards :: card_store where
  "shown_cards a =
     (if a = 3 then (ex_card ''Aura'' 3 (Some (''table'', 1)))\<lparr>parentCard := Some 4, coord_x := - 1, coord_y := 2\<rparr>
      else if a = 5 then (ex_card ''Sword'' 5 (Some (''table'', 1)))\<lparr>parentCard := Some 4, coord_x := - 1, coord_y := 2\<rparr>
      else if a = 4 then (ex_card ''Wolf'' 4 (Some (''table'', 1)))\<lparr>attachedCards := [3, 5], coord_y := 2\<rparr>
      else if a = 1 \<or> a = 2 then ex_card ''Bear'' (int a) (Some (''hand'', 1))
      else ex_card ''Isle'' (int a) None)"

definition shown_table :: cardzone where
  "shown_table = ex_table\<lparr>zcards := [3, 5, 4], alwaysRevealTopCard := True\<rparr>"

definition shown_game :: card_game where
  "shown_game = set_zone (''table'', 1) shown_table (set_cards shown_cards ex_game)"

lemma shown_game_inv: "game_inv {} shown_game"
proof -
  have "space_ok shown_table"
    using ex_table_ok space_ok_cong [of shown_table ex_table] by (simp add: shown_table_def)
  then have "zone_ok r z" if "zones_at shown_game r = Some z" for r z
    using that space_ok_empty
    by (auto simp: shown_game_def game_simps ex_game_def ex_zones_def zone_ok_def zone_ref_of_def new_cardzone_def
        shown_table_def ex_table_def split: if_splits)
  moreover have "zone (shown_cards a) = Some r \<longleftrightarrow> (\<exists>z. zones_at shown_game r = Some z \<and> a \<in> set (zcards z))" for a r
    by (auto simp: shown_cards_def ex_card_def new_server_card_def shown_game_def game_simps ex_game_def ex_zones_def
        new_cardzone_def shown_table_def ex_table_def)
  moreover have "attach_ok shown_cards"
    by (auto simp: attach_ok_def shown_cards_def ex_card_def new_server_card_def)
  moreover have "stashedCard (shown_cards a) = None" "parentCard (shown_cards a) \<noteq> None \<Longrightarrow> zone (shown_cards a) \<noteq> None"
    "parentCard (shown_cards a) = Some p \<Longrightarrow> zone (shown_cards p) \<noteq> None" for a p
    by (auto simp: shown_cards_def ex_card_def new_server_card_def split: if_splits)
  moreover have "cards_at shown_game = shown_cards" by (simp add: shown_game_def game_simps)
  ultimately show ?thesis unfolding game_inv_def by (simp only:) blast
qed

lemma shown_attachment_crashes:
  "moveCard 1 (''table'', 1) [plain_move 4] (''grave'', 1) 0 0 True False False shown_game = None"
  by code_simp

section \<open>Attaching\<close>

text \<open>
  A request that names a player but no zone of that player is taken for a request to unattach; a
  card that is not attached has no parent to look at.
\<close>

lemma attach_unknown_zone_crashes:
  assumes "game_started g" and "\<not> has_conceded (player_at g me)" and "zones_at g (ac_start_zone cmd, me) \<noteq> None"
    and "has_coords (zone_at g (ac_start_zone cmd, me))"
    and "find_in_zone g (ac_start_zone cmd, me) (ac_card_id cmd) = Some c" and "parentCard (card_of g c) = None"
    and "ac_target_player cmd = Some tp" and "qm_contains (players_at g) tp"
    and "zones_at g (ac_target_zone cmd, tp) = None"
  shows "cmdAttachCard me cmd g = None"
proof -
  have "attach_request me cmd g = Inr (c, None)" using assms by (simp add: attach_request_def Let_def)
  moreover have "unattachCard me c (delete_arrows c g) = None"
    using assms(6) by (simp add: unattachCard_def Let_def game_simps split: option.split)
  ultimately show ?thesis by (simp add: cmdAttachCard_def)
qed

lemma attach_unknown_zone_example:
  "cmdAttachCard 1 \<lparr>ac_start_zone = ''table'', ac_card_id = 4, ac_target_player = Some 2, ac_target_zone = ''stack'',
     ac_target_card = Some 4\<rparr> ex_game = None"
  by code_simp

text \<open>The checks accept a card that is to be attached to itself, and it becomes its own parent.\<close>

lemma attach_to_itself:
  "attach_request 1 \<lparr>ac_start_zone = ''table'', ac_card_id = 4, ac_target_player = Some 1, ac_target_zone = ''table'',
     ac_target_card = Some 4\<rparr> ex_game = Inr (4, Some ((''table'', 1), 4))"
  by code_simp

section \<open>Giving a tapped card away\<close>

text \<open>
  The request to tap the card is carried out among the zones of the player who moves it. If that
  player has no card with the new id in the zone of that name, nothing is tapped.
\<close>

lemma tapped_setAttributeAll:
  "attr \<noteq> AttrTapped \<Longrightarrow> tapped (snd (setAttributeAll db attr v al k)) = tapped k"
  by (cases attr) (auto simp: setAttributeAll_def setAttribute_def Let_def)

lemma tapped_set_all_cards:
  "attr \<noteq> AttrTapped \<Longrightarrow> tapped (snd (set_all_cards db attr v cs r h) a) = tapped (h a)"
proof (induction cs arbitrary: r h)
  case (Cons c cs)
  obtain r' k where k: "setAttributeAll db attr v True (h c) = (r', k)" by force
  then have "tapped k = tapped (h c)" using tapped_setAttributeAll [OF Cons.prems, of db v True "h c"] by simp
  then show ?case by (simp add: k Cons)
qed simp

lemma tapped_setCardAttrHelper:
  assumes "attr \<noteq> AttrTapped"
  shows "tapped (card_of (snd (setCardAttrHelper me i zn j attr v u g)) a) = tapped (card_of g a)"
proof -
  have all: "tapped (h a) = tapped (card_of g a)"
    if "set_all_cards (card_db g) attr v cs r (cards_at g) = (r', h)" for cs r r' h
    using tapped_set_all_cards [OF assms, of "card_db g" v cs r "cards_at g" a] that by simp
  have one: "tapped k = tapped (card_of g c)"
    if "setAttributeAll (card_db g) attr v b (card_of g c) = (r', k)" for b c r' k
    using tapped_setAttributeAll [OF assms, of "card_db g" v b "card_of g c"] that by simp
  show ?thesis
    unfolding setCardAttrHelper_def
    by (cases "zones_at g (zn, me)") (auto simp: game_simps split: option.split prod.split dest: all one)
qed

lemma tapped_move_to_other_player:
  assumes "cid (card_of g (moved_card m)) \<noteq> - 1"
    and "\<And>z. zones_at g (fst t, me) = Some z \<Longrightarrow> fst (getCard (cid (card_of g (moved_card m))) False (cards_at g) z) = None"
  shows "tapped (card_of (onCardBeingMoved me m s t u g) a) = tapped (card_of g a)"
proof -
  have tap: "snd (setCardAttrHelper me (snd t) (fst t) (cid (card_of g (moved_card m))) AttrTapped ''1'' None g) = g"
    using assms by (simp add: setCardAttrHelper_def split: option.split)
  have other: "tapped (card_of (if P then snd (setCardAttrHelper me i zn j attr v w k) else k) a) = tapped (card_of k a)"
    if "attr \<noteq> AttrTapped" for P i zn j attr v w k using tapped_setCardAttrHelper [OF that] by simp
  show ?thesis
    unfolding onCardBeingMoved_def Let_def tap if_cancel by (simp add: other game_simps)
qed

section \<open>The name of a face-down card\<close>

text \<open>
  A bear is played face up, then a card called \<open>n\<close> face down; it is put into the row before it is
  turned over. The column of the next bear shows whether the face-down card is a bear: its pile is
  found first, and cannot be used.
\<close>

definition next_bear :: "string \<Rightarrow> int option" where
  "next_bear n =
     (let z0 = new_cardzone 1 ''table'' True PublicZone;
          h0 = (\<lambda>a. ex_card (if a = 1 then n else ''Bear'') (int a) None)
      in case insertCard 2 (getFreeGridColumn h0 z0 (- 1) 2 ''Bear'' False) 2 h0 z0 of
           None \<Rightarrow> None
         | Some (h1, z1) \<Rightarrow>
             (case insertCard 1 (getFreeGridColumn h1 z1 (- 1) 2 n True) 2 h1 z1 of
                None \<Rightarrow> None
              | Some (h2, z2) \<Rightarrow>
                  Some (getFreeGridColumn (h2(1 := (h2 1)\<lparr>facedown := True\<rparr>)) z2 (- 1) 2 ''Bear'' False)))"

lemma facedown_name_shows:
  "next_bear ''Elk'' = Some 1" "next_bear ''Bear'' = Some 6"
  by code_simp+

end
