(* ===== verification/Spec2Isabelle.thy ===== *)
theory Spec2Isabelle
  imports GraphToggle RateLimit Levenshtein Rng RawJsonGrammar RawJsonScan CardZone PaymentAgree DeckHash DeckHistory
    CostChoices LazyProperties LatencyTracker FeatureNegotiation MoveFaults
begin

text \<open>
  Verification library for Cockatrice: a client, a game server (Servatrice), a deck editor and a card
  importer (Oracle) in C++ with Qt, and a rules engine (tricerules) in Rust.

  The parts that are modelled, their theories and how they meet:

  The server of a game keeps cards in zones. \<open>ServerCard\<close> models \<open>server_card\<close>, \<open>server_counter\<close> and
  the branch of \<open>cmdCreateToken\<close> (\<open>server_abstract_player.cpp\<close>) that replaces a card by a token: cards
  point to each other, so they live in a store from addresses to cards, and every operation returns
  the new store. \<open>CardZone\<close> models \<open>server_cardzone\<close> over that store: shuffling, the search for a free
  column, insertion, removal, what a client is told. Shuffling draws its numbers from \<open>Rng\<close>
  (\<open>rng_sfmt.cpp\<close>: rejection sampling over any 64-bit generator).

  \<open>MoveEvents\<close>, \<open>CardMove\<close>, \<open>CardMoveSafe\<close>, \<open>MoveConceal\<close> and \<open>MoveFaults\<close> are the moves of cards
  between the zones of a game (\<open>moveCard\<close>, \<open>processMoveCard\<close>, \<open>unattachCard\<close>, \<open>cmdMoveCard\<close> and
  \<open>cmdAttachCard\<close> in \<open>server_abstract_player.cpp\<close>, \<open>moveCardInRow\<close> and \<open>fixFreeSpaces\<close> in
  \<open>server_cardzone.cpp\<close>, \<open>ruled_utils.cpp\<close>, \<open>server_move_card_struct.h\<close>). A \<open>card_game\<close> holds the
  store of the cards, the zones under the pairs of their name and their player, the players, and what
  a \<open>GameEventStorage\<close> has collected: every event with the flags that say whether the private player
  and the others get it. \<open>moveCard\<close> calls itself through \<open>unattachCard\<close> and \<open>fixFreeSpaces\<close>; the calls
  are nested three deep at most, and the model is built in these layers (\<open>move_card_with\<close> takes what
  it calls as arguments), each of which \<open>moveCardInRow_is_moveCard\<close> and \<open>unattachCard_calls_moveCard\<close>
  show to be \<open>moveCard\<close> itself. \<open>MoveEvents\<close> are the decisions of one move and its two events,
  \<open>CardMove\<close> the operations, \<open>CardMoveSafe\<close> the invariant, \<open>MoveConceal\<close> what the other players can
  learn, and \<open>MoveFaults\<close> the inputs on which the code does not do what it means to.

  Before a player is in a game, the server throttles the attempts (\<open>RateLimit\<close>: \<open>ratelimiter.cpp\<close>, and
  for the client's downloads \<open>server_rate_limiter.cpp\<close>) and checks the features of the client
  (\<open>FeatureNegotiation\<close>: \<open>featureset.cpp\<close>, \<open>Servatrice::setRequiredFeatures\<close> and
  \<open>getAuthenticationStrictness\<close>, and \<open>cmdLogin\<close> up to the check of the features, with the refusal by a
  strict server of a login that carries no challenge response). \<open>LatencyTracker\<close> is the window of round-trip times the client keeps of the connection.

  Decks: \<open>DeckTree\<close> is the card tree (\<open>deck_list_node_tree.cpp\<close> and its nodes), \<open>DeckXml\<close> the writer
  and \<open>DeckLoad\<close> the reader of the XML form (\<open>deck_list.cpp\<close>, \<open>sideboard_plan.cpp\<close>),
  \<open>DeckRoundTrip\<close> their composition, \<open>DeckHash\<close> the hash by which the server identifies a deck, and
  \<open>DeckHistory\<close> undo and redo of the editor (\<open>deck_list_history_manager.cpp\<close> with
  \<open>deck_state_manager.cpp\<close>), which stores decks in the form the other theories write and read.

  The card database: \<open>RawJson\<close>, \<open>RawJsonGrammar\<close> and \<open>RawJsonScan\<close> are the scanner with which Oracle
  splits the downloaded sets (\<open>raw_json_scanner.cpp\<close>), \<open>LazyBlob\<close> and \<open>LazyProperties\<close> the properties
  of a card that stay serialized until someone writes to them (\<open>lazy_properties_hash.cpp\<close>), and
  \<open>Levenshtein\<close> the distance of the search for similar names (\<open>levenshtein.cpp\<close>).

  Payment in the rules engine: \<open>RustStd\<close> is what the sources use of Rust's library, \<open>ManaCost\<close> the
  costs (\<open>tricerules-card-model/src/mana.rs\<close>), \<open>Demand\<close> the normalised demands (\<open>payment/demand.rs\<close>),
  \<open>FlexSolver\<close> the two backtracking solvers, \<open>Payment\<close> planning, revalidating and committing
  (\<open>payment/mana.rs\<close>), \<open>PaymentCommit\<close> the path from a plan to a commit, \<open>PaymentAgree\<close> the agreement
  of the two ways to decide whether something can be paid, and \<open>Candidates\<close> and \<open>CostChoices\<close> the
  bounded lists of proposals a player chooses from (\<open>payment/candidates.rs\<close>).

  \<open>GraphToggle\<close> is the script of the generated documentation (\<open>doc/doxygen/js/graph_toggle.js\<close>).

  How the code is written down. A class is a record of its fields, an enumeration a datatype, an
  operation a function from the state to its result and the new state; errors and early returns are
  values of a sum or an option type; a C++ exception of the generator is \<open>Inl\<close>, a Rust panic \<open>None\<close> or
  \<open>Panic\<close>, and the null pointer or failed assertion that the C++ code would run into is \<open>None\<close>.
  \<open>int\<close> is an integer with its bounds written out, unsigned arithmetic that may wrap is a word, \<open>u32\<close>
  of the Rust code a bounded natural number with checked operators. \<open>QMap\<close> is a sorted list of
  bindings (\<open>Prelude\<close>); where the order of a \<open>QHash\<close> or \<open>QSet\<close> cannot be observed no theorem depends on
  it, and where it can (\<open>fixFreeSpaces\<close>) it is the field \<open>hash_order\<close> of the game. Three interfaces of \<open>Prelude\<close> are shared: \<open>keyed_store\<close> for ordered maps, \<open>simulation\<close> for a
  component that refines a simpler one (interpreted for the lazy properties and the latency tracker),
  and the named collections of rewrite rules. The other locales are the interface between a solver
  and its last step (\<open>flex_solver\<close>, \<open>flex_payer\<close>), a skipper of JSON values and the loops over members
  (\<open>value_skipper\<close>), the range generator and its users (\<open>range_rng\<close>), a deck and its mementos
  (\<open>memento_store\<close>), and a move and the operation it calls for every attached card (\<open>unattacher\<close>); each is interpreted on the definitions of the code.

  What the lemmas show, by component:
    payment: both solvers find a payment exactly when one exists and respect the maxima; a plan made
    is valid, commits without a panic and debits what it says; the planner and the normalised demands
    agree except in the two situations named at \<open>plan_agrees\<close>; the proposals are legal, without
    repetition and complete up to the limit;
    decks: trees built by the editing operations are well formed, and hold at most 100000 copies as long
    as no amount is negative and the tree is not copied (a file that is read may break both, and the
    findings of \<open>DeckTree\<close> and \<open>DeckLoad\<close> say how); a written deck is read back as its saved form, undo
    and redo walk along one timeline when all states have sideboard plans of the same names, the hash
    identifies the lower-case multiset of main deck and sideboard up to collisions of the digest;
    server: parent and attachment links agree under every operation and after a destructor, a
    face-down card is described without its identity, the stored free column stays the leftmost empty
    pile, every reordering of the shuffled cards comes from exactly one sequence of draws, and no key
    gets more accepted attempts in any of its windows than its own limit; a login is refused for missing
    features exactly as \<open>login_refusal_exact\<close> says. A move keeps zones, cards, links and stashed tokens
    in step and loses no card, and dereferences no null pointer unless a card attached to a moved one
    lies in a zone that shows its top card (\<open>moveCard_safe\<close>; \<open>shown_attachment_crashes\<close> is that case).
    As long as it keeps a hidden card hidden, looks for no pile by name, takes no attached or stashed
    cards along and touches no zone that reveals its top card, the other players learn nothing about
    what the card is (\<open>hidden_moves_conceal\<close>; \<open>facedown_name_shows\<close> is why the second is needed);
    client and importer: the skipper accepts exactly the texts of JSON values within the nesting cap, by
    a grammar given independently of the code, the ranges of the sets lie in the document and in order, the lazy map cannot be told from a plain
    one, the ring buffer is the window of the history, the edit distance is the least number of edits.

  Bounds and fuel. The loops of the JSON walk run on the length of the input plus one, which
  \<open>RawJson\<close> proves to be enough; the nesting cap of 1024 is the code's. Rejection sampling may run
  forever and is a partial function; \<open>rand_in_interval\<close> says when it returns. The destructor of a
  card is a partial function whose termination is a theorem. A deck holds at most 100000 copies, a
  list of proposals 256 entries, the latency window 64 samples, a blob less than 2 GiB: all limits of
  the code. All other loops are structural recursions or have a measure.

  Parameters. The bit generator (vendored SFMT), \<open>fromUtf8\<close>, the lower case of Unicode text and the
  SHA-1 digest of the deck hash, the printing and parsing of doubles in the XML form, and the card
  database's answer whether a card is a land (\<open>card_db\<close> in a game) stand for code outside the
  repository or for tables of the runtime, as does the order in which a hash set is iterated
  (\<open>hash_order\<close>); what is assumed of them is a hypothesis of the theorem that needs it. XML is modelled
  on the level of the stream tokens, without the text between. The script of the documentation is
  modelled for graphs that are two different elements of the page.

  Not modelled, and why: the widgets, scenes and item models of the client (drawing and events of
  Qt), sockets, database, mail and settings (input and output), the import of card files beyond the
  scanner (zip, lzma and Qt's parsers), the card filters (a grammar run by the vendored peglib), the
  plain-text deck parser (regular expressions of Qt), the client's copy of the game and the server's
  rooms, turns, relay of the rules engine and the commands of a player other than moving, attaching
  and replacing cards (one large mutable object graph each, tied to the generated protocol classes),
  the rules engine beyond payment (stack, combat, continuous effects),
  and data: card definitions, translations, resources.
\<close>

end
